(* ===== verification/Prelude.thy ===== *)
theory Prelude
  imports Main "HOL-Library.Word"
begin

text \<open>
  Shared vocabulary of the development: the machine words of the Rust code, fallible
  results, big-endian and native byte strings, and bit strings read most significant
  bit first.

  A Rust \<open>uN\<close> or \<open>iN\<close> is an \<open>N word\<close>; arithmetic on it wraps, as in the release
  profile of the crate (\<open>Cargo.toml\<close> does not enable overflow checks). A signed value is
  read with \<open>sint\<close>. \<open>usize\<close> indices and lengths are \<open>nat\<close>. \<open>PyResult\<close> is a sum with the
  error on the left.
\<close>

unbundle bit_operations_syntax

type_synonym u8 = "8 word"
type_synonym u16 = "16 word"
type_synonym u32 = "32 word"
type_synonym u64 = "64 word"
type_synonym i8 = "8 word"
type_synonym i16 = "16 word"
type_synonym i32 = "32 word"
type_synonym i64 = "64 word"
type_synonym bytes = "u8 list"

named_theorems res_simps "unfolding of fallible results"
named_theorems byte_simps "lengths and inverses of byte encodings"
named_theorems bit_list_simps "most-significant-first bit strings"

subsection \<open>Results\<close>

fun res_bind :: "'e + 'a \<Rightarrow> ('a \<Rightarrow> 'e + 'b) \<Rightarrow> 'e + 'b" where
  "res_bind (Inl e) f = Inl e"
| "res_bind (Inr a) f = f a"

definition is_ok :: "'e + 'a \<Rightarrow> bool" where
  "is_ok r = (case r of Inl _ \<Rightarrow> False | Inr _ \<Rightarrow> True)"

lemma is_ok_simps [simp]: "is_ok (Inr a)" "\<not> is_ok (Inl e)"
  by (simp_all add: is_ok_def)

lemma res_bind_Inr_iff [res_simps]:
  "res_bind r f = Inr b \<longleftrightarrow> (\<exists>a. r = Inr a \<and> f a = Inr b)"
  by (cases r) auto

lemma res_bind_Inl_iff [res_simps]:
  "res_bind r f = Inl e \<longleftrightarrow> r = Inl e \<or> (\<exists>a. r = Inr a \<and> f a = Inl e)"
  by (cases r) auto

subsection \<open>Bit strings, most significant bit first\<close>

text \<open>\<open>msb_bits n w\<close> is the string of the low \<open>n\<close> bits of \<open>w\<close>.\<close>

definition msb_bits :: "nat \<Rightarrow> 'a::len word \<Rightarrow> bool list" where
  "msb_bits n w = map (\<lambda>i. bit w (n - 1 - i)) [0..<n]"

definition bits_val :: "bool list \<Rightarrow> nat" where
  "bits_val bs = foldl (\<lambda>a b. 2 * a + of_bool b) 0 bs"

definition byte_bits :: "bytes \<Rightarrow> bool list" where
  "byte_bits bs = concat (map (msb_bits 8) bs)"

lemma length_msb_bits [simp]: "length (msb_bits n w) = n"
  by (simp add: msb_bits_def)

lemma nth_msb_bits [simp]: "i < n \<Longrightarrow> msb_bits n w ! i = bit w (n - 1 - i)"
  by (simp add: msb_bits_def)

lemma msb_bits_0 [simp]: "msb_bits 0 w = []"
  by (simp add: msb_bits_def)

lemma msb_bits_add: "msb_bits (m + n) w = msb_bits m (drop_bit n w) @ msb_bits n w"
  by (rule nth_equalityI) (auto simp: nth_append bit_drop_bit_eq add.commute)

lemma msb_bits_Suc: "msb_bits (Suc n) w = bit w n # msb_bits n w"
  using msb_bits_add[of 1 n w] by (simp add: msb_bits_def bit_drop_bit_eq)

lemma msb_bits_snoc: "msb_bits (Suc n) w = msb_bits n (drop_bit 1 w) @ [bit w 0]"
  using msb_bits_add[of n 1 w] by (simp add: msb_bits_def)

lemma msb_bits_cong:
  "(\<And>i. i < n \<Longrightarrow> bit v i = bit w i) \<Longrightarrow> msb_bits n v = msb_bits n w"
  by (rule nth_equalityI) auto

lemma msb_bits_take_bit [simp]: "msb_bits n (take_bit n w) = msb_bits n w"
  by (rule msb_bits_cong) (simp add: bit_take_bit_iff)

lemma bits_val_Nil [simp]: "bits_val [] = 0"
  by (simp add: bits_val_def)

lemma bits_val_snoc [simp]: "bits_val (bs @ [b]) = 2 * bits_val bs + of_bool b"
  by (simp add: bits_val_def)

lemma bits_val_append: "bits_val (as @ bs) = bits_val as * 2 ^ length bs + bits_val bs"
proof (induction bs rule: rev_induct)
  case Nil
  then show ?case by simp
next
  case (snoc b bs)
  have "bits_val (as @ bs @ [b]) = 2 * bits_val (as @ bs) + of_bool b"
    by (metis append.assoc bits_val_snoc)
  with snoc.IH show ?case by (simp add: algebra_simps)
qed

lemma bits_val_Cons: "bits_val (b # bs) = of_bool b * 2 ^ length bs + bits_val bs"
  using bits_val_append[of "[b]" bs] by (simp add: bits_val_def)

lemma bits_val_less: "bits_val bs < 2 ^ length bs"
  by (induction bs rule: rev_induct) auto

lemma bits_val_msb_bits: "bits_val (msb_bits n w) = take_bit n (unat w)"
proof (induction n arbitrary: w)
  case 0
  then show ?case by simp
next
  case (Suc n)
  have "bits_val (msb_bits (Suc n) w) = 2 * take_bit n (unat (drop_bit 1 w)) + of_bool (bit w 0)"
    by (simp add: msb_bits_snoc Suc)
  also have "unat (drop_bit 1 w) = unat w div 2"
    unfolding unat_drop_bit_eq by (simp add: drop_bit_eq_div)
  also have "of_bool (bit w 0) = unat w mod 2"
    using bit_unsigned_iff[of w 0, where ?'a = nat] by (simp add: bit_0 mod_2_eq_odd)
  finally show ?case
    by (simp add: take_bit_Suc)
qed

lemma bits_val_inject:
  assumes "length as = length bs" "bits_val as = bits_val bs"
  shows "as = bs"
  using assms
proof (induction as bs rule: list_induct2)
  case Nil
  then show ?case by simp
next
  case (Cons a as b bs)
  have "bits_val as < 2 ^ length bs" "bits_val bs < 2 ^ length bs"
    using bits_val_less[of as] bits_val_less[of bs] Cons.hyps by simp_all
  with Cons.prems Cons.hyps have "a = b \<and> bits_val as = bits_val bs"
    by (cases a; cases b) (simp_all add: bits_val_Cons)
  with Cons.IH show ?case by simp
qed

lemma msb_bits_of_nat:
  assumes "length bs \<le> LENGTH('a::len)"
  shows "msb_bits (length bs) (of_nat (bits_val bs) :: 'a word) = bs"
proof (rule bits_val_inject)
  show "length (msb_bits (length bs) (of_nat (bits_val bs) :: 'a word)) = length bs"
    by simp
  have "bits_val bs < 2 ^ LENGTH('a)"
    using bits_val_less[of bs] assms
    by (meson less_le_trans one_le_numeral power_increasing)
  then show "bits_val (msb_bits (length bs) (of_nat (bits_val bs) :: 'a word)) = bits_val bs"
    using bits_val_less[of bs]
    by (simp add: bits_val_msb_bits unat_of_nat take_bit_nat_eq_self)
qed

lemma byte_bits_simps [simp]:
  "byte_bits [] = []"
  "byte_bits (b # bs) = msb_bits 8 b @ byte_bits bs"
  "byte_bits (as @ bs) = byte_bits as @ byte_bits bs"
  by (simp_all add: byte_bits_def)

lemma length_byte_bits [simp]: "length (byte_bits bs) = 8 * length bs"
  by (induction bs) simp_all

lemma msb_bits_inject:
  fixes v w :: "'a::len word"
  assumes "msb_bits LENGTH('a) v = msb_bits LENGTH('a) w"
  shows "v = w"
proof (rule bit_word_eqI)
  fix i assume "i < LENGTH('a)"
  then show "bit v i = bit w i"
    using arg_cong[OF assms, where f = "\<lambda>bs. bs ! (LENGTH('a) - 1 - i)"] by simp
qed

lemma byte_bits_inject:
  assumes "length as = length bs" "byte_bits as = byte_bits bs"
  shows "as = bs"
  using assms
proof (induction as bs rule: list_induct2)
  case Nil
  then show ?case by simp
next
  case (Cons a as b bs)
  then show ?case using msb_bits_inject[of a b] by simp
qed

subsection \<open>Big-endian and native byte strings\<close>

text \<open>
  \<open>from_be\<close> is the family \<open>from_be_bytes\<close>, \<open>to_be n\<close> the family \<open>to_be_bytes\<close> of the
  integers of \<open>n\<close> bytes; \<open>to_ne\<close> is \<open>to_ne_bytes\<close> on a machine whose endianness is the
  first argument (\<open>True\<close> for \<open>cfg!(target_endian = "big")\<close>).
\<close>

definition be_nat :: "bytes \<Rightarrow> nat" where
  "be_nat bs = foldl (\<lambda>a b. 256 * a + unat b) 0 bs"

definition from_be :: "bytes \<Rightarrow> 'a::len word" where
  "from_be bs = of_nat (be_nat bs)"

definition to_be :: "nat \<Rightarrow> 'a::len word \<Rightarrow> bytes" where
  "to_be n w = map (\<lambda>i. ucast (drop_bit (8 * (n - 1 - i)) w)) [0..<n]"

definition to_ne :: "bool \<Rightarrow> nat \<Rightarrow> 'a::len word \<Rightarrow> bytes" where
  "to_ne big n w = (if big then to_be n w else rev (to_be n w))"

lemma be_nat_Nil [simp]: "be_nat [] = 0"
  by (simp add: be_nat_def)

lemma be_nat_snoc [simp]: "be_nat (bs @ [b]) = 256 * be_nat bs + unat b"
  by (simp add: be_nat_def)

lemma length_to_be [simp, byte_simps]: "length (to_be n w) = n"
  by (simp add: to_be_def)

lemma length_to_ne [simp, byte_simps]: "length (to_ne big n w) = n"
  by (simp add: to_ne_def)

lemma to_be_0 [simp]: "to_be 0 w = []"
  by (simp add: to_be_def)

lemma to_be_Suc: "to_be (Suc n) w = ucast (drop_bit (8 * n) w) # to_be n w"
  by (rule nth_equalityI) (auto simp: to_be_def nth_Cons split: nat.splits simp del: upt_Suc)

lemma bits_val_byte: "bits_val (msb_bits 8 (b :: u8)) = unat b"
  using unsigned_less[of b, where ?'a = nat]
  by (simp add: bits_val_msb_bits take_bit_nat_eq_self)

lemma be_nat_bits: "be_nat bs = bits_val (byte_bits bs)"
  by (induction bs rule: rev_induct)
     (simp_all add: bits_val_append bits_val_byte)

lemma be_nat_Cons: "be_nat (b # bs) = unat b * 256 ^ length bs + be_nat bs"
  by (simp add: be_nat_bits bits_val_append bits_val_byte power_mult)

lemma be_nat_less: "be_nat bs < 256 ^ length bs"
  using bits_val_less[of "byte_bits bs"] by (simp add: be_nat_bits power_mult)

lemma byte_bits_to_be:
  "8 * n \<le> LENGTH('a) \<Longrightarrow> byte_bits (to_be n (w :: 'a::len word)) = msb_bits (8 * n) w"
proof (induction n)
  case 0
  then show ?case by simp
next
  case (Suc n)
  have "msb_bits 8 (ucast (drop_bit (8 * n) w) :: u8) = msb_bits 8 (drop_bit (8 * n) w)"
    by (rule nth_equalityI) (auto simp: bit_ucast_iff)
  moreover have "msb_bits (8 * Suc n) w = msb_bits 8 (drop_bit (8 * n) w) @ msb_bits (8 * n) w"
    using msb_bits_add[of 8 "8 * n" w] by simp
  ultimately show ?case
    using Suc by (simp add: to_be_Suc)
qed

lemma msb_bits_from_be:
  "8 * length bs \<le> LENGTH('a) \<Longrightarrow>
   msb_bits (8 * length bs) (from_be bs :: 'a::len word) = byte_bits bs"
  using msb_bits_of_nat[of "byte_bits bs", where ?'a = 'a]
  by (simp add: from_be_def be_nat_bits)

lemma from_be_to_be [byte_simps]:
  fixes w :: "'a::len word"
  assumes "8 * n = LENGTH('a)"
  shows "from_be (to_be n w) = w"
proof (rule msb_bits_inject)
  show "msb_bits LENGTH('a) (from_be (to_be n w) :: 'a word) = msb_bits LENGTH('a) w"
    using msb_bits_from_be[of "to_be n w", where ?'a = 'a] byte_bits_to_be[of n w] assms
    by simp
qed

lemma to_be_from_be [byte_simps]:
  assumes "length bs = n" "8 * n = LENGTH('a::len)"
  shows "to_be n (from_be bs :: 'a word) = bs"
proof (rule byte_bits_inject)
  show "byte_bits (to_be n (from_be bs :: 'a word)) = byte_bits bs"
    using msb_bits_from_be[of bs, where ?'a = 'a] byte_bits_to_be[of n "from_be bs :: 'a word"] assms
    by simp
qed (simp add: assms)

lemma unat_from_be:
  "8 * length bs \<le> LENGTH('a) \<Longrightarrow> unat (from_be bs :: 'a::len word) = be_nat bs"
proof -
  assume "8 * length bs \<le> LENGTH('a)"
  then have "be_nat bs < 2 ^ LENGTH('a)"
    using be_nat_less[of bs] power_increasing[of "8 * length bs" "LENGTH('a)" "2::nat"]
    by (simp add: power_mult)
  then show ?thesis
    by (simp add: from_be_def unat_of_nat)
qed

lemma unat_and_mask: "unat ((w :: 'a::len word) AND mask k) = unat w mod 2 ^ k"
proof -
  have "unat (w AND mask k) = unat (take_bit k w)" by (simp only: take_bit_eq_mask)
  also have "\<dots> = take_bit k (unat w)" by (rule unsigned_take_bit_eq)
  finally show ?thesis by (simp only: take_bit_eq_mod)
qed

subsection \<open>Consumers fed piecewise\<close>

text \<open>
  The contract of an operation that takes its input in pieces: \<open>rep s xs\<close> says the state \<open>s\<close>
  stands for the input \<open>xs\<close> seen so far, and one more admissible piece extends it.
\<close>

locale accumulator =
  fixes step :: "'s \<Rightarrow> 'a list \<Rightarrow> 's"
    and rep :: "'s \<Rightarrow> 'a list \<Rightarrow> bool"
    and piece_ok :: "'a list \<Rightarrow> bool"
  assumes step_rep: "rep s xs \<Longrightarrow> piece_ok c \<Longrightarrow> rep (step s c) (xs @ c)"
begin

lemma fold_rep: "rep s xs \<Longrightarrow> list_all piece_ok cs \<Longrightarrow> rep (foldl step s cs) (xs @ concat cs)"
proof (induction cs arbitrary: s xs)
  case (Cons c cs)
  then show ?case using step_rep[of s xs c] Cons.IH[of "step s c" "xs @ c"] by simp
qed simp

end

end
