(* ===== verification/Checksum.thy ===== *)
theory Checksum
  imports Prelude
begin

text \<open>
  The checksum primitives of \<open>src/checksum.rs\<close>: the seeded 32-bit ones'-complement sum,
  its streaming accumulator and \<open>ones_complement_add\<close>. The specification is the
  ones'-complement residue \<open>oc_norm\<close> of the arithmetic sum of the big-endian words; the
  code meets it for every slice of at most 262144 bytes, and only there, since the two
  16-bit half sums are kept in a \<open>u32\<close>.
\<close>

subsection \<open>The sum of a byte slice\<close>

fun sum_words :: "u32 \<times> u32 \<Rightarrow> bytes \<Rightarrow> u32 \<times> u32" where
  "sum_words (hi, lo) (a # b # c # d # rest) =
     sum_words (hi + ucast (from_be [a, b] :: u16), lo + ucast (from_be [c, d] :: u16)) rest"
| "sum_words (hi, lo) [] = (hi, lo)"
| "sum_words (hi, lo) tail =
     (let pad = take 4 (tail @ [0, 0, 0, 0])
      in (hi + ucast (from_be (take 2 pad) :: u16), lo + ucast (from_be (drop 2 pad) :: u16)))"

lemma unat_low16: "unat ((w :: u32) AND 0xFFFF) = unat w mod 65536"
proof -
  have "w AND 0xFFFF = take_bit 16 w"
    using take_bit_eq_mask[of 16 w] by (simp add: mask_eq_exp_minus_1)
  then have "unat (w AND 0xFFFF) = take_bit 16 (unat w)"
    by (simp only: unsigned_take_bit_eq)
  then show ?thesis
    by (simp only: take_bit_eq_mod) simp
qed

lemma unat_high16: "unat (drop_bit 16 (w :: u32)) = unat w div 65536"
  unfolding unat_drop_bit_eq by (simp add: drop_bit_eq_div)

lemma carry_step_unat:
  "unat (((hi :: u32) AND 0xFFFF) + drop_bit 16 lo) = unat hi mod 65536 + unat lo div 65536"
proof -
  have "unat lo div 65536 < 65536"
    using unsigned_less[of lo, where ?'a = nat] by simp
  then show ?thesis
    unfolding unat_word_ariths unat_low16 unat_high16 by simp
qed

function carry_loop :: "u32 \<Rightarrow> u32 \<Rightarrow> u32" where
  "carry_loop hi lo =
     (let hicarry = drop_bit 16 hi; locarry = drop_bit 16 lo
      in if hicarry = 0 \<and> locarry = 0 then push_bit 16 hi OR lo
         else carry_loop ((hi AND 0xFFFF) + locarry) ((lo AND 0xFFFF) + hicarry))"
  by pat_completeness auto
termination
proof (relation "measure (\<lambda>(hi, lo). unat hi + unat lo)", goal_cases)
  case (2 hi lo hicarry locarry)
  let ?h = "unat hi div 65536" and ?l = "unat lo div 65536"
  from 2 have "0 < ?h + ?l"
    unfolding unat_high16[symmetric] by (auto simp only: unat_eq_zero)
  then have "(unat hi mod 65536 + ?l) + (unat lo mod 65536 + ?h) < unat hi + unat lo"
    using div_mult_mod_eq[of "unat hi" 65536] div_mult_mod_eq[of "unat lo" 65536] by linarith
  then show ?case
    unfolding 2(1,2) in_measure prod.case carry_step_unat .
qed simp

declare carry_loop.simps [simp del]

definition compute_checksum_bytes :: "u32 \<Rightarrow> bytes \<Rightarrow> u32" where
  "compute_checksum_bytes seed bs =
     (let (hi, lo) = sum_words (drop_bit 16 seed, seed AND 0xFFFF) bs in carry_loop hi lo)"

subsection \<open>The specification: ones'-complement residue of the word sum\<close>

definition oc_norm :: "nat \<Rightarrow> nat" where
  "oc_norm n = (if n = 0 then 0 else Suc ((n - 1) mod 4294967295))"

fun word_sum :: "bytes \<Rightarrow> nat" where
  "word_sum (a # b # c # d # rest) = be_nat [a, b, c, d] + word_sum rest"
| "word_sum [] = 0"
| "word_sum tail = be_nat (take 4 (tail @ [0, 0, 0, 0]))"

lemma oc_norm_0 [simp]: "oc_norm 0 = 0"
  by (simp add: oc_norm_def)

lemma oc_norm_small: "n < 4294967296 \<Longrightarrow> oc_norm n = n"
  by (auto simp: oc_norm_def)

lemma oc_norm_less: "oc_norm n < 4294967296"
  by (auto simp: oc_norm_def less_Suc_eq_le intro: order.trans[OF mod_less_divisor[THEN less_imp_le]])

lemma oc_norm_unat [simp]: "oc_norm (unat (w :: u32)) = unat w"
  using unsigned_less[of w, where ?'a = nat] by (simp add: oc_norm_small)

lemma oc_norm_period: "0 < n \<Longrightarrow> oc_norm (n + k * 4294967295) = oc_norm n"
proof -
  assume "0 < n"
  then have "n + k * 4294967295 - 1 = (n - 1) + k * 4294967295" by simp
  then have "(n + k * 4294967295 - 1) mod 4294967295 = (n - 1) mod 4294967295"
    by (simp only: mod_mult_self1)
  with \<open>0 < n\<close> show ?thesis unfolding oc_norm_def by simp
qed

lemma oc_norm_decomp: "\<exists>k. n = oc_norm n + k * 4294967295"
proof (cases "n = 0")
  case False
  have "n - 1 = (n - 1) mod 4294967295 + (n - 1) div 4294967295 * 4294967295"
    by simp
  with False have "n = oc_norm n + (n - 1) div 4294967295 * 4294967295"
    unfolding oc_norm_def by simp
  then show ?thesis ..
qed simp

lemma oc_norm_eq_0: "oc_norm n = 0 \<longleftrightarrow> n = 0"
  by (simp add: oc_norm_def)

lemma oc_norm_add [simp]: "oc_norm (oc_norm a + b) = oc_norm (a + b)"
proof -
  obtain k where k: "a = oc_norm a + k * 4294967295" using oc_norm_decomp by blast
  show ?thesis
  proof (cases "oc_norm a + b = 0")
    case True
    then show ?thesis by (simp add: oc_norm_eq_0)
  next
    case False
    with oc_norm_period[of "oc_norm a + b" k] k show ?thesis
      by (metis add.assoc add.commute neq0_conv)
  qed
qed

lemma oc_norm_add2 [simp]: "oc_norm (a + oc_norm b) = oc_norm (a + b)"
  by (metis add.commute oc_norm_add)

lemma carry_value:
  fixes h l :: nat
  shows "65536 * h + l =
    (65536 * (h mod 65536 + l div 65536) + (l mod 65536 + h div 65536)) + h div 65536 * 4294967295"
proof -
  have "65536 * (H * 65536 + r) + (L * 65536 + s) = (65536 * (r + L) + (s + H)) + H * 4294967295"
    for H r L s :: nat by simp
  from this[of "h div 65536" "h mod 65536" "l div 65536" "l mod 65536"] show ?thesis
    by (simp only: div_mult_mod_eq)
qed

lemma carry_loop_correct:
  "unat (carry_loop hi lo) = oc_norm (65536 * unat hi + unat lo)"
proof (induction hi lo rule: carry_loop.induct)
  case (1 hi lo)
  let ?h = "unat hi" and ?l = "unat lo"
  show ?case
  proof (cases "drop_bit 16 hi = 0 \<and> drop_bit 16 lo = 0")
    case True
    then have small: "?h < 65536" "?l < 65536"
      unfolding unat_eq_zero[symmetric] unat_high16 by auto
    have "push_bit 16 hi OR lo = push_bit 16 hi + lo"
    proof (rule disjunctive_add[symmetric])
      fix n
      have "take_bit 16 lo = lo"
        using small(2) unsigned_take_bit_eq[of 16 lo, where ?'a = nat]
        by (intro word_unat_eq_iff[THEN iffD2]) (simp add: take_bit_nat_eq_self)
      then show "\<not> bit (push_bit 16 hi) n \<or> \<not> bit lo n"
        by (metis bit_push_bit_iff bit_take_bit_iff not_le)
    qed
    also have "unat \<dots> = 65536 * ?h + ?l"
      using small by (simp add: unat_word_ariths push_bit_eq_mult)
    finally show ?thesis
      using True small by (subst carry_loop.simps) (simp add: oc_norm_small)
  next
    case False
    let ?h' = "?h mod 65536 + ?l div 65536" and ?l' = "?l mod 65536 + ?h div 65536"
    have "65536 * ?h + ?l = (65536 * ?h' + ?l') + ?h div 65536 * 4294967295"
      by (rule carry_value)
    moreover have "0 < 65536 * ?h' + ?l'"
      using False unfolding unat_eq_zero[symmetric] unat_high16 by auto
    ultimately have eq: "oc_norm (65536 * ?h + ?l) = oc_norm (65536 * ?h' + ?l')"
      by (metis oc_norm_period)
    have "unat (carry_loop ((hi AND 0xFFFF) + drop_bit 16 lo) ((lo AND 0xFFFF) + drop_bit 16 hi))
        = oc_norm (65536 * ?h' + ?l')"
      using 1[OF refl refl False] unfolding carry_step_unat .
    with eq show ?thesis
      using False by (subst carry_loop.simps) (simp only: Let_def if_False)
  qed
qed

lemma be_nat_4: "be_nat [a, b, c, d] = 65536 * be_nat [a, b] + be_nat [c, d]"
  by (simp add: be_nat_def)

lemma unat_be16: "unat (ucast (from_be [a, b] :: u16) :: u32) = be_nat [a, b]"
  using be_nat_less[of "[a, b]"]
  by (simp add: unsigned_ucast_eq unat_from_be take_bit_nat_eq_self)

lemma unat_add_small:
  fixes x y :: "'a::len word"
  shows "unat x + unat y < 2 ^ LENGTH('a) \<Longrightarrow> unat (x + y) = unat x + unat y"
  by (simp add: unat_word_ariths)

text \<open>The two half sums as natural numbers; the code's \<open>hi\<close> and \<open>lo\<close> are their residues.\<close>

fun half_sums :: "bytes \<Rightarrow> nat \<times> nat" where
  "half_sums (a # b # c # d # rest) =
     (be_nat [a, b] + fst (half_sums rest), be_nat [c, d] + snd (half_sums rest))"
| "half_sums [] = (0, 0)"
| "half_sums tail =
     (let pad = take 4 (tail @ [0, 0, 0, 0]) in (be_nat (take 2 pad), be_nat (drop 2 pad)))"

definition chunk_fits :: "bytes \<Rightarrow> bool" where
  "chunk_fits bs \<longleftrightarrow> fst (half_sums bs) + 65535 < 4294967296 \<and> snd (half_sums bs) + 65535 < 4294967296"

lemma ucast_be16: "(ucast (from_be [a, b] :: u16) :: u32) = of_nat (be_nat [a, b])"
  by (rule word_unat_eq_iff[THEN iffD2])
     (use be_nat_less[of "[a, b]"] in \<open>simp add: unat_be16 unat_of_nat del: of_nat_numeral\<close>)

lemma sum_words_half_sums:
  "sum_words (hi, lo) bs = (hi + of_nat (fst (half_sums bs)), lo + of_nat (snd (half_sums bs)))"
  by (induction "(hi, lo)" bs arbitrary: hi lo rule: sum_words.induct)
     (simp_all add: ucast_be16 add.assoc)

lemma word_sum_half_sums: "word_sum bs = 65536 * fst (half_sums bs) + snd (half_sums bs)"
  by (induction bs rule: word_sum.induct) (simp_all add: be_nat_4)

lemma be_nat_pair_le: "be_nat [x, y] \<le> 65535"
  using be_nat_less[of "[x, y]"] by simp

lemma half_sums_bound:
  "fst (half_sums bs) \<le> 65535 * ((length bs + 3) div 4) \<and>
   snd (half_sums bs) \<le> 65535 * ((length bs + 3) div 4)"
proof (induction bs rule: half_sums.induct)
  case (1 a b c d rest)
  have "(length (a # b # c # d # rest) + 3) div 4 = Suc ((length rest + 3) div 4)"
    by simp
  then show ?case
    using 1 be_nat_pair_le[of a b] be_nat_pair_le[of c d] by simp
qed (simp_all add: be_nat_pair_le)

lemma chunk_fits_short: "length bs \<le> 262144 \<Longrightarrow> chunk_fits bs"
proof -
  assume "length bs \<le> 262144"
  then have "65535 * ((length bs + 3) div 4) \<le> 65535 * 65536"
    by (intro mult_le_mono2) linarith
  with half_sums_bound[of bs] show ?thesis
    unfolding chunk_fits_def by simp
qed

lemma compute_checksum_bytes_exact:
  assumes "chunk_fits bs"
  shows "unat (compute_checksum_bytes seed bs) = oc_norm (unat seed + word_sum bs)"
proof -
  let ?h = "fst (half_sums bs)" and ?l = "snd (half_sums bs)"
  have h: "unat (drop_bit 16 seed) \<le> 65535"
    unfolding unat_high16 using unsigned_less[of seed, where ?'a = nat] by simp
  have l: "unat (seed AND 0xFFFF) \<le> 65535"
    unfolding unat_low16 by (simp add: less_Suc_eq_le[symmetric])
  have n: "unat (of_nat ?h :: u32) = ?h" "unat (of_nat ?l :: u32) = ?l"
    using assms by (simp_all add: chunk_fits_def unat_of_nat)
  have hi: "unat (drop_bit 16 seed + of_nat ?h) = unat (drop_bit 16 seed) + ?h"
    using assms h n by (subst unat_add_small) (simp_all only: chunk_fits_def, simp_all)
  have lo: "unat ((seed AND 0xFFFF) + of_nat ?l) = unat (seed AND 0xFFFF) + ?l"
    using assms l n by (subst unat_add_small) (simp_all only: chunk_fits_def, simp_all)
  have "65536 * unat (drop_bit 16 seed) + unat (seed AND 0xFFFF) = unat seed"
    unfolding unat_high16 unat_low16 by simp
  then show ?thesis
    unfolding compute_checksum_bytes_def sum_words_half_sums Let_def prod.case
      carry_loop_correct hi lo word_sum_half_sums by (simp add: algebra_simps)
qed

text \<open>
  Past 65537 words the half sums overflow their \<open>u32\<close> and the carries are lost. On a
  run of \<open>0xFF\<close> bytes the sums are known in closed form.
\<close>

lemma sum_words_replicate_ff:
  "sum_words (hi, lo) (replicate (4 * n) 255) = (hi + of_nat n * 65535, lo + of_nat n * 65535)"
proof (induction n arbitrary: hi lo)
  case 0
  then show ?case by simp
next
  case (Suc n)
  have "replicate (4 * Suc n) (255 :: u8) = 255 # 255 # 255 # 255 # replicate (4 * n) 255"
    by (simp add: numeral_eq_Suc)
  moreover have "(ucast (from_be [255, 255] :: u16) :: u32) = 65535"
    by (simp add: from_be_def be_nat_def)
  ultimately show ?case
    using Suc by (simp add: algebra_simps)
qed

lemma word_sum_replicate_ff: "word_sum (replicate (4 * n) 255) = n * 4294967295"
proof (induction n)
  case 0
  then show ?case by simp
next
  case (Suc n)
  have "replicate (4 * Suc n) (255 :: u8) = 255 # 255 # 255 # 255 # replicate (4 * n) 255"
    by (simp add: numeral_eq_Suc)
  then show ?case
    using Suc by (simp add: be_nat_def)
qed

subsection \<open>\<open>ones_complement_add\<close>\<close>

definition ones_complement_add :: "u32 \<Rightarrow> u32 \<Rightarrow> u32" where
  "ones_complement_add a b = compute_checksum_bytes a (to_be 4 b)"

lemma word_sum_4: "length bs = 4 \<Longrightarrow> word_sum bs = be_nat bs"
  by (auto simp: length_Suc_conv numeral_eq_Suc)

lemma ones_complement_add_exact:
  "unat (ones_complement_add a b) = oc_norm (unat a + unat b)"
proof -
  have "be_nat (to_be 4 b) = unat b"
    using unat_from_be[of "to_be 4 b", where ?'a = 32] from_be_to_be[of 4 b] by simp
  then show ?thesis
    by (simp add: ones_complement_add_def compute_checksum_bytes_exact chunk_fits_short word_sum_4)
qed

subsection \<open>The streaming accumulator\<close>

record checksum_stream =
  cs_seed :: u32
  cs_carry :: bytes

definition stream_new :: "u32 \<Rightarrow> checksum_stream" where
  "stream_new s = \<lparr>cs_seed = s, cs_carry = []\<rparr>"

definition feed_aligned :: "checksum_stream \<Rightarrow> bytes \<Rightarrow> checksum_stream" where
  "feed_aligned s rest =
     (let n_full = length rest div 4 * 4;
          s1 = (if n_full > 0
                then s\<lparr>cs_seed := compute_checksum_bytes (cs_seed s) (take n_full rest)\<rparr> else s)
      in if length rest > n_full then s1\<lparr>cs_carry := cs_carry s1 @ drop n_full rest\<rparr> else s1)"

definition feed :: "checksum_stream \<Rightarrow> bytes \<Rightarrow> checksum_stream" where
  "feed s bs =
     (if bs = [] then s
      else if cs_carry s \<noteq> [] then
        (let need = 4 - length (cs_carry s)
         in if length bs < need then s\<lparr>cs_carry := cs_carry s @ bs\<rparr>
            else
              (let c = cs_carry s @ take need bs;
                   s1 = s\<lparr>cs_seed := compute_checksum_bytes (cs_seed s) c, cs_carry := []\<rparr>
               in feed_aligned s1 (drop need bs)))
      else feed_aligned s bs)"

definition stream_finish :: "checksum_stream \<Rightarrow> u32" where
  "stream_finish s =
     (if cs_carry s \<noteq> [] then compute_checksum_bytes (cs_seed s) (cs_carry s) else cs_seed s)"

definition stream_rep :: "u32 \<Rightarrow> checksum_stream \<Rightarrow> bytes \<Rightarrow> bool" where
  "stream_rep seed s bs \<longleftrightarrow>
     (\<exists>done. bs = done @ cs_carry s \<and> length done mod 4 = 0 \<and> length (cs_carry s) < 4 \<and>
        unat (cs_seed s) = oc_norm (unat seed + word_sum done))"

lemma word_sum_append:
  "length xs mod 4 = 0 \<Longrightarrow> word_sum (xs @ ys) = word_sum xs + word_sum ys"
  by (induction xs rule: word_sum.induct) auto

lemma stream_rep_new: "stream_rep seed (stream_new seed) []"
  by (simp add: stream_rep_def stream_new_def)

lemma stream_rep_feed_aligned:
  assumes "stream_rep seed s bs" "cs_carry s = []"
    and "chunk_fits (take (length rest div 4 * 4) rest)"
  shows "stream_rep seed (feed_aligned s rest) (bs @ rest)"
proof -
  let ?n = "length rest div 4 * 4"
  let ?done = "bs @ take ?n rest"
  from assms have bs: "length bs mod 4 = 0" "unat (cs_seed s) = oc_norm (unat seed + word_sum bs)"
    by (auto simp: stream_rep_def)
  have n: "?n \<le> length rest" "length rest - ?n < 4" by simp_all
  have "length ?done mod 4 = 0" using bs n by simp
  moreover have "unat (compute_checksum_bytes (cs_seed s) (take ?n rest))
      = oc_norm (unat seed + word_sum ?done)"
    using assms(3) bs by (simp add: compute_checksum_bytes_exact chunk_fits_short word_sum_append add.assoc)
  moreover have "bs @ rest = ?done @ drop ?n rest" by simp
  ultimately show ?thesis
    using n(2) assms(2) bs unfolding stream_rep_def feed_aligned_def Let_def
    by (intro exI[of _ ?done]) (auto simp: not_less)
qed

lemma stream_rep_feed:
  assumes "stream_rep seed s bs" "length c \<le> 262144"
  shows "stream_rep seed (feed s c) (bs @ c)"
proof -
  let ?need = "4 - length (cs_carry s)"
  from assms(1) obtain d where d: "bs = d @ cs_carry s" "length d mod 4 = 0"
    "length (cs_carry s) < 4" "unat (cs_seed s) = oc_norm (unat seed + word_sum d)"
    by (auto simp: stream_rep_def)
  consider "c = []" | "c \<noteq> []" "cs_carry s = []"
    | "c \<noteq> []" "cs_carry s \<noteq> []" "length c < ?need"
    | "c \<noteq> []" "cs_carry s \<noteq> []" "\<not> length c < ?need" by blast
  then show ?thesis
  proof cases
    case 1
    then show ?thesis using assms by (simp add: feed_def)
  next
    case 2
    then show ?thesis using stream_rep_feed_aligned[OF assms(1), of c] assms(2) by (simp add: feed_def chunk_fits_short)
  next
    case 3
    then show ?thesis using d by (auto simp: feed_def stream_rep_def intro!: exI[of _ d])
  next
    case 4
    let ?w = "cs_carry s @ take ?need c"
    let ?s1 = "s\<lparr>cs_seed := compute_checksum_bytes (cs_seed s) ?w, cs_carry := []\<rparr>"
    have w: "length ?w = 4" using 4 d(3) by simp
    have "stream_rep seed ?s1 (d @ ?w)"
      using d(2,4) w
      by (simp add: stream_rep_def compute_checksum_bytes_exact chunk_fits_short word_sum_append add.assoc)
    then have "stream_rep seed (feed_aligned ?s1 (drop ?need c)) ((d @ ?w) @ drop ?need c)"
      using assms(2) by (intro stream_rep_feed_aligned) (simp_all add: chunk_fits_short)
    then show ?thesis
      using 4 d(1) by (simp add: feed_def Let_def)
  qed
qed

lemma stream_rep_finish:
  "stream_rep seed s bs \<Longrightarrow> unat (stream_finish s) = oc_norm (unat seed + word_sum bs)"
  by (auto simp: stream_rep_def stream_finish_def compute_checksum_bytes_exact
      chunk_fits_short word_sum_append add.assoc)

text \<open>Feeds of whole words never leave a carry; each needs only its own sums to fit.\<close>

lemma stream_rep_feed_words:
  assumes "stream_rep seed s bs" "cs_carry s = []" "length c mod 4 = 0" "chunk_fits c"
  shows "stream_rep seed (feed s c) (bs @ c) \<and> cs_carry (feed s c) = []"
proof -
  have n: "length c div 4 * 4 = length c"
    using assms(3) by (metis add.right_neutral div_mult_mod_eq)
  have "stream_rep seed (feed_aligned s c) (bs @ c)"
    using assms n by (intro stream_rep_feed_aligned) simp_all
  moreover have "cs_carry (feed_aligned s c) = []"
    using assms(2) n by (simp add: feed_aligned_def Let_def)
  ultimately show ?thesis
    using assms by (simp add: feed_def)
qed

interpretation pieces: accumulator feed "stream_rep seed" "\<lambda>c. length c \<le> 262144" for seed
  by unfold_locales (rule stream_rep_feed)

interpretation word_pieces: accumulator feed "\<lambda>s bs. stream_rep seed s bs \<and> cs_carry s = []"
    "\<lambda>c. length c mod 4 = 0 \<and> chunk_fits c" for seed
  by unfold_locales (elim conjE, rule stream_rep_feed_words)

subsection \<open>Properties\<close>





end
