(* ===== verification/ChecksumAscii.thy ===== *)
theory ChecksumAscii
  imports Checksum
begin

text \<open>
  The 16-character ASCII form of a checksum (\<open>encode_checksum_ascii\<close>,
  \<open>decode_checksum_ascii\<close> of \<open>src/checksum.rs\<close>). The loop that moves characters off the
  punctuation codes is a \<open>partial_function\<close>: not terminating would be \<open>None\<close>; that it
  always ends is proved for each of the 256 byte values it is run on.
\<close>

definition exclude_chars :: "int list" where
  "exclude_chars =
     [0x3a, 0x3b, 0x3c, 0x3d, 0x3e, 0x3f, 0x40, 0x5b, 0x5c, 0x5d, 0x5e, 0x5f, 0x60]"

definition exclude_step :: "int list \<times> bool \<Rightarrow> int \<times> nat \<Rightarrow> int list \<times> bool" where
  "exclude_step st k =
     (let (ch, adjusted) = st; (e, jj) = k
      in if (ch ! jj) mod 256 = e \<or> (ch ! (jj + 1)) mod 256 = e
         then (ch[jj := ch ! jj + 1, jj + 1 := ch ! (jj + 1) - 1], True)
         else (ch, adjusted))"

definition exclude_pass :: "int list \<Rightarrow> int list \<times> bool" where
  "exclude_pass ch =
     foldl exclude_step (ch, False) (concat (map (\<lambda>e. [(e, 0), (e, 2)]) exclude_chars))"

partial_function (option) exclude_loop :: "int list \<Rightarrow> int list option" where
  "exclude_loop ch =
     (let (ch', adjusted) = exclude_pass ch in if \<not> adjusted then Some ch' else exclude_loop ch')"

text \<open>The four characters of one byte of the checksum.\<close>

definition byte_chars :: "int \<Rightarrow> int list option" where
  "byte_chars byte =
     (let quotient = byte div 4 + 0x30; remainder = byte mod 4
      in exclude_loop [quotient + remainder, quotient, quotient, quotient])"

definition alnum :: "int \<Rightarrow> bool" where
  "alnum c \<longleftrightarrow> (48 \<le> c \<and> c \<le> 57) \<or> (65 \<le> c \<and> c \<le> 90) \<or> (97 \<le> c \<and> c \<le> 122)"

definition byte_chars_ok :: "int \<Rightarrow> bool" where
  "byte_chars_ok byte = (case byte_chars byte of None \<Rightarrow> False | Some ch \<Rightarrow>
     length ch = 4 \<and> list_all alnum ch \<and> sum_list ch = byte + 192)"

declare exclude_loop.simps [code]

lemma byte_chars_ok_all: "list_all byte_chars_ok [0..255]"
  by code_simp

lemma byte_chars_ok_byte: "0 \<le> b \<Longrightarrow> b < 256 \<Longrightarrow> byte_chars_ok b"
  using byte_chars_ok_all by (auto simp: list_all_iff)

lemma byte_chars_total:
  assumes "0 \<le> b" "b < 256"
  obtains c0 c1 c2 c3 where "byte_chars b = Some [c0, c1, c2, c3]"
    and "alnum c0" "alnum c1" "alnum c2" "alnum c3" and "c0 + c1 + c2 + c3 = b + 192"
proof -
  have "byte_chars_ok b" using assms by (rule byte_chars_ok_byte)
  then obtain ch where ch: "byte_chars b = Some ch" "length ch = 4" "list_all alnum ch"
    "sum_list ch = b + 192"
    by (auto simp: byte_chars_ok_def split: option.splits)
  from ch(2) obtain c0 c1 c2 c3 where "ch = [c0, c1, c2, c3]"
    by (auto simp: length_Suc_conv numeral_eq_Suc)
  with ch that[of c0 c1 c2 c3] show ?thesis by (simp add: add.assoc)
qed

subsection \<open>Encoding and decoding\<close>

definition checksum_masks :: "u32 list" where
  "checksum_masks = [0xFF000000, 0x00FF0000, 0x0000FF00, 0x000000FF]"

definition checksum_byte :: "u32 \<Rightarrow> nat \<Rightarrow> int" where
  "checksum_byte value ii = uint (drop_bit (24 - 8 * ii) (value AND checksum_masks ! ii))"

definition encode_checksum_ascii :: "u32 \<Rightarrow> bool \<Rightarrow> bytes option" where
  "encode_checksum_ascii csum complement =
     (let value = (if complement then NOT csum else csum)
      in case those (map (\<lambda>ii. byte_chars (checksum_byte value ii)) [0..<4]) of
           None \<Rightarrow> None
         | Some rows \<Rightarrow>
             (let asc = map (\<lambda>p. rows ! (p mod 4) ! (p div 4)) [0..<16]
              in Some (map (\<lambda>ii. word_of_int (asc ! ((ii + 15) mod 16))) [0..<16])))"

definition decode_checksum_ascii :: "bytes \<Rightarrow> bool \<Rightarrow> u32" where
  "decode_checksum_ascii ascii complement =
     (let cbuf = map (\<lambda>ii. ucast (ascii ! ((ii + 1) mod 16)) - 0x30) [0..<16];
          hi = fold (\<lambda>ii h. h + (push_bit 8 (cbuf ! ii) + cbuf ! (ii + 1))) [0, 4, 8, 12] (0 :: u32);
          lo = fold (\<lambda>ii l. l + (push_bit 8 (cbuf ! (ii + 2)) + cbuf ! (ii + 3))) [0, 4, 8, 12] 0;
          csum = carry_loop hi lo
      in if complement then NOT csum else csum)"

lemma drop_bit_and_mask: "drop_bit k ((v :: u32) AND push_bit k (mask 8)) = take_bit 8 (drop_bit k v)"
  by (rule bit_word_eqI) (auto simp: bit_simps dest: bit_imp_le_length)

lemma checksum_masks_nth: "ii < 4 \<Longrightarrow> checksum_masks ! ii = push_bit (24 - 8 * ii) (mask 8)"
  by (auto simp: checksum_masks_def numeral_eq_Suc less_Suc_eq mask_eq_exp_minus_1 push_bit_eq_mult)

lemma checksum_byte_eq:
  assumes "ii < 4"
  shows "checksum_byte v ii = uint (to_be 4 v ! ii)"
proof -
  have "24 - 8 * ii = 8 * (4 - 1 - ii)" using assms by simp
  then show ?thesis
    using assms unfolding checksum_byte_def checksum_masks_nth[OF assms] drop_bit_and_mask
    by (simp add: to_be_def unsigned_ucast_eq unsigned_take_bit_eq)
qed

lemma be_nat_to_be4: "be_nat (to_be 4 (v :: u32)) = unat v"
  using unat_from_be[of "to_be 4 v", where ?'a = 32] from_be_to_be[of 4 v] by simp

lemma be_nat_4_int:
  "int (be_nat [a, b, c, d]) = uint a * 16777216 + uint b * 65536 + uint c * 256 + uint d"
  by (simp add: be_nat_def)

lemma to_be_4: "to_be 4 v = [to_be 4 v ! 0, to_be 4 v ! 1, to_be 4 v ! 2, to_be 4 v ! 3]"
  by (rule nth_equalityI) (auto simp: numeral_eq_Suc less_Suc_eq)

lemma checksum_bytes_value:
  "checksum_byte v 0 * 16777216 + checksum_byte v 1 * 65536 + checksum_byte v 2 * 256
     + checksum_byte v 3 = uint v"
  using be_nat_4_int[of "to_be 4 v ! 0" "to_be 4 v ! 1" "to_be 4 v ! 2" "to_be 4 v ! 3"]
  unfolding to_be_4[symmetric] be_nat_to_be4 by (simp add: checksum_byte_eq)

lemma checksum_byte_range:
  "ii < 4 \<Longrightarrow> 0 \<le> checksum_byte v ii \<and> checksum_byte v ii < 256"
  using unsigned_less[of "to_be 4 v ! ii", where ?'a = int] by (simp add: checksum_byte_eq)

lemma encode_rows:
  obtains a0 a1 a2 a3 b0 b1 b2 b3 c0 c1 c2 c3 d0 d1 d2 d3 where
    "encode_checksum_ascii s c = Some (map word_of_int
       [d3, a0, a1, a2, a3, b0, b1, b2, b3, c0, c1, c2, c3, d0, d1, d2])"
    and "\<forall>x \<in> set [d3, a0, a1, a2, a3, b0, b1, b2, b3, c0, c1, c2, c3, d0, d1, d2]. alnum x"
    and "a0 + b0 + c0 + d0 = checksum_byte (if c then NOT s else s) 0 + 192"
    and "a1 + b1 + c1 + d1 = checksum_byte (if c then NOT s else s) 1 + 192"
    and "a2 + b2 + c2 + d2 = checksum_byte (if c then NOT s else s) 2 + 192"
    and "a3 + b3 + c3 + d3 = checksum_byte (if c then NOT s else s) 3 + 192"
proof -
  let ?v = "if c then NOT s else s"
  note r = checksum_byte_range[of _ ?v]
  obtain a0 b0 c0 d0 where 0: "byte_chars (checksum_byte ?v 0) = Some [a0, b0, c0, d0]"
    "alnum a0" "alnum b0" "alnum c0" "alnum d0" "a0 + b0 + c0 + d0 = checksum_byte ?v 0 + 192"
    by (rule byte_chars_total[of "checksum_byte ?v 0"]) (use r[of 0] in simp_all)
  obtain a1 b1 c1 d1 where 1: "byte_chars (checksum_byte ?v 1) = Some [a1, b1, c1, d1]"
    "alnum a1" "alnum b1" "alnum c1" "alnum d1" "a1 + b1 + c1 + d1 = checksum_byte ?v 1 + 192"
    by (rule byte_chars_total[of "checksum_byte ?v 1"]) (use r[of 1] in simp_all)
  obtain a2 b2 c2 d2 where 2: "byte_chars (checksum_byte ?v 2) = Some [a2, b2, c2, d2]"
    "alnum a2" "alnum b2" "alnum c2" "alnum d2" "a2 + b2 + c2 + d2 = checksum_byte ?v 2 + 192"
    by (rule byte_chars_total[of "checksum_byte ?v 2"]) (use r[of 2] in simp_all)
  obtain a3 b3 c3 d3 where 3: "byte_chars (checksum_byte ?v 3) = Some [a3, b3, c3, d3]"
    "alnum a3" "alnum b3" "alnum c3" "alnum d3" "a3 + b3 + c3 + d3 = checksum_byte ?v 3 + 192"
    by (rule byte_chars_total[of "checksum_byte ?v 3"]) (use r[of 3] in simp_all)
  have "those (map (\<lambda>ii. byte_chars (checksum_byte ?v ii)) [0..<4])
      = Some [[a0, b0, c0, d0], [a1, b1, c1, d1], [a2, b2, c2, d2], [a3, b3, c3, d3]]"
    using 0(1) 1(1) 2(1) 3(1) by (simp add: upt_rec numeral_eq_Suc)
  then have "encode_checksum_ascii s c = Some (map word_of_int
       [d3, a0, a1, a2, a3, b0, b1, b2, b3, c0, c1, c2, c3, d0, d1, d2])"
    unfolding encode_checksum_ascii_def by (simp add: upt_rec)
  then show ?thesis
    using 0 1 2 3 by (intro that) simp_all
qed
subsection \<open>The weight of an encoded value inside a word-aligned stream\<close>

fun wsum :: "nat \<Rightarrow> bytes \<Rightarrow> nat" where
  "wsum k [] = 0"
| "wsum k (b # bs) = unat b * 256 ^ (3 - k mod 4) + wsum (Suc k) bs"

lemma wsum_append: "wsum k (xs @ ys) = wsum k xs + wsum (k + length xs) ys"
  by (induction xs arbitrary: k) simp_all

lemma wsum_mod: "wsum (k mod 4) bs = wsum k bs"
proof (induction bs arbitrary: k)
  case (Cons b bs)
  have "wsum (Suc (k mod 4)) bs = wsum (Suc k) bs"
    using Cons[of "Suc (k mod 4)"] Cons[of "Suc k"] by (simp add: mod_Suc_eq)
  then show ?case by simp
qed simp

lemma word_sum_wsum: "word_sum bs = wsum 0 bs"
proof (induction bs rule: word_sum.induct)
  case (1 a b c d rest)
  have "wsum (Suc (Suc (Suc (Suc 0)))) rest = wsum 0 rest"
    using wsum_mod[of "Suc (Suc (Suc (Suc 0)))" rest] by simp
  with 1 show ?case by (simp add: be_nat_def)
qed (simp_all add: be_nat_def)

definition zeros16 :: bytes where "zeros16 = replicate 16 48"

lemma zeros16_list:
  "zeros16 = [48, 48, 48, 48, 48, 48, 48, 48, 48, 48, 48, 48, 48, 48, 48, 48]"
  unfolding zeros16_def by (simp add: list_eq_iff_nth_eq less_Suc_eq numeral_eq_Suc nth_Cons split: nat.split)

lemma wsum_zeros16: "wsum 3 zeros16 = 3233857728"
  unfolding zeros16_list by simp

lemma alnum_byte: "alnum x \<Longrightarrow> uint (word_of_int x :: u8) = x"
  by (auto simp: alnum_def unsigned_of_int take_bit_int_eq_self)

lemma wsum_encoded:
  assumes "encode_checksum_ascii s c = Some ascii"
  shows "wsum 3 ascii = wsum 3 zeros16 + unat (if c then NOT s else s)"
proof -
  obtain a0 a1 a2 a3 b0 b1 b2 b3 c0 c1 c2 c3 d0 d1 d2 d3 where
    e: "encode_checksum_ascii s c = Some (map word_of_int
       [d3, a0, a1, a2, a3, b0, b1, b2, b3, c0, c1, c2, c3, d0, d1, d2])"
    and al: "\<forall>x \<in> set [d3, a0, a1, a2, a3, b0, b1, b2, b3, c0, c1, c2, c3, d0, d1, d2]. alnum x"
    and sums: "a0 + b0 + c0 + d0 = checksum_byte (if c then NOT s else s) 0 + 192"
     "a1 + b1 + c1 + d1 = checksum_byte (if c then NOT s else s) 1 + 192"
     "a2 + b2 + c2 + d2 = checksum_byte (if c then NOT s else s) 2 + 192"
     "a3 + b3 + c3 + d3 = checksum_byte (if c then NOT s else s) 3 + 192"
    by (rule encode_rows)
  have "int (wsum 3 ascii) =
      (a0 + b0 + c0 + d0) * 16777216 + (a1 + b1 + c1 + d1) * 65536
      + (a2 + b2 + c2 + d2) * 256 + (a3 + b3 + c3 + d3)"
    using e assms al by (simp add: alnum_byte)
  also have "\<dots> = int (wsum 3 zeros16) + uint (if c then NOT s else s)"
    unfolding sums checksum_bytes_value[symmetric] wsum_zeros16 by simp
  finally have "int (wsum 3 ascii) = int (wsum 3 zeros16 + unat (if c then NOT s else s))"
    by (simp only: of_nat_add of_nat_unat)
  then show ?thesis by (simp only: of_nat_eq_iff)
qed

lemma encode_checksum_ascii_shape:
  obtains ascii where "encode_checksum_ascii s c = Some ascii" "length ascii = 16"
    "\<forall>b \<in> set ascii. alnum (uint b)"
proof -
  obtain a0 a1 a2 a3 b0 b1 b2 b3 c0 c1 c2 c3 d0 d1 d2 d3 where
    e: "encode_checksum_ascii s c = Some (map word_of_int
       [d3, a0, a1, a2, a3, b0, b1, b2, b3, c0, c1, c2, c3, d0, d1, d2])"
    and al: "\<forall>x \<in> set [d3, a0, a1, a2, a3, b0, b1, b2, b3, c0, c1, c2, c3, d0, d1, d2]. alnum x"
    by (rule encode_rows)
  have "alnum (uint (word_of_int x :: u8))" if "alnum x" for x
    using that alnum_byte[OF that] by simp
  then have "\<forall>b \<in> set (map word_of_int xs :: bytes). alnum (uint b)"
    if "\<forall>x \<in> set xs. alnum x" for xs
    using that by simp
  from this[OF al] show ?thesis by (intro that[OF e]) simp_all
qed

lemma carry_loop_checksum_bytes:
  "carry_loop (word_of_int (256 * checksum_byte v 0 + checksum_byte v 1))
     (word_of_int (256 * checksum_byte v 2 + checksum_byte v 3)) = v"
proof -
  have r: "int (unat (word_of_int (256 * x + y) :: u32)) = 256 * x + y"
    if "0 \<le> x" "x < 256" "0 \<le> y" "y < 256" for x y
    using that unfolding of_nat_unat unsigned_of_int by (simp add: take_bit_int_eq_self)
  have "int (65536 * unat (word_of_int (256 * checksum_byte v 0 + checksum_byte v 1) :: u32)
      + unat (word_of_int (256 * checksum_byte v 2 + checksum_byte v 3) :: u32)) = int (unat v)"
    using checksum_byte_range[of 0 v] checksum_byte_range[of 1 v] checksum_byte_range[of 2 v]
      checksum_byte_range[of 3 v] checksum_bytes_value[of v]
    unfolding of_nat_add of_nat_mult by (subst (1 2) r) simp_all
  then show ?thesis
    unfolding of_nat_eq_iff by (intro word_unat_eq_iff[THEN iffD2]) (simp add: carry_loop_correct)
qed

lemma decode_encode:
  assumes "encode_checksum_ascii s c = Some ascii"
  shows "decode_checksum_ascii ascii c = s"
proof -
  let ?v = "if c then NOT s else s"
  obtain a0 a1 a2 a3 b0 b1 b2 b3 c0 c1 c2 c3 d0 d1 d2 d3 where
    e: "encode_checksum_ascii s c = Some (map word_of_int
       [d3, a0, a1, a2, a3, b0, b1, b2, b3, c0, c1, c2, c3, d0, d1, d2])"
    and al: "\<forall>x \<in> set [d3, a0, a1, a2, a3, b0, b1, b2, b3, c0, c1, c2, c3, d0, d1, d2]. alnum x"
    and sums: "a0 + b0 + c0 + d0 = checksum_byte ?v 0 + 192"
     "a1 + b1 + c1 + d1 = checksum_byte ?v 1 + 192"
     "a2 + b2 + c2 + d2 = checksum_byte ?v 2 + 192"
     "a3 + b3 + c3 + d3 = checksum_byte ?v 3 + 192"
    by (rule encode_rows)
  have uc: "(ucast (word_of_int x :: u8) :: u32) = word_of_int x" if "alnum x" for x
  proof (rule word_uint_eqI)
    show "uint (ucast (word_of_int x :: u8) :: u32) = uint (word_of_int x :: u32)"
      using that by (auto simp: alnum_def unsigned_ucast_eq unsigned_of_int take_bit_int_eq_self)
  qed
  let ?hi = "word_of_int (256 * (a0 + b0 + c0 + d0 - 192) + (a1 + b1 + c1 + d1 - 192)) :: u32"
  let ?lo = "word_of_int (256 * (a2 + b2 + c2 + d2 - 192) + (a3 + b3 + c3 + d3 - 192)) :: u32"
  have "decode_checksum_ascii ascii c = (let s' = carry_loop ?hi ?lo in if c then NOT s' else s')"
    using e assms al unfolding decode_checksum_ascii_def
    by (simp add: upt_rec uc push_bit_eq_mult algebra_simps)
  then have "decode_checksum_ascii ascii c = (let s' = carry_loop
      (word_of_int (256 * checksum_byte ?v 0 + checksum_byte ?v 1))
      (word_of_int (256 * checksum_byte ?v 2 + checksum_byte ?v 3)) in if c then NOT s' else s')"
    unfolding sums by simp
  with carry_loop_checksum_bytes[of ?v] show ?thesis by simp
qed

subsection \<open>Property\<close>

text \<open>
  C12: \<open>encode_checksum_ascii\<close> succeeds on every value (its loop that moves characters off the
  forbidden punctuation ends), gives 16 ASCII digits and letters, and
  \<open>decode_checksum_ascii\<close> reads the value back, in the plain and in the complemented form.
\<close>

theorem checksum_ascii_roundtrip:
  "\<exists>ascii. encode_checksum_ascii s c = Some ascii \<and> length ascii = 16 \<and>
     list_all (\<lambda>b. alnum (uint b)) ascii \<and> decode_checksum_ascii ascii c = s"
  using encode_checksum_ascii_shape[of s c] decode_encode[of s c] by (metis list_all_iff)

end
