(* ===== verification/FitsText.thy ===== *)
theory FitsText
  imports Prelude
begin

text \<open>
  Header text. FITS cards are ASCII, so a Rust \<open>String\<close> is a \<open>string\<close> (one character
  per byte) and \<open>len\<close>, slicing and \<open>trim\<close> work on bytes. White space is the ASCII part
  of what \<open>trim\<close> and \<open>split_whitespace\<close> remove. The theory holds the standard library
  operations the header code uses: \<open>trim\<close>, padding by \<open>format!\<close>, decimal printing and
  \<open>parse\<close>, and the \<open>replace\<close> calls that escape quotes.
\<close>

named_theorems text_simps "lengths and shapes of header text"

definition is_ws :: "char \<Rightarrow> bool" where
  "is_ws c \<longleftrightarrow> c \<in> {CHR 0x09, CHR 0x0A, CHR 0x0B, CHR 0x0C, CHR 0x0D, CHR 0x20}"

definition quote :: char where "quote = CHR 0x27"

definition trim_start :: "string \<Rightarrow> string" where
  "trim_start s = dropWhile is_ws s"

definition trim_end :: "string \<Rightarrow> string" where
  "trim_end s = rev (dropWhile is_ws (rev s))"

definition trim :: "string \<Rightarrow> string" where
  "trim s = trim_end (trim_start s)"

definition spaces :: "nat \<Rightarrow> string" where
  "spaces n = replicate n CHR '' ''"

text \<open>\<open>format!("{:<n}")\<close> and \<open>format!("{:>n}")\<close>.\<close>

definition fmt_left :: "nat \<Rightarrow> string \<Rightarrow> string" where
  "fmt_left n s = s @ spaces (n - length s)"

definition fmt_right :: "nat \<Rightarrow> string \<Rightarrow> string" where
  "fmt_right n s = spaces (n - length s) @ s"

text \<open>\<open>to_ascii_uppercase\<close>.\<close>

definition upper_char :: "char \<Rightarrow> char" where
  "upper_char c =
     (if 97 \<le> (of_char c :: nat) \<and> (of_char c :: nat) \<le> 122 then char_of (of_char c - 32 :: nat) else c)"

definition upper :: "string \<Rightarrow> string" where
  "upper s = map upper_char s"

definition starts_with :: "string \<Rightarrow> string \<Rightarrow> bool" where
  "starts_with p s \<longleftrightarrow> take (length p) s = p"

subsection \<open>Lengths\<close>

lemma length_spaces [simp, text_simps]: "length (spaces n) = n"
  by (simp add: spaces_def)

lemma spaces_0 [simp]: "spaces 0 = []"
  by (simp add: spaces_def)

lemma set_spaces: "set (spaces n) \<subseteq> {CHR '' ''}"
  by (auto simp: spaces_def)

lemma length_fmt_left [simp, text_simps]: "length (fmt_left n s) = max n (length s)"
  by (simp add: fmt_left_def)

lemma length_fmt_right [simp, text_simps]: "length (fmt_right n s) = max n (length s)"
  by (simp add: fmt_right_def)

lemma fmt_left_long [simp]: "n \<le> length s \<Longrightarrow> fmt_left n s = s"
  by (simp add: fmt_left_def)

subsection \<open>Trimming\<close>

lemma is_ws_space [simp]: "is_ws CHR '' ''"
  by (simp add: is_ws_def)

lemma trim_end_Nil [simp]: "trim_end [] = []"
  by (simp add: trim_end_def)

lemma trim_start_Nil [simp]: "trim_start [] = []"
  by (simp add: trim_start_def)

lemma trim_end_snoc [simp]: "trim_end (s @ [c]) = (if is_ws c then trim_end s else s @ [c])"
  by (simp add: trim_end_def)

lemma trim_end_spaces [simp]: "trim_end (s @ spaces n) = trim_end s"
  by (simp add: trim_end_def spaces_def dropWhile_append)

lemma trim_end_id: "s = [] \<or> \<not> is_ws (last s) \<Longrightarrow> trim_end s = s"
  by (cases s rule: rev_cases) auto

lemma trim_end_append: "trim_end t \<noteq> [] \<Longrightarrow> trim_end (s @ t) = s @ trim_end t"
  by (induction t rule: rev_induct) (auto simp: append_assoc[symmetric] simp del: append_assoc)

lemma trim_start_id: "s = [] \<or> \<not> is_ws (hd s) \<Longrightarrow> trim_start s = s"
  by (cases s) (auto simp: trim_start_def)

lemma trim_start_spaces [simp]: "trim_start (spaces n @ s) = trim_start s"
  by (simp add: trim_start_def spaces_def dropWhile_append)

lemma trim_end_idem [simp]: "trim_end (trim_end s) = trim_end s"
  by (simp add: trim_end_def dropWhile_idem)

lemma trim_end_last: "trim_end s = [] \<or> \<not> is_ws (last (trim_end s))"
  using hd_dropWhile[of is_ws "rev s"] by (auto simp: trim_end_def last_rev)

lemma trim_end_decomp: "\<exists>w. s = trim_end s @ w \<and> (\<forall>c \<in> set w. is_ws c)"
proof -
  have "rev s = takeWhile is_ws (rev s) @ dropWhile is_ws (rev s)" by simp
  then have "s = trim_end s @ rev (takeWhile is_ws (rev s))"
    by (metis trim_end_def rev_append rev_rev_ident)
  then show ?thesis by (metis set_rev set_takeWhileD)
qed

lemma trim_end_ws: "\<forall>c \<in> set w. is_ws c \<Longrightarrow> trim_end (s @ w) = trim_end s"
  by (simp add: trim_end_def dropWhile_append1 dropWhile_append)

subsection \<open>Decimal numbers\<close>

fun dec_digits :: "nat \<Rightarrow> string" where
  "dec_digits n = (if n < 10 then [char_of (48 + n)] else dec_digits (n div 10) @ [char_of (48 + n mod 10)])"

declare dec_digits.simps [simp del]

text \<open>\<open>format!("{}")\<close> of an integer.\<close>

definition dec_int :: "int \<Rightarrow> string" where
  "dec_int i = (if i < 0 then CHR ''-'' # dec_digits (nat (- i)) else dec_digits (nat i))"

definition is_digit :: "char \<Rightarrow> bool" where
  "is_digit c \<longleftrightarrow> 48 \<le> (of_char c :: nat) \<and> (of_char c :: nat) \<le> 57"

definition digit_val :: "char \<Rightarrow> nat" where
  "digit_val c = of_char c - 48"

definition parse_digits :: "string \<Rightarrow> nat option" where
  "parse_digits s =
     (if s \<noteq> [] \<and> list_all is_digit s then Some (foldl (\<lambda>a c. 10 * a + digit_val c) 0 s) else None)"

text \<open>
  \<open>parse::<u32>()\<close> and \<open>parse::<i64>()\<close>: an optional sign (\<open>-\<close> only for the signed
  type), at least one digit, and a value in range.
\<close>

definition parse_u32 :: "string \<Rightarrow> u32 option" where
  "parse_u32 s =
     (let body = (case s of c # r \<Rightarrow> if c = CHR ''+'' then r else s | [] \<Rightarrow> s)
      in case parse_digits body of None \<Rightarrow> None
         | Some n \<Rightarrow> if n < 4294967296 then Some (of_nat n) else None)"

definition parse_i64 :: "string \<Rightarrow> int option" where
  "parse_i64 s =
     (case s of
        c # r \<Rightarrow>
          if c = CHR ''-'' then
            (case parse_digits r of None \<Rightarrow> None
             | Some n \<Rightarrow> if n \<le> 9223372036854775808 then Some (- int n) else None)
          else
            (case parse_digits (if c = CHR ''+'' then r else s) of None \<Rightarrow> None
             | Some n \<Rightarrow> if n < 9223372036854775808 then Some (int n) else None)
      | [] \<Rightarrow> None)"

lemma of_char_digit: "n < 10 \<Longrightarrow> (of_char (char_of (48 + n) :: char) :: nat) = 48 + n"
  by (simp add: of_char_of)

lemma digit_char: "n < 10 \<Longrightarrow> is_digit (char_of (48 + n)) \<and> digit_val (char_of (48 + n)) = n"
  unfolding is_digit_def digit_val_def by (simp add: of_char_digit)

lemma dec_digits_ok:
  "dec_digits n \<noteq> [] \<and> list_all is_digit (dec_digits n) \<and>
   foldl (\<lambda>a c. 10 * a + digit_val c) 0 (dec_digits n) = n"
proof (induction n rule: dec_digits.induct)
  case (1 n)
  show ?case
  proof (cases "n < 10")
    case True
    then show ?thesis using digit_char[of n] by (subst (1 2 3) dec_digits.simps) simp
  next
    case False
    then have "10 * (n div 10) + n mod 10 = n" by simp
    then show ?thesis
      using 1[OF False] False digit_char[of "n mod 10"]
      by (subst (1 2 3) dec_digits.simps) simp
  qed
qed

lemma dec_digits_nonempty [simp]: "dec_digits n \<noteq> []"
  using dec_digits_ok by blast

lemma dec_digits_digits: "c \<in> set (dec_digits n) \<Longrightarrow> is_digit c"
  using dec_digits_ok[of n] by (simp add: list_all_iff)

lemma parse_digits_dec_digits [simp]: "parse_digits (dec_digits n) = Some n"
  using dec_digits_ok[of n] by (simp add: parse_digits_def)

lemma is_digit_not [simp]:
  "\<not> is_digit CHR ''+''" "\<not> is_digit CHR ''-''" "\<not> is_digit CHR '' ''" "\<not> is_digit CHR 0x27"
  "\<not> is_digit CHR ''/''"
  by (simp_all add: is_digit_def)

lemma is_digit_not_ws: "is_digit c \<Longrightarrow> \<not> is_ws c"
  by (auto simp: is_ws_def is_digit_def)

lemma dec_digits_Cons: "\<exists>c r. dec_digits n = c # r \<and> is_digit c"
  using dec_digits_digits[of "hd (dec_digits n)" n] by (cases "dec_digits n") auto

lemma parse_u32_dec_digits: "n < 4294967296 \<Longrightarrow> parse_u32 (dec_digits n) = Some (of_nat n)"
proof -
  assume "n < 4294967296"
  obtain c r where cr: "dec_digits n = c # r" "is_digit c" using dec_digits_Cons by blast
  then have "c \<noteq> CHR ''+''" by auto
  with cr \<open>n < 4294967296\<close> show ?thesis
    using parse_digits_dec_digits[of n] by (simp add: parse_u32_def)
qed

lemma parse_i64_dec_int:
  assumes "- 9223372036854775808 \<le> i" "i < 9223372036854775808"
  shows "parse_i64 (dec_int i) = Some i"
proof (cases "i < 0")
  case True
  then show ?thesis using assms by (simp add: parse_i64_def dec_int_def)
next
  case False
  obtain c r where cr: "dec_digits (nat i) = c # r" "is_digit c" using dec_digits_Cons by blast
  then have "c \<noteq> CHR ''-''" "c \<noteq> CHR ''+''" by auto
  with cr False assms show ?thesis
    using parse_digits_dec_digits[of "nat i"] by (simp add: parse_i64_def dec_int_def)
qed

lemma dec_digits_length: "n < 10 ^ k \<Longrightarrow> 0 < k \<Longrightarrow> length (dec_digits n) \<le> k"
proof (induction k arbitrary: n)
  case (Suc k)
  show ?case
  proof (cases "n < 10")
    case True
    then show ?thesis by (subst dec_digits.simps) simp
  next
    case False
    with Suc.prems have "n div 10 < 10 ^ k" "0 < k" by (auto intro: gr0I)
    with Suc.IH[of "n div 10"] False show ?thesis by (subst dec_digits.simps) simp
  qed
qed simp

lemma dec_digits_inject: "dec_digits i = dec_digits j \<longleftrightarrow> i = j"
proof
  assume "dec_digits i = dec_digits j"
  then have "parse_digits (dec_digits i) = parse_digits (dec_digits j)" by (rule arg_cong)
  then show "i = j" by simp
qed simp

subsection \<open>Quote escaping\<close>

text \<open>\<open>replace('\'', "''")\<close> and \<open>replace("''", "'")\<close> (leftmost, non-overlapping).\<close>

definition escape :: "string \<Rightarrow> string" where
  "escape s = concat (map (\<lambda>c. if c = quote then [quote, quote] else [c]) s)"

fun unescape :: "string \<Rightarrow> string" where
  "unescape (a # b # r) = (if a = quote \<and> b = quote then quote # unescape r else a # unescape (b # r))"
| "unescape s = s"

lemma escape_simps [simp]:
  "escape [] = []"
  "escape (c # s) = (if c = quote then quote # quote # escape s else c # escape s)"
  "escape (s @ t) = escape s @ escape t"
  by (simp_all add: escape_def)

lemma unescape_Cons: "a \<noteq> quote \<Longrightarrow> unescape (a # s) = a # unescape s"
  by (cases s) auto

lemma unescape_escape [simp]: "unescape (escape s) = s"
  by (induction s) (auto simp: unescape_Cons)

lemma escape_id: "quote \<notin> set s \<Longrightarrow> escape s = s"
  by (induction s) auto

lemma escape_length: "length s \<le> length (escape s)"
  by (induction s) auto

end
