(* ===== verification/HeaderCards.thy ===== *)
theory HeaderCards
  imports FitsText
begin

text \<open>
  Single header cards: the builders of \<open>src/header.rs\<close> (\<open>pad_to_card\<close>, \<open>card_int\<close>,
  \<open>card_logical\<close>, \<open>card_string\<close>), the keyword lookups of \<open>src/common.rs\<close>
  (\<open>parse_keyword\<close>, \<open>parse_string_keyword\<close>) and the serialisation of a card list to
  header blocks (\<open>serialize_header_to_disk_bytes\<close> of \<open>src/hdu_image.rs\<close>).
\<close>

definition CARD_SIZE :: nat where "CARD_SIZE = 80"
definition BLOCK_SIZE :: nat where "BLOCK_SIZE = 2880"
definition CARDS_PER_BLOCK :: nat where "CARDS_PER_BLOCK = BLOCK_SIZE div CARD_SIZE"

lemmas fits_sizes = CARD_SIZE_def BLOCK_SIZE_def CARDS_PER_BLOCK_def

subsection \<open>Building cards\<close>

definition pad_to_card :: "string \<Rightarrow> string" where
  "pad_to_card s =
     (if length s < CARD_SIZE then s @ spaces (CARD_SIZE - length s)
      else if length s > CARD_SIZE then take CARD_SIZE s else s)"

definition with_comment :: "string \<Rightarrow> string \<Rightarrow> string" where
  "with_comment head comment = (if comment = [] then head else head @ '' / '' @ comment)"

definition card_int :: "string \<Rightarrow> int \<Rightarrow> string \<Rightarrow> string" where
  "card_int key value comment =
     pad_to_card (with_comment (fmt_left 8 key @ ''= '' @ fmt_right 20 (dec_int value)) comment)"

definition card_uint :: "string \<Rightarrow> u64 \<Rightarrow> string \<Rightarrow> string" where
  "card_uint key value comment =
     pad_to_card (with_comment (fmt_left 8 key @ ''= '' @ fmt_right 20 (dec_digits (unat value))) comment)"

definition card_logical :: "string \<Rightarrow> bool \<Rightarrow> string \<Rightarrow> string" where
  "card_logical key value comment =
     pad_to_card (with_comment
       (fmt_left 8 key @ ''= '' @ fmt_right 20 (if value then ''T'' else ''F'')) comment)"

definition card_string :: "string \<Rightarrow> string \<Rightarrow> string \<Rightarrow> string" where
  "card_string key value comment =
     (let escaped = escape value;
          padded = (if length escaped < 8 then fmt_left 8 escaped else escaped);
          quoted = [quote] @ padded @ [quote];
          head = fmt_left 8 key @ ''= '' @ quoted;
          body = (if comment = [] then head
                  else if length head \<le> 31 then head @ spaces (31 - length head) @ ''/ '' @ comment
                  else head @ '' / '' @ comment)
      in pad_to_card body)"

lemma length_pad_to_card [simp, text_simps]: "length (pad_to_card s) = 80"
  by (simp add: pad_to_card_def CARD_SIZE_def)

lemma take_pad_to_card: "n \<le> 80 \<Longrightarrow> n \<le> length s \<Longrightarrow> take n (pad_to_card s) = take n s"
  by (auto simp: pad_to_card_def CARD_SIZE_def min_def)

lemma trim_end_pad_to_card: "length s \<le> 80 \<Longrightarrow> trim_end (pad_to_card s) = trim_end s"
  by (simp add: pad_to_card_def CARD_SIZE_def)

subsection \<open>Keyword lookup\<close>

definition card_for_key :: "string \<Rightarrow> string \<Rightarrow> bool" where
  "card_for_key key cd \<longleftrightarrow> 9 \<le> length cd \<and> trim (take 8 cd) = key \<and> cd ! 8 = CHR ''=''"

definition strip_tail :: "string \<Rightarrow> string" where
  "strip_tail s = rev (dropWhile (\<lambda>c. c \<in> {quote, CHR '' '', CHR ''/''}) (rev s))"

definition first_word :: "string \<Rightarrow> string" where
  "first_word s = takeWhile (\<lambda>c. \<not> is_ws c) (trim_start s)"

fun parse_keyword :: "string list \<Rightarrow> string \<Rightarrow> int option" where
  "parse_keyword [] key = None"
| "parse_keyword (cd # cards) key =
     (if \<not> card_for_key key cd then parse_keyword cards key
      else if first_word (drop 9 cd) = [] then parse_keyword cards key
      else parse_i64 (strip_tail (first_word (drop 9 cd))))"

text \<open>The scan for the closing quote of a string value; \<open>i\<close> bytes are already passed.\<close>

fun closing_quote :: "nat \<Rightarrow> string \<Rightarrow> nat option" where
  "closing_quote i [] = None"
| "closing_quote i [c] = (if c = quote then Some i else None)"
| "closing_quote i (c # d # r) =
     (if c = quote then (if d = quote then closing_quote (i + 2) r else Some i)
      else closing_quote (i + 1) (d # r))"

fun parse_string_keyword :: "string list \<Rightarrow> string \<Rightarrow> string option" where
  "parse_string_keyword [] key = None"
| "parse_string_keyword (cd # cards) key =
     (if \<not> card_for_key key cd then parse_string_keyword cards key
      else
        (case trim_start (drop 9 cd) of
           [] \<Rightarrow> None
         | q # after_open \<Rightarrow>
             if q \<noteq> quote then None
             else (case closing_quote 0 after_open of None \<Rightarrow> None
                   | Some i \<Rightarrow> Some (trim_end (unescape (take i after_open))))))"

subsection \<open>Serialisation to header blocks\<close>

definition string_bytes :: "string \<Rightarrow> bytes" where
  "string_bytes s = map of_char s"

definition card_bytes :: "string \<Rightarrow> bytes" where
  "card_bytes cd = string_bytes (pad_to_card cd)"

definition div_ceil :: "nat \<Rightarrow> nat \<Rightarrow> nat" where
  "div_ceil a b = (a + b - 1) div b"

definition round_up_to_block :: "nat \<Rightarrow> nat" where
  "round_up_to_block n = div_ceil n BLOCK_SIZE * BLOCK_SIZE"

definition serialize_header_to_disk_bytes :: "string list \<Rightarrow> bytes" where
  "serialize_header_to_disk_bytes header =
     (let total_size = div_ceil (length header) CARDS_PER_BLOCK * BLOCK_SIZE;
          out = concat (map card_bytes header)
      in out @ replicate (total_size - length out) 32)"

lemma string_bytes_append [simp]: "string_bytes (xs @ ys) = string_bytes xs @ string_bytes ys"
  by (simp add: string_bytes_def)

lemma length_string_bytes [simp]: "length (string_bytes s) = length s"
  by (simp add: string_bytes_def)

lemma length_card_bytes [simp]: "length (card_bytes c) = 80"
  by (simp add: card_bytes_def)

lemma length_concat_card_bytes [simp]: "length (concat (map card_bytes cs)) = 80 * length cs"
  by (induction cs) simp_all

subsection \<open>String cards read back\<close>

definition key_ok :: "string \<Rightarrow> bool" where
  "key_ok key \<longleftrightarrow> key \<noteq> [] \<and> length key \<le> 8 \<and> \<not> is_ws (hd key) \<and> \<not> is_ws (last key)"

lemma trim_end_nonws_mid: "\<not> is_ws c \<Longrightarrow> trim_end (s @ c # r) = s @ c # trim_end r"
proof (cases "trim_end r = []")
  case True
  moreover assume "\<not> is_ws c"
  ultimately show ?thesis
    using trim_end_decomp[of r] trim_end_ws[of r "s @ [c]"] by auto
next
  case False
  then show ?thesis using trim_end_append[of r "s @ [c]"] by simp
qed

lemma trim_fmt_left_key: "key_ok key \<Longrightarrow> trim (fmt_left 8 key) = key"
proof -
  assume k: "key_ok key"
  then have "trim_start (fmt_left 8 key) = fmt_left 8 key"
    by (intro trim_start_id) (auto simp: key_ok_def fmt_left_def)
  with k show ?thesis
    by (simp add: trim_def fmt_left_def key_ok_def trim_end_id)
qed

lemma closing_quote_step: "c \<noteq> quote \<Longrightarrow> closing_quote i (c # r) = closing_quote (Suc i) r"
  by (cases r) auto

lemma closing_quote_end: "r = [] \<or> hd r \<noteq> quote \<Longrightarrow> closing_quote i (quote # r) = Some i"
  by (cases r) auto

lemma space_not_quote [simp]: "CHR '' '' \<noteq> quote" "CHR ''/'' \<noteq> quote"
  by (simp_all add: quote_def)

lemma closing_quote_spaces:
  "r = [] \<or> hd r \<noteq> quote \<Longrightarrow> closing_quote i (spaces n @ quote # r) = Some (i + n)"
  by (induction n arbitrary: i) (simp_all add: spaces_def closing_quote_step closing_quote_end)

lemma closing_quote_escape:
  assumes "r = [] \<or> hd r \<noteq> quote"
  shows "closing_quote i (escape v @ spaces n @ quote # r) = Some (i + length (escape v) + n)"
proof (induction v arbitrary: i)
  case Nil
  then show ?case using closing_quote_spaces[OF assms] by simp
next
  case (Cons c v)
  then show ?case by (cases "c = quote") (simp_all add: closing_quote_step)
qed

lemma escape_spaces [simp]: "escape (spaces n) = spaces n"
  by (rule escape_id) (use set_spaces[of n] in \<open>auto simp: quote_def\<close>)

lemma unescape_escape_spaces: "unescape (escape v @ spaces n) = v @ spaces n"
  using unescape_escape[of "v @ spaces n"] by simp

lemma pad_to_card_append:
  "length h \<le> 80 \<Longrightarrow>
   pad_to_card (h @ t) = h @ take (80 - length h) t @ spaces (80 - length h - length t)"
  by (auto simp: pad_to_card_def CARD_SIZE_def)

text \<open>The shape of a string card whose value fits: nothing before the closing quote is cut off.\<close>

lemma card_string_shape:
  assumes "length key \<le> 8" "length (escape v) \<le> 68"
  obtains r where "card_string key v comment =
      fmt_left 8 key @ ''= '' @ quote # (escape v @ spaces (8 - length (escape v))) @ quote # r"
    and "r = [] \<or> hd r \<noteq> quote"
proof -
  let ?head = "fmt_left 8 key @ ''= '' @ quote # (escape v @ spaces (8 - length (escape v))) @ [quote]"
  have len: "length ?head \<le> 80" using assms by simp
  define t where "t = (if comment = [] then []
      else if length ?head \<le> 31 then spaces (31 - length ?head) @ ''/ '' @ comment
      else '' / '' @ comment)"
  have "(if length (escape v) < 8 then fmt_left 8 (escape v) else escape v)
      = escape v @ spaces (8 - length (escape v))"
    by (simp add: fmt_left_def)
  then have body: "card_string key v comment = pad_to_card (?head @ t)"
    unfolding card_string_def Let_def t_def by simp
  have t: "t = [] \<or> hd t \<noteq> quote"
    unfolding t_def by (cases "31 - length ?head") (auto simp: spaces_def)
  let ?r = "take (80 - length ?head) t @ spaces (80 - length ?head - length t)"
  have "card_string key v comment = ?head @ ?r"
    unfolding body by (rule pad_to_card_append[OF len])
  moreover have "?r = [] \<or> hd ?r \<noteq> quote"
    using t by (cases "80 - length ?head"; cases t) (auto simp: spaces_def)
  ultimately show ?thesis by (intro that[of ?r]) simp_all
qed
lemma quote_not_ws [simp]: "\<not> is_ws quote"
  by (simp add: is_ws_def quote_def)

lemma string_card_reads:
  assumes "key_ok key" "r = [] \<or> hd r \<noteq> quote"
    and c: "c = fmt_left 8 key @ ''= '' @ quote # (escape v @ spaces n) @ quote # r"
  shows "card_for_key key c" and "parse_string_keyword (c # cs) key = Some (trim_end v)"
proof -
  have l8: "length (fmt_left 8 key) = 8" using assms(1) by (simp add: key_ok_def)
  show k: "card_for_key key c"
    using l8 trim_fmt_left_key[OF assms(1)] by (simp add: c card_for_key_def nth_append)
  have "drop 9 c = CHR '' '' # quote # (escape v @ spaces n) @ quote # r"
    using l8 by (simp add: c)
  then have "trim_start (drop 9 c) = quote # (escape v @ spaces n @ quote # r)"
    by (simp add: trim_start_def)
  with k closing_quote_escape[OF assms(2), of 0 v n] unescape_escape_spaces[of v n]
  show "parse_string_keyword (c # cs) key = Some (trim_end v)"
    by simp
qed

lemma hd_trim_end: "trim_end r = [] \<or> hd (trim_end r) = hd r"
  using trim_end_decomp[of r] by (metis hd_append)

lemma card_string_trimmed_shape:
  assumes "length key \<le> 8" "length (escape v) \<le> 68"
  obtains r where "trim_end (card_string key v comment) =
      fmt_left 8 key @ ''= '' @ quote # (escape v @ spaces (8 - length (escape v))) @ quote # r"
    and "r = [] \<or> hd r \<noteq> quote"
proof -
  obtain r where r: "card_string key v comment =
      fmt_left 8 key @ ''= '' @ quote # (escape v @ spaces (8 - length (escape v))) @ quote # r"
    "r = [] \<or> hd r \<noteq> quote"
    using card_string_shape[OF assms] by blast
  let ?h = "fmt_left 8 key @ ''= '' @ quote # (escape v @ spaces (8 - length (escape v)))"
  have "trim_end (card_string key v comment) = ?h @ quote # trim_end r"
    using trim_end_nonws_mid[of quote ?h r] by (simp add: r(1))
  then show ?thesis
    using r(2) hd_trim_end[of r] by (intro that[of "trim_end r"]) auto
qed

lemma parse_string_keyword_skip:
  "\<forall>c \<in> set cs. \<not> card_for_key key c \<Longrightarrow>
   parse_string_keyword (cs @ ds) key = parse_string_keyword ds key"
  by (induction cs) auto
end
