(* ===== verification/HduChecksum.thy ===== *)
theory HduChecksum
  imports ChecksumAscii HeaderCards
begin

text \<open>
  The DATASUM and CHECKSUM cards of an HDU (\<open>src/checksum.rs\<close> card helpers and the
  \<open>checksum_hdu_*\<close> functions of \<open>src/hdu_image.rs\<close>). An HDU is its card list and the
  bytes of its padded data section; disk I/O around them is not part of the model.
\<close>

subsection \<open>Card helpers\<close>

definition format_datasum :: "u32 \<Rightarrow> string" where
  "format_datasum csum = dec_digits (unat csum)"

definition parse_datasum :: "string \<Rightarrow> u32 option" where
  "parse_datasum s = parse_u32 (trim s)"

fun position :: "('a \<Rightarrow> bool) \<Rightarrow> 'a list \<Rightarrow> nat option" where
  "position P [] = None"
| "position P (x # xs) = (if P x then Some 0 else map_option Suc (position P xs))"

definition key_prefix_matches :: "string \<Rightarrow> string \<Rightarrow> bool" where
  "key_prefix_matches key c \<longleftrightarrow>
     length key \<le> length c \<and> upper (trim (take (length key) c)) = upper key"

definition set_or_insert_string_card ::
  "string list \<Rightarrow> string \<Rightarrow> string \<Rightarrow> string \<Rightarrow> string list" where
  "set_or_insert_string_card cards key value comment =
     (let cd = trim_end (card_string key value comment)
      in case position (key_prefix_matches key) cards of
           Some idx \<Rightarrow> cards[idx := cd]
         | None \<Rightarrow> (let pos = length cards - 1 in take pos cards @ [cd] @ drop pos cards))"

definition cards_with_datasum :: "string list \<Rightarrow> u32 \<Rightarrow> string \<Rightarrow> string list" where
  "cards_with_datasum cards csum key =
     set_or_insert_string_card cards key (format_datasum csum) ''data unit checksum''"

definition cards_with_checksum :: "string list \<Rightarrow> u32 \<Rightarrow> string \<Rightarrow> string list option" where
  "cards_with_checksum cards datasum key =
     (let new_cards = set_or_insert_string_card cards key ''0000000000000000'' ''HDU checksum'';
          hsum = compute_checksum_bytes 0 (serialize_header_to_disk_bytes new_cards);
          total = ones_complement_add hsum datasum
      in case encode_checksum_ascii total True of
           None \<Rightarrow> None
         | Some encoded \<Rightarrow>
             Some (set_or_insert_string_card new_cards key (map (\<lambda>b. char_of (unat b)) encoded)
                     ''HDU checksum''))"

subsection \<open>HDU level\<close>

text \<open>\<open>stream_data_section_checksum\<close> reads the section in pieces of 1 MiB.\<close>

definition CHUNK :: nat where "CHUNK = 1048576"

function data_chunks :: "bytes \<Rightarrow> bytes list" where
  "data_chunks bs = (if bs = [] then [] else take CHUNK bs # data_chunks (drop CHUNK bs))"
  by pat_completeness auto
termination by (relation "measure length") (auto simp: CHUNK_def)

declare data_chunks.simps [simp del]

definition stream_data_section_checksum :: "bytes \<Rightarrow> u32 \<Rightarrow> u32" where
  "stream_data_section_checksum data seed =
     stream_finish (foldl feed (stream_new seed) (data_chunks data))"

definition checksum_hdu_add_datasum :: "string list \<Rightarrow> bytes \<Rightarrow> string \<Rightarrow> string list" where
  "checksum_hdu_add_datasum cards data key =
     cards_with_datasum cards (stream_data_section_checksum data 0) key"

definition checksum_hdu_add_checksum ::
  "string list \<Rightarrow> bytes \<Rightarrow> string \<Rightarrow> string \<Rightarrow> string list option" where
  "checksum_hdu_add_checksum cards data checksum_key datasum_key =
     (let datasum = stream_data_section_checksum data 0
      in cards_with_checksum (cards_with_datasum cards datasum datasum_key) datasum checksum_key)"

definition checksum_hdu_verify_datasum :: "string list \<Rightarrow> bytes \<Rightarrow> string \<Rightarrow> bool option" where
  "checksum_hdu_verify_datasum cards data key =
     (case parse_string_keyword cards key of
        None \<Rightarrow> None
      | Some expected_str \<Rightarrow>
          (case parse_datasum (trim expected_str) of
             None \<Rightarrow> None
           | Some expected \<Rightarrow> Some (stream_data_section_checksum data 0 = expected)))"

definition checksum_hdu_verify_checksum :: "string list \<Rightarrow> bytes \<Rightarrow> string \<Rightarrow> bool option" where
  "checksum_hdu_verify_checksum cards data key =
     (case parse_string_keyword cards key of
        None \<Rightarrow> None
      | Some _ \<Rightarrow>
          (let hsum = compute_checksum_bytes 0 (serialize_header_to_disk_bytes cards)
           in Some (stream_data_section_checksum data hsum = 0xFFFFFFFF)))"

subsection \<open>The data section sum\<close>

definition data_fits :: "bytes \<Rightarrow> bool" where
  "data_fits data \<longleftrightarrow> length data mod 4 = 0 \<and> list_all chunk_fits (data_chunks data)"

lemma concat_data_chunks: "concat (data_chunks bs) = bs"
  by (induction bs rule: data_chunks.induct) (subst data_chunks.simps, simp)

lemma data_chunks_words:
  "length bs mod 4 = 0 \<Longrightarrow> c \<in> set (data_chunks bs) \<Longrightarrow> length c mod 4 = 0"
proof (induction bs rule: data_chunks.induct)
  case (1 bs)
  show ?case
  proof (cases "bs = []")
    case True
    then show ?thesis using 1(3) by (simp add: data_chunks.simps)
  next
    case False
    then consider "c = take CHUNK bs" | "c \<in> set (data_chunks (drop CHUNK bs))"
      using 1(3) data_chunks.simps[of bs] by auto
    then show ?thesis
    proof cases
      case 1
      then show ?thesis using \<open>length bs mod 4 = 0\<close> by (simp add: CHUNK_def min_def)
    next
      case 2
      have "length (drop CHUNK bs) mod 4 = 0"
        using 1(2) by (cases "length bs \<le> CHUNK") (simp_all add: CHUNK_def mod_eq_0_iff_dvd dvd_diff_nat)
      then show ?thesis using 1(1)[OF False _ 2] by simp
    qed
  qed
qed

lemma stream_data_section_exact:
  assumes "data_fits data"
  shows "unat (stream_data_section_checksum data seed) = oc_norm (unat seed + word_sum data)"
proof -
  have "stream_rep seed (foldl feed (stream_new seed) (data_chunks data))
      ([] @ concat (data_chunks data)) \<and>
      cs_carry (foldl feed (stream_new seed) (data_chunks data)) = []"
    using assms data_chunks_words[of data]
    by (intro word_pieces.fold_rep)
       (auto simp: data_fits_def list_all_iff stream_new_def stream_rep_new[unfolded stream_new_def])
  then show ?thesis
    unfolding stream_data_section_checksum_def using stream_rep_finish
    by (simp add: concat_data_chunks)
qed

subsection \<open>Cards set and found again\<close>

lemma position_Some:
  "position P xs = Some i \<Longrightarrow> i < length xs \<and> P (xs ! i) \<and> (\<forall>x \<in> set (take i xs). \<not> P x)"
  by (induction xs arbitrary: i) (auto split: if_splits)

lemma position_None: "position P xs = None \<Longrightarrow> \<forall>x \<in> set xs. \<not> P x"
  by (induction xs) (auto split: if_splits)

lemma position_append:
  "\<forall>x \<in> set as. \<not> P x \<Longrightarrow> P c \<Longrightarrow> position P (as @ c # bs) = Some (length as)"
  by (induction as) auto

text \<open>
  Setting a card puts it where the first matching card was, or before the last card; in
  both cases the cards before it do not match.
\<close>

lemma set_or_insert_split:
  obtains as bs where
    "set_or_insert_string_card cards key value comment
       = as @ trim_end (card_string key value comment) # bs"
    "\<forall>c \<in> set as. \<not> key_prefix_matches key c" "set as \<subseteq> set cards" "set bs \<subseteq> set cards"
    "length as + length bs + 1 \<le> length cards + 1"
proof (cases "position (key_prefix_matches key) cards")
  case None
  let ?p = "length cards - 1"
  show ?thesis
    using None position_None[OF None]
    by (intro that[of "take ?p cards" "drop ?p cards"])
       (auto simp: set_or_insert_string_card_def Let_def dest: in_set_takeD in_set_dropD)
next
  case (Some i)
  from position_Some[OF Some] have i: "i < length cards"
    "\<forall>c \<in> set (take i cards). \<not> key_prefix_matches key c" by auto
  then show ?thesis
    using Some
    by (intro that[of "take i cards" "drop (Suc i) cards"])
       (auto simp: set_or_insert_string_card_def Let_def upd_conv_take_nth_drop
         dest: in_set_takeD in_set_dropD)
qed

lemma set_or_insert_again:
  assumes "\<forall>c \<in> set as. \<not> key_prefix_matches key c" "key_prefix_matches key c0"
  shows "set_or_insert_string_card (as @ c0 # bs) key value comment
    = as @ trim_end (card_string key value comment) # bs"
  using position_append[OF assms]
  by (simp add: set_or_insert_string_card_def Let_def)

lemma key_ok_prefix_matches:
  assumes "key_ok key" "take (length key) c = key"
  shows "key_prefix_matches key c"
proof -
  have "trim key = key" using assms(1)
    by (auto simp: trim_def key_ok_def trim_start_id trim_end_id)
  moreover have "length key \<le> length c" using arg_cong[OF assms(2), of length] by simp
  ultimately show ?thesis using assms(2) by (simp add: key_prefix_matches_def)
qed

lemma card_string_prefix_matches:
  assumes "key_ok key" "length (escape v) \<le> 68"
  shows "key_prefix_matches key (trim_end (card_string key v comment))"
proof -
  obtain r where "trim_end (card_string key v comment) =
      fmt_left 8 key @ ''= '' @ quote # (escape v @ spaces (8 - length (escape v))) @ quote # r"
    using card_string_trimmed_shape assms by (metis key_ok_def)
  then show ?thesis
    using assms(1) by (intro key_ok_prefix_matches) (simp_all add: fmt_left_def)
qed

text \<open>A card written by \<open>set_or_insert_string_card\<close> is the one a lookup finds.\<close>

definition key_left_aligned :: "string \<Rightarrow> string \<Rightarrow> bool" where
  "key_left_aligned key c \<longleftrightarrow> (card_for_key key c \<longrightarrow> take (length key) c = key)"

lemma set_or_insert_lookup:
  assumes k: "key_ok key" and v: "length (escape v) \<le> 68"
    and al: "\<forall>c \<in> set cards. key_left_aligned key c"
  shows "parse_string_keyword (set_or_insert_string_card cards key v comment) key = Some (trim_end v)"
proof -
  obtain as bs where s: "set_or_insert_string_card cards key v comment
       = as @ trim_end (card_string key v comment) # bs"
    "\<forall>c \<in> set as. \<not> key_prefix_matches key c" "set as \<subseteq> set cards"
    by (rule set_or_insert_split)
  have "\<forall>c \<in> set as. \<not> card_for_key key c"
    using s al key_ok_prefix_matches[OF k] by (auto simp: key_left_aligned_def)
  moreover obtain r where "trim_end (card_string key v comment) =
      fmt_left 8 key @ ''= '' @ quote # (escape v @ spaces (8 - length (escape v))) @ quote # r"
    "r = [] \<or> hd r \<noteq> quote"
    using card_string_trimmed_shape v k by (metis key_ok_def)
  ultimately show ?thesis
    using string_card_reads(2)[OF k, of r _ v "8 - length (escape v)" bs]
    by (simp add: s(1) parse_string_keyword_skip)
qed

lemma digits_plain:
  assumes "\<forall>c \<in> set s. is_digit c"
  shows "escape s = s" "trim_end s = s" "trim s = s"
proof -
  have nw: "\<forall>c \<in> set s. \<not> is_ws c" using assms is_digit_not_ws by blast
  show "escape s = s" using assms by (intro escape_id) (auto simp: quote_def)
  show te: "trim_end s = s" using nw by (intro trim_end_id) auto
  show "trim s = s" unfolding trim_def using nw te by (cases s) (simp_all add: trim_start_def)
qed

lemma datasum_card_roundtrip:
  assumes "key_ok key" "\<forall>c \<in> set cards. key_left_aligned key c"
  shows "\<exists>s. parse_string_keyword (cards_with_datasum cards csum key) key = Some s
    \<and> parse_datasum (trim s) = Some csum"
proof -
  let ?s = "format_datasum csum"
  have d: "\<forall>c \<in> set ?s. is_digit c"
    using dec_digits_digits by (auto simp: format_datasum_def)
  have "length ?s \<le> 10"
    unfolding format_datasum_def using unsigned_less[of csum, where ?'a = nat]
    by (intro dec_digits_length) simp_all
  then have "parse_string_keyword (cards_with_datasum cards csum key) key = Some ?s"
    unfolding cards_with_datasum_def
    using set_or_insert_lookup[OF assms(1) _ assms(2), of ?s "''data unit checksum''"]
    by (simp add: digits_plain[OF d])
  moreover have "parse_datasum (trim ?s) = Some csum"
  proof -
    have "trim ?s = ?s" by (rule digits_plain(3)[OF d])
    moreover have "parse_u32 ?s = Some csum"
      unfolding format_datasum_def
      using parse_u32_dec_digits[of "unat csum"] unsigned_less[of csum, where ?'a = nat] by simp
    ultimately show ?thesis by (simp add: parse_datasum_def)
  qed
  ultimately show ?thesis by blast
qed

subsection \<open>The CHECKSUM card\<close>

lemma checksum_card_text:
  assumes "key_ok key" "length v = 16" "\<forall>c \<in> set v. c \<noteq> quote"
  shows "pad_to_card (trim_end (card_string key v ''HDU checksum''))
    = (fmt_left 8 key @ ''= '' @ [quote]) @ v @ (quote # ''   / HDU checksum'' @ spaces 35)"
proof -
  let ?b = "fmt_left 8 key @ ''= '' @ quote # v @ quote # ''   / HDU checksu''"
  have l8: "length (fmt_left 8 key) = 8" using assms(1) by (simp add: key_ok_def)
  have "escape v = v" using assms(3) by (intro escape_id) auto
  then have c: "card_string key v ''HDU checksum'' = ?b @ CHR ''m'' # spaces 35"
    using assms(2) l8 unfolding card_string_def Let_def
    by (simp add: pad_to_card_def CARD_SIZE_def spaces_def numeral_eq_Suc)
  have "trim_end (card_string key v ''HDU checksum'') = ?b @ [CHR ''m'']"
    unfolding c using trim_end_ws[of "spaces 35" "[]"]
    by (subst trim_end_nonws_mid) (auto simp: is_ws_def spaces_def trim_end_def)
  then show ?thesis using assms(2) l8 by (simp add: pad_to_card_def CARD_SIZE_def)
qed

lemma of_char_char_of_byte: "of_char (char_of (unat b)) = (b :: u8)"
proof -
  have "of_char (char_of (unat b)) = (of_nat (of_char (char_of (unat b))) :: u8)"
    by (simp only: of_nat_of_char)
  also have "\<dots> = b" using unsigned_less[of b, where ?'a = nat] by (simp only: of_char_of) simp
  finally show ?thesis .
qed

lemma string_bytes_chars: "string_bytes (map (\<lambda>b. char_of (unat b)) bs) = bs"
  by (simp add: string_bytes_def of_char_char_of_byte o_def)

lemma wsum_replace:
  assumes "length x = length y" "length p mod 4 = 3"
  shows "word_sum (p @ x @ s) + wsum 3 y = word_sum (p @ y @ s) + wsum 3 x"
  using wsum_mod[of "length p" x] wsum_mod[of "length p" y] assms
  by (simp add: word_sum_wsum wsum_append)

lemma serialize_length:
  "length cs \<le> 3276 \<Longrightarrow> length (serialize_header_to_disk_bytes cs) \<le> 262144"
  using div_le_mono[of "length cs + 35" 3311 36]
  by (simp add: serialize_header_to_disk_bytes_def Let_def div_ceil_def fits_sizes add.commute)

lemma serialize_replace:
  assumes "length x = length y" and "card_bytes t = p @ x @ q" "card_bytes u = p @ y @ q"
    and "length p mod 4 = 3"
  shows "word_sum (serialize_header_to_disk_bytes (as @ t # bs)) + wsum 3 y
    = word_sum (serialize_header_to_disk_bytes (as @ u # bs)) + wsum 3 x"
proof -
  let ?tl = "q @ concat (map card_bytes bs)
     @ replicate (div_ceil (Suc (length as + length bs)) CARDS_PER_BLOCK * BLOCK_SIZE
        - (80 * length as + (80 + 80 * length bs))) 32"
  have "serialize_header_to_disk_bytes (as @ t # bs) = (concat (map card_bytes as) @ p) @ x @ ?tl"
    by (simp add: serialize_header_to_disk_bytes_def Let_def assms(2)[symmetric])
  moreover have "serialize_header_to_disk_bytes (as @ u # bs) = (concat (map card_bytes as) @ p) @ y @ ?tl"
    by (simp add: serialize_header_to_disk_bytes_def Let_def assms(3)[symmetric])
  moreover have "length (concat (map card_bytes as) @ p) mod 4 = 3"
    using assms(4) by (simp add: mod_simps) presburger
  ultimately show ?thesis using wsum_replace[OF assms(1)] by metis
qed


lemma key_left_aligned_written:
  assumes "key_ok k2"
  shows "key_left_aligned key (fmt_left 8 k2 @ r)"
proof -
  have "length (fmt_left 8 k2) = 8" using assms by (simp add: key_ok_def)
  then have "card_for_key key (fmt_left 8 k2 @ r) \<Longrightarrow> key = k2"
    using trim_fmt_left_key[OF assms] by (simp add: card_for_key_def)
  then show ?thesis
    by (auto simp: key_left_aligned_def fmt_left_def)
qed

lemma key_left_aligned_set_or_insert:
  assumes "key_ok k2" "length (escape v) \<le> 68" "\<forall>c \<in> set cards. key_left_aligned key c"
  shows "\<forall>c \<in> set (set_or_insert_string_card cards k2 v comment). key_left_aligned key c"
proof -
  obtain as bs where s: "set_or_insert_string_card cards k2 v comment
       = as @ trim_end (card_string k2 v comment) # bs"
    "set as \<subseteq> set cards" "set bs \<subseteq> set cards"
    by (rule set_or_insert_split)
  obtain r where "trim_end (card_string k2 v comment) = fmt_left 8 k2 @ r"
    using card_string_trimmed_shape[of k2 v comment] assms by (metis key_ok_def)
  with s assms key_left_aligned_written[OF assms(1)] show ?thesis by auto
qed

lemma encoded_no_quote:
  assumes "\<forall>b \<in> set enc. alnum (uint (b :: u8))"
  shows "\<forall>c \<in> set (map (\<lambda>b. char_of (unat b)) enc). c \<noteq> quote"
proof -
  have "char_of (unat b) \<noteq> quote" if "alnum (uint b)" for b :: u8
  proof
    assume "char_of (unat b) = quote"
    then have "b = 39" using of_char_char_of_byte[of b] by (simp add: quote_def)
    then show False using that by (simp add: alnum_def)
  qed
  with assms show ?thesis by auto
qed

text \<open>Filling in the encoded complement makes the header and the data sum to all ones.\<close>

lemma checksum_cards:
  assumes k: "key_ok key" and len: "length cards \<le> 3275"
    and "cards_with_checksum cards datasum key = Some out"
  shows "oc_norm (unat (compute_checksum_bytes 0 (serialize_header_to_disk_bytes out)) + unat datasum)
      = 4294967295"
proof -
  let ?z = "''0000000000000000''"
  let ?new = "set_or_insert_string_card cards key ?z ''HDU checksum''"
  define hsum where "hsum = compute_checksum_bytes 0 (serialize_header_to_disk_bytes ?new)"
  define total where "total = ones_complement_add hsum datasum"
  obtain enc where enc: "encode_checksum_ascii total True = Some enc" "length enc = 16"
    "\<forall>b \<in> set enc. alnum (uint b)"
    by (rule encode_checksum_ascii_shape)
  let ?v = "map (\<lambda>b. char_of (unat b)) enc :: string"
  let ?t = "trim_end (card_string key ?z ''HDU checksum'')"
  let ?u = "trim_end (card_string key ?v ''HDU checksum'')"
  have out: "out = set_or_insert_string_card ?new key ?v ''HDU checksum''"
    using assms(3) enc(1) unfolding cards_with_checksum_def Let_def
    by (simp add: total_def hsum_def)
  obtain as bs where s: "?new = as @ ?t # bs"
    "\<forall>c \<in> set as. \<not> key_prefix_matches key c" "length as + length bs + 1 \<le> length cards + 1"
    by (rule set_or_insert_split)
  have zq: "\<forall>c \<in> set ?z. c \<noteq> quote" by (simp add: quote_def)
  then have "escape ?z = ?z" by (intro escape_id) blast
  then have "key_prefix_matches key ?t" using card_string_prefix_matches[OF k] by simp
  then have o: "out = as @ ?u # bs"
    using set_or_insert_again[OF s(2)] by (simp add: out s(1))
  let ?p = "string_bytes (fmt_left 8 key @ ''= '' @ [quote])"
  let ?q = "string_bytes (quote # ''   / HDU checksum'' @ spaces 35)"
  have zb: "string_bytes ?z = zeros16"
    by (simp add: zeros16_list string_bytes_def)
  have t: "card_bytes ?t = ?p @ zeros16 @ ?q"
    unfolding card_bytes_def zb[symmetric]
    by (subst checksum_card_text[OF k _ zq]) (simp_all only: string_bytes_append, simp)
  have u: "card_bytes ?u = ?p @ enc @ ?q"
    unfolding card_bytes_def
    by (subst checksum_card_text[OF k _ encoded_no_quote[OF enc(3)]])
       (simp_all only: string_bytes_append string_bytes_chars, simp add: enc(2))
  let ?H = "\<lambda>cs. serialize_header_to_disk_bytes cs"
  have "length ?p mod 4 = 3" using k by (simp add: key_ok_def)
  then have "word_sum (?H (as @ ?u # bs)) + wsum 3 zeros16 = word_sum (?H (as @ ?t # bs)) + wsum 3 enc"
    using enc(2) by (intro serialize_replace[OF _ u t]) (simp_all add: zeros16_def)
  then have w: "word_sum (?H out) = word_sum (?H ?new) + unat (NOT total)"
    using wsum_encoded[OF enc(1)] by (simp add: o s(1))
  have fits: "chunk_fits (?H ?new)" "chunk_fits (?H out)"
    using s(3) len by (auto intro!: chunk_fits_short serialize_length simp: s(1) o)
  have tot: "unat total = oc_norm (word_sum (?H ?new) + unat datasum)"
    unfolding total_def ones_complement_add_exact hsum_def
    by (simp add: compute_checksum_bytes_exact[OF fits(1)])
  have neg: "unat total + unat (NOT total) = 4294967295"
  proof -
    have n: "NOT total = - 1 - total" by (simp add: not_eq_complement)
    have "unat (- 1 - total) = unat (- 1 :: u32) - unat total"
      by (rule unat_sub) (rule word_n1_ge)
    moreover have "unat (- 1 :: u32) = 4294967295"
      by (simp add: unsigned_minus_1_eq_mask mask_eq_exp_minus_1)
    ultimately show ?thesis
      using unsigned_less[of total, where ?'a = nat] by (simp add: n)
  qed
  have "oc_norm (unat (compute_checksum_bytes 0 (?H out)) + unat datasum)
      = oc_norm ((word_sum (?H ?new) + unat datasum) + unat (NOT total))"
    by (simp add: compute_checksum_bytes_exact[OF fits(2)] w add_ac)
  also have "\<dots> = oc_norm (unat total + unat (NOT total))"
    unfolding tot by simp
  finally show ?thesis by (simp add: neg oc_norm_small)
qed


lemma checksum_cards_lookup:
  assumes k: "key_ok key" and al: "\<forall>c \<in> set cards. key_left_aligned key c"
    and c: "cards_with_checksum cards datasum key = Some out"
  shows "\<exists>s. parse_string_keyword out key = Some s"
proof -
  let ?z = "''0000000000000000''"
  let ?new = "set_or_insert_string_card cards key ?z ''HDU checksum''"
  let ?total = "ones_complement_add (compute_checksum_bytes 0 (serialize_header_to_disk_bytes ?new)) datasum"
  obtain enc where enc: "encode_checksum_ascii ?total True = Some enc" "length enc = 16"
    "\<forall>b \<in> set enc. alnum (uint b)"
    by (rule encode_checksum_ascii_shape)
  let ?v = "map (\<lambda>b. char_of (unat b)) enc :: string"
  have out: "out = set_or_insert_string_card ?new key ?v ''HDU checksum''"
    using c enc(1) unfolding cards_with_checksum_def Let_def by simp
  have "escape ?z = ?z" by (rule escape_id) (auto simp: quote_def)
  then have al': "\<forall>c \<in> set ?new. key_left_aligned key c"
    by (intro key_left_aligned_set_or_insert[OF k _ al]) simp
  have "escape ?v = ?v" using encoded_no_quote[OF enc(3)] by (intro escape_id) blast
  then have "length (escape ?v) \<le> 68" using enc(2) by simp
  from set_or_insert_lookup[OF k this al'] show ?thesis by (simp add: out)
qed

lemma format_datasum_short: "length (escape (format_datasum csum)) \<le> 68"
proof -
  have "length (format_datasum csum) \<le> 10"
    unfolding format_datasum_def using unsigned_less[of csum, where ?'a = nat]
    by (intro dec_digits_length) simp_all
  moreover have "escape (format_datasum csum) = format_datasum csum"
    using dec_digits_digits by (intro digits_plain) (auto simp: format_datasum_def)
  ultimately show ?thesis by simp
qed

lemma oc_norm_all_ones_dvd: "oc_norm n = 4294967295 \<Longrightarrow> (4294967295 :: int) dvd int n"
proof -
  assume o: "oc_norm n = 4294967295"
  obtain k where "n = oc_norm n + k * 4294967295" using oc_norm_decomp by blast
  then have "int n = 4294967295 * (1 + int k)" unfolding o by simp
  then show ?thesis by (rule dvdI)
qed

lemma word_sum_byte_change:
  assumes "i < length bs" "bs ! i \<noteq> b"
  obtains r p where "word_sum bs = r + unat (bs ! i) * p" "word_sum (bs[i := b]) = r + unat b * p"
    "\<not> (4294967295 :: int) dvd int (unat (bs ! i) * p) - int (unat b * p)"
proof -
  let ?x = "unat (bs ! i)" and ?y = "unat b" and ?p = "256 ^ (3 - i mod 4) :: nat"
  let ?r = "wsum 0 (take i bs) + wsum (Suc i) (drop (Suc i) bs)"

  have "word_sum (take i bs @ [c] @ drop (Suc i) bs) = ?r + unat c * ?p" for c
    using assms(1) by (simp add: word_sum_wsum wsum_append min_def)
  from this[of "bs ! i"] this[of b]
  have s: "word_sum bs = ?r + ?x * ?p" "word_sum (bs[i := b]) = ?r + ?y * ?p"
    using assms(1) by (simp_all add: id_take_nth_drop[symmetric] upd_conv_take_nth_drop)
  have ne: "int ?x \<noteq> int ?y" using assms(2) by (simp only: of_nat_eq_iff word_unat_eq_iff[symmetric] not_False_eq_True)
  have b: "int ?x < 256" "int ?y < 256"
    using unsigned_less[of "bs ! i", where ?'a = int] unsigned_less[of b, where ?'a = int]
    by simp_all
  have "256 ^ (3 - i mod 4) \<le> (256 ^ 3 :: int)" by (rule power_increasing) simp_all
  then have p: "0 < int ?p" "int ?p \<le> 16777216" by simp_all
  have d: "\<bar>int ?x - int ?y\<bar> \<le> 255" using b by linarith
  have "\<not> (4294967295 :: int) dvd (int ?x - int ?y) * int ?p"
  proof
    assume dv: "(4294967295 :: int) dvd (int ?x - int ?y) * int ?p"
    have "\<bar>(int ?x - int ?y) * int ?p\<bar> \<le> 255 * 16777216"
      unfolding abs_mult abs_of_pos[OF p(1)] by (rule mult_mono) (use d p in linarith)+
    moreover have "(int ?x - int ?y) * int ?p \<noteq> 0" using ne p by simp
    ultimately show False using dv dvd_imp_le_int[of "(int ?x - int ?y) * int ?p" 4294967295]
      by simp
  qed
  then show ?thesis using s by (intro that[OF s]) (simp add: algebra_simps)
qed

lemma verify_checksum_exact:
  assumes "data_fits data" "length cards \<le> 3276"
  shows "checksum_hdu_verify_checksum cards data key =
    map_option (\<lambda>_. oc_norm (word_sum (serialize_header_to_disk_bytes cards) + word_sum data)
       = 4294967295) (parse_string_keyword cards key)"
proof -
  let ?h = "compute_checksum_bytes 0 (serialize_header_to_disk_bytes cards)"
  have f: "chunk_fits (serialize_header_to_disk_bytes cards)"
    using assms(2) by (intro chunk_fits_short serialize_length)
  have "unat (stream_data_section_checksum data ?h)
      = oc_norm (word_sum (serialize_header_to_disk_bytes cards) + word_sum data)"
    by (simp add: stream_data_section_exact[OF assms(1)] compute_checksum_bytes_exact[OF f])
  moreover have "w = 0xFFFFFFFF \<longleftrightarrow> unat w = 4294967295" for w :: u32
    by (simp add: word_unat_eq_iff)
  ultimately show ?thesis
    by (simp add: checksum_hdu_verify_checksum_def Let_def split: option.split)
qed

lemma parse_string_keyword_skip_one:
  "\<not> card_for_key k x \<Longrightarrow> parse_string_keyword (as @ x # bs) k = parse_string_keyword (as @ bs) k"
  by (induction as) auto

lemma lookup_other_key:
  assumes k: "key_ok key" "length key = 8" and k2: "upper k2 \<noteq> upper key"
    and v: "length (escape v) \<le> 68"
  shows "parse_string_keyword (set_or_insert_string_card cards key v comment) k2
    = parse_string_keyword cards k2"
proof -
  let ?c = "trim_end (card_string key v comment)"
  obtain r where r: "?c = fmt_left 8 key @ r"
    using card_string_trimmed_shape[of key v comment] k(2) v by (metis order_refl)
  have "\<not> card_for_key k2 ?c"
    using k2 k(2) trim_fmt_left_key[OF k(1)] unfolding r card_for_key_def by auto
  note new = parse_string_keyword_skip_one[OF this]
  show ?thesis
  proof (cases "position (key_prefix_matches key) cards")
    case None
    then show ?thesis using new[of "take (length cards - 1) cards" "drop (length cards - 1) cards"]
      by (simp add: set_or_insert_string_card_def Let_def)
  next
    case (Some i)
    from position_Some[OF this] have i: "i < length cards" "key_prefix_matches key (cards ! i)"
      by auto
    then have "\<not> card_for_key k2 (cards ! i)"
      using k2 k(2) by (auto simp: key_prefix_matches_def card_for_key_def)
    from parse_string_keyword_skip_one[OF this, of "take i cards" "drop (Suc i) cards"] new i(1) Some
    show ?thesis
      by (simp add: set_or_insert_string_card_def Let_def id_take_nth_drop[symmetric]
          upd_conv_take_nth_drop)
  qed
qed

lemma checksum_cards_other_key:
  assumes "cards_with_checksum cards datasum key = Some out"
    "key_ok key" "length key = 8" "upper k2 \<noteq> upper key"
  shows "parse_string_keyword out k2 = parse_string_keyword cards k2"
proof -
  let ?z = "''0000000000000000''"
  let ?new = "set_or_insert_string_card cards key ?z ''HDU checksum''"
  let ?total = "ones_complement_add (compute_checksum_bytes 0 (serialize_header_to_disk_bytes ?new)) datasum"
  obtain enc where enc: "encode_checksum_ascii ?total True = Some enc" "length enc = 16"
    "\<forall>b \<in> set enc. alnum (uint b)"
    by (rule encode_checksum_ascii_shape)
  let ?v = "map (\<lambda>b. char_of (unat b)) enc :: string"
  have out: "out = set_or_insert_string_card ?new key ?v ''HDU checksum''"
    using assms(1) enc(1) unfolding cards_with_checksum_def Let_def by simp
  have "escape ?z = ?z" by (rule escape_id) (auto simp: quote_def)
  moreover have "escape ?v = ?v" using encoded_no_quote[OF enc(3)] by (intro escape_id) blast
  ultimately show ?thesis
    unfolding out by (simp add: lookup_other_key[OF assms(2,3,4)] enc(2))
qed

lemma added_checksum_verifies:
  assumes k: "key_ok ck" "key_ok dk" and len: "length cards \<le> 3274"
    and al: "\<forall>c \<in> set cards. key_left_aligned ck c"
    and fits: "data_fits data"
    and add: "checksum_hdu_add_checksum cards data ck dk = Some out"
  shows "checksum_hdu_verify_checksum out data ck = Some True"
proof -
  let ?D = "stream_data_section_checksum data 0"
  let ?c1 = "cards_with_datasum cards ?D dk"
  have c: "cards_with_checksum ?c1 ?D ck = Some out"
    using add by (simp add: checksum_hdu_add_checksum_def Let_def)
  obtain as bs where s: "?c1 = as @ trim_end (card_string dk (format_datasum ?D) ''data unit checksum'') # bs"
    "length as + length bs + 1 \<le> length cards + 1"
    unfolding cards_with_datasum_def by (rule set_or_insert_split)
  have al1: "\<forall>c \<in> set ?c1. key_left_aligned ck c"
    unfolding cards_with_datasum_def
    by (rule key_left_aligned_set_or_insert[OF k(2) format_datasum_short al])
  have out: "\<exists>s. parse_string_keyword out ck = Some s"
    by (rule checksum_cards_lookup[OF k(1) al1 c])
  let ?h = "compute_checksum_bytes 0 (serialize_header_to_disk_bytes out)"
  have "oc_norm (unat ?h + unat ?D) = 4294967295"
    using checksum_cards[OF k(1) _ c] s(2) len by (simp add: s(1))
  then have "unat (stream_data_section_checksum data ?h) = 4294967295"
    using stream_data_section_exact[OF fits, of ?h] stream_data_section_exact[OF fits, of 0] by simp
  then have "stream_data_section_checksum data ?h = 0xFFFFFFFF"
    by (intro word_unat_eq_iff[THEN iffD2]) simp
  then show ?thesis
    using out by (auto simp: checksum_hdu_verify_checksum_def Let_def)
qed

lemma checksum_card_written: "\<exists>out. cards_with_checksum cards datasum key = Some out"
proof -
  let ?new = "set_or_insert_string_card cards key ''0000000000000000'' ''HDU checksum''"
  obtain enc where "encode_checksum_ascii (ones_complement_add
      (compute_checksum_bytes 0 (serialize_header_to_disk_bytes ?new)) datasum) True = Some enc"
    by (rule encode_checksum_ascii_shape)
  then show ?thesis by (simp add: cards_with_checksum_def Let_def)
qed

lemma set_or_insert_length:
  "length (set_or_insert_string_card cards key v comment) \<le> length cards + 1"
proof -
  obtain as bs where "set_or_insert_string_card cards key v comment
      = as @ trim_end (card_string key v comment) # bs" "length as + length bs + 1 \<le> length cards + 1"
    by (rule set_or_insert_split)
  then show ?thesis by simp
qed

lemma checksum_hdu_add_checksum_length:
  assumes "checksum_hdu_add_checksum cards data ck dk = Some out"
  shows "length out \<le> length cards + 3"
proof -
  let ?D = "stream_data_section_checksum data 0"
  let ?c1 = "cards_with_datasum cards ?D dk"
  let ?new = "set_or_insert_string_card ?c1 ck ''0000000000000000'' ''HDU checksum''"
  have 1: "length ?c1 \<le> length cards + 1"
    unfolding cards_with_datasum_def by (rule set_or_insert_length)
  have 2: "length ?new \<le> length ?c1 + 1" by (rule set_or_insert_length)
  obtain v where "out = set_or_insert_string_card ?new ck v ''HDU checksum''"
    using assms by (auto simp: checksum_hdu_add_checksum_def cards_with_checksum_def Let_def
      split: option.splits)
  then have "length out \<le> length ?new + 1" by (simp only: set_or_insert_length)
  with 1 2 show ?thesis by simp
qed

lemma data_chunks_single: "length bs = CHUNK \<Longrightarrow> data_chunks bs = [bs]"
  by (subst data_chunks.simps) (auto simp: CHUNK_def data_chunks.simps)

subsection \<open>Properties\<close>

text \<open>
  C4: \<open>checksum_hdu_add_checksum\<close> always succeeds, and on the header it writes both
  \<open>checksum_hdu_verify_checksum\<close> and \<open>checksum_hdu_verify_datasum\<close> answer yes: the whole HDU
  sums to all ones and the DATASUM card reads back as the data sum. The header may have any
  cards whose keywords start in column 1, up to 3274 of them; the 1 MiB pieces of the
  data must be in the range where the half sums are exact.
\<close>

theorem checksum_add_then_verify:
  assumes "key_ok ck" "length ck = 8" "key_ok dk" "upper dk \<noteq> upper ck" "length cards \<le> 3274"
    and "\<forall>c \<in> set cards. key_left_aligned ck c \<and> key_left_aligned dk c"
    and "data_fits data"
  shows "\<exists>out. checksum_hdu_add_checksum cards data ck dk = Some out \<and>
    checksum_hdu_verify_checksum out data ck = Some True \<and>
    checksum_hdu_verify_datasum out data dk = Some True"
proof -
  let ?D = "stream_data_section_checksum data 0"
  let ?c1 = "cards_with_datasum cards ?D dk"
  obtain out where out: "cards_with_checksum ?c1 ?D ck = Some out"
    using checksum_card_written by blast
  then have add: "checksum_hdu_add_checksum cards data ck dk = Some out"
    by (simp add: checksum_hdu_add_checksum_def Let_def)
  obtain s where s: "parse_string_keyword ?c1 dk = Some s" "parse_datasum (trim s) = Some ?D"
    using datasum_card_roundtrip[OF assms(3)] assms(6) by blast
  have "parse_string_keyword out dk = Some s"
    using checksum_cards_other_key[OF out assms(1,2,4)] s(1) by simp
  with s(2) have "checksum_hdu_verify_datasum out data dk = Some True"
    by (simp add: checksum_hdu_verify_datasum_def)
  moreover have "checksum_hdu_verify_checksum out data ck = Some True"
    using added_checksum_verifies[OF assms(1,3,5) _ assms(7) add] assms(6) by blast
  ultimately show ?thesis using add by blast
qed

theorem checksum_add_then_verify_witness:
  "\<exists>out. checksum_hdu_add_checksum
        [''SIMPLE  =                    T'', ''CHECKSUM= old     '', ''END''] [1, 2, 3, 4]
        ''CHECKSUM'' ''DATASUM'' = Some out \<and>
    checksum_hdu_verify_checksum out [1, 2, 3, 4] ''CHECKSUM'' = Some True \<and>
    checksum_hdu_verify_datasum out [1, 2, 3, 4] ''DATASUM'' = Some True"
proof (rule checksum_add_then_verify)
  have "data_chunks [1, 2, 3, 4] = [[1, 2, 3, 4]]"
    by (simp add: data_chunks.simps CHUNK_def)
  then show "data_fits [1, 2, 3, 4]"
    by (simp add: data_fits_def chunk_fits_short)
qed (simp_all add: key_ok_def is_ws_def upper_def upper_char_def key_left_aligned_def
    card_for_key_def trim_def trim_start_def trim_end_def)



text \<open>
  C15: the DATASUM card written by \<open>checksum_hdu_add_datasum\<close> verifies against the same data,
  for any data at all (both sides run the same sum).
\<close>

theorem datasum_add_then_verify:
  assumes "key_ok dk" "\<forall>c \<in> set cards. key_left_aligned dk c"
  shows "checksum_hdu_verify_datasum (checksum_hdu_add_datasum cards data dk) data dk = Some True"
  using datasum_card_roundtrip[OF assms, of "stream_data_section_checksum data 0"]
  by (auto simp: checksum_hdu_verify_datasum_def checksum_hdu_add_datasum_def)

theorem datasum_add_then_verify_witness:
  "checksum_hdu_verify_datasum (checksum_hdu_add_datasum [''END''] [255, 0, 7] ''DATASUM'')
     [255, 0, 7] ''DATASUM'' = Some True"
  by (rule datasum_add_then_verify) (simp_all add: key_ok_def is_ws_def key_left_aligned_def card_for_key_def)

text \<open>
  C14: past 65537 words in one piece the \<open>u32\<close> half sums of \<open>compute_checksum_bytes\<close> wrap and lose
  carries. The pieces of \<open>stream_data_section_checksum\<close> are 262144 words long, so a section of
  1 MiB of \<open>0xFF\<close> bytes, whose ones'-complement sum is all ones, sums to \<open>0xFFFCFFFC\<close>.
\<close>

theorem data_section_sum_overflows:
  "stream_data_section_checksum (replicate 1048576 255) 0 = 0xFFFCFFFC \<and>
   oc_norm (word_sum (replicate 1048576 255)) = 0xFFFFFFFF"
proof
  let ?bs = "replicate (4 * 262144) 255 :: bytes"
  have "stream_data_section_checksum ?bs 0 = stream_finish (feed (stream_new 0) ?bs)"
    unfolding stream_data_section_checksum_def by (subst data_chunks_single) (simp_all only: length_replicate, simp_all add: CHUNK_def)
  also have "feed (stream_new 0) ?bs = \<lparr>cs_seed = compute_checksum_bytes 0 ?bs, cs_carry = []\<rparr>"
    unfolding feed_def feed_aligned_def Let_def length_replicate stream_new_def by simp
  also have "stream_finish \<dots> = compute_checksum_bytes 0 ?bs" by (simp add: stream_finish_def)
  also have "\<dots> = carry_loop 0xFFFC0000 0xFFFC0000"
  proof -
    have n: "0 + of_nat 262144 * 65535 = (0xFFFC0000 :: u32)" by simp
    have z: "drop_bit 16 (0 :: u32) = 0" "(0 :: u32) AND 0xFFFF = 0" by simp_all
    show ?thesis
      unfolding compute_checksum_bytes_def sum_words_replicate_ff z n Let_def prod.case ..
  qed
  also have "\<dots> = 0xFFFCFFFC"
    by (simp add: carry_loop.simps drop_bit_eq_div)
  finally show "stream_data_section_checksum (replicate 1048576 255) 0 = 0xFFFCFFFC"
    by simp
  have "oc_norm (word_sum ?bs) = 0xFFFFFFFF"
    unfolding word_sum_replicate_ff by (simp add: oc_norm_def)
  then show "oc_norm (word_sum (replicate 1048576 255)) = 0xFFFFFFFF" by simp
qed

end
