(* ===== verification/TileCache.thy ===== *)
theory TileCache
  imports Prelude
begin

text \<open>
  The byte-bounded LRU cache of decoded tiles (\<open>src/cache.rs\<close>). The \<open>lru\<close> crate is not part
  of the repository: its operations are the fields of a record the model is given, with the
  crate's documented behaviour stated in the locale \<open>lru_crate\<close> over the recency list of the
  cache (least recently used entry first). The mutex is always free here: each operation of
  the cache holds the lock to its end.
\<close>

subsection \<open>The operations of the \<open>lru\<close> crate\<close>

record ('l, 'k) lru_ops =
  op_unbounded :: 'l
  op_get :: "'l \<Rightarrow> 'k \<Rightarrow> 'l \<times> bytes option"
  op_put :: "'l \<Rightarrow> 'k \<Rightarrow> bytes \<Rightarrow> 'l"
  op_pop :: "'l \<Rightarrow> 'k \<Rightarrow> 'l \<times> bytes option"
  op_pop_lru :: "'l \<Rightarrow> 'l \<times> ('k \<times> bytes) option"
  op_clear :: "'l \<Rightarrow> 'l"

subsection \<open>The cache\<close>

record 'l cache =
  lru :: 'l
  cur_bytes :: nat
  max_bytes :: nat

definition cache_new :: "('l, 'k) lru_ops \<Rightarrow> nat \<Rightarrow> 'l cache" where
  "cache_new ops m = \<lparr>lru = op_unbounded ops, cur_bytes = 0, max_bytes = m\<rparr>"

definition capacity :: "'l cache \<Rightarrow> nat" where
  "capacity c = max_bytes c"

definition used_bytes :: "'l cache \<Rightarrow> nat" where
  "used_bytes c = cur_bytes c"

definition cache_get :: "('l, 'k) lru_ops \<Rightarrow> 'l cache \<Rightarrow> 'k \<Rightarrow> 'l cache \<times> bytes option" where
  "cache_get ops c key = (let (l, r) = op_get ops (lru c) key in (c\<lparr>lru := l\<rparr>, r))"

text \<open>
  \<open>saturating_sub\<close> is subtraction on \<open>nat\<close>. The eviction loop ends when the budget is met or
  the crate has nothing left to evict.
\<close>

partial_function (option) evict ::
  "('l, 'k) lru_ops \<Rightarrow> nat \<Rightarrow> nat \<Rightarrow> 'l \<Rightarrow> nat \<Rightarrow> ('l \<times> nat) option" where
  "evict ops cap sz l cur =
     (if cur + sz > cap then
        (case op_pop_lru ops l of
           (l', Some (_, val)) \<Rightarrow> evict ops cap sz l' (cur - length val)
         | (l', None) \<Rightarrow> Some (l', cur))
      else Some (l, cur))"

definition cache_put ::
  "('l, 'k) lru_ops \<Rightarrow> 'l cache \<Rightarrow> 'k \<Rightarrow> bytes \<Rightarrow> 'l cache option" where
  "cache_put ops c key bs =
     (let cap = capacity c; sz = length bs
      in if cap = 0 then Some c
         else if sz > cap then Some c
         else
           (let (l1, old) = op_pop ops (lru c) key;
                cur1 = (case old of Some v \<Rightarrow> cur_bytes c - length v | None \<Rightarrow> cur_bytes c)
            in case evict ops cap sz l1 cur1 of
                 None \<Rightarrow> None
               | Some (l2, cur2) \<Rightarrow>
                   Some (c\<lparr>lru := op_put ops l2 key bs, cur_bytes := cur2 + sz\<rparr>)))"

definition cache_set_capacity ::
  "('l, 'k) lru_ops \<Rightarrow> 'l cache \<Rightarrow> nat \<Rightarrow> 'l cache option" where
  "cache_set_capacity ops c m =
     (case evict ops m 0 (lru c) (cur_bytes c) of
        None \<Rightarrow> None
      | Some (l, cur) \<Rightarrow> Some (c\<lparr>lru := l, cur_bytes := cur, max_bytes := m\<rparr>))"

definition cache_clear :: "('l, 'k) lru_ops \<Rightarrow> 'l cache \<Rightarrow> 'l cache" where
  "cache_clear ops c = c\<lparr>lru := op_clear ops (lru c), cur_bytes := 0\<rparr>"

subsection \<open>Recency lists\<close>

definition remove_key :: "'k \<Rightarrow> ('k \<times> bytes) list \<Rightarrow> ('k \<times> bytes) list" where
  "remove_key k es = filter (\<lambda>e. fst e \<noteq> k) es"

definition total_bytes :: "('k \<times> bytes) list \<Rightarrow> nat" where
  "total_bytes es = sum_list (map (\<lambda>e. length (snd e)) es)"

fun evict_list :: "nat \<Rightarrow> nat \<Rightarrow> ('k \<times> bytes) list \<Rightarrow> ('k \<times> bytes) list" where
  "evict_list cap sz [] = []"
| "evict_list cap sz (e # es) =
     (if total_bytes (e # es) + sz > cap then evict_list cap sz es else e # es)"

lemma total_bytes_simps [simp]:
  "total_bytes [] = 0"
  "total_bytes (e # es) = length (snd e) + total_bytes es"
  "total_bytes (es @ fs) = total_bytes es + total_bytes fs"
  by (simp_all add: total_bytes_def)

lemma remove_key_simps [simp]:
  "remove_key k [] = []"
  "k \<notin> fst ` set (remove_key k es)"
  "remove_key k (es @ fs) = remove_key k es @ remove_key k fs"
  by (auto simp: remove_key_def)

lemma remove_key_absent: "k \<notin> fst ` set es \<Longrightarrow> remove_key k es = es"
  unfolding remove_key_def by (rule filter_True) auto

lemma total_bytes_remove:
  "distinct (map fst es) \<Longrightarrow> map_of es k = Some v \<Longrightarrow>
   total_bytes es = total_bytes (remove_key k es) + length v"
proof (induction es)
  case (Cons e es)
  then show ?case
    by (cases "fst e = k") (auto simp: remove_key_absent[unfolded remove_key_def] remove_key_def
      image_iff)
qed simp

lemma evict_list_suffix: "\<exists>pre. es = pre @ evict_list cap sz es"
proof (induction es)
  case (Cons e es)
  then obtain pre where "es = pre @ evict_list cap sz es" by blast
  then have "e # es = (e # pre) @ evict_list cap sz es" by simp
  moreover have "evict_list cap sz (e # es) = evict_list cap sz es \<or> evict_list cap sz (e # es) = e # es"
    by simp
  ultimately show ?case by (metis append_Nil)
qed simp

lemma evict_list_budget: "sz \<le> cap \<Longrightarrow> total_bytes (evict_list cap sz es) + sz \<le> cap"
  by (induction es) auto

lemma map_of_suffix:
  "distinct (map fst (pre @ es)) \<Longrightarrow> map_of es k = Some v \<Longrightarrow> map_of (pre @ es) k = Some v"
  by (induction pre) (auto dest: map_of_SomeD intro: rev_image_eqI)

lemma distinct_remove: "distinct (map fst es) \<Longrightarrow> distinct (map fst (remove_key k es))"
  unfolding remove_key_def by (rule distinct_map_filter)

lemma remove_key_map: "map_of (remove_key k es) j = (if j = k then None else map_of es j)"
  by (induction es) (auto simp: remove_key_def)

lemma map_of_move_last:
  "map_of es k = Some v \<Longrightarrow> map_of (remove_key k es @ [(k, v)]) = map_of es"
proof
  fix j
  assume "map_of es k = Some v"
  then show "map_of (remove_key k es @ [(k, v)]) j = map_of es j"
    by (auto simp: map_add_def remove_key_map split: option.split)
qed

definition cached :: "('l \<Rightarrow> ('k \<times> bytes) list) \<Rightarrow> 'l cache \<Rightarrow> 'k \<Rightarrow> bytes option" where
  "cached entries c k = map_of (entries (lru c)) k"

definition cache_inv :: "('l \<Rightarrow> ('k \<times> bytes) list) \<Rightarrow> 'l cache \<Rightarrow> bool" where
  "cache_inv entries c \<longleftrightarrow> distinct (map fst (entries (lru c))) \<and>
     cur_bytes c = total_bytes (entries (lru c)) \<and> cur_bytes c \<le> max_bytes c"

subsection \<open>Runs of the cache and its client\<close>

text \<open>Every sequence of calls from a fresh cache, one step per public operation.\<close>

inductive cache_reach :: "('l, 'k) lru_ops \<Rightarrow> 'l cache \<Rightarrow> bool" for ops where
  start: "cache_reach ops (cache_new ops m)"
| get: "cache_reach ops c \<Longrightarrow> cache_get ops c k = (c', r) \<Longrightarrow> cache_reach ops c'"
| put: "cache_reach ops c \<Longrightarrow> cache_put ops c k v = Some c' \<Longrightarrow> cache_reach ops c'"
| resize: "cache_reach ops c \<Longrightarrow> cache_set_capacity ops c m = Some c' \<Longrightarrow> cache_reach ops c'"
| clear: "cache_reach ops c \<Longrightarrow> cache_reach ops (cache_clear ops c)"

text \<open>
  The cache protocol of \<open>get_or_decode_tile\<close>: a hit is answered from the cache, a miss is
  fetched and decoded (\<open>load\<close>, which may fail) and then stored.
\<close>

definition get_or_decode ::
  "('l, 'k) lru_ops \<Rightarrow> 'l cache \<Rightarrow> ('k \<Rightarrow> 'e + bytes) \<Rightarrow> 'k \<Rightarrow> (('e + bytes) \<times> 'l cache) option" where
  "get_or_decode ops c load key =
     (case cache_get ops c key of
        (c1, Some arc) \<Rightarrow> Some (Inr arc, c1)
      | (c1, None) \<Rightarrow>
          (case load key of
             Inl e \<Rightarrow> Some (Inl e, c1)
           | Inr arc \<Rightarrow> map_option (Pair (Inr arc)) (cache_put ops c1 key arc)))"

definition cache_sound :: "('l \<Rightarrow> ('k \<times> bytes) list) \<Rightarrow> ('k \<Rightarrow> 'e + bytes) \<Rightarrow> 'l cache \<Rightarrow> bool" where
  "cache_sound entries load c \<longleftrightarrow> (\<forall>k v. cached entries c k = Some v \<longrightarrow> load k = Inr v)"

subsection \<open>What the crate promises\<close>

locale lru_crate =
  fixes ops :: "('l, 'k) lru_ops"
    and entries :: "'l \<Rightarrow> ('k \<times> bytes) list"
  assumes entries_unbounded: "entries (op_unbounded ops) = []"
    and entries_clear: "entries (op_clear ops l) = []"
    and get_miss: "map_of (entries l) k = None \<Longrightarrow>
      \<exists>l'. op_get ops l k = (l', None) \<and> entries l' = entries l"
    and get_hit: "map_of (entries l) k = Some v \<Longrightarrow>
      \<exists>l'. op_get ops l k = (l', Some v) \<and> entries l' = remove_key k (entries l) @ [(k, v)]"
    and put_entries: "entries (op_put ops l k v) = remove_key k (entries l) @ [(k, v)]"
    and pop_entries: "\<exists>l'. op_pop ops l k = (l', map_of (entries l) k) \<and> entries l' = remove_key k (entries l)"
    and pop_lru_empty: "entries l = [] \<Longrightarrow> \<exists>l'. op_pop_lru ops l = (l', None) \<and> entries l' = []"
    and pop_lru_entries: "entries l = e # es \<Longrightarrow> \<exists>l'. op_pop_lru ops l = (l', Some e) \<and> entries l' = es"
begin

lemma evict_entries:
  "\<exists>l'. evict ops cap sz l (total_bytes (entries l)) = Some (l', total_bytes (entries l'))
     \<and> entries l' = evict_list cap sz (entries l)"
proof (induction "entries l" arbitrary: l)
  case Nil
  obtain l' where "op_pop_lru ops l = (l', None)" "entries l' = []"
    using pop_lru_empty Nil by metis
  then show ?case by (subst evict.simps) (simp add: Nil[symmetric])
next
  case (Cons e es)
  obtain l' where l': "op_pop_lru ops l = (l', Some e)" "entries l' = es"
    using pop_lru_entries Cons(2) by metis
  have "total_bytes (e # es) - length (snd e) = total_bytes (entries l')"
    using l'(2) by simp
  with Cons(1)[of l'] l' show ?case
    by (subst evict.simps) (auto simp: Cons(2)[symmetric] split: prod.split)
qed

lemma new_inv: "cache_inv entries (cache_new ops m)"
  by (simp add: cache_inv_def cache_new_def entries_unbounded)

lemma clear_inv: "cache_inv entries (cache_clear ops c)"
  by (simp add: cache_inv_def cache_clear_def entries_clear)

lemma get_lookup:
  assumes "cache_inv entries c"
  obtains c' where "cache_get ops c k = (c', cached entries c k)" "cache_inv entries c'"
    "cached entries c' = cached entries c" "max_bytes c' = max_bytes c"
proof (cases "map_of (entries (lru c)) k")
  case None
  with get_miss obtain l' where "op_get ops (lru c) k = (l', None)" "entries l' = entries (lru c)"
    by blast
  with None assms show ?thesis
    by (intro that[of "c\<lparr>lru := l'\<rparr>"]) (auto simp: cache_get_def cached_def cache_inv_def)
next
  case (Some v)
  with get_hit obtain l' where l': "op_get ops (lru c) k = (l', Some v)"
    "entries l' = remove_key k (entries (lru c)) @ [(k, v)]"
    by blast
  have "map_of (entries l') = map_of (entries (lru c))"
    unfolding l'(2) using Some by (intro map_of_move_last)
  with l' Some assms show ?thesis
    by (intro that[of "c\<lparr>lru := l'\<rparr>"])
       (auto simp: cache_get_def cached_def cache_inv_def total_bytes_remove distinct_remove)
qed

lemma put_effect:
  assumes "cache_inv entries c"
  obtains c' where "cache_put ops c k v = Some c'" "cache_inv entries c'" "max_bytes c' = max_bytes c"
    "entries (lru c') = (if max_bytes c = 0 \<or> length v > max_bytes c then entries (lru c)
       else evict_list (max_bytes c) (length v) (remove_key k (entries (lru c))) @ [(k, v)])"
proof (cases "max_bytes c = 0 \<or> length v > max_bytes c")
  case True
  then show ?thesis using assms by (intro that[of c]) (auto simp: cache_put_def capacity_def Let_def)
next
  case False
  let ?m = "max_bytes c" and ?es = "remove_key k (entries (lru c))"
  obtain l1 where l1: "op_pop ops (lru c) k = (l1, map_of (entries (lru c)) k)" "entries l1 = ?es"
    using pop_entries by metis
  have cur: "(case map_of (entries (lru c)) k of Some v \<Rightarrow> cur_bytes c - length v | None \<Rightarrow> cur_bytes c)
      = total_bytes (entries l1)"
    using assms total_bytes_remove[of "entries (lru c)" k] remove_key_absent[of k "entries (lru c)"]
    by (auto simp: cache_inv_def l1(2) map_of_eq_None_iff split: option.split)
  obtain l2 where l2: "evict ops ?m (length v) l1 (total_bytes (entries l1)) = Some (l2, total_bytes (entries l2))"
    "entries l2 = evict_list ?m (length v) ?es"
    using evict_entries[of ?m "length v" l1] l1(2) by auto
  let ?c = "c\<lparr>lru := op_put ops l2 k v, cur_bytes := total_bytes (entries l2) + length v\<rparr>"
  obtain pre where pre: "?es = pre @ entries l2" using evict_list_suffix l2(2) by metis
  have d: "distinct (map fst ?es)" "k \<notin> fst ` set ?es"
    using assms by (auto simp: cache_inv_def distinct_remove)
  then have k: "k \<notin> fst ` set (entries l2)" "distinct (map fst (entries l2))"
    unfolding pre by auto
  have e: "entries (lru ?c) = entries l2 @ [(k, v)]"
    using k by (simp add: put_entries remove_key_absent)
  have "cache_inv entries ?c"
    unfolding cache_inv_def e using k evict_list_budget[of "length v" ?m ?es] False
    by (simp add: l2(2))
  moreover have "cache_put ops c k v = Some ?c"
    using False l1(1) l2(1) cur by (simp add: cache_put_def capacity_def Let_def)
  ultimately show ?thesis using False e l2(2) by (intro that[of ?c]) simp_all
qed

lemma set_capacity_effect:
  assumes "cache_inv entries c"
  obtains c' where "cache_set_capacity ops c m = Some c'" "cache_inv entries c'" "max_bytes c' = m"
    "entries (lru c') = evict_list m 0 (entries (lru c))"
proof -
  obtain l where l: "evict ops m 0 (lru c) (cur_bytes c) = Some (l, total_bytes (entries l))"
    "entries l = evict_list m 0 (entries (lru c))"
    using evict_entries[of m 0 "lru c"] assms by (auto simp: cache_inv_def)
  obtain pre where "entries (lru c) = pre @ entries l" using evict_list_suffix l(2) by metis
  then have "distinct (map fst (entries l))"
    using assms by (auto simp: cache_inv_def)
  moreover define c' where "c' = c\<lparr>lru := l, cur_bytes := total_bytes (entries l), max_bytes := m\<rparr>"
  ultimately have "cache_inv entries c'"
    using evict_list_budget[of 0 m "entries (lru c)"] by (simp add: cache_inv_def l(2))
  moreover have "cache_set_capacity ops c m = Some c'"
    by (simp add: cache_set_capacity_def l(1) c'_def)
  moreover have "max_bytes c' = m" "entries (lru c') = evict_list m 0 (entries (lru c))"
    by (simp_all add: c'_def l(2))
  ultimately show ?thesis by (intro that) simp_all
qed

text \<open>What a lookup answers after an insertion.\<close>

lemma cached_put:
  assumes "cache_inv entries c" "cache_put ops c k v = Some c'"
  shows "0 < max_bytes c \<Longrightarrow> length v \<le> max_bytes c \<Longrightarrow> cached entries c' k = Some v"
    and "cached entries c' j = Some w \<Longrightarrow> (j = k \<and> w = v) \<or> cached entries c j = Some w"
proof -
  let ?es = "remove_key k (entries (lru c))" and ?m = "max_bytes c"
  have e: "entries (lru c') = (if ?m = 0 \<or> length v > ?m then entries (lru c)
      else evict_list ?m (length v) ?es @ [(k, v)])"
    using put_effect[OF assms(1), of k v] assms(2) by (metis option.inject)
  obtain pre where pre: "?es = pre @ evict_list ?m (length v) ?es" using evict_list_suffix by metis
  have d: "distinct (map fst ?es)" using assms(1) by (simp add: cache_inv_def distinct_remove)
  have k: "map_of (evict_list ?m (length v) ?es) k = None"
    using remove_key_simps(2)[of k "entries (lru c)"] pre
    by (metis UnI2 image_Un map_of_eq_None_iff set_append)
  then show "0 < ?m \<Longrightarrow> length v \<le> ?m \<Longrightarrow> cached entries c' k = Some v"
    by (simp add: cached_def e map_add_def)
  have old: "map_of (entries (lru c)) j = Some w"
    if "map_of (evict_list ?m (length v) ?es) j = Some w"
  proof -
    have "map_of ?es j = Some w" using map_of_suffix[of pre _ j w] d pre that by metis
    then show ?thesis by (simp add: remove_key_map split: if_splits)
  qed
  assume "cached entries c' j = Some w"
  then show "(j = k \<and> w = v) \<or> cached entries c j = Some w"
    using old by (auto simp: cached_def e map_add_def split: if_splits option.splits)
qed

lemma reach_inv: "cache_reach ops c \<Longrightarrow> cache_inv entries c"
proof (induction rule: cache_reach.induct)
  case (start m)
  show ?case by (rule new_inv)
next
  case (get c k c' r)
  then show ?case using get_lookup[OF get.IH, of k] by (metis prod.inject)
next
  case (put c k v c')
  then show ?case using put_effect[OF put.IH, of k v] by (metis option.inject)
next
  case (resize c m c')
  then show ?case using set_capacity_effect[OF resize.IH, of m] by (metis option.inject)
next
  case (clear c)
  show ?case by (rule clear_inv)
qed

lemma get_or_decode_transparent:
  assumes inv: "cache_inv entries c" and snd: "cache_sound entries load c"
  obtains c' where "get_or_decode ops c load k = Some (load k, c')"
    "cache_inv entries c'" "cache_sound entries load c'" "max_bytes c' = max_bytes c"
proof -
  obtain c1 where c1: "cache_get ops c k = (c1, cached entries c k)" "cache_inv entries c1"
    "cached entries c1 = cached entries c" "max_bytes c1 = max_bytes c"
    by (rule get_lookup[OF inv])
  have snd1: "cache_sound entries load c1" using snd by (simp add: cache_sound_def c1(3))
  show ?thesis
  proof (cases "cached entries c k")
    case (Some v)
    then have "load k = Inr v" using snd by (simp add: cache_sound_def)
    with Some c1 snd1 show ?thesis by (intro that[of c1]) (simp_all add: get_or_decode_def)
  next
    case None
    show ?thesis
    proof (cases "load k")
      case (Inl e)
      with None c1 snd1 show ?thesis by (intro that[of c1]) (simp_all add: get_or_decode_def)
    next
      case (Inr v)
      obtain c2 where c2: "cache_put ops c1 k v = Some c2" "cache_inv entries c2" "max_bytes c2 = max_bytes c1"
        by (rule put_effect[OF c1(2)])
      have "cache_sound entries load c2"
        unfolding cache_sound_def
      proof (intro allI impI)
        fix j w assume "cached entries c2 j = Some w"
        then show "load j = Inr w"
          using cached_put(2)[OF c1(2) c2(1)] snd1 Inr by (metis cache_sound_def)
      qed
      with None Inr c1 c2 show ?thesis by (intro that[of c2]) (simp_all add: get_or_decode_def)
    qed
  qed
qed

end

subsection \<open>The documented behaviour as a list\<close>

definition list_get :: "('k \<times> bytes) list \<Rightarrow> 'k \<Rightarrow> ('k \<times> bytes) list \<times> bytes option" where
  "list_get es k = (case map_of es k of None \<Rightarrow> (es, None) | Some v \<Rightarrow> (remove_key k es @ [(k, v)], Some v))"

fun list_pop_lru :: "('k \<times> bytes) list \<Rightarrow> ('k \<times> bytes) list \<times> ('k \<times> bytes) option" where
  "list_pop_lru [] = ([], None)"
| "list_pop_lru (e # es) = (es, Some e)"

definition list_lru :: "(('k \<times> bytes) list, 'k) lru_ops" where
  "list_lru = \<lparr>op_unbounded = [], op_get = list_get,
     op_put = \<lambda>es k v. remove_key k es @ [(k, v)],
     op_pop = \<lambda>es k. (remove_key k es, map_of es k),
     op_pop_lru = list_pop_lru, op_clear = \<lambda>_. []\<rparr>"

interpretation list_lru: lru_crate list_lru id
  by unfold_locales (auto simp: list_lru_def list_get_def)

subsection \<open>Properties\<close>

text \<open>
  C6: in every state the cache can reach by any sequence of \<open>new\<close>, \<open>get\<close>, \<open>put\<close>, \<open>set_capacity\<close>
  and \<open>clear\<close>, the byte counter is the size of what is stored, stays within the current
  capacity, and no key is stored twice.
\<close>

theorem cache_within_budget:
  assumes "lru_crate ops entries" "cache_reach ops c"
  shows "used_bytes c = total_bytes (entries (lru c)) \<and> used_bytes c \<le> capacity c \<and>
    distinct (map fst (entries (lru c)))"
  using lru_crate.reach_inv[OF assms] by (simp add: cache_inv_def used_bytes_def capacity_def)

theorem cache_within_budget_witness:
  "\<exists>c. cache_put list_lru (cache_new list_lru 10) (1 :: nat) [1, 2, 3] = Some c \<and>
     used_bytes c = total_bytes (id (lru c)) \<and> used_bytes c \<le> capacity c \<and>
     distinct (map fst (id (lru c)))"
proof -
  obtain c where c: "cache_put list_lru (cache_new list_lru 10) (1 :: nat) [1, 2, 3] = Some c"
    by (rule list_lru.put_effect[OF list_lru.new_inv])
  then have "cache_reach list_lru c" by (rule cache_reach.put[OF cache_reach.start])
  from cache_within_budget[OF list_lru.lru_crate_axioms this] c show ?thesis by blast
qed

text \<open>
  \<open>put\<close> ends and, when the value fits the (non-zero) capacity, the key is then found with
  that value; every other key is found with its old value or has been evicted; when it does
  not fit nothing changes.
\<close>

theorem cache_put_get:
  assumes "lru_crate ops entries" "cache_reach ops c"
  shows "\<exists>c'. cache_put ops c k v = Some c' \<and>
    (if 0 < capacity c \<and> length v \<le> capacity c then snd (cache_get ops c' k) = Some v else c' = c) \<and>
    (\<forall>j w. j \<noteq> k \<longrightarrow> cached entries c' j = Some w \<longrightarrow> cached entries c j = Some w)"
proof -
  have inv: "cache_inv entries c" by (rule lru_crate.reach_inv[OF assms])
  obtain c' where c': "cache_put ops c k v = Some c'" "cache_inv entries c'"
    by (rule lru_crate.put_effect[OF assms(1) inv])
  obtain c2 where "cache_get ops c' k = (c2, cached entries c' k)"
    by (rule lru_crate.get_lookup[OF assms(1) c'(2)])
  then have "0 < capacity c \<and> length v \<le> capacity c \<Longrightarrow> snd (cache_get ops c' k) = Some v"
    using lru_crate.cached_put(1)[OF assms(1) inv c'(1)] by (simp add: capacity_def)
  moreover have "\<not> (0 < capacity c \<and> length v \<le> capacity c) \<Longrightarrow> c' = c"
    using c'(1) by (auto simp: cache_put_def Let_def split: if_splits)
  moreover have "\<forall>j w. j \<noteq> k \<longrightarrow> cached entries c' j = Some w \<longrightarrow> cached entries c j = Some w"
    using lru_crate.cached_put(2)[OF assms(1) inv c'(1)] by blast
  ultimately show ?thesis using c'(1) by (intro exI[of _ c']) simp
qed

theorem cache_put_get_witness:
  "\<exists>c'. cache_put list_lru (cache_new list_lru 4) (1 :: nat) [7, 8] = Some c' \<and>
    (if 0 < capacity (cache_new (list_lru :: (_, nat) lru_ops) 4) \<and>
        length [7, 8 :: u8] \<le> capacity (cache_new (list_lru :: (_, nat) lru_ops) 4)
     then snd (cache_get list_lru c' 1) = Some [7, 8] else c' = cache_new list_lru 4) \<and>
    (\<forall>j w. j \<noteq> 1 \<longrightarrow> cached id c' j = Some w \<longrightarrow> cached id (cache_new list_lru 4) j = Some w)"
  by (rule cache_put_get[OF list_lru.lru_crate_axioms cache_reach.start])

text \<open>
  C7: caching is transparent: \<open>get_or_decode_tile\<close> returns exactly what fetching and decoding
  the tile gives (its error included), whatever is cached and evicted, as long as the cached
  buffers are decodes of the same file state; and it keeps that condition.
\<close>

theorem cached_read_transparent:
  assumes "lru_crate ops entries" "cache_inv entries c" "cache_sound entries load c"
  shows "\<exists>c'. get_or_decode ops c load k = Some (load k, c') \<and> cache_inv entries c' \<and>
    cache_sound entries load c'"
  using lru_crate.get_or_decode_transparent[OF assms] by metis

theorem cached_read_transparent_witness:
  "\<exists>c'. get_or_decode list_lru (cache_new list_lru 100)
        (\<lambda>i :: nat. if i < 3 then Inr [of_nat i] else Inl ''no such tile'') 2 = Some (Inr [2], c') \<and>
     cache_inv id c' \<and>
     cache_sound id (\<lambda>i. if i < 3 then Inr [of_nat i] else Inl ''no such tile'') c'"
proof -
  let ?load = "\<lambda>i :: nat. if i < 3 then Inr [of_nat i] else Inl ''no such tile'' :: string + bytes"
  have s: "cache_sound id ?load (cache_new list_lru 100)"
    by (simp add: cache_sound_def cached_def cache_new_def list_lru_def)
  have "?load 2 = Inr [2]" by simp
  with cached_read_transparent[OF list_lru.lru_crate_axioms list_lru.new_inv s, of 2]
  show ?thesis by (simp only:)
qed

end
