(* ===== verification/Pixels.thy ===== *)
theory Pixels
  imports Prelude
begin

text \<open>
  What the tile codecs share: their errors, checked size arithmetic, the byte swap between
  the big-endian file order and the host order (\<open>byteswap_in_place\<close> of \<open>src/common.rs\<close>), and
  buffers filled by indexed writes.
\<close>

subsection \<open>Errors\<close>

datatype codec_error =
    UnsupportedBytepix nat
  | UnsupportedZbitpix int
  | BadWidth nat int
  | SizeOverflow
  | WrongLength nat nat
  | NotMultiple nat nat
  | GzipFailed string
  | OddPayload nat
  | HeaderTruncated nat
  | NegativeLength
  | NegativeOffset
  | LengthPastEnd nat nat
  | OffsetPastEnd nat nat
  | OutputOverflow nat
  | MissingHighWord
  | UnknownOpcode nat nat
  | NegativePixel nat
  | PixelTooLarge nat
  | ZeroBlocksize
  | TooManyBits
  | EndOfStream
  | UnaryTooLong
  | Rice64NotSupported
  | TileNot2D nat
  | UnknownCompression string
  | BadMagic
  | BadDims int int
  | BufferMismatch int int nat
  | DimsMismatch nat nat nat nat
  | BadFormatCode
  | MissingEof
  | NegativeScale int
  | Panic

text \<open>\<open>usize::checked_mul\<close> on a 64-bit host.\<close>

definition checked_mul :: "nat \<Rightarrow> nat \<Rightarrow> codec_error + nat" where
  "checked_mul a b = (if a * b < 2 ^ 64 then Inr (a * b) else Inl SizeOverflow)"

text \<open>A result that is not a panic and whose value, if there is one, satisfies \<open>P\<close>.\<close>

definition no_panic :: "('a \<Rightarrow> bool) \<Rightarrow> codec_error + 'a \<Rightarrow> bool" where
  "no_panic P r \<longleftrightarrow> r \<noteq> Inl Panic \<and> (\<forall>x. r = Inr x \<longrightarrow> P x)"

lemma no_panic_Inr [simp]: "no_panic P (Inr x) \<longleftrightarrow> P x"
  by (simp add: no_panic_def)

lemma no_panic_Inl [simp]: "no_panic P (Inl e) \<longleftrightarrow> e \<noteq> Panic"
  by (simp add: no_panic_def)

lemma no_panic_bind:
  "no_panic P r \<Longrightarrow> (\<And>x. P x \<Longrightarrow> no_panic Q (f x)) \<Longrightarrow> no_panic Q (res_bind r f)"
  by (cases r) (simp_all add: no_panic_def)

lemma no_panic_mono: "no_panic P r \<Longrightarrow> (\<And>x. P x \<Longrightarrow> Q x) \<Longrightarrow> no_panic Q r"
  by (simp add: no_panic_def)

subsection \<open>Byte order\<close>

text \<open>\<open>chunks_exact_mut(k)\<close> with \<open>reverse\<close>: whole chunks are reversed, a short rest is kept.\<close>

function rev_chunks :: "nat \<Rightarrow> 'a list \<Rightarrow> 'a list" where
  "rev_chunks k xs =
     (if k = 0 \<or> length xs < k then xs else rev (take k xs) @ rev_chunks k (drop k xs))"
  by pat_completeness auto
termination by (relation "measure (\<lambda>(k, xs). length xs)") auto

declare rev_chunks.simps [simp del]

text \<open>
  \<open>swap_chunks_2\<close>, \<open>_4\<close> and \<open>_8\<close> split the buffer with \<open>align_to_mut\<close>: \<open>h\<close> bytes up to the first
  address aligned for the integer type, the aligned middle, and a rest of fewer than \<open>k\<close> bytes.
  The integers of the middle are byte-swapped, which reverses each of them in memory.
\<close>

definition swap_chunks :: "nat \<Rightarrow> nat \<Rightarrow> 'a list \<Rightarrow> 'a list" where
  "swap_chunks k h buf =
     (let body = (length buf - h) div k * k
      in rev_chunks k (take h buf) @ rev_chunks k (take body (drop h buf))
           @ rev_chunks k (drop body (drop h buf)))"

definition byteswap_in_place :: "nat \<Rightarrow> 'a list \<Rightarrow> nat \<Rightarrow> 'a list" where
  "byteswap_in_place h buf itemsize =
     (if itemsize = 0 \<or> itemsize = 1 then buf
      else if itemsize = 2 then swap_chunks 2 h buf
      else if itemsize = 4 then swap_chunks 4 h buf
      else if itemsize = 8 then swap_chunks 8 h buf
      else if itemsize = 16 then swap_chunks 8 h buf
      else rev_chunks itemsize buf)"

text \<open>
  The guard every caller puts around the swap. The buffers of the codecs are fresh vectors,
  whose allocation is aligned (\<open>h = 0\<close>).
\<close>

definition to_native :: "bool \<Rightarrow> nat \<Rightarrow> bytes \<Rightarrow> bytes" where
  "to_native big bytepix bs =
     (if bytepix > 1 \<and> \<not> big then byteswap_in_place 0 bs bytepix else bs)"

lemma rev_chunks_short: "k = 0 \<or> length xs < k \<Longrightarrow> rev_chunks k xs = xs"
  by (subst rev_chunks.simps) auto

lemma rev_chunks_Nil [simp]: "rev_chunks k [] = []"
  by (subst rev_chunks.simps) auto

lemma rev_chunks_chunk:
  "length c = k \<Longrightarrow> 0 < k \<Longrightarrow> rev_chunks k (c @ xs) = rev c @ rev_chunks k xs"
  by (subst rev_chunks.simps) auto

lemma rev_chunks_1 [simp]: "rev_chunks (Suc 0) xs = xs"
proof (induction xs)
  case (Cons x xs)
  then show ?case using rev_chunks_chunk[of "[x]" "Suc 0" xs] by simp
qed simp

lemma length_rev_chunks [simp]: "length (rev_chunks k xs) = length xs"
proof (induction k xs rule: rev_chunks.induct)
  case (1 k xs)
  then show ?case by (subst rev_chunks.simps) auto
qed

lemma rev_chunks_append:
  "length xs mod k = 0 \<Longrightarrow> rev_chunks k (xs @ ys) = rev_chunks k xs @ rev_chunks k ys"
proof (induction k xs rule: rev_chunks.induct)
  case (1 k xs)
  show ?case
  proof (cases "k = 0 \<or> length xs < k")
    case True
    then show ?thesis using 1(2) by (auto simp: rev_chunks_short)
  next
    case False
    have "length (drop k xs) mod k = 0"
      using 1(2) False by (simp add: mod_eq_0_iff_dvd dvd_diff_nat)
    then have "rev_chunks k (drop k xs @ ys) = rev_chunks k (drop k xs) @ rev_chunks k ys"
      using 1(1) False by simp
    with False show ?thesis by (subst (1 2) rev_chunks.simps) auto
  qed
qed

lemma rev_chunks_involution: "rev_chunks k (rev_chunks k xs) = xs"
proof (induction k xs rule: rev_chunks.induct)
  case (1 k xs)
  show ?case
  proof (cases "k = 0 \<or> length xs < k")
    case True
    then show ?thesis by (simp add: rev_chunks_short)
  next
    case False
    then have "rev_chunks k (rev_chunks k xs) = rev_chunks k (rev (take k xs) @ rev_chunks k (drop k xs))"
      by (subst (2) rev_chunks.simps) simp
    also have "\<dots> = rev (rev (take k xs)) @ rev_chunks k (rev_chunks k (drop k xs))"
      using False by (intro rev_chunks_chunk) auto
    finally show ?thesis using 1 False by simp
  qed
qed

lemma swap_chunks_aligned: "0 < k \<Longrightarrow> swap_chunks k 0 buf = rev_chunks k buf"
proof -
  assume k: "0 < k"
  let ?b = "length buf div k * k"
  have "length (take ?b buf) mod k = 0" by (simp add: min_absorb2)
  from rev_chunks_append[OF this, of "drop ?b buf"] show ?thesis
    by (simp add: swap_chunks_def Let_def)
qed

lemma byteswap_aligned:
  "itemsize \<in> {1, 2, 4, 8} \<Longrightarrow> byteswap_in_place 0 buf itemsize = rev_chunks itemsize buf"
  by (auto simp: byteswap_in_place_def swap_chunks_aligned)

lemma to_native_eq:
  "bytepix \<in> {1, 2, 4, 8} \<Longrightarrow> to_native big bytepix bs = (if big then bs else rev_chunks bytepix bs)"
  by (auto simp: to_native_def byteswap_aligned)

lemma length_to_native [simp]:
  "bytepix \<in> {1, 2, 4, 8} \<Longrightarrow> length (to_native big bytepix bs) = length bs"
  by (simp add: to_native_eq)

lemma rev_chunks_concat:
  "\<forall>c \<in> set cs. length c = k \<Longrightarrow> 0 < k \<Longrightarrow> rev_chunks k (concat cs) = concat (map rev cs)"
  by (induction cs) (simp_all add: rev_chunks_chunk)

text \<open>Swapping the big-endian encodings of integers gives their host encodings.\<close>

lemma to_native_words:
  "bytepix \<in> {1, 2, 4, 8} \<Longrightarrow>
   to_native big bytepix (concat (map (to_be bytepix) ws)) = concat (map (to_ne big bytepix) ws)"
proof -
  assume b: "bytepix \<in> {1, 2, 4, 8}"
  then have "rev_chunks bytepix (concat (map (to_be bytepix) ws)) = concat (map rev (map (to_be bytepix) ws))"
    by (intro rev_chunks_concat) auto
  then show ?thesis by (simp add: to_native_eq[OF b] to_ne_def[abs_def] o_def)
qed

lemma to_native_inject:
  "bytepix \<in> {1, 2, 4, 8} \<Longrightarrow> to_native big bytepix p = to_native big bytepix q \<Longrightarrow> p = q"
  by (metis to_native_eq rev_chunks_involution)

lemma concat_chunks:
  "length bs = n * k \<Longrightarrow> concat (map (\<lambda>i. take k (drop (i * k) bs)) [0..<n]) = bs"
proof (induction n arbitrary: bs)
  case (Suc n)
  have "map (\<lambda>i. take k (drop (i * k) bs)) [0..<Suc n]
      = take k bs # map (\<lambda>i. take k (drop (i * k) (drop k bs))) [0..<n]"
    by (simp add: upt_conv_Cons map_Suc_upt[symmetric] o_def add.commute del: upt_Suc)
  then show ?case using Suc.IH[of "drop k bs"] Suc.prems by simp
qed simp

lemma native_words:
  assumes "length bs = n * k" "k \<in> {1, 2, 4, 8}" "8 * k = LENGTH('a::len)"
  shows "concat (map (\<lambda>i. to_ne big k (from_be (take k (drop (i * k) bs)) :: 'a word)) [0..<n])
    = to_native big k bs"
proof -
  let ?ws = "map (\<lambda>i. from_be (take k (drop (i * k) bs)) :: 'a word) [0..<n]"
  have l: "length (take k (drop (i * k) bs)) = k" if "i < n" for i
    using that mult_le_mono1[of "Suc i" n k] assms(1) by simp
  have m: "map (to_be k) ?ws = map (\<lambda>i. take k (drop (i * k) bs)) [0..<n]"
    unfolding map_map by (rule map_cong[OF refl]) (use l assms(3) in \<open>simp add: to_be_from_be\<close>)
  have "concat (map (to_be k) ?ws) = bs" by (simp only: m concat_chunks[OF assms(1)])
  with to_native_words[OF assms(2), of big ?ws] show ?thesis by (simp add: o_def)
qed

subsection \<open>Buffers filled by indexed writes\<close>

text \<open>
  A buffer of uninitialised bytes (\<open>None\<close>) and a sequence of writes; \<open>those\<close> is the read that is
  defined only when every byte has been written.
\<close>

definition write_all :: "(nat \<times> 'a) list \<Rightarrow> 'a option list \<Rightarrow> 'a option list" where
  "write_all ws out = foldl (\<lambda>o' (p, v). o'[p := Some v]) out ws"

lemma length_write_all [simp]: "length (write_all ws out) = length out"
  unfolding write_all_def by (induction ws arbitrary: out) (auto split: prod.split)

lemma write_all_nth:
  assumes "\<forall>(p, v) \<in> set ws. p < length xs \<and> v = xs ! p" "k < length out" "length out = length xs"
  shows "write_all ws out ! k = (if k \<in> fst ` set ws then Some (xs ! k) else out ! k)"
  using assms
proof (induction ws arbitrary: out)
  case Nil
  then show ?case by (simp add: write_all_def)
next
  case (Cons w ws)
  obtain p v where w: "w = (p, v)" by (cases w)
  have "write_all (w # ws) out = write_all ws (out[p := Some v])"
    by (simp add: write_all_def w)
  then show ?case using Cons w by (auto simp: nth_list_update)
qed

lemma those_Some: "those (map Some xs) = Some xs"
  by (induction xs) simp_all

lemma write_all_complete:
  assumes "\<forall>(p, v) \<in> set ws. p < length xs \<and> v = xs ! p" "\<forall>k < length xs. k \<in> fst ` set ws"
  shows "those (write_all ws (replicate (length xs) None)) = Some xs"
proof -
  have "write_all ws (replicate (length xs) None) = map Some xs"
    using write_all_nth[OF assms(1), of _ "replicate (length xs) None"] assms(2)
    by (intro nth_equalityI) auto
  then show ?thesis by (simp add: those_Some)
qed

subsection \<open>The contract of a tile codec\<close>

text \<open>
  A lossless codec for one tile: \<open>pix\<close> are the pixel bytes in file order, decoding gives them in
  host order.
\<close>

locale tile_codec =
  fixes enc :: "bytes \<Rightarrow> codec_error + bytes"
    and dec :: "bytes \<Rightarrow> codec_error + bytes"
    and native :: "bytes \<Rightarrow> bytes"
    and ok :: "bytes \<Rightarrow> bool"
  assumes lossless: "ok pix \<Longrightarrow> res_bind (enc pix) dec = Inr (native pix)"
    and native_inject: "ok pix \<Longrightarrow> ok pix' \<Longrightarrow> native pix = native pix' \<Longrightarrow> pix = pix'"
begin

lemma encoded: "ok pix \<Longrightarrow> \<exists>c. enc pix = Inr c \<and> dec c = Inr (native pix)"
  using lossless[of pix] by (cases "enc pix") auto

lemma encode_inject: "ok pix \<Longrightarrow> ok pix' \<Longrightarrow> enc pix = enc pix' \<Longrightarrow> pix = pix'"
  using encoded native_inject by (metis sum.inject(2))

end

subsection \<open>Properties\<close>

text \<open>
  C25: on a little-endian host \<open>byteswap_in_place\<close> turns the big-endian file bytes of any list of
  integers of 2, 4 or 8 bytes into their host bytes, in an aligned buffer; applied
  again it restores the file bytes.
\<close>

theorem byteswap_host_order:
  assumes "itemsize \<in> {2, 4, 8}"
  shows "byteswap_in_place 0 (concat (map (to_be itemsize) ws)) itemsize
      = concat (map (to_ne False itemsize) ws)
    \<and> byteswap_in_place 0 (byteswap_in_place 0 bs itemsize) itemsize = bs"
proof -
  have i: "itemsize \<in> {1, 2, 4, 8}" using assms by blast
  have "to_native False itemsize b = byteswap_in_place 0 b itemsize" for b :: bytes
    using assms by (auto simp: to_native_def)
  then show ?thesis
    using to_native_words[OF i, of False ws] by (simp add: byteswap_aligned[OF i] rev_chunks_involution)
qed

theorem byteswap_host_order_witness:
  "byteswap_in_place 0 (concat (map (to_be 2) [0x0102 :: u16, 0x0304])) 2
      = concat (map (to_ne False 2) [0x0102 :: u16, 0x0304])
    \<and> byteswap_in_place 0 (byteswap_in_place 0 [1, 2, 3 :: u8] 2) 2 = [1, 2, 3]"
  by (rule byteswap_host_order) simp

text \<open>
  In a buffer that starts one byte before an aligned address the swap of 2-byte items is
  wrong: the items of the aligned middle straddle two items of the file, and the bytes outside
  the middle are not swapped at all. The comment in \<open>swap_chunks_2\<close> says they are handled.
\<close>

theorem byteswap_misaligned:
  "byteswap_in_place 1 [1, 2, 3, 4 :: u8] 2 = [1, 3, 2, 4] \<and>
   byteswap_in_place 0 [1, 2, 3, 4 :: u8] 2 = [2, 1, 4, 3]"
  by (simp add: byteswap_in_place_def swap_chunks_def rev_chunks.simps)

end
