(* ===== verification/Gzip.thy ===== *)
theory Gzip
  imports Pixels
begin

text \<open>
  The GZIP_1 and GZIP_2 tile codecs (\<open>src/zimage/gzip.rs\<close>). The \<open>flate2\<close> crate is a parameter:
  a record with its gzip encoder (by compression level) and decoder.
\<close>

record gz_lib =
  gz_encode :: "nat \<Rightarrow> bytes \<Rightarrow> string + bytes"
  gz_decode :: "bytes \<Rightarrow> string + bytes"

definition gzip_decompress :: "gz_lib \<Rightarrow> bytes \<Rightarrow> nat \<Rightarrow> codec_error + bytes" where
  "gzip_decompress gz compressed expected_len =
     (case gz_decode gz compressed of
        Inl e \<Rightarrow> Inl (GzipFailed e)
      | Inr out \<Rightarrow>
          if length out \<noteq> expected_len then Inl (WrongLength expected_len (length out)) else Inr out)"

definition gzip_compress :: "gz_lib \<Rightarrow> bytes \<Rightarrow> nat option \<Rightarrow> codec_error + bytes" where
  "gzip_compress gz bs level =
     (case gz_encode gz (case level of None \<Rightarrow> 6 | Some v \<Rightarrow> v) bs of
        Inl e \<Rightarrow> Inl (GzipFailed e)
      | Inr out \<Rightarrow> Inr out)"

text \<open>
  The writes of the two shuffling loops, in the order the loops make them. \<open>set_len\<close> at the end
  makes the whole buffer readable, so a byte never written would be undefined (\<open>None\<close>).
\<close>

definition loop_pairs :: "nat \<Rightarrow> nat \<Rightarrow> (nat \<times> nat) list" where
  "loop_pairs n_pixels bytepix = concat (map (\<lambda>j. map (\<lambda>i. (i, j)) [0..<n_pixels]) [0..<bytepix])"

definition unshuffle :: "bytes \<Rightarrow> nat \<Rightarrow> nat \<Rightarrow> bytes option" where
  "unshuffle shuffled n_pixels bytepix =
     (if length shuffled < n_pixels * bytepix then None
      else those (write_all
        (map (\<lambda>(i, j). (i * bytepix + j, shuffled ! (j * n_pixels + i))) (loop_pairs n_pixels bytepix))
        (replicate (n_pixels * bytepix) None)))"

definition shuffle :: "bytes \<Rightarrow> nat \<Rightarrow> nat \<Rightarrow> bytes option" where
  "shuffle pixels n_pixels bytepix =
     (if length pixels < n_pixels * bytepix then None
      else those (write_all
        (map (\<lambda>(i, j). (j * n_pixels + i, pixels ! (i * bytepix + j))) (loop_pairs n_pixels bytepix))
        (replicate (n_pixels * bytepix) None)))"

definition or_panic :: "'a option \<Rightarrow> codec_error + 'a" where
  "or_panic r = (case r of None \<Rightarrow> Inl Panic | Some x \<Rightarrow> Inr x)"

definition decode_gzip1 :: "gz_lib \<Rightarrow> bool \<Rightarrow> bytes \<Rightarrow> nat \<Rightarrow> nat \<Rightarrow> codec_error + bytes" where
  "decode_gzip1 gz big compressed n_pixels bytepix =
     (if bytepix \<notin> {1, 2, 4, 8} then Inl (UnsupportedBytepix bytepix)
      else res_bind (checked_mul n_pixels bytepix) (\<lambda>expected_len.
           res_bind (gzip_decompress gz compressed expected_len) (\<lambda>out.
           Inr (to_native big bytepix out))))"

definition decode_gzip2 :: "gz_lib \<Rightarrow> bool \<Rightarrow> bytes \<Rightarrow> nat \<Rightarrow> nat \<Rightarrow> codec_error + bytes" where
  "decode_gzip2 gz big compressed n_pixels bytepix =
     (if bytepix \<notin> {1, 2, 4, 8} then Inl (UnsupportedBytepix bytepix)
      else res_bind (checked_mul n_pixels bytepix) (\<lambda>expected_len.
           res_bind (gzip_decompress gz compressed expected_len) (\<lambda>shuffled.
           res_bind (if bytepix = 1 then Inr shuffled
                     else or_panic (unshuffle shuffled n_pixels bytepix)) (\<lambda>out.
           Inr (to_native big bytepix out)))))"

definition encode_gzip1 :: "gz_lib \<Rightarrow> bytes \<Rightarrow> nat option \<Rightarrow> codec_error + bytes" where
  "encode_gzip1 gz pixel_bytes_be level = gzip_compress gz pixel_bytes_be level"

definition encode_gzip2 :: "gz_lib \<Rightarrow> bytes \<Rightarrow> nat \<Rightarrow> nat option \<Rightarrow> codec_error + bytes" where
  "encode_gzip2 gz pixel_bytes_be bytepix level =
     (if bytepix \<notin> {1, 2, 4, 8} then Inl (UnsupportedBytepix bytepix)
      else if length pixel_bytes_be mod bytepix \<noteq> 0
        then Inl (NotMultiple (length pixel_bytes_be) bytepix)
      else if bytepix = 1 then gzip_compress gz pixel_bytes_be level
      else
        (let n_pixels = length pixel_bytes_be div bytepix
         in res_bind (or_panic (shuffle pixel_bytes_be n_pixels bytepix)) (\<lambda>shuffled.
            gzip_compress gz shuffled level)))"

subsection \<open>The shuffles\<close>

lemma set_loop_pairs: "set (loop_pairs n b) = {..<n} \<times> {..<b}"
  by (auto simp: loop_pairs_def)

lemma pair_index_bound: "i < n \<Longrightarrow> j < b \<Longrightarrow> i * b + j < n * (b :: nat)"
proof -
  assume "i < n" "j < b"
  then have "i * b + j < Suc i * b" by simp
  also have "\<dots> \<le> n * b" using \<open>i < n\<close> by (intro mult_le_mono1) simp
  finally show ?thesis .
qed

lemma index_pairs_cover: "k < n * b \<Longrightarrow> \<exists>i j. i < n \<and> j < b \<and> k = i * b + (j :: nat)"
proof -
  assume "k < n * b"
  then have "k div b < n" "k mod b < b"
    by (auto simp: less_mult_imp_div_less intro!: mod_less_divisor gr0I)
  moreover have "k = k div b * b + k mod b" by simp
  ultimately show ?thesis by blast
qed

lemma unshuffle_spec:
  assumes "n * b \<le> length s"
  shows "unshuffle s n b = Some (map (\<lambda>k. s ! (k mod b * n + k div b)) [0..<n * b])"
proof -
  let ?xs = "map (\<lambda>k. s ! (k mod b * n + k div b)) [0..<n * b]"
  let ?ws = "map (\<lambda>(i, j). (i * b + j, s ! (j * n + i))) (loop_pairs n b)"
  have "those (write_all ?ws (replicate (length ?xs) None)) = Some ?xs"
  proof (rule write_all_complete)
    show "\<forall>(p, v) \<in> set ?ws. p < length ?xs \<and> v = ?xs ! p"
      by (auto simp: set_loop_pairs pair_index_bound)
    show "\<forall>k < length ?xs. k \<in> fst ` set ?ws"
      using index_pairs_cover[of _ n b] by (force simp: set_loop_pairs image_iff)
  qed
  then show ?thesis using assms by (simp add: unshuffle_def)
qed

lemma shuffle_spec:
  assumes "n * b \<le> length p"
  shows "shuffle p n b = Some (map (\<lambda>k. p ! (k mod n * b + k div n)) [0..<b * n])"
proof -
  let ?xs = "map (\<lambda>k. p ! (k mod n * b + k div n)) [0..<b * n]"
  let ?ws = "map (\<lambda>(i, j). (j * n + i, p ! (i * b + j))) (loop_pairs n b)"
  have "those (write_all ?ws (replicate (length ?xs) None)) = Some ?xs"
  proof (rule write_all_complete)
    show "\<forall>(q, v) \<in> set ?ws. q < length ?xs \<and> v = ?xs ! q"
      by (auto simp: set_loop_pairs pair_index_bound)
    show "\<forall>k < length ?xs. k \<in> fst ` set ?ws"
      using index_pairs_cover[of _ b n] by (force simp: set_loop_pairs image_iff)
  qed
  then show ?thesis using assms by (simp add: shuffle_def mult.commute)
qed

lemma unshuffle_shuffle:
  assumes "length p = n * b" "shuffle p n b = Some s"
  shows "length s = n * b" "unshuffle s n b = Some p"
proof -
  have s: "s = map (\<lambda>k. p ! (k mod n * b + k div n)) [0..<b * n]"
    using assms shuffle_spec[of n b p] by simp
  then show l: "length s = n * b" by (simp add: mult.commute)
  have "map (\<lambda>k. s ! (k mod b * n + k div b)) [0..<n * b] = p"
  proof (rule nth_equalityI)
    fix k assume "k < length (map (\<lambda>k. s ! (k mod b * n + k div b)) [0..<n * b])"
    then have k: "k < n * b" by simp
    then have b: "k mod b < b" "k div b < n"
      by (auto simp: less_mult_imp_div_less intro!: mod_less_divisor gr0I)
    then have "k mod b * n + k div b < b * n" by (intro pair_index_bound)
    then show "map (\<lambda>k. s ! (k mod b * n + k div b)) [0..<n * b] ! k = p ! k"
      using k b by (simp add: s)
  qed (simp add: assms(1))
  then show "unshuffle s n b = Some p" using unshuffle_spec[of n b s] l by simp
qed

subsection \<open>What the library promises\<close>

text \<open>
  Compressing into a vector does not fail at the levels 0 to 9 of zlib, decompressing gives the
  input back, and a stream is never empty: a gzip member starts with a header.
\<close>

locale gzip_lib =
  fixes gz :: gz_lib
  assumes encode_total: "level \<le> 9 \<Longrightarrow> \<exists>c. gz_encode gz level bs = Inr c"
    and decode_encode: "gz_encode gz level bs = Inr c \<Longrightarrow> gz_decode gz c = Inr bs"
    and encode_nonempty: "gz_encode gz level bs = Inr c \<Longrightarrow> c \<noteq> []"
begin

definition level_ok :: "nat option \<Rightarrow> bool" where
  "level_ok level \<longleftrightarrow> (case level of None \<Rightarrow> True | Some v \<Rightarrow> v \<le> 9)"

lemma compress_decompress:
  assumes "level_ok level"
  obtains c where "gzip_compress gz bs level = Inr c" "gzip_decompress gz c (length bs) = Inr bs"
proof -
  have "(case level of None \<Rightarrow> 6 | Some v \<Rightarrow> v) \<le> (9 :: nat)"
    using assms by (simp add: level_ok_def split: option.splits)
  then obtain c where c: "gz_encode gz (case level of None \<Rightarrow> 6 | Some v \<Rightarrow> v) bs = Inr c"
    using encode_total by blast
  then show ?thesis
    using decode_encode[OF c] by (intro that[of c]) (simp_all add: gzip_compress_def gzip_decompress_def)
qed

lemma gzip1_lossless:
  assumes "level_ok level" "bytepix \<in> {1, 2, 4, 8}" "length pix = n * bytepix" "n * bytepix < 2 ^ 64"
  shows "res_bind (encode_gzip1 gz pix level) (\<lambda>c. decode_gzip1 gz big c n bytepix)
    = Inr (to_native big bytepix pix)"
proof -
  obtain c where "gzip_compress gz pix level = Inr c" "gzip_decompress gz c (length pix) = Inr pix"
    by (rule compress_decompress[OF assms(1)])
  then show ?thesis
    using assms by (simp add: encode_gzip1_def decode_gzip1_def checked_mul_def)
qed

lemma gzip2_lossless:
  assumes "level_ok level" "bytepix \<in> {1, 2, 4, 8}" "length pix = n * bytepix" "n * bytepix < 2 ^ 64"
  shows "res_bind (encode_gzip2 gz pix bytepix level) (\<lambda>c. decode_gzip2 gz big c n bytepix)
    = Inr (to_native big bytepix pix)"
proof (cases "bytepix = 1")
  case True
  obtain c where "gzip_compress gz pix level = Inr c" "gzip_decompress gz c (length pix) = Inr pix"
    by (rule compress_decompress[OF assms(1)])
  then show ?thesis
    using True assms by (simp add: encode_gzip2_def decode_gzip2_def checked_mul_def)
next
  case False
  have n: "length pix div bytepix = n" "length pix mod bytepix = 0" using assms by auto
  obtain s where s: "shuffle pix n bytepix = Some s"
    using shuffle_spec[of n bytepix pix] assms(3) by simp
  note u = unshuffle_shuffle[OF assms(3) s]
  obtain c where "gzip_compress gz s level = Inr c" "gzip_decompress gz c (length s) = Inr s"
    by (rule compress_decompress[OF assms(1)])
  then show ?thesis
    using False assms n s u
    by (simp add: encode_gzip2_def decode_gzip2_def checked_mul_def or_panic_def Let_def)
qed

end

sublocale gzip_lib < gzip1: tile_codec "\<lambda>pix. encode_gzip1 gz pix level"
    "\<lambda>c. decode_gzip1 gz big c n bytepix" "to_native big bytepix"
    "\<lambda>pix. level_ok level \<and> bytepix \<in> {1, 2, 4, 8} \<and> length pix = n * bytepix \<and> n * bytepix < 2 ^ 64"
    for level big n bytepix
  by unfold_locales
    ((elim conjE, rule gzip1_lossless, assumption+), (elim conjE, rule to_native_inject, assumption+))

sublocale gzip_lib < gzip2: tile_codec "\<lambda>pix. encode_gzip2 gz pix bytepix level"
    "\<lambda>c. decode_gzip2 gz big c n bytepix" "to_native big bytepix"
    "\<lambda>pix. level_ok level \<and> bytepix \<in> {1, 2, 4, 8} \<and> length pix = n * bytepix \<and> n * bytepix < 2 ^ 64"
    for level big n bytepix
  by unfold_locales
    ((elim conjE, rule gzip2_lossless, assumption+), (elim conjE, rule to_native_inject, assumption+))

text \<open>A library with stored (uncompressed) members behind the gzip magic, for concrete runs.\<close>

definition stored_decode :: "bytes \<Rightarrow> string + bytes" where
  "stored_decode c =
     (if take 2 c = [0x1F, 0x8B] then Inr (drop 2 c) else Inl ''invalid gzip header'')"

definition stored_gz :: gz_lib where
  "stored_gz = \<lparr>gz_encode = \<lambda>_ bs. Inr (0x1F # 0x8B # bs), gz_decode = stored_decode\<rparr>"

interpretation stored_gz: gzip_lib stored_gz
  by unfold_locales (auto simp: stored_gz_def stored_decode_def)

subsection \<open>Properties\<close>

text \<open>
  GZIP_2 is lossless: for a tile of \<open>n\<close> pixels of 1, 2, 4 or 8 bytes, decoding what
  \<open>encode_gzip2\<close> writes gives the pixels in host order. In particular neither shuffle reads an
  index out of range or leaves a byte of its uninitialised buffer unwritten.
\<close>

theorem gzip2_roundtrip:
  assumes "gzip_lib gz" "case level of None \<Rightarrow> True | Some v \<Rightarrow> v \<le> 9"
    and "bytepix \<in> {1, 2, 4, 8}" "length pix = n * bytepix" "n * bytepix < 2 ^ 64"
  shows "res_bind (encode_gzip2 gz pix bytepix level) (\<lambda>c. decode_gzip2 gz big c n bytepix)
    = Inr (to_native big bytepix pix)"
  using gzip_lib.gzip2_lossless[OF assms(1) _ assms(3-5)] assms(2)
  by (simp add: gzip_lib.level_ok_def[OF assms(1)])

theorem gzip2_roundtrip_witness:
  "res_bind (encode_gzip2 stored_gz [1, 2, 3, 4] 2 (Some 9)) (\<lambda>c. decode_gzip2 stored_gz False c 2 2)
    = Inr [2, 1, 4, 3]"
  using gzip2_roundtrip[OF stored_gz.gzip_lib_axioms, of "Some 9" 2 "[1, 2, 3, 4]" 2 False]
  by (simp add: to_native_eq rev_chunks.simps)

text \<open>
  a GZIP_2 payload that decodes to the wrong number of bytes, or does not decode, is
  rejected, as is an unsupported pixel width; no such input makes the decoder panic.
\<close>

theorem decode_gzip2_errors:
  "decode_gzip2 gz big c n bytepix =
     (if bytepix \<notin> {1, 2, 4, 8} then Inl (UnsupportedBytepix bytepix)
      else if n * bytepix \<ge> 2 ^ 64 then Inl SizeOverflow
      else case gz_decode gz c of
        Inl e \<Rightarrow> Inl (GzipFailed e)
      | Inr s \<Rightarrow> if length s \<noteq> n * bytepix then Inl (WrongLength (n * bytepix) (length s))
          else Inr (to_native big bytepix (map (\<lambda>k. s ! (k mod bytepix * n + k div bytepix)) [0..<n * bytepix])))"
proof -
  have one: "map (\<lambda>k. s ! (k mod 1 * n + k div 1)) [0..<n * 1] = s" if "length s = n" for s :: bytes
    using that[symmetric] by (simp add: map_nth)
  show ?thesis
    by (auto simp: decode_gzip2_def checked_mul_def gzip_decompress_def unshuffle_spec or_panic_def
        one one[simplified] split: sum.split)
qed

end
