(* ===== verification/Plio.thy ===== *)
theory Plio
  imports Pixels
begin

text \<open>
  The PLIO_1 mask codec (\<open>src/zimage/plio.rs\<close>): a run-length code in 16-bit words, each an opcode
  in the top four bits and a 12-bit operand. Pixels are \<open>i32\<close>; the encoder's own arithmetic
  is on values it has checked to lie between 0 and 134217727 and is modelled on \<open>int\<close>, its
  output words and everything the decoder computes are machine words.
\<close>

subsection \<open>Decoder\<close>

definition word_at :: "bytes \<Rightarrow> nat \<Rightarrow> i16" where
  "word_at compressed i = from_be [compressed ! (2 * i), compressed ! (2 * i + 1)]"

definition opcode_of :: "i16 \<Rightarrow> nat" where
  "opcode_of raw = unat (drop_bit 12 raw AND 0x0F)"

definition data_of :: "i16 \<Rightarrow> nat" where
  "data_of raw = unat (raw AND 0x0FFF)"

text \<open>The header: total length in words and index of the first data word.\<close>

definition plio_header :: "bytes \<Rightarrow> codec_error + nat \<times> nat" where
  "plio_header compressed =
     (let header_2 = word_at compressed 2
      in if sint header_2 > 0 then Inr (nat (sint header_2), 3)
         else
           (let lower = (scast (word_at compressed 3) :: i32) AND 0x7FFF;
                upper = (scast (word_at compressed 4) :: i32);
                lllen = push_bit 15 upper OR lower
            in if sint lllen < 0 then Inl NegativeLength
               else if sint (word_at compressed 1) < 0 then Inl NegativeOffset
               else Inr (nat (sint lllen), nat (sint (word_at compressed 1)))))"

record plio_state =
  st_out :: "i32 list"
  st_op :: nat
  st_x1 :: int
  st_pv :: i32
  st_skipwd :: bool

text \<open>A run of \<open>data\<close> pixels (opcodes 0, 4 and 5), clipped to the \<open>n\<close> pixels of the tile.\<close>

definition plio_run :: "nat \<Rightarrow> nat \<Rightarrow> nat \<Rightarrow> plio_state \<Rightarrow> codec_error + plio_state" where
  "plio_run n opcode data st =
     (let x2 = st_x1 st + int data - 1;
          i1 = max (st_x1 st) 1;
          i2 = min x2 (int n);
          np = i2 - i1 + 1
      in if np > 0 then
           (let np_us = nat np; op = st_op st; otop = op + np_us - 1
            in if otop \<ge> n then Inl (OutputOverflow opcode)
               else
                 (let filled = take op (st_out st)
                        @ replicate np_us (if opcode = 4 then st_pv st else 0)
                        @ drop (op + np_us) (st_out st);
                      out = (if opcode = 5 \<and> i2 = x2 then filled[otop := st_pv st] else filled)
                  in Inr (st\<lparr>st_out := out, st_op := otop + 1, st_x1 := x2 + 1\<rparr>)))
         else Inr (st\<lparr>st_x1 := x2 + 1\<rparr>))"

text \<open>One pixel of the current value (opcodes 6 and 7, after the value is updated).\<close>

definition plio_single :: "nat \<Rightarrow> nat \<Rightarrow> plio_state \<Rightarrow> codec_error + plio_state" where
  "plio_single n opcode st =
     (if st_x1 st \<ge> 1 \<and> st_x1 st \<le> int n then
        if st_op st \<ge> n then Inl (OutputOverflow opcode)
        else Inr (st\<lparr>st_out := (st_out st)[st_op st := st_pv st], st_op := st_op st + 1,
                     st_x1 := st_x1 st + 1\<rparr>)
      else Inr (st\<lparr>st_x1 := st_x1 st + 1\<rparr>))"

definition plio_step :: "bytes \<Rightarrow> nat \<Rightarrow> nat \<Rightarrow> nat \<Rightarrow> plio_state \<Rightarrow> codec_error + plio_state" where
  "plio_step compressed n lllen ip st =
     (let raw = word_at compressed ip; opcode = opcode_of raw; data = data_of raw
      in if opcode = 0 \<or> opcode = 4 \<or> opcode = 5 then plio_run n opcode data st
         else if opcode = 1 then
           (if ip + 1 \<ge> lllen then Inl MissingHighWord
            else Inr (st\<lparr>st_pv := push_bit 12 (scast (word_at compressed (ip + 1)) :: i32) + of_nat data,
                         st_skipwd := True\<rparr>))
         else if opcode = 2 then Inr (st\<lparr>st_pv := st_pv st + of_nat data\<rparr>)
         else if opcode = 3 then Inr (st\<lparr>st_pv := st_pv st - of_nat data\<rparr>)
         else if opcode = 6 then plio_single n opcode (st\<lparr>st_pv := st_pv st + of_nat data\<rparr>)
         else if opcode = 7 then plio_single n opcode (st\<lparr>st_pv := st_pv st - of_nat data\<rparr>)
         else Inl (UnknownOpcode opcode ip))"

function plio_loop :: "bytes \<Rightarrow> nat \<Rightarrow> nat \<Rightarrow> nat \<Rightarrow> plio_state \<Rightarrow> codec_error + plio_state" where
  "plio_loop compressed n lllen ip st =
     (if ip < lllen \<and> st_x1 st \<le> int n then
        if st_skipwd st then plio_loop compressed n lllen (ip + 1) (st\<lparr>st_skipwd := False\<rparr>)
        else (case plio_step compressed n lllen ip st of
                Inl e \<Rightarrow> Inl e
              | Inr st' \<Rightarrow> plio_loop compressed n lllen (ip + 1) st')
      else Inr st)"
  by pat_completeness auto
termination by (relation "measure (\<lambda>(_, _, lllen, ip, _). lllen - ip)") auto

declare plio_loop.simps [simp del]

definition cast_i32_to_target_bytes :: "bool \<Rightarrow> i32 list \<Rightarrow> nat \<Rightarrow> int \<Rightarrow> codec_error + bytes" where
  "cast_i32_to_target_bytes big a bytepix zbitpix =
     (if bytepix = 1 \<and> zbitpix = 8 then Inr (map ucast a)
      else if bytepix = 2 \<and> zbitpix = 16 then Inr (concat (map (\<lambda>v. to_ne big 2 (ucast v :: i16)) a))
      else if bytepix = 4 \<and> zbitpix = 32 then Inr (concat (map (to_ne big 4) a))
      else Inl (BadWidth bytepix zbitpix))"

definition decode_plio :: "bool \<Rightarrow> bytes \<Rightarrow> nat \<Rightarrow> nat \<Rightarrow> int \<Rightarrow> codec_error + bytes" where
  "decode_plio big compressed n_pixels bytepix zbitpix =
     (if zbitpix \<notin> {8, 16, 32} then Inl (UnsupportedZbitpix zbitpix)
      else if bytepix \<notin> {1, 2, 4} then Inl (UnsupportedBytepix bytepix)
      else if length compressed mod 2 \<noteq> 0 then Inl (OddPayload (length compressed))
      else
        (let n_words = length compressed div 2
         in if n_words < 7 then Inl (HeaderTruncated n_words)
            else res_bind (plio_header compressed) (\<lambda>(lllen, llfirt).
              if lllen > n_words then Inl (LengthPastEnd lllen n_words)
              else if llfirt > lllen then Inl (OffsetPastEnd llfirt lllen)
              else res_bind
                (plio_loop compressed n_pixels lllen llfirt
                  \<lparr>st_out = replicate n_pixels 0, st_op = 0, st_x1 = 1, st_pv = 1, st_skipwd = False\<rparr>)
                (\<lambda>st. cast_i32_to_target_bytes big (st_out st) bytepix zbitpix))))"

subsection \<open>Encoder\<close>

definition PLIO_MAX_PV :: int where "PLIO_MAX_PV = 0x07FFFFFF"

fun plio_validate :: "nat \<Rightarrow> int list \<Rightarrow> codec_error + unit" where
  "plio_validate i [] = Inr ()"
| "plio_validate i (v # vs) =
     (if v < 0 then Inl (NegativePixel i)
      else if v > PLIO_MAX_PV then Inl (PixelTooLarge i)
      else plio_validate (Suc i) vs)"

definition to_i16 :: "int \<Rightarrow> i16" where
  "to_i16 x = word_of_int x"

text \<open>\<open>or_last\<close> and \<open>add_last\<close> change the last word written.\<close>

definition map_last :: "(i16 \<Rightarrow> i16) \<Rightarrow> i16 list \<Rightarrow> i16 list" where
  "map_last f ws = butlast ws @ [f (last ws)]"

definition set_pv_words :: "int \<Rightarrow> int \<Rightarrow> i16 list" where
  "set_pv_words pv dv =
     (if \<bar>dv\<bar> > 4095 then [to_i16 ((pv mod 4096) + 4096), to_i16 (pv div 4096)]
      else if dv < 0 then [to_i16 (- dv + 12288)]
      else [to_i16 (dv + 8192)])"

text \<open>The words of a run of \<open>len\<close> pixels, at most 4095 to a word, under opcode offset \<open>base\<close>.\<close>

function run_words :: "int \<Rightarrow> nat \<Rightarrow> i16 list" where
  "run_words base len =
     (if len = 0 then [] else to_i16 (int (min len 4095) + base) # run_words base (len - 4095))"
  by pat_completeness auto
termination by (relation "measure snd") auto

declare run_words.simps [simp del]

text \<open>Everything written for one run of \<open>np\<close> pixels \<open>pv\<close> behind \<open>nz\<close> zeros; returns the new \<open>hi\<close>.\<close>

definition emit_run :: "int \<Rightarrow> int \<Rightarrow> nat \<Rightarrow> nat \<Rightarrow> i16 list \<Rightarrow> i16 list \<times> int" where
  "emit_run pv hi np nz out =
     (let dv = pv - hi;
          set_pv = (pv > 0 \<and> dv \<noteq> 0);
          out1 = (if set_pv then out @ set_pv_words pv dv else out);
          hi1 = (if set_pv then pv else hi)
      in if set_pv \<and> np = 1 \<and> nz = 0 then (map_last (\<lambda>w. w OR 16384) out1, hi1)
         else
           (let out2 = out1 @ run_words 0 nz
            in if nz > 0 \<and> np = 1 \<and> pv > 0 then (map_last (\<lambda>w. to_i16 (sint w + 20481)) out2, hi1)
               else (out2 @ run_words 16384 np, hi1)))"

function plio_encode_loop ::
  "int list \<Rightarrow> nat \<Rightarrow> int \<Rightarrow> int \<Rightarrow> nat \<Rightarrow> nat \<Rightarrow> i16 list \<Rightarrow> i16 list" where
  "plio_encode_loop pixels ip pv hi x1 iz out =
     (let npix = length pixels
      in if ip < npix then
           if ip < npix - 1 \<and> max (pixels ! (ip + 1)) 0 = pv then
             plio_encode_loop pixels (ip + 1) pv hi x1 iz out
           else if ip < npix - 1 \<and> pv = 0 then
             plio_encode_loop pixels (ip + 1) (max (pixels ! (ip + 1)) 0) hi (ip + 1) iz out
           else
             (let next_pv = (if ip < npix - 1 then max (pixels ! (ip + 1)) 0 else pv);
                  x1' = (if ip < npix - 1 then x1 else if pv = 0 then npix else x1);
                  np = ip + 1 - x1';
                  nz = x1' - iz;
                  (out', hi') = emit_run pv hi np nz out
              in plio_encode_loop pixels (ip + 1) next_pv hi' (ip + 1) (ip + 1) out')
         else out)"
  by pat_completeness auto
termination by (relation "measure (\<lambda>(pixels, ip, _). length pixels - ip)") auto

declare plio_encode_loop.simps [simp del]

definition shorts_to_be_bytes :: "i16 list \<Rightarrow> bytes" where
  "shorts_to_be_bytes shorts = concat (map (to_be 2) shorts)"

text \<open>The length, as an \<open>i32\<close>, goes into words 3 and 4 of the header.\<close>

definition plio_finish :: "i16 list \<Rightarrow> bytes" where
  "plio_finish out =
     (let total = int (length out)
      in shorts_to_be_bytes (out[3 := to_i16 (total mod 32768), 4 := to_i16 (total div 32768)]))"

definition encode_plio_i32 :: "int list \<Rightarrow> codec_error + bytes" where
  "encode_plio_i32 pixels =
     res_bind (plio_validate 0 pixels) (\<lambda>_.
       (let header = map to_i16 [0, 7, - 100, 0, 0, 0, 0]
        in if pixels = [] then Inr (plio_finish header)
           else Inr (plio_finish (plio_encode_loop pixels 0 (max (pixels ! 0) 0) 1 0 0 header))))"

definition plio_pixels :: "bytes \<Rightarrow> nat \<Rightarrow> nat \<Rightarrow> int \<Rightarrow> codec_error + int list" where
  "plio_pixels bs n_pixels bytepix zbitpix =
     (if bytepix = 1 \<and> zbitpix = 8 then Inr (map (\<lambda>i. uint (bs ! i)) [0..<n_pixels])
      else if bytepix = 2 \<and> zbitpix = 16 then
        Inr (map (\<lambda>i. sint (from_be [bs ! (2 * i), bs ! (2 * i + 1)] :: i16)) [0..<n_pixels])
      else if bytepix = 4 \<and> zbitpix = 32 then
        Inr (map (\<lambda>i. sint (from_be [bs ! (4 * i), bs ! (4 * i + 1), bs ! (4 * i + 2), bs ! (4 * i + 3)] :: i32))
          [0..<n_pixels])
      else Inl (BadWidth bytepix zbitpix))"

definition encode_plio :: "bytes \<Rightarrow> nat \<Rightarrow> nat \<Rightarrow> int \<Rightarrow> codec_error + bytes" where
  "encode_plio pixel_bytes_be n_pixels bytepix zbitpix =
     (if zbitpix \<notin> {8, 16, 32} then Inl (UnsupportedZbitpix zbitpix)
      else if bytepix \<notin> {1, 2, 4} then Inl (UnsupportedBytepix bytepix)
      else res_bind (checked_mul n_pixels bytepix) (\<lambda>expected.
        if length pixel_bytes_be \<noteq> expected then Inl (WrongLength expected (length pixel_bytes_be))
        else res_bind (plio_pixels pixel_bytes_be n_pixels bytepix zbitpix) encode_plio_i32))"

subsection \<open>Reading words back\<close>

lemma opcode_data:
  assumes "opc < 8" "d < 4096"
  shows "opcode_of (to_i16 (int (opc * 4096 + d))) = opc" "data_of (to_i16 (int (opc * 4096 + d))) = d"
proof -
  let ?n = "opc * 4096 + d"
  have n: "?n < 65536" using assms by linarith
  have u: "unat (to_i16 (int ?n)) = ?n"
    using n unfolding to_i16_def by (simp add: unat_of_nat flip: of_nat_mult of_nat_add)
  have m: "(0x0F :: i16) = mask 4" "(0x0FFF :: i16) = mask 12"
    by (simp_all add: mask_eq_exp_minus_1)
  show "opcode_of (to_i16 (int ?n)) = opc"
    unfolding opcode_of_def m unat_and_mask unat_drop_bit_eq u using assms by (simp add: drop_bit_eq_div)
  show "data_of (to_i16 (int ?n)) = d"
    unfolding data_of_def m unat_and_mask u using assms by simp
qed

subsection \<open>What a word sequence means\<close>

text \<open>The pixels written so far and the current value, without positions or bounds.\<close>

definition plio_effect :: "i16 \<Rightarrow> i32 list \<times> i32 \<Rightarrow> (i32 list \<times> i32) option" where
  "plio_effect w s =
     (let (acc, pv) = s; d = data_of w; up = pv + of_nat d; down = pv - of_nat d; opc = opcode_of w in
      if opc = 0 then Some (acc @ replicate d 0, pv)
      else if opc = 2 then Some (acc, up)
      else if opc = 3 then Some (acc, down)
      else if opc = 4 then Some (acc @ replicate d pv, pv)
      else if opc = 5 then Some (if d = 0 then acc else acc @ replicate (d - 1) 0 @ [pv], pv)
      else if opc = 6 then Some (acc @ [up], up)
      else if opc = 7 then Some (acc @ [down], down)
      else None)"

fun plio_exec :: "i16 list \<Rightarrow> i32 list \<times> i32 \<Rightarrow> (i32 list \<times> i32) option" where
  "plio_exec [] s = Some s"
| "plio_exec (w # ws) s =
     (if opcode_of w = 1 then
        (case ws of [] \<Rightarrow> None
         | h # ws' \<Rightarrow> plio_exec ws' (fst s, push_bit 12 (scast h) + of_nat (data_of w)))
      else (case plio_effect w s of None \<Rightarrow> None | Some s' \<Rightarrow> plio_exec ws s'))"

lemma plio_exec_append:
  "plio_exec xs s = Some t \<Longrightarrow> plio_exec (xs @ ys) s = plio_exec ys t"
  by (induction xs s arbitrary: t rule: plio_exec.induct)
     (auto split: if_splits list.splits option.splits)

lemma plio_effect_grows: "plio_effect w s = Some t \<Longrightarrow> \<exists>ext. fst t = fst s @ ext"
  by (auto simp: plio_effect_def Let_def split: if_splits prod.splits)

lemma plio_exec_grows: "plio_exec ws s = Some t \<Longrightarrow> \<exists>ext. fst t = fst s @ ext"
proof (induction ws s arbitrary: t rule: plio_exec.induct)
  case (2 w ws s)
  show ?case
  proof (cases "opcode_of w = 1")
    case True
    with 2(3) obtain h ws' where h: "ws = h # ws'"
      "plio_exec ws' (fst s, push_bit 12 (scast h) + of_nat (data_of w)) = Some t"
      by (auto split: list.splits)
    from 2(1)[OF True h] show ?thesis by simp
  next
    case False
    with 2(3) obtain s' where s': "plio_effect w s = Some s'" "plio_exec ws s' = Some t"
      by (auto split: option.splits)
    from 2(2)[OF False s'] plio_effect_grows[OF s'(1)] show ?thesis by auto
  qed
qed simp

text \<open>The decoder's state that stands for \<open>acc\<close> pixels written into a tile of \<open>n\<close>.\<close>

definition plio_rep :: "nat \<Rightarrow> i32 list \<times> i32 \<Rightarrow> plio_state" where
  "plio_rep n s = \<lparr>st_out = fst s @ replicate (n - length (fst s)) 0, st_op = length (fst s),
     st_x1 = int (length (fst s)) + 1, st_pv = snd s, st_skipwd = False\<rparr>"

lemma replicate_update_last: "(replicate (Suc k) x)[k := y] = replicate k x @ [y]"
  by (induction k) simp_all

lemma plio_run_rep:
  assumes "length acc + d \<le> n"
  shows "plio_run n opcode d (plio_rep n (acc, pv)) = Inr (plio_rep n
    (acc @ (if d = 0 then [] else if opcode = 4 then replicate d pv
            else if opcode = 5 then replicate (d - 1) 0 @ [pv] else replicate d 0), pv))"
proof (cases d)
  case 0
  then show ?thesis by (simp add: plio_run_def plio_rep_def Let_def)
next
  case (Suc k)
  have n: "nat (int k + 1) = Suc k" by simp
  show ?thesis
    using Suc assms replicate_update_last[of k 0 pv]
    by (simp add: plio_run_def plio_rep_def Let_def list_update_append n del: replicate_Suc)
qed

lemma plio_single_rep:
  assumes "length acc < n"
  shows "plio_single n opcode (plio_rep n (acc, pv)) = Inr (plio_rep n (acc @ [pv], pv))"
proof -
  obtain k where k: "n - length acc = Suc k" using assms by (metis Suc_diff_Suc)
  then have "n - Suc (length acc) = k" by simp
  with k assms show ?thesis by (simp add: plio_single_def plio_rep_def list_update_append)
qed

lemma plio_rep_fields:
  "plio_rep n s\<lparr>st_pv := v\<rparr> = plio_rep n (fst s, v)"
  "st_x1 (plio_rep n s) = int (length (fst s)) + 1" "st_pv (plio_rep n s) = snd s"
  "st_skipwd (plio_rep n s) = False"
  by (simp_all add: plio_rep_def)

lemma plio_step_rep:
  assumes "opcode_of (word_at c ip) \<noteq> 1" "plio_effect (word_at c ip) s = Some s'"
    and "length (fst s) < n" "length (fst s') \<le> n"
  shows "plio_step c n lllen ip (plio_rep n s) = Inr (plio_rep n s')"
proof -
  obtain acc pv where s: "s = (acc, pv)" by (cases s)
  let ?d = "data_of (word_at c ip)" and ?o = "opcode_of (word_at c ip)"
  have run: "plio_run n ?o ?d (plio_rep n (acc, pv)) = Inr (plio_rep n s')" if "?o = 0 \<or> ?o = 4 \<or> ?o = 5"
  proof -
    have "length acc + ?d \<le> n"
      using that assms(2,4) s by (auto simp: plio_effect_def Let_def split: if_splits)
    from plio_run_rep[OF this, of ?o pv] show ?thesis
      using that assms(2) s by (auto simp: plio_effect_def Let_def split: if_splits)
  qed
  have single: "plio_single n ?o (plio_rep n (acc, v)) = Inr (plio_rep n (acc @ [v], v))" for v
    using assms(3) s by (intro plio_single_rep) simp
  show ?thesis
    using assms(1,2) run single s
    by (auto simp: plio_step_def plio_effect_def Let_def plio_rep_fields split: if_splits)
qed

lemma plio_loop_exec:
  assumes "plio_exec ws s = Some t" "length (fst t) \<le> n"
    and "\<And>k. k < length ws \<Longrightarrow> word_at c (ip + k) = ws ! k" "ip + length ws = lllen"
  shows "\<exists>st. plio_loop c n lllen ip (plio_rep n s) = Inr st \<and>
    st_out st = fst t @ replicate (n - length (fst t)) 0"
  using assms
proof (induction ws s arbitrary: ip rule: plio_exec.induct)
  case (1 s)
  then show ?case by (subst plio_loop.simps) (simp add: plio_rep_def)
next
  case (2 w ws s)
  obtain ext where ext: "fst t = fst s @ ext" using plio_exec_grows[OF 2(3)] by blast
  have w: "word_at c ip = w" using 2(5)[of 0] by simp
  show ?case
  proof (cases "length (fst s) < n")
    case False
    have "length (fst s) + length ext \<le> n" using ext 2(4) by simp
    with False have "length ext = 0" "length (fst s) = n" by linarith+
    then show ?thesis using ext by (subst plio_loop.simps) (simp add: plio_rep_def)
  next
    case in_tile: True
    show ?thesis
    proof (cases "opcode_of w = 1")
      case True
      with 2(3) obtain h ws' where h: "ws = h # ws'"
        "plio_exec ws' (fst s, push_bit 12 (scast h) + of_nat (data_of w)) = Some t"
        by (auto split: list.splits)
      let ?s = "(fst s, push_bit 12 (scast h) + of_nat (data_of w))"
      have hw: "word_at c (Suc ip) = h" using 2(5)[of 1] h(1) by simp
      have "plio_loop c n lllen ip (plio_rep n s)
          = plio_loop c n lllen (Suc ip) (plio_rep n ?s\<lparr>st_skipwd := True\<rparr>)"
        using True in_tile 2(6) h(1) w hw
        by (subst plio_loop.simps) (simp add: plio_step_def Let_def plio_rep_def)
      also have "\<dots> = plio_loop c n lllen (Suc (Suc ip)) (plio_rep n ?s)"
        using in_tile 2(6) h(1) by (subst plio_loop.simps) (simp add: plio_rep_def)
      finally show ?thesis
        using 2(1)[OF True h(1) h(2) 2(4), of "Suc (Suc ip)"] 2(5)[of "Suc (Suc _)"] 2(6) h(1) by simp
    next
      case False
      with 2(3) obtain s' where s': "plio_effect w s = Some s'" "plio_exec ws s' = Some t"
        by (auto split: option.splits)
      obtain ext' where "fst t = fst s' @ ext'" using plio_exec_grows[OF s'(2)] by blast
      then have "plio_step c n lllen ip (plio_rep n s) = Inr (plio_rep n s')"
        using 2(4) in_tile False s'(1) w by (intro plio_step_rep) auto
      then have "plio_loop c n lllen ip (plio_rep n s) = plio_loop c n lllen (Suc ip) (plio_rep n s')"
        using in_tile 2(6) by (subst plio_loop.simps) (simp add: plio_rep_fields)
      then show ?thesis
        using 2(2)[OF False s' 2(4), of "Suc ip"] 2(5)[of "Suc _"] 2(6) by simp
    qed
  qed
qed

declare plio_exec.simps(2) [simp del]

subsection \<open>What the encoder writes for a run\<close>

lemma effect_word:
  assumes "opc < 8" "opc \<noteq> 1" "d < 4096" "w = to_i16 (int (opc * 4096 + d))"
  shows "plio_exec (w # ws) s = (case plio_effect w s of None \<Rightarrow> None | Some s' \<Rightarrow> plio_exec ws s')"
    "plio_effect w (acc, pv) = Some
      (if opc = 0 then (acc @ replicate d 0, pv)
       else if opc = 2 then (acc, pv + of_nat d)
       else if opc = 3 then (acc, pv - of_nat d)
       else if opc = 4 then (acc @ replicate d pv, pv)
       else if opc = 5 then (if d = 0 then acc else acc @ replicate (d - 1) 0 @ [pv], pv)
       else if opc = 6 then (acc @ [pv + of_nat d], pv + of_nat d)
       else (acc @ [pv - of_nat d], pv - of_nat d))"
proof -
  have od: "opcode_of w = opc" "data_of w = d" using opcode_data assms by (simp_all only:)
  show "plio_exec (w # ws) s = (case plio_effect w s of None \<Rightarrow> None | Some s' \<Rightarrow> plio_exec ws s')"
    using assms(2) by (simp add: od(1) plio_exec.simps(2))
  have "opc = 0 \<or> opc = 2 \<or> opc = 3 \<or> opc = 4 \<or> opc = 5 \<or> opc = 6 \<or> opc = 7"
    using assms(1,2) by linarith
  then show "plio_effect w (acc, pv) = Some
      (if opc = 0 then (acc @ replicate d 0, pv)
       else if opc = 2 then (acc, pv + of_nat d)
       else if opc = 3 then (acc, pv - of_nat d)
       else if opc = 4 then (acc @ replicate d pv, pv)
       else if opc = 5 then (if d = 0 then acc else acc @ replicate (d - 1) 0 @ [pv], pv)
       else if opc = 6 then (acc @ [pv + of_nat d], pv + of_nat d)
       else (acc @ [pv - of_nat d], pv - of_nat d))"
    by (simp only: plio_effect_def Let_def prod.case od) auto
qed

lemma exec_word:
  assumes "opc < 8" "opc \<noteq> 1" "d < 4096" "w = to_i16 (int (opc * 4096 + d))"
  shows "plio_exec (w # ws) (acc, pv) = plio_exec ws
      (if opc = 0 then (acc @ replicate d 0, pv)
       else if opc = 2 then (acc, pv + of_nat d)
       else if opc = 3 then (acc, pv - of_nat d)
       else if opc = 4 then (acc @ replicate d pv, pv)
       else if opc = 5 then (if d = 0 then acc else acc @ replicate (d - 1) 0 @ [pv], pv)
       else if opc = 6 then (acc @ [pv + of_nat d], pv + of_nat d)
       else (acc @ [pv - of_nat d], pv - of_nat d))"
  by (simp only: effect_word[OF assms] option.case)

lemma exec_run_words:
  "plio_exec (run_words 0 n) (acc, pv) = Some (acc @ replicate n 0, pv)"
  "plio_exec (run_words 16384 n) (acc, pv) = Some (acc @ replicate n pv, pv)"
proof -
  have rep: "replicate (min n 4095) x @ replicate (n - 4095) x = replicate n x" for n and x :: i32
    by (simp flip: replicate_add)
  show "plio_exec (run_words 0 n) (acc, pv) = Some (acc @ replicate n 0, pv)"
  proof (induction "0 :: int" n arbitrary: acc rule: run_words.induct)
    case (1 n)
    show ?case
    proof (cases "n = 0")
      case False
      have "plio_exec (run_words 0 n) (acc, pv)
          = plio_exec (run_words 0 (n - 4095)) (acc @ replicate (min n 4095) 0, pv)"
        using False exec_word[of 0 "min n 4095" _ "run_words 0 (n - 4095)" acc pv]
        by (subst run_words.simps) simp
      then show ?thesis using 1[OF False, of "acc @ replicate (min n 4095) 0"] by (simp add: rep)
    qed (simp add: run_words.simps)
  qed
  show "plio_exec (run_words 16384 n) (acc, pv) = Some (acc @ replicate n pv, pv)"
  proof (induction "16384 :: int" n arbitrary: acc rule: run_words.induct)
    case (1 n)
    show ?case
    proof (cases "n = 0")
      case False
      have "plio_exec (run_words 16384 n) (acc, pv)
          = plio_exec (run_words 16384 (n - 4095)) (acc @ replicate (min n 4095) pv, pv)"
        using False exec_word[of 4 "min n 4095" "to_i16 (int (min n 4095) + 16384)" "run_words 16384 (n - 4095)" acc pv]
        by (subst run_words.simps) (simp add: add.commute)
      then show ?thesis using 1[OF False, of "acc @ replicate (min n 4095) pv"] by (simp add: rep)
    qed (simp add: run_words.simps)
  qed
qed

lemma sint_to_i16: "0 \<le> x \<Longrightarrow> x < 32768 \<Longrightarrow> sint (to_i16 x) = x"
  by (simp add: to_i16_def sint_uint unsigned_of_int signed_take_bit_int_eq_self take_bit_int_eq_self)

lemma scast_to_i16: "0 \<le> x \<Longrightarrow> x < 32768 \<Longrightarrow> (scast (to_i16 x) :: i32) = word_of_int x"
  using sint_to_i16[of x] by (metis scast_eq)

lemma exec_high_words:
  assumes "0 \<le> pv" "pv \<le> PLIO_MAX_PV"
  shows "plio_exec (to_i16 (pv mod 4096 + 4096) # to_i16 (pv div 4096) # ws) (acc, v)
    = plio_exec ws (acc, word_of_int pv)"
proof -
  let ?d = "nat (pv mod 4096)"
  have w: "to_i16 (pv mod 4096 + 4096) = to_i16 (int (1 * 4096 + ?d))" by (simp add: add.commute)
  have "pv div 4096 < 32768" "0 \<le> pv div 4096" using assms by (simp_all add: PLIO_MAX_PV_def)
  then have "push_bit 12 (scast (to_i16 (pv div 4096)) :: i32) + of_nat ?d
      = word_of_int (pv div 4096) * 4096 + word_of_int (pv mod 4096)"
    by (simp add: scast_to_i16 push_bit_eq_mult)
  also have "\<dots> = word_of_int (pv div 4096 * 4096 + pv mod 4096)"
    by (simp only: of_int_add of_int_mult of_int_numeral)
  also have "\<dots> = word_of_int pv" by simp
  finally show ?thesis
    using opcode_data[of 1 ?d] unfolding w by (simp add: plio_exec.simps(2))
qed

lemma exec_set_pv:
  assumes "0 < pv" "pv \<le> PLIO_MAX_PV" "pv \<noteq> hi"
  shows "plio_exec (set_pv_words pv (pv - hi) @ ws) (acc, word_of_int hi) = plio_exec ws (acc, word_of_int pv)"
proof -
  let ?up = "nat (pv - hi)" and ?down = "nat (hi - pv)"
  consider "\<bar>pv - hi\<bar> > 4095" | "hi < pv" "pv - hi \<le> 4095" | "pv < hi" "hi - pv \<le> 4095"
    using assms(3) by linarith
  then show ?thesis
  proof cases
    case 1
    then show ?thesis using exec_high_words[of pv ws acc] assms by (simp add: set_pv_words_def)
  next
    case 2
    then have "set_pv_words pv (pv - hi) = [to_i16 (int (2 * 4096 + ?up))]"
      by (simp add: set_pv_words_def add.commute)
    then show ?thesis using exec_word[of 2 ?up _ ws acc "word_of_int hi", OF _ _ _ refl] 2 by simp
  next
    case 3
    then have "set_pv_words pv (pv - hi) = [to_i16 (int (3 * 4096 + ?down))]"
      by (simp add: set_pv_words_def add.commute)
    then show ?thesis using exec_word[of 3 ?down _ ws acc "word_of_int hi", OF _ _ _ refl] 3 by simp
  qed
qed

lemma to_i16_or_16384: "0 \<le> x \<Longrightarrow> x < 16384 \<Longrightarrow> to_i16 x OR 16384 = to_i16 (x + 16384)"
proof -
  assume x: "0 \<le> x" "x < 16384"
  have "x + 16384 = x OR 16384"
  proof (rule disjunctive_add)
    fix n
    have "bit (16384 :: int) n \<longleftrightarrow> n = 14" using bit_exp_iff[of 14 n, where ?'a = int] by simp
    moreover have "\<not> bit x 14" using x by (simp add: bit_iff_odd)
    ultimately show "\<not> bit x n \<or> \<not> bit (16384 :: int) n" by auto
  qed
  then have "to_i16 (x + 16384) = word_of_int (x OR 16384)" by (simp add: to_i16_def)
  also have "\<dots> = to_i16 x OR 16384" by (simp add: to_i16_def of_int_or_eq)
  finally show ?thesis by simp
qed

lemma exec_single_pv:
  assumes "pv \<noteq> hi" "\<bar>pv - hi\<bar> \<le> 4095"
  shows "\<exists>w. set_pv_words pv (pv - hi) = [w] \<and>
    plio_exec [w OR 16384] (acc, word_of_int hi) = Some (acc @ [word_of_int pv], word_of_int pv)"
proof (cases "hi < pv")
  case True
  let ?up = "nat (pv - hi)"
  have l: "?up < 4096" using True assms by linarith
  have "to_i16 (pv - hi + 8192) OR 16384 = to_i16 (int (6 * 4096 + ?up))"
    using True assms by (subst to_i16_or_16384) (simp_all add: add.commute)
  then show ?thesis
    using True assms exec_word[of 6 ?up _ "[]" acc "word_of_int hi", OF _ _ l refl]
    by (simp add: set_pv_words_def)
next
  case False
  let ?down = "nat (hi - pv)"
  have l: "?down < 4096" using False assms by linarith
  have "to_i16 (- (pv - hi) + 12288) OR 16384 = to_i16 (int (7 * 4096 + ?down))"
    using False assms by (subst to_i16_or_16384) (simp_all add: add.commute)
  then show ?thesis
    using False assms exec_word[of 7 ?down _ "[]" acc "word_of_int hi", OF _ _ l refl]
    by (simp add: set_pv_words_def)
qed

lemma run_words_last:
  assumes "r = n mod 4095" "0 < r"
  shows "run_words 0 n = run_words 0 (n - r) @ [to_i16 (int r)]"
  using assms
proof (induction "0 :: int" n rule: run_words.induct)
  case (1 n)
  show ?case
  proof (cases "n < 4095")
    case True
    then have "n = r" "0 < n" using 1(2,3) by simp_all
    with True show ?thesis by (simp add: run_words.simps)
  next
    case False
    then have m: "(n - 4095) mod 4095 = r" using 1(2) by (simp add: le_mod_geq)
    have "r < 4095" using 1(2) by simp
    have "n \<noteq> 4095" using 1(2,3) by (intro notI) simp
    with False have "n - r \<noteq> 0" "min n 4095 = 4095" "n - r \<ge> 4095" "n - r - 4095 = n - 4095 - r"
      using \<open>r < 4095\<close> mod_less_eq_dividend[of "n - 4095" 4095] m by auto
    then have "run_words 0 (n - r) = to_i16 4095 # run_words 0 (n - 4095 - r)"
      by (subst run_words.simps) simp
    moreover have "run_words 0 n = to_i16 4095 # run_words 0 (n - 4095)"
      using False by (subst run_words.simps) simp
    ultimately show ?thesis using 1(1)[OF _ m[symmetric] 1(3)] False by simp
  qed
qed

text \<open>The runs the encoder writes wrongly: see \<open>plio_loses_far_single\<close> and \<open>plio_loses_gap\<close>.\<close>

definition bad_run :: "int \<Rightarrow> int \<Rightarrow> nat \<Rightarrow> nat \<Rightarrow> bool" where
  "bad_run pv hi np nz \<longleftrightarrow>
     np = 1 \<and> (nz = 0 \<and> \<bar>pv - hi\<bar> > 4095 \<or> nz > 0 \<and> nz mod 4095 = 0)"

lemma exec_gap_single:
  assumes "0 < nz" "nz mod 4095 \<noteq> 0"
  shows "plio_exec (map_last (\<lambda>w. to_i16 (sint w + 20481)) (run_words 0 nz)) (acc, pv)
    = Some (acc @ replicate nz 0 @ [pv], pv)"
proof -
  let ?r = "nz mod 4095"
  have r: "0 < ?r" "?r < 4095" "?r \<le> nz" using assms by simp_all
  have "sint (to_i16 (int ?r)) = int ?r" using r(2) by (intro sint_to_i16) linarith+
  then have w: "to_i16 (sint (to_i16 (int ?r)) + 20481) = to_i16 (int (5 * 4096 + Suc ?r))"
    by (simp add: add.commute del: of_nat_mod)
  have "map_last (\<lambda>w. to_i16 (sint w + 20481)) (run_words 0 nz)
      = run_words 0 (nz - ?r) @ [to_i16 (int (5 * 4096 + Suc ?r))]"
    using run_words_last[OF refl r(1)] w by (simp only: map_last_def butlast_snoc last_snoc)
  moreover have "Suc ?r < 4096" using r(2) by simp
  moreover have "replicate (nz - ?r) 0 @ replicate ?r 0 = replicate nz (0 :: i32)"
    using r(3) by (simp flip: replicate_add)
  ultimately show ?thesis
    using plio_exec_append[OF exec_run_words(1)]
      exec_word[of 5 "Suc ?r" _ "[]" "acc @ replicate (nz - ?r) 0" pv, OF _ _ _ refl] by simp
qed

lemma map_last_append: "ys \<noteq> [] \<Longrightarrow> map_last f (xs @ ys) = xs @ map_last f ys"
  by (simp add: map_last_def butlast_append)

lemma run_words_Nil: "run_words base n = [] \<longleftrightarrow> n = 0"
  by (subst run_words.simps) simp

lemma emit_run_exec:
  assumes "0 \<le> pv" "pv \<le> PLIO_MAX_PV" "pv = 0 \<longrightarrow> np = 0" "\<not> bad_run pv hi np nz"
    and "plio_exec out s = Some (acc, word_of_int hi)"
  shows "plio_exec (fst (emit_run pv hi np nz out)) s
      = Some (acc @ replicate nz 0 @ replicate np (word_of_int pv), word_of_int (snd (emit_run pv hi np nz out)))"
    "snd (emit_run pv hi np nz out) = (if pv > 0 then pv else hi)"
proof -
  let ?set = "pv > 0 \<and> pv \<noteq> hi"
  define pre where "pre = (if ?set then set_pv_words pv (pv - hi) else [])"
  define hi' where "hi' = (if pv > 0 then pv else hi)"
  note app = plio_exec_append[OF assms(5)]
  have pre: "plio_exec (pre @ ws) (a, word_of_int hi) = plio_exec ws (a, word_of_int hi')" for ws a
    using exec_set_pv[of pv hi ws a] assms(1,2) by (auto simp: pre_def hi'_def)
  have hi: "snd (emit_run pv hi np nz out) = hi'"
    by (auto simp: emit_run_def Let_def hi'_def)
  then show "snd (emit_run pv hi np nz out) = (if pv > 0 then pv else hi)" by (simp add: hi'_def)
  consider (single) "?set" "np = 1" "nz = 0" | (gap) "nz > 0" "np = 1" "pv > 0"
    | (plain) "\<not> (?set \<and> np = 1 \<and> nz = 0)" "\<not> (nz > 0 \<and> np = 1 \<and> pv > 0)"
    by blast
  then show "plio_exec (fst (emit_run pv hi np nz out)) s
      = Some (acc @ replicate nz 0 @ replicate np (word_of_int pv), word_of_int (snd (emit_run pv hi np nz out)))"
  proof cases
    case single
    then have "\<bar>pv - hi\<bar> \<le> 4095" using assms(4) by (auto simp: bad_run_def)
    then obtain w where w: "set_pv_words pv (pv - hi) = [w]"
      "plio_exec [w OR 16384] (acc, word_of_int hi) = Some (acc @ [word_of_int pv], word_of_int pv)"
      using exec_single_pv[of pv hi acc] single by auto
    then have "fst (emit_run pv hi np nz out) = out @ [w OR 16384]"
      using single by (simp add: emit_run_def Let_def map_last_def)
    with w(2) app single show ?thesis unfolding hi by (simp add: hi'_def)
  next
    case gap
    then have "fst (emit_run pv hi np nz out)
        = out @ pre @ map_last (\<lambda>w. to_i16 (sint w + 20481)) (run_words 0 nz)"
      by (simp add: emit_run_def Let_def pre_def map_last_append run_words_Nil flip: append_assoc)
    moreover have "nz mod 4095 \<noteq> 0" using assms(4) gap by (auto simp: bad_run_def)
    ultimately show ?thesis
      using app pre exec_gap_single[of nz acc "word_of_int hi'"] gap unfolding hi by (simp add: hi'_def)
  next
    case plain
    then have "fst (emit_run pv hi np nz out) = out @ pre @ run_words 0 nz @ run_words 16384 np"
      by (auto simp: emit_run_def Let_def pre_def)
    then have "plio_exec (fst (emit_run pv hi np nz out)) s
        = Some (acc @ replicate nz 0 @ replicate np (word_of_int hi'), word_of_int hi')"
      using app pre plio_exec_append[OF exec_run_words(1)] exec_run_words(2) by simp
    then show ?thesis unfolding hi using assms(1,3) by (auto simp: hi'_def)
  qed
qed

subsection \<open>The encoder as a recursion over the pixels\<close>

text \<open>\<open>enc_value\<close> is inside a run of \<open>np\<close> pixels \<open>pv\<close> behind \<open>nz\<close> zeros, \<open>enc_gap\<close> behind \<open>nz\<close> zeros.\<close>

fun enc_value :: "int \<Rightarrow> nat \<Rightarrow> nat \<Rightarrow> int \<Rightarrow> i16 list \<Rightarrow> int list \<Rightarrow> i16 list"
and enc_gap :: "int \<Rightarrow> nat \<Rightarrow> i16 list \<Rightarrow> int list \<Rightarrow> i16 list" where
  "enc_value pv np nz hi out [] = fst (emit_run pv hi np nz out)"
| "enc_value pv np nz hi out (q # qs) =
     (if q = pv then enc_value pv (Suc np) nz hi out qs
      else let (out', hi') = emit_run pv hi np nz out
           in if q = 0 then enc_gap hi' 1 out' qs else enc_value q 1 0 hi' out' qs)"
| "enc_gap hi nz out [] = fst (emit_run 0 hi 0 nz out)"
| "enc_gap hi nz out (q # qs) =
     (if q = 0 then enc_gap hi (Suc nz) out qs else enc_value q 1 nz hi out qs)"

lemma plio_encode_loop_end: "length pixels \<le> ip \<Longrightarrow> plio_encode_loop pixels ip pv hi x1 iz out = out"
  by (subst plio_encode_loop.simps) simp

lemma plio_encode_loop_eq:
  assumes "\<forall>p \<in> set pixels. 0 \<le> p" "ip < length pixels" "iz \<le> x1" "x1 \<le> ip"
  shows "pv > 0 \<Longrightarrow> plio_encode_loop pixels ip pv hi x1 iz out
      = enc_value pv (Suc ip - x1) (x1 - iz) hi out (drop (Suc ip) pixels)"
    and "pv = 0 \<Longrightarrow> x1 = iz \<Longrightarrow> plio_encode_loop pixels ip pv hi x1 iz out
      = enc_gap hi (Suc ip - iz) out (drop (Suc ip) pixels)"
  using assms
proof (induction "length pixels - ip" arbitrary: ip pv hi x1 iz out)
  case 0
  {
    case 1
    then show ?case using 0 by simp
  next
    case 2
    then show ?case using 0 by simp
  }
next
  case (Suc k)
  have k: "k = length pixels - Suc ip" using Suc.hyps(3) by simp
  {
  case 1
  note h = this
  show ?case
  proof (cases "Suc ip < length pixels")
    case False
    then show ?thesis
      using h by (subst plio_encode_loop.simps) (simp add: Let_def plio_encode_loop_end split: prod.split)
  next
    case True
    let ?q = "pixels ! Suc ip"
    have l: "ip < length pixels - Suc 0" using True by simp
    have d: "drop (Suc ip) pixels = ?q # drop (Suc (Suc ip)) pixels"
      using True by (simp add: Cons_nth_drop_Suc)
    have q: "0 \<le> ?q" using h(2) True by simp
    then have m: "max ?q 0 = ?q" by simp
    obtain out' hi' where e: "emit_run pv hi (Suc ip - x1) (x1 - iz) out = (out', hi')" by fastforce
    have step: "plio_encode_loop pixels ip pv hi x1 iz out =
        (if ?q = pv then plio_encode_loop pixels (Suc ip) pv hi x1 iz out
         else plio_encode_loop pixels (Suc ip) ?q hi' (Suc ip) (Suc ip) out')"
      using True h m e l by (subst plio_encode_loop.simps) (simp add: Let_def)
    consider "?q = pv" | "?q \<noteq> pv" "?q = 0" | "?q \<noteq> pv" "?q > 0" using q by linarith
    then show ?thesis
    proof cases
      case 1
      have "Suc (Suc ip) - x1 = Suc (Suc ip - x1)" using h(5) by simp
      then show ?thesis
        using Suc.hyps(1)[OF k h(1,2) True h(4)] 1 h(5) step d by simp
    next
      case 2
      then show ?thesis
        using Suc.hyps(2)[OF k refl refl h(2) True, of "Suc ip"] step d e h(1) by simp
    next
      case 3
      then show ?thesis
        using Suc.hyps(1)[OF k 3(2) h(2) True, of "Suc ip" "Suc ip"] step d e by simp
    qed
  qed
  next
  case 2
  note h = this(2-6) and pv = this(1)
  show ?case
  proof (cases "Suc ip < length pixels")
    case False
    then have "length pixels = Suc ip" using h(3) by simp
    then show ?thesis
      using h pv by (subst plio_encode_loop.simps) (simp add: Let_def plio_encode_loop_end split: prod.split)
  next
    case True
    let ?q = "pixels ! Suc ip"
    have l: "ip < length pixels - Suc 0" using True by simp
    have d: "drop (Suc ip) pixels = ?q # drop (Suc (Suc ip)) pixels"
      using True by (simp add: Cons_nth_drop_Suc)
    have q: "0 \<le> ?q" using h(2) True by simp
    then have m: "max ?q 0 = ?q" by simp
    have step: "plio_encode_loop pixels ip pv hi x1 iz out =
        (if ?q = 0 then plio_encode_loop pixels (Suc ip) 0 hi x1 iz out
         else plio_encode_loop pixels (Suc ip) ?q hi (Suc ip) iz out)"
      using True h m l pv by (subst plio_encode_loop.simps) (simp add: Let_def)
    have n: "Suc (Suc ip) - iz = Suc (Suc ip - iz)" using h by simp
    show ?thesis
    proof (cases "?q = 0")
      case zero: True
      then show ?thesis using Suc.hyps(2)[OF k refl h(1,2) True] h(4,5) step d n by simp
    next
      case False
      then have "?q > 0" using q by simp
      then show ?thesis
        using Suc.hyps(1)[OF k _ h(2) True, of ?q iz "Suc ip"] h(1,5) step d False by simp
    qed
  qed
  }
qed

fun safe_value :: "int \<Rightarrow> nat \<Rightarrow> nat \<Rightarrow> int \<Rightarrow> int list \<Rightarrow> bool"
and safe_gap :: "int \<Rightarrow> nat \<Rightarrow> int list \<Rightarrow> bool" where
  "safe_value pv np nz hi [] \<longleftrightarrow> \<not> bad_run pv hi np nz"
| "safe_value pv np nz hi (q # qs) \<longleftrightarrow>
     (if q = pv then safe_value pv (Suc np) nz hi qs
      else \<not> bad_run pv hi np nz \<and> (if q = 0 then safe_gap pv 1 qs else safe_value q 1 0 pv qs))"
| "safe_gap hi nz [] \<longleftrightarrow> True"
| "safe_gap hi nz (q # qs) \<longleftrightarrow> (if q = 0 then safe_gap hi (Suc nz) qs else safe_value q 1 nz hi qs)"

lemma enc_exec:
  "safe_value pv np nz hi ps \<Longrightarrow> \<forall>p \<in> set (pv # ps). 0 \<le> p \<and> p \<le> PLIO_MAX_PV \<Longrightarrow> 0 < pv \<Longrightarrow>
   plio_exec out s = Some (acc, word_of_int hi) \<Longrightarrow>
   \<exists>v. plio_exec (enc_value pv np nz hi out ps) s
     = Some (acc @ replicate nz 0 @ replicate np (word_of_int pv) @ map word_of_int ps, v)"
  "safe_gap hi nz ps \<Longrightarrow> \<forall>p \<in> set ps. 0 \<le> p \<and> p \<le> PLIO_MAX_PV \<Longrightarrow>
   plio_exec out s = Some (acc, word_of_int hi) \<Longrightarrow>
   \<exists>v. plio_exec (enc_gap hi nz out ps) s = Some (acc @ replicate nz 0 @ map word_of_int ps, v)"
proof (induction pv np nz hi out ps and hi nz out ps arbitrary: acc and acc rule: enc_value_enc_gap.induct)
  case (1 pv np nz hi out)
  then show ?case using emit_run_exec(1)[of pv np hi nz out s acc] by auto
next
  case (2 pv np nz hi out q qs)
  show ?case
  proof (cases "q = pv")
    case True
    then have "\<exists>v. plio_exec (enc_value pv (Suc np) nz hi out qs) s = Some (acc @ replicate nz 0
        @ replicate (Suc np) (word_of_int pv) @ map word_of_int qs, v)"
      using 2(4-7) by (intro 2(1)) auto
    then show ?thesis using True by (simp add: replicate_app_Cons_same)
  next
    case False
    obtain out' hi' where e: "emit_run pv hi np nz out = (out', hi')" by fastforce
    have b: "\<not> bad_run pv hi np nz" using 2(4) False by simp
    have x: "plio_exec out' s = Some (acc @ replicate nz 0 @ replicate np (word_of_int pv), word_of_int hi')"
      and hi': "hi' = pv"
      using emit_run_exec[of pv np hi nz out s acc] 2(5-7) b e by auto
    show ?thesis
    proof (cases "q = 0")
      case True
      have "\<exists>v. plio_exec (enc_gap hi' 1 out' qs) s = Some ((acc @ replicate nz 0 @ replicate np (word_of_int pv))
          @ replicate 1 0 @ map word_of_int qs, v)"
        using 2(2)[OF False e[symmetric] refl True _ _ x] 2(4,5) False True hi' by simp
      then show ?thesis using False True e by simp
    next
      case nz: False
      have "\<exists>v. plio_exec (enc_value q 1 0 hi' out' qs) s = Some ((acc @ replicate nz 0 @ replicate np (word_of_int pv))
          @ replicate 0 0 @ replicate 1 (word_of_int q) @ map word_of_int qs, v)"
        using 2(3)[OF False e[symmetric] refl nz _ _ _ x] 2(4,5) False nz hi' by auto
      then show ?thesis using False nz e by simp
    qed
  qed
next
  case (3 hi nz out)
  then show ?case using emit_run_exec(1)[of 0 0 hi nz out s acc]
    by (auto simp: bad_run_def PLIO_MAX_PV_def)
next
  case (4 hi nz out q qs)
  show ?case
  proof (cases "q = 0")
    case True
    then have "\<exists>v. plio_exec (enc_gap hi (Suc nz) out qs) s = Some (acc @ replicate (Suc nz) 0 @ map word_of_int qs, v)"
      using 4(3-5) by (intro 4(1)) auto
    then show ?thesis using True by (simp add: replicate_app_Cons_same)
  next
    case False
    then have "\<exists>v. plio_exec (enc_value q 1 nz hi out qs) s
        = Some (acc @ replicate nz 0 @ replicate 1 (word_of_int q) @ map word_of_int qs, v)"
      using 4(3-5) by (intro 4(2)) auto
    then show ?thesis using False by simp
  qed
qed

subsection \<open>The whole stream\<close>

definition plio_safe :: "int list \<Rightarrow> bool" where
  "plio_safe pixels \<longleftrightarrow> safe_gap 1 0 pixels"

lemma emit_run_prefix:
  "emit_run pv hi np nz (h @ out) = (h @ fst (emit_run pv hi np nz out), snd (emit_run pv hi np nz out))"
proof -
  have "set_pv_words pv dv \<noteq> []" for dv by (simp add: set_pv_words_def)
  then show ?thesis by (simp add: emit_run_def Let_def map_last_append run_words_Nil)
qed

lemma enc_prefix:
  "enc_value pv np nz hi (h @ out) ps = h @ enc_value pv np nz hi out ps"
  "enc_gap hi nz (h @ out) ps = h @ enc_gap hi nz out ps"
  by (induction pv np nz hi out ps and hi nz out ps rule: enc_value_enc_gap.induct)
     (auto simp: emit_run_prefix split: prod.splits)

lemma length_run_words: "length (run_words base n) \<le> n"
proof (induction base n rule: run_words.induct)
  case (1 base n)
  then show ?case by (subst run_words.simps) (cases "n = 0", auto)
qed

lemma length_emit_run:
  "length (fst (emit_run pv hi np nz out)) \<le> length out + (if pv > 0 then 2 else 0) + nz + np"
proof -
  have s: "length (set_pv_words pv dv) \<le> 2" "set_pv_words pv dv \<noteq> []" for dv
    by (simp_all add: set_pv_words_def)
  have m: "length (map_last f ws) = length ws" if "ws \<noteq> []" for f ws
    using that by (simp add: map_last_def)
  show ?thesis
    using s[of "pv - hi"] length_run_words[of 0 nz] length_run_words[of 16384 np] run_words_Nil[of 0 nz]
    by (auto simp: emit_run_def Let_def m)
qed

lemma enc_length:
  "0 < np \<Longrightarrow> length (enc_value pv np nz hi out ps) \<le> length out + 3 * (nz + np + length ps)"
  "length (enc_gap hi nz out ps) \<le> length out + 3 * (nz + length ps)"
proof (induction pv np nz hi out ps and hi nz out ps rule: enc_value_enc_gap.induct)
  case (1 pv np nz hi out)
  then show ?case using length_emit_run[of pv hi np nz out] by (auto split: if_splits)
next
  case (2 pv np nz hi out q qs)
  obtain out' hi' where e: "emit_run pv hi np nz out = (out', hi')" by fastforce
  have l: "length out' \<le> length out + 3 * (nz + np)"
    using length_emit_run[of pv hi np nz out] e 2(4) by (auto split: if_splits)
  show ?case
  proof (cases "q = pv")
    case True
    then show ?thesis using 2(1)[OF True] by simp
  next
    case False
    then show ?thesis
      using 2(2)[OF False e[symmetric] refl] 2(3)[OF False e[symmetric] refl] l e
      by (cases "q = 0") simp_all
  qed
next
  case (3 hi nz out)
  then show ?case using length_emit_run[of 0 hi 0 nz out] by simp
next
  case (4 hi nz out q qs)
  then show ?case by auto
qed

lemma plio_encode_words:
  assumes "\<forall>p \<in> set pixels. 0 \<le> p" "pixels \<noteq> []"
  shows "plio_encode_loop pixels 0 (max (pixels ! 0) 0) 1 0 0 header = header @ enc_gap 1 0 [] pixels"
proof -
  obtain p ps where p: "pixels = p # ps" using assms(2) by (cases pixels) auto
  show ?thesis
  proof (cases "p = 0")
    case True
    then show ?thesis
      using plio_encode_loop_eq(2)[OF assms(1), of 0 0 0 0 1 header] enc_prefix(2)[of 1 1 header "[]" ps] p by simp
  next
    case False
    then have "p > 0" using assms(1) p by auto
    then show ?thesis
      using plio_encode_loop_eq(1)[OF assms(1), of 0 0 0 p 1 header] enc_prefix(1)[of p 1 0 1 header "[]" ps] p
      by simp
  qed
qed

lemma length_2_list: "length xs = Suc (Suc 0) \<Longrightarrow> (\<And>a b. xs = [a, b] \<Longrightarrow> P) \<Longrightarrow> P"
  by (auto simp: length_Suc_conv)

lemma word_at_shorts:
  assumes "i < length ws"
  shows "word_at (shorts_to_be_bytes ws) i = ws ! i"
proof -
  have l: "length (concat (map (to_be 2) us)) = 2 * length us" for us :: "i16 list"
    by (induction us) simp_all
  have "ws = take i ws @ ws ! i # drop (Suc i) ws" using assms by (rule id_take_nth_drop)
  then have s: "shorts_to_be_bytes ws = concat (map (to_be 2) (take i ws)) @ to_be 2 (ws ! i)
      @ concat (map (to_be 2) (drop (Suc i) ws))"
    unfolding shorts_to_be_bytes_def by (metis concat.simps(2) concat_append list.simps(9) map_append)
  have "length (to_be 2 (ws ! i)) = Suc (Suc 0)" by simp
  then obtain a b where ab: "to_be 2 (ws ! i) = [a, b]" by (rule length_2_list)
  have "shorts_to_be_bytes ws ! (2 * i) = a" "shorts_to_be_bytes ws ! (2 * i + 1) = b"
    using assms unfolding s ab by (simp_all add: nth_append l)
  then have "word_at (shorts_to_be_bytes ws) i = from_be (to_be 2 (ws ! i))"
    by (simp add: word_at_def ab)
  then show ?thesis by (simp add: from_be_to_be)
qed

lemma length_shorts: "length (shorts_to_be_bytes ws) = 2 * length ws"
  unfolding shorts_to_be_bytes_def by (induction ws) simp_all

lemma header_length_word:
  assumes "0 \<le> tot" "tot < 1073741824"
  shows "push_bit 15 (scast (to_i16 (tot div 32768)) :: i32) OR (scast (to_i16 (tot mod 32768)) AND 0x7FFF)
    = word_of_int tot"
proof -
  let ?u = "tot div 32768" and ?l = "tot mod 32768"
  have u: "0 \<le> ?u" "?u < 32768" and l: "0 \<le> ?l" "?l < 32768" using assms by simp_all
  have "(0x7FFF :: i32) = word_of_int (mask 15)" by (simp add: mask_eq_exp_minus_1)
  then have "(scast (to_i16 ?l) AND 0x7FFF :: i32) = word_of_int (?l AND mask 15)"
    using l by (simp only: scast_to_i16 of_int_and_eq)
  also have "?l AND mask 15 = ?l" using l by (simp flip: take_bit_eq_mask add: take_bit_eq_mod)
  finally have lo: "(scast (to_i16 ?l) AND 0x7FFF :: i32) = word_of_int ?l" .
  have hi: "push_bit 15 (scast (to_i16 ?u) :: i32) = word_of_int (push_bit 15 ?u)"
    using u by (simp add: scast_to_i16 push_bit_eq_mult)
  have "push_bit 15 ?u OR ?l = push_bit 15 ?u + ?l"
  proof (rule disjunctive_add[symmetric])
    fix n
    have "bit ?l n \<Longrightarrow> n < 15"
      using bit_take_bit_iff[of 15 tot n] by (simp add: take_bit_eq_mod)
    then show "\<not> bit (push_bit 15 ?u) n \<or> \<not> bit ?l n" by (auto simp: bit_push_bit_iff)
  qed
  also have "\<dots> = tot" by (simp add: push_bit_eq_mult)
  finally show ?thesis unfolding hi lo by (simp only: of_int_or_eq[symmetric])
qed

lemma sint_word_i32: "0 \<le> x \<Longrightarrow> x < 2147483648 \<Longrightarrow> sint (word_of_int x :: i32) = x"
  by (simp add: sint_uint unsigned_of_int signed_take_bit_int_eq_self take_bit_int_eq_self)

lemma update_header: "(a # b # c # d # e # r)[3 := x, 4 := y] = a # b # c # x # y # r"
  by (simp add: numeral_eq_Suc)

lemma plio_finish_decode:
  fixes body :: "i16 list"
  assumes "length body < 1073741817" "plio_exec body ([], 1) = Some (pix, v)"
    and "zbitpix \<in> {8, 16, 32}" "bytepix \<in> {1, 2, 4}" "length pix \<le> n"
  shows "decode_plio big (plio_finish (map to_i16 [0, 7, - 100, 0, 0, 0, 0] @ body)) n bytepix zbitpix
    = cast_i32_to_target_bytes big (pix @ replicate (n - length pix) 0) bytepix zbitpix"
proof -
  let ?tot = "int (7 + length body)"
  define ws where "ws = map to_i16 [0, 7, - 100, ?tot mod 32768, ?tot div 32768, 0, 0] @ body"
  let ?c = "shorts_to_be_bytes ws"
  have fin: "plio_finish (map to_i16 [0, 7, - 100, 0, 0, 0, 0] @ body) = ?c"
    by (simp add: plio_finish_def ws_def Let_def update_header)
  have l: "length ws = 7 + length body" by (simp add: ws_def)
  have w: "word_at ?c i = ws ! i" if "i < length ws" for i using word_at_shorts[OF that] .
  have h: "word_at ?c 1 = to_i16 7" "word_at ?c 2 = to_i16 (- 100)" "word_at ?c 3 = to_i16 (?tot mod 32768)"
    "word_at ?c 4 = to_i16 (?tot div 32768)"
    by (rule trans[OF w], simp add: l, simp add: ws_def)+
  have t: "0 \<le> ?tot" "?tot < 1073741824" using assms(1) by simp_all
  have s100: "sint (to_i16 (- 100)) = - 100" by (simp add: to_i16_def)
  have s7: "sint (to_i16 7) = 7" by (simp add: sint_to_i16)
  have st: "sint (word_of_int ?tot :: i32) = ?tot" using t by (intro sint_word_i32) linarith+
  have "plio_header ?c = Inr (nat ?tot, 7)"
    unfolding plio_header_def Let_def h s100 s7 header_length_word[OF t] st by simp
  then have header: "plio_header ?c = Inr (length ws, 7)" using l by simp
  have body: "word_at ?c (7 + k) = body ! k" if "k < length body" for k
  proof -
    let ?H = "map to_i16 [0, 7, - 100, ?tot mod 32768, ?tot div 32768, 0, 0]"
    have "7 + k = length ?H + k" by simp
    then have "ws ! (7 + k) = body ! k" unfolding ws_def by (simp only: nth_append_length_plus)
    with w[of "7 + k"] that l show ?thesis by simp
  qed
  obtain st where "plio_loop ?c n (length ws) 7 (plio_rep n ([], 1)) = Inr st"
    "st_out st = pix @ replicate (n - length pix) 0"
    using plio_loop_exec[OF assms(2) _ body, of n "length ws"] l assms(5) by auto
  then show ?thesis
    using assms(3,4) l header unfolding fin decode_plio_def
    by (simp add: length_shorts Let_def plio_rep_def)
qed

lemma plio_validate_ok: "plio_validate i px = Inr () \<longleftrightarrow> (\<forall>p \<in> set px. 0 \<le> p \<and> p \<le> PLIO_MAX_PV)"
  by (induction px arbitrary: i) auto

lemma plio_validate_first:
  "\<not> (\<forall>p \<in> set px. 0 \<le> p \<and> p \<le> PLIO_MAX_PV) \<Longrightarrow>
   \<exists>i < length px. (\<forall>p \<in> set (take i px). 0 \<le> p \<and> p \<le> PLIO_MAX_PV) \<and>
     plio_validate k px = Inl (if px ! i < 0 then NegativePixel (k + i) else PixelTooLarge (k + i)) \<and>
     (px ! i < 0 \<or> px ! i > PLIO_MAX_PV)"
proof (induction px arbitrary: k)
  case (Cons p px)
  show ?case
  proof (cases "0 \<le> p \<and> p \<le> PLIO_MAX_PV")
    case True
    then obtain i where "i < length px" "\<forall>p \<in> set (take i px). 0 \<le> p \<and> p \<le> PLIO_MAX_PV"
      "plio_validate (Suc k) px = Inl (if px ! i < 0 then NegativePixel (Suc k + i) else PixelTooLarge (Suc k + i))"
      "px ! i < 0 \<or> px ! i > PLIO_MAX_PV"
      using Cons.IH[of "Suc k"] Cons.prems by auto
    with True show ?thesis by (intro exI[of _ "Suc i"]) auto
  next
    case False
    then show ?thesis by (intro exI[of _ 0]) auto
  qed
qed simp

lemma encode_plio_i32_words:
  assumes "\<forall>p \<in> set px. 0 \<le> p \<and> p \<le> PLIO_MAX_PV"
  shows "encode_plio_i32 px
    = Inr (plio_finish (map to_i16 [0, 7, - 100, 0, 0, 0, 0] @ enc_gap 1 0 [] px))"
proof (cases "px = []")
  case True
  have "run_words base 0 = []" for base by (simp add: run_words.simps)
  with True show ?thesis by (simp add: encode_plio_i32_def Let_def emit_run_def)
next
  case False
  have "plio_validate 0 px = Inr ()" using assms plio_validate_ok by blast
  moreover have "\<forall>p \<in> set px. 0 \<le> p" using assms by blast
  ultimately show ?thesis
    using plio_encode_words[of px] False by (simp add: encode_plio_i32_def Let_def)
qed

lemma plio_i32_roundtrip:
  assumes "\<forall>p \<in> set px. 0 \<le> p \<and> p \<le> PLIO_MAX_PV" "plio_safe px" "length px \<le> 268435456"
    and "zbitpix \<in> {8, 16, 32}" "bytepix \<in> {1, 2, 4}"
  shows "res_bind (encode_plio_i32 px) (\<lambda>c. decode_plio big c (length px) bytepix zbitpix)
    = cast_i32_to_target_bytes big (map word_of_int px) bytepix zbitpix"
proof -
  let ?body = "enc_gap 1 0 [] px"
  obtain v where x: "plio_exec ?body ([], 1) = Some (map word_of_int px, v)"
    using enc_exec(2)[of 1 0 px "[]" "([], 1)" "[]"] assms(1,2) by (auto simp: plio_safe_def)
  have "length ?body < 1073741817" using enc_length(2)[of 1 0 "[]" px] assms(3) by simp
  from plio_finish_decode[OF this x assms(4,5), of "length px" big] show ?thesis
    by (simp add: encode_plio_i32_words[OF assms(1)])
qed

lemma plio_pixels_cast:
  assumes "length bs = n * bytepix" "plio_pixels bs n bytepix zbitpix = Inr px"
  shows "cast_i32_to_target_bytes big (map word_of_int px) bytepix zbitpix = Inr (to_native big bytepix bs)"
    and "length px = n"
proof -
  have b1: "ucast (word_of_int (uint b) :: i32) = (b :: u8)" for b
    by (rule word_uint_eqI) (simp add: unsigned_ucast_eq unsigned_of_int take_bit_int_eq_self take_bit_word_eq_self)
  have b2: "ucast (scast w :: i32) = (w :: i16)" for w
  proof (rule bit_word_eqI)
    fix n assume "n < LENGTH(16)"
    then have "n < 16" "min 15 n = n" by simp_all
    then show "bit (ucast (scast w :: i32) :: i16) n \<longleftrightarrow> bit w n"
      by (simp add: bit_simps)
  qed
  have ix: "i * k + j < n * k" if "i < n" "j < k" for i j k :: nat
  proof -
    have "i * k + j < Suc i * k" using that by simp
    also have "\<dots> \<le> n * k" using that by (intro mult_le_mono1) simp
    finally show ?thesis .
  qed
  consider "bytepix = 1" "zbitpix = 8" | "bytepix = 2" "zbitpix = 16" | "bytepix = 4" "zbitpix = 32"
    using assms(2) by (auto simp: plio_pixels_def split: if_splits)
  then show "cast_i32_to_target_bytes big (map word_of_int px) bytepix zbitpix = Inr (to_native big bytepix bs)"
  proof cases
    case 1
    then have "px = map (\<lambda>i. uint (bs ! i)) [0..<n]" using assms(2) by (simp add: plio_pixels_def)
    moreover have "map (\<lambda>i. bs ! i) [0..<n] = bs" using assms(1) 1 map_nth[of bs] by simp
    ultimately show ?thesis
      using 1 by (simp add: cast_i32_to_target_bytes_def to_native_def o_def b1[simplified])
  next
    case 2
    have "[bs ! (2 * i), bs ! (2 * i + 1)] = take 2 (drop (i * 2) bs)" if "i < n" for i
      using ix[OF that, of 1 2] assms(1) 2 by (simp add: take_Suc_conv_app_nth numeral_2_eq_2 mult.commute)
    then have "px = map (\<lambda>i. sint (from_be (take 2 (drop (i * 2) bs)) :: i16)) [0..<n]"
      using assms(2) 2 by (auto simp: plio_pixels_def)
    then show ?thesis
      using 2 assms(1) native_words[of bs n 2 big, where ?'a = 16]
      by (simp add: cast_i32_to_target_bytes_def o_def b2)
  next
    case 3
    have "[bs ! (4 * i), bs ! (4 * i + 1), bs ! (4 * i + 2), bs ! (4 * i + 3)] = take 4 (drop (i * 4) bs)"
      if "i < n" for i
      using ix[OF that, of 3 4] assms(1) 3 by (simp add: take_Suc_conv_app_nth numeral_eq_Suc mult.commute)
    then have "px = map (\<lambda>i. sint (from_be (take 4 (drop (i * 4) bs)) :: i32)) [0..<n]"
      using assms(2) 3 by (auto simp: plio_pixels_def)
    then show ?thesis
      using 3 assms(1) native_words[of bs n 4 big, where ?'a = 32]
      by (simp add: cast_i32_to_target_bytes_def o_def)
  qed
  show "length px = n" using assms(2) by (auto simp: plio_pixels_def split: if_splits)
qed

text \<open>Small tiles of small values have none of the runs the encoder writes wrongly.\<close>

lemma plio_small_safe:
  "nz + np + length ps \<le> 4095 \<Longrightarrow> 0 < np \<Longrightarrow> 0 < pv \<Longrightarrow> 0 < hi \<Longrightarrow> hi \<le> 4096 \<Longrightarrow>
   \<forall>p \<in> set (pv # ps). 0 \<le> p \<and> p \<le> 4096 \<Longrightarrow> safe_value pv np nz hi ps"
  "nz + length ps \<le> 4095 \<Longrightarrow> 0 < hi \<Longrightarrow> hi \<le> 4096 \<Longrightarrow>
   \<forall>p \<in> set ps. 0 \<le> p \<and> p \<le> 4096 \<Longrightarrow> safe_gap hi nz ps"
proof (induction pv np nz hi ps and hi nz ps rule: safe_value_safe_gap.induct)
  case (1 pv np nz hi)
  then show ?case by (auto simp: bad_run_def)
next
  case (2 pv np nz hi q qs)
  then have "\<not> bad_run pv hi np nz" by (auto simp: bad_run_def)
  with 2 show ?case by auto
next
  case (4 hi nz q qs)
  then show ?case by auto
qed simp

lemma enc_gap_zeros: "enc_gap hi nz out (replicate m 0 @ ps) = enc_gap hi (nz + m) out ps"
  by (induction m arbitrary: nz) simp_all

lemma plio_lossless:
  assumes "length bs = n * bytepix" "n \<le> 268435456" "plio_pixels bs n bytepix zbitpix = Inr px"
    and "\<forall>p \<in> set px. 0 \<le> p \<and> p \<le> PLIO_MAX_PV" "plio_safe px"
  shows "res_bind (encode_plio bs n bytepix zbitpix) (\<lambda>c. decode_plio big c n bytepix zbitpix)
    = Inr (to_native big bytepix bs)"
proof -
  have w: "bytepix \<in> {1, 2, 4}" "zbitpix \<in> {8, 16, 32}"
    using assms(3) by (auto simp: plio_pixels_def split: if_splits)
  then have "checked_mul n bytepix = Inr (n * bytepix)"
    using assms(2) by (auto simp: checked_mul_def)
  with w assms(1,3) have "encode_plio bs n bytepix zbitpix = encode_plio_i32 px"
    by (simp add: encode_plio_def)
  with plio_i32_roundtrip[OF assms(4,5) _ w(2,1), of big] plio_pixels_cast[OF assms(1,3)] assms(2)
  show ?thesis by simp
qed

definition plio_tile_ok :: "nat \<Rightarrow> nat \<Rightarrow> int \<Rightarrow> bytes \<Rightarrow> bool" where
  "plio_tile_ok n bytepix zbitpix bs \<longleftrightarrow>
     length bs = n * bytepix \<and> n \<le> 268435456 \<and>
     (case plio_pixels bs n bytepix zbitpix of
        Inl _ \<Rightarrow> False
      | Inr px \<Rightarrow> (\<forall>p \<in> set px. 0 \<le> p \<and> p \<le> PLIO_MAX_PV) \<and> plio_safe px)"

interpretation plio: tile_codec "\<lambda>pix. encode_plio pix n bytepix zbitpix"
    "\<lambda>c. decode_plio big c n bytepix zbitpix" "to_native big bytepix" "plio_tile_ok n bytepix zbitpix"
    for n bytepix zbitpix big
proof unfold_locales
  fix pix assume "plio_tile_ok n bytepix zbitpix pix"
  then show "res_bind (encode_plio pix n bytepix zbitpix) (\<lambda>c. decode_plio big c n bytepix zbitpix)
      = Inr (to_native big bytepix pix)"
    by (auto simp: plio_tile_ok_def split: sum.splits intro: plio_lossless)
next
  fix pix pix' assume "plio_tile_ok n bytepix zbitpix pix"
    and e: "to_native big bytepix pix = to_native big bytepix pix'"
  then have "bytepix \<in> {1, 2, 4, 8}"
    by (auto simp: plio_tile_ok_def plio_pixels_def split: sum.splits if_splits)
  then show "pix = pix'" using e by (rule to_native_inject)
qed

subsection \<open>Properties\<close>

text \<open>
  C16: PLIO_1 is lossless on every tile the encoder accepts in which no run is one of the two
  kinds it writes wrongly (\<open>plio_safe\<close>): decoding the encoded tile gives the pixels in host
  order, in each of the three pixel widths, for up to 2^28 pixels.
\<close>

theorem plio_roundtrip:
  assumes "length bs = n * bytepix" "n \<le> 268435456" "plio_pixels bs n bytepix zbitpix = Inr px"
    and "\<forall>p \<in> set px. 0 \<le> p \<and> p \<le> PLIO_MAX_PV" "plio_safe px"
  shows "res_bind (encode_plio bs n bytepix zbitpix) (\<lambda>c. decode_plio big c n bytepix zbitpix)
    = Inr (to_native big bytepix bs)"
  by (rule plio_lossless[OF assms])

theorem plio_roundtrip_witness:
  "res_bind (encode_plio [0, 0, 7, 7, 0, 9] 6 1 8) (\<lambda>c. decode_plio False c 6 1 8)
     = Inr (to_native False 1 [0, 0, 7, 7, 0, 9])"
  by (rule plio_roundtrip[where px = "[0, 0, 7, 7, 0, 9]"])
     (simp_all add: plio_pixels_def upt_rec PLIO_MAX_PV_def plio_safe_def bad_run_def)

text \<open>
  C22: in particular every 8-bit tile of at most 4095 pixels survives the round trip, with no
  further condition.
\<close>

theorem plio_byte_tiles_roundtrip:
  assumes "length bs \<le> 4095"
  shows "res_bind (encode_plio bs (length bs) 1 8) (\<lambda>c. decode_plio big c (length bs) 1 8) = Inr bs"
proof -
  let ?px = "map (\<lambda>i. uint (bs ! i)) [0..<length bs]"
  have r: "0 \<le> uint b \<and> uint b \<le> 255" for b :: u8
    using unsigned_less[of b, where ?'a = int] by simp
  have "plio_safe ?px"
    unfolding plio_safe_def using r assms
    by (intro plio_small_safe(2)) (auto intro: order.trans[of _ 255])
  moreover have "\<forall>p \<in> set ?px. 0 \<le> p \<and> p \<le> PLIO_MAX_PV"
    using r by (auto simp: PLIO_MAX_PV_def intro: order.trans[of _ 255])
  ultimately show ?thesis
    using plio_i32_roundtrip[of ?px 8 1 big] plio_pixels_cast(1)[of bs "length bs" 1 8 ?px big] assms
    by (simp add: encode_plio_def checked_mul_def plio_pixels_def to_native_def)
qed

theorem plio_byte_tiles_roundtrip_witness:
  "res_bind (encode_plio [0, 255, 0] (length [0, 255, 0 :: u8]) 1 8)
     (\<lambda>c. decode_plio True c (length [0, 255, 0 :: u8]) 1 8) = Inr [0, 255, 0]"
  by (rule plio_byte_tiles_roundtrip) simp

text \<open>
  the encoder accepts exactly the lists of values from 0 to 2^27 - 1; otherwise the error
  names the first pixel out of range.
\<close>

theorem plio_encode_accepts:
  "case encode_plio_i32 px of
     Inr _ \<Rightarrow> \<forall>p \<in> set px. 0 \<le> p \<and> p \<le> PLIO_MAX_PV
   | Inl (NegativePixel i) \<Rightarrow> i < length px \<and> px ! i < 0 \<and> (\<forall>p \<in> set (take i px). 0 \<le> p \<and> p \<le> PLIO_MAX_PV)
   | Inl (PixelTooLarge i) \<Rightarrow> i < length px \<and> px ! i > PLIO_MAX_PV \<and> (\<forall>p \<in> set (take i px). 0 \<le> p \<and> p \<le> PLIO_MAX_PV)
   | Inl _ \<Rightarrow> False"
proof (cases "\<forall>p \<in> set px. 0 \<le> p \<and> p \<le> PLIO_MAX_PV")
  case True
  then show ?thesis by (simp add: encode_plio_i32_words)
next
  case False
  then obtain i where i: "i < length px" "\<forall>p \<in> set (take i px). 0 \<le> p \<and> p \<le> PLIO_MAX_PV"
    "encode_plio_i32 px = Inl (if px ! i < 0 then NegativePixel i else PixelTooLarge i)"
    "px ! i < 0 \<or> px ! i > PLIO_MAX_PV"
    using plio_validate_first[of px 0] by (auto simp: encode_plio_i32_def)
  then show ?thesis by auto
qed

theorem plio_encode_accepts_witness:
  "case encode_plio_i32 [3, - 4 :: int] of
     Inr _ \<Rightarrow> \<forall>p \<in> set [3, - 4 :: int]. 0 \<le> p \<and> p \<le> PLIO_MAX_PV
   | Inl (NegativePixel i) \<Rightarrow> i < length [3, - 4 :: int] \<and> [3, - 4 :: int] ! i < (0 :: int) \<and> (\<forall>p \<in> set (take i [3, - 4 :: int]). 0 \<le> p \<and> p \<le> PLIO_MAX_PV)
   | Inl (PixelTooLarge i) \<Rightarrow> i < length [3, - 4 :: int] \<and> [3, - 4 :: int] ! i > PLIO_MAX_PV \<and> (\<forall>p \<in> set (take i [3, - 4 :: int]). 0 \<le> p \<and> p \<le> PLIO_MAX_PV)
   | Inl _ \<Rightarrow> False"
  by (rule plio_encode_accepts)



end
