(* ===== verification/RiceBits.thy ===== *)
theory RiceBits
  imports Pixels
begin

text \<open>
  Bit-level input and output of the RICE_1 codec (\<open>src/zimage/rice.rs\<close>): the generic
  \<open>BitReader\<close>, the 64-bit refill buffer of the fast decoder and the \<open>BitWriter\<close>, all most
  significant bit first.
\<close>

subsection \<open>\<open>BitReader\<close>\<close>

record bit_reader =
  br_data :: bytes
  byte_pos :: nat
  bit_pos :: nat

definition reader_new :: "bytes \<Rightarrow> bit_reader" where
  "reader_new d = \<lparr>br_data = d, byte_pos = 0, bit_pos = 0\<rparr>"

text \<open>The loop of \<open>read_bits\<close>. \<open>bit_pos\<close> is always below 8, which the first test makes explicit.\<close>

function read_loop :: "bit_reader \<Rightarrow> u64 \<Rightarrow> nat \<Rightarrow> codec_error + u64 \<times> bit_reader" where
  "read_loop r res remaining =
     (if remaining = 0 then Inr (res, r)
      else if bit_pos r \<ge> 8 then Inl Panic
      else if byte_pos r \<ge> length (br_data r) then Inl EndOfStream
      else
        (let avail = 8 - bit_pos r;
             tk = min remaining avail;
             shift = avail - tk;
             mask32 = (if tk = 32 then - 1 else push_bit tk 1 - 1 :: u32);
             bits = ucast (drop_bit shift (ucast (br_data r ! byte_pos r) :: u32) AND mask32) :: u64;
             res' = push_bit tk res OR bits;
             bp = bit_pos r + tk;
             r' = (if bp = 8 then r\<lparr>byte_pos := byte_pos r + 1, bit_pos := 0\<rparr> else r\<lparr>bit_pos := bp\<rparr>)
         in read_loop r' res' (remaining - tk)))"
  by pat_completeness auto
termination by (relation "measure (\<lambda>(_, _, remaining). remaining)") auto

declare read_loop.simps [simp del]

definition read_bits :: "bit_reader \<Rightarrow> nat \<Rightarrow> codec_error + u64 \<times> bit_reader" where
  "read_bits r n =
     (if n = 0 then Inr (0, r) else if n > 64 then Inl TooManyBits else read_loop r 0 n)"

function unary_loop :: "bit_reader \<Rightarrow> nat \<Rightarrow> codec_error + nat \<times> bit_reader" where
  "unary_loop r count =
     (if count > 1024 then Inl UnaryTooLong
      else case read_bits r 1 of
        Inl e \<Rightarrow> Inl e
      | Inr (b, r') \<Rightarrow> if b = 1 then Inr (count, r') else unary_loop r' (count + 1))"
  by pat_completeness auto
termination by (relation "measure (\<lambda>(_, count). 1025 - count)") auto

declare unary_loop.simps [simp del]

definition read_unary :: "bit_reader \<Rightarrow> codec_error + nat \<times> bit_reader" where
  "read_unary r = unary_loop r 0"

subsection \<open>The refill buffer\<close>

text \<open>\<open>buf\<close> holds \<open>nbits\<close> bits at its top; \<open>pos\<close> is the next byte of the input \<open>c\<close>.\<close>

record bit_buffer =
  bb_buf :: u64
  bb_nbits :: nat
  bb_pos :: nat

function refill32 :: "bytes \<Rightarrow> bit_buffer \<Rightarrow> bit_buffer" where
  "refill32 c b =
     (if bb_nbits b \<le> 32 \<and> bb_pos b + 4 \<le> length c then
        (let w = ucast (from_be [c ! bb_pos b, c ! (bb_pos b + 1), c ! (bb_pos b + 2), c ! (bb_pos b + 3)] :: u32) :: u64
         in refill32 c (b\<lparr>bb_buf := bb_buf b OR push_bit (32 - bb_nbits b) w,
                         bb_pos := bb_pos b + 4, bb_nbits := bb_nbits b + 32\<rparr>))
      else b)"
  by pat_completeness auto
termination by (relation "measure (\<lambda>(_, b). 33 - bb_nbits b)") auto

function refill8 :: "bytes \<Rightarrow> bit_buffer \<Rightarrow> bit_buffer" where
  "refill8 c b =
     (if bb_nbits b \<le> 56 \<and> bb_pos b < length c then
        refill8 c (b\<lparr>bb_buf := bb_buf b OR push_bit (56 - bb_nbits b) (ucast (c ! bb_pos b)),
                     bb_pos := bb_pos b + 1, bb_nbits := bb_nbits b + 8\<rparr>)
      else b)"
  by pat_completeness auto
termination by (relation "measure (\<lambda>(_, b). 57 - bb_nbits b)") auto

declare refill32.simps [simp del] refill8.simps [simp del]

definition refill :: "bytes \<Rightarrow> bit_buffer \<Rightarrow> bit_buffer" where
  "refill c b = refill8 c (refill32 c b)"

text \<open>Ensure \<open>n\<close> bits (refilling if fewer are there) and take them, as every read of the fast decoder does.\<close>

definition take_bits :: "bytes \<Rightarrow> nat \<Rightarrow> bit_buffer \<Rightarrow> codec_error + u32 \<times> bit_buffer" where
  "take_bits c n b =
     (let b1 = (if bb_nbits b < n then refill c b else b)
      in if bb_nbits b1 < n then Inl EndOfStream
         else Inr (ucast (drop_bit (64 - n) (bb_buf b1)),
                   b1\<lparr>bb_buf := push_bit n (bb_buf b1), bb_nbits := bb_nbits b1 - n\<rparr>))"

definition leading_zeros :: "u64 \<Rightarrow> nat" where
  "leading_zeros w = length (takeWhile Not (msb_bits 64 w))"

text \<open>
  The unary loop. Each round with an empty buffer must find new input, so the bytes left bound
  the rounds; the last clause is never reached.
\<close>

fun unary_buf :: "nat \<Rightarrow> bytes \<Rightarrow> nat \<Rightarrow> bit_buffer \<Rightarrow> codec_error + nat \<times> bit_buffer" where
  "unary_buf 0 c nzero b = Inl Panic"
| "unary_buf (Suc fuel) c nzero b =
     (if bb_buf b = 0 then
        (let nz = nzero + bb_nbits b
         in if nz > 1024 then Inl UnaryTooLong
            else
              (let b1 = refill c (b\<lparr>bb_nbits := 0\<rparr>)
               in if bb_nbits b1 = 0 then Inl EndOfStream else unary_buf fuel c nz b1))
      else
        (let lz = leading_zeros (bb_buf b)
         in Inr (nzero + lz, b\<lparr>bb_buf := push_bit 1 (push_bit lz (bb_buf b)), bb_nbits := bb_nbits b - (lz + 1)\<rparr>)))"

definition take_unary :: "bytes \<Rightarrow> bit_buffer \<Rightarrow> codec_error + nat \<times> bit_buffer" where
  "take_unary c b = unary_buf (Suc (Suc (length c - bb_pos b))) c 0 b"

subsection \<open>\<open>BitWriter\<close>\<close>

record bit_writer =
  bw_out :: bytes
  cur_byte :: u8
  bits_used :: nat

definition writer_new :: bit_writer where
  "writer_new = \<lparr>bw_out = [], cur_byte = 0, bits_used = 0\<rparr>"

definition writer_flush :: "bit_writer \<Rightarrow> bit_writer" where
  "writer_flush w =
     (if bits_used w = 8 then w\<lparr>bw_out := bw_out w @ [cur_byte w], cur_byte := 0, bits_used := 0\<rparr> else w)"

text \<open>\<open>bits_used\<close> is below 8 between writes; the second test makes that explicit.\<close>

function write_loop :: "bit_writer \<Rightarrow> u64 \<Rightarrow> nat \<Rightarrow> bit_writer" where
  "write_loop w value remaining =
     (if remaining = 0 \<or> bits_used w \<ge> 8 then w
      else
        (let avail = 8 - bits_used w;
             tk = min remaining avail;
             shift = remaining - tk;
             mask_u8 = (if tk = 8 then 0xFF else push_bit tk 1 - 1 :: u8);
             top_bits = (ucast (drop_bit shift value) :: u8) AND mask_u8;
             w1 = w\<lparr>cur_byte := cur_byte w OR push_bit (avail - tk) top_bits, bits_used := bits_used w + tk\<rparr>;
             value' = (if shift > 0 then value AND (push_bit shift 1 - 1) else value)
         in write_loop (writer_flush w1) value' (remaining - tk)))"
  by pat_completeness auto
termination by (relation "measure (\<lambda>(_, _, remaining). remaining)") auto

function zeros_loop :: "bit_writer \<Rightarrow> nat \<Rightarrow> bit_writer" where
  "zeros_loop w remaining =
     (if remaining = 0 \<or> bits_used w \<ge> 8 then w
      else
        (let tk = min remaining (8 - bits_used w)
         in zeros_loop (writer_flush (w\<lparr>bits_used := bits_used w + tk\<rparr>)) (remaining - tk)))"
  by pat_completeness auto
termination by (relation "measure (\<lambda>(_, remaining). remaining)") auto

declare write_loop.simps [simp del] zeros_loop.simps [simp del]

definition write_bits :: "bit_writer \<Rightarrow> u64 \<Rightarrow> nat \<Rightarrow> bit_writer" where
  "write_bits w value n =
     (if n = 0 then w
      else write_loop w (value AND (if n = 64 then - 1 else push_bit n 1 - 1)) n)"

definition write_zeros :: "bit_writer \<Rightarrow> nat \<Rightarrow> bit_writer" where
  "write_zeros w n = zeros_loop w n"

definition write_unary :: "bit_writer \<Rightarrow> nat \<Rightarrow> bit_writer" where
  "write_unary w count = write_bits (write_zeros w count) 1 1"

definition writer_finish :: "bit_writer \<Rightarrow> bytes" where
  "writer_finish w = (if bits_used w > 0 then bw_out w @ [cur_byte w] else bw_out w)"

subsection \<open>Left-aligned bit strings in a word\<close>

definition left_rep :: "bool list \<Rightarrow> 'a::len word \<Rightarrow> bool" where
  "left_rep bs w \<longleftrightarrow> length bs \<le> LENGTH('a) \<and>
     msb_bits LENGTH('a) w = bs @ replicate (LENGTH('a) - length bs) False"

lemma left_rep_bit:
  fixes w :: "'a::len word"
  assumes "left_rep bs w" "i < LENGTH('a)"
  shows "bit w (LENGTH('a) - 1 - i) \<longleftrightarrow> i < length bs \<and> bs ! i"
proof -
  have "msb_bits LENGTH('a) w ! i = (bs @ replicate (LENGTH('a) - length bs) False) ! i"
    using assms(1) by (simp add: left_rep_def)
  then show ?thesis using assms by (auto simp: left_rep_def nth_append)
qed

lemma left_repI:
  fixes w :: "'a::len word"
  assumes "length bs \<le> LENGTH('a)"
    and "\<And>i. i < LENGTH('a) \<Longrightarrow> bit w (LENGTH('a) - 1 - i) \<longleftrightarrow> i < length bs \<and> bs ! i"
  shows "left_rep bs w"
  unfolding left_rep_def
proof (intro conjI nth_equalityI)
  fix i assume "i < length (msb_bits LENGTH('a) w)"
  then show "msb_bits LENGTH('a) w ! i = (bs @ replicate (LENGTH('a) - length bs) False) ! i"
    using assms by (cases "i < length bs") (simp_all add: nth_append)
qed (use assms(1) in simp_all)

lemma left_rep_0: "left_rep [] 0"
  by (rule left_repI) auto

lemma left_rep_zero_iff: "left_rep bs (w :: 'a::len word) \<Longrightarrow> w = 0 \<longleftrightarrow> True \<notin> set bs"
proof
  assume r: "left_rep bs w" and "w = 0"
  then show "True \<notin> set bs"
    using left_rep_bit[OF r] by (fastforce simp: left_rep_def in_set_conv_nth)
next
  assume r: "left_rep bs w" and "True \<notin> set bs"
  then have "bs = replicate (length bs) False"
    by (metis (full_types) replicate_length_same)
  moreover have "replicate (length bs) False @ replicate (LENGTH('a) - length bs) False
      = replicate LENGTH('a) False"
    using r by (simp add: left_rep_def flip: replicate_add)
  ultimately have "msb_bits LENGTH('a) w = replicate LENGTH('a) False"
    using r by (simp add: left_rep_def)
  also have "\<dots> = msb_bits LENGTH('a) (0 :: 'a word)" by (rule nth_equalityI) auto
  finally show "w = 0" by (rule msb_bits_inject)
qed

lemma left_rep_append:
  fixes w v :: "'a::len word"
  assumes r: "left_rep bs w" and n: "length bs + k \<le> LENGTH('a)"
    and v: "\<And>i. k \<le> i \<Longrightarrow> \<not> bit v i"
  shows "left_rep (bs @ msb_bits k v) (w OR push_bit (LENGTH('a) - length bs - k) v)"
proof (rule left_repI)
  fix i assume i: "i < LENGTH('a)"
  let ?s = "LENGTH('a) - length bs - k" and ?j = "LENGTH('a) - 1 - i"
  have w: "bit w ?j \<longleftrightarrow> i < length bs \<and> bs ! i" by (rule left_rep_bit[OF r i])
  have p: "bit (push_bit ?s v) ?j \<longleftrightarrow> ?s \<le> ?j \<and> bit v (?j - ?s)"
    using i by (auto simp: bit_push_bit_iff)
  consider "i < length bs" | "length bs \<le> i" "i < length bs + k" | "length bs + k \<le> i" by linarith
  then show "bit (w OR push_bit ?s v) ?j \<longleftrightarrow>
      i < length (bs @ msb_bits k v) \<and> (bs @ msb_bits k v) ! i"
  proof cases
    case 1
    then have "k \<le> ?j - ?s" using n i by linarith
    then show ?thesis using 1 w p v by (simp add: bit_or_iff nth_append)
  next
    case 2
    then have "?s \<le> ?j" "?j - ?s = k - 1 - (i - length bs)" using n i by linarith+
    then show ?thesis using 2 w p by (auto simp: bit_or_iff nth_append)
  next
    case 3
    then have "\<not> ?s \<le> ?j" using n i by linarith
    then show ?thesis using 3 w p by (simp add: bit_or_iff)
  qed
qed (use n in simp)

lemma left_rep_shift:
  fixes w :: "'a::len word"
  assumes r: "left_rep bs w" and n: "n \<le> length bs"
  shows "left_rep (drop n bs) (push_bit n w)"
proof (rule left_repI)
  have l: "length bs \<le> LENGTH('a)" using r by (simp add: left_rep_def)
  then show "length (drop n bs) \<le> LENGTH('a)" by simp
  fix i assume i: "i < LENGTH('a)"
  let ?j = "LENGTH('a) - 1 - i"
  show "bit (push_bit n w) ?j \<longleftrightarrow> i < length (drop n bs) \<and> drop n bs ! i"
  proof (cases "n \<le> ?j")
    case True
    then have "?j - n = LENGTH('a) - 1 - (i + n)" "i + n < LENGTH('a)" using i by linarith+
    then show ?thesis
      using True left_rep_bit[OF r, of "i + n"] i n by (auto simp: bit_push_bit_iff add.commute)
  next
    case False
    then have "\<not> i < length bs - n" using i l by linarith
    then show ?thesis using False by (simp add: bit_push_bit_iff)
  qed
qed

lemma left_rep_top:
  fixes w :: "'a::len word"
  assumes r: "left_rep bs w" and n: "n \<le> length bs"
  shows "unat (drop_bit (LENGTH('a) - n) w) = bits_val (take n bs)"
proof -
  have l: "n \<le> LENGTH('a)" using r n by (simp add: left_rep_def)
  have "LENGTH('a) = n + (LENGTH('a) - n)" using l by simp
  then have "msb_bits LENGTH('a) w = msb_bits n (drop_bit (LENGTH('a) - n) w) @ msb_bits (LENGTH('a) - n) w"
    by (metis msb_bits_add)
  then have "msb_bits n (drop_bit (LENGTH('a) - n) w) = take n (msb_bits LENGTH('a) w)" by simp
  also have "\<dots> = take n bs" using r n by (simp add: left_rep_def)
  finally have "take_bit n (unat (drop_bit (LENGTH('a) - n) w)) = bits_val (take n bs)"
    by (metis bits_val_msb_bits)
  moreover have "unat (drop_bit (LENGTH('a) - n) w) < 2 ^ n"
    unfolding unat_drop_bit_eq using l unsigned_less[of w, where ?'a = nat]
    by (simp add: drop_bit_eq_div less_mult_imp_div_less flip: power_add)
  ultimately show ?thesis by (simp add: take_bit_nat_eq_self)
qed

subsection \<open>The contract of a bit source\<close>

text \<open>
  What the Rice decoders need of their input: fixed-width reads of at most \<open>limit\<close> bits and unary
  counts of at most 1024, each consuming its bits.
\<close>

locale bit_source =
  fixes inv :: "'s \<Rightarrow> bool"
    and bits_of :: "'s \<Rightarrow> bool list"
    and rd :: "nat \<Rightarrow> 's \<Rightarrow> codec_error + nat \<times> 's"
    and un :: "'s \<Rightarrow> codec_error + nat \<times> 's"
    and limit :: nat
  assumes rd_ok: "inv s \<Longrightarrow> n \<le> limit \<Longrightarrow> n \<le> length (bits_of s) \<Longrightarrow>
      \<exists>s'. rd n s = Inr (bits_val (take n (bits_of s)), s') \<and> inv s' \<and> bits_of s' = drop n (bits_of s)"
    and rd_short: "inv s \<Longrightarrow> n \<le> limit \<Longrightarrow> length (bits_of s) < n \<Longrightarrow> rd n s = Inl EndOfStream"
    and un_ok: "inv s \<Longrightarrow> bits_of s = replicate z False @ True # rest \<Longrightarrow> z \<le> 1024 \<Longrightarrow>
      \<exists>s'. un s = Inr (z, s') \<and> inv s' \<and> bits_of s' = rest"
    and un_total: "inv s \<Longrightarrow> no_panic (\<lambda>(z, s'). inv s') (un s)"
begin

lemma rd_total: "inv s \<Longrightarrow> n \<le> limit \<Longrightarrow> no_panic (\<lambda>(v, s'). inv s') (rd n s)"
  using rd_ok[of s n] rd_short[of s n] by (cases "n \<le> length (bits_of s)") auto

lemma rd_append:
  assumes "inv s" "bits_of s = cs @ rest" "length cs \<le> limit"
  obtains s' where "rd (length cs) s = Inr (bits_val cs, s')" "inv s'" "bits_of s' = rest"
  using rd_ok[OF assms(1,3)] assms(2) by auto

lemma code_ok:
  assumes "inv s" "bits_of s = replicate z False @ True # cs @ rest" "z \<le> 1024" "length cs \<le> limit"
  obtains s1 s2 where "un s = Inr (z, s1)" "rd (length cs) s1 = Inr (bits_val cs, s2)"
    "inv s2" "bits_of s2 = rest"
proof -
  obtain s1 where s1: "un s = Inr (z, s1)" "inv s1" "bits_of s1 = cs @ rest"
    using un_ok[OF assms(1,2,3)] by blast
  obtain s2 where "rd (length cs) s1 = Inr (bits_val cs, s2)" "inv s2" "bits_of s2 = rest"
    by (rule rd_append[OF s1(2,3) assms(4)])
  with s1(1) show ?thesis by (rule that)
qed

end

subsection \<open>The refill buffer is a bit source\<close>

definition buf_bits :: "bit_buffer \<Rightarrow> bool list" where
  "buf_bits b = take (bb_nbits b) (msb_bits 64 (bb_buf b))"

definition buf_inv :: "bytes \<Rightarrow> bit_buffer \<Rightarrow> bool" where
  "buf_inv c b \<longleftrightarrow> bb_nbits b \<le> 64 \<and> bb_pos b \<le> length c \<and> left_rep (buf_bits b) (bb_buf b)"

definition buf_source :: "bytes \<Rightarrow> bit_buffer \<Rightarrow> bool list" where
  "buf_source c b = buf_bits b @ byte_bits (drop (bb_pos b) c)"

lemma buf_rep:
  assumes "left_rep bs (bb_buf b)" "bb_nbits b = length bs"
  shows "buf_bits b = bs" "bb_nbits b \<le> 64"
  using assms by (simp_all add: buf_bits_def left_rep_def)

lemma buf_invI:
  assumes "left_rep bs (bb_buf b)" "bb_nbits b = length bs" "bb_pos b \<le> length c"
  shows "buf_inv c b" "buf_source c b = bs @ byte_bits (drop (bb_pos b) c)"
  using buf_rep[OF assms(1,2)] assms by (simp_all add: buf_inv_def buf_source_def)

lemma length_buf_bits: "buf_inv c b \<Longrightarrow> length (buf_bits b) = bb_nbits b"
  by (simp add: buf_inv_def buf_bits_def)

lemma refill32_inv:
  "buf_inv c b \<Longrightarrow> buf_inv c (refill32 c b) \<and> buf_source c (refill32 c b) = buf_source c b \<and>
     bb_nbits b \<le> bb_nbits (refill32 c b) \<and> bb_pos b \<le> bb_pos (refill32 c b)"
proof (induction c b rule: refill32.induct)
  case (1 c b)
  show ?case
  proof (cases "bb_nbits b \<le> 32 \<and> bb_pos b + 4 \<le> length c")
    case False
    have "refill32 c b = b" unfolding refill32.simps[of c b] by (rule if_not_P[OF False])
    then show ?thesis using 1(2) by simp
  next
    case True
    let ?p = "bb_pos b"
    let ?by = "[c ! ?p, c ! (?p + 1), c ! (?p + 2), c ! (?p + 3)]"
    let ?w = "ucast (from_be ?by :: u32) :: u64"
    let ?b = "b\<lparr>bb_buf := bb_buf b OR push_bit (32 - bb_nbits b) ?w, bb_pos := ?p + 4, bb_nbits := bb_nbits b + 32\<rparr>"
    have r: "left_rep (buf_bits b) (bb_buf b)" and l: "length (buf_bits b) = bb_nbits b"
      using 1(2) length_buf_bits[OF 1(2)] by (simp_all add: buf_inv_def)
    have w: "\<not> bit ?w i" if "32 \<le> i" for i
      using that bit_imp_le_length[of "from_be ?by :: u32" i] by (auto simp: bit_ucast_iff)
    have "msb_bits 32 ?w = msb_bits 32 (from_be ?by :: u32)"
      by (rule msb_bits_cong) (simp add: bit_ucast_iff)
    also have "\<dots> = byte_bits ?by" using msb_bits_from_be[of ?by, where ?'a = 32] by simp
    finally have m: "msb_bits 32 ?w = byte_bits ?by" .
    have r': "left_rep (buf_bits b @ byte_bits ?by) (bb_buf ?b)"
      using left_rep_append[OF r, of 32 ?w] w True l m by simp
    have l': "bb_nbits ?b = length (buf_bits b @ byte_bits ?by)" "bb_pos ?b \<le> length c"
      using True l by simp_all
    from buf_invI[OF r' l']
    have n: "buf_inv c ?b" "buf_source c ?b = (buf_bits b @ byte_bits ?by) @ byte_bits (drop (?p + 4) c)"
      by simp_all
    have "drop ?p c = ?by @ drop (?p + 4) c"
      using True by (simp add: Cons_nth_drop_Suc numeral_eq_Suc)
    then have "buf_source c ?b = buf_source c b" using n(2) by (simp add: buf_source_def)
    moreover have "refill32 c b = refill32 c ?b"
      unfolding refill32.simps[of c b] Let_def by (rule if_P[OF True])
    ultimately show ?thesis using 1(1)[OF True refl n(1)] by simp
  qed
qed

lemma refill8_inv:
  "buf_inv c b \<Longrightarrow> buf_inv c (refill8 c b) \<and> buf_source c (refill8 c b) = buf_source c b \<and>
     bb_nbits b \<le> bb_nbits (refill8 c b) \<and> bb_pos b \<le> bb_pos (refill8 c b) \<and>
     (56 < bb_nbits (refill8 c b) \<or> bb_pos (refill8 c b) = length c)"
proof (induction c b rule: refill8.induct)
  case (1 c b)
  show ?case
  proof (cases "bb_nbits b \<le> 56 \<and> bb_pos b < length c")
    case False
    have "refill8 c b = b" unfolding refill8.simps[of c b] by (rule if_not_P[OF False])
    then show ?thesis using 1(2) False by (auto simp: buf_inv_def)
  next
    case True
    let ?p = "bb_pos b"
    let ?w = "ucast (c ! ?p) :: u64"
    let ?b = "b\<lparr>bb_buf := bb_buf b OR push_bit (56 - bb_nbits b) ?w, bb_pos := ?p + 1, bb_nbits := bb_nbits b + 8\<rparr>"
    have r: "left_rep (buf_bits b) (bb_buf b)" and l: "length (buf_bits b) = bb_nbits b"
      using 1(2) length_buf_bits[OF 1(2)] by (simp_all add: buf_inv_def)
    have w: "\<not> bit ?w i" if "8 \<le> i" for i
      using that bit_imp_le_length[of "c ! ?p" i] by (auto simp: bit_ucast_iff)
    have m: "msb_bits 8 ?w = msb_bits 8 (c ! ?p)"
      by (rule msb_bits_cong) (simp add: bit_ucast_iff)
    have r': "left_rep (buf_bits b @ msb_bits 8 (c ! ?p)) (bb_buf ?b)"
      using left_rep_append[OF r, of 8 ?w] w True l m by simp
    have l': "bb_nbits ?b = length (buf_bits b @ msb_bits 8 (c ! ?p))" "bb_pos ?b \<le> length c"
      using True l by simp_all
    from buf_invI[OF r' l']
    have n: "buf_inv c ?b" "buf_source c ?b = (buf_bits b @ msb_bits 8 (c ! ?p)) @ byte_bits (drop (?p + 1) c)"
      by simp_all
    have "drop ?p c = c ! ?p # drop (?p + 1) c"
      using True by (simp add: Cons_nth_drop_Suc)
    then have "buf_source c ?b = buf_source c b" using n(2) by (simp add: buf_source_def)
    moreover have "refill8 c b = refill8 c ?b"
      unfolding refill8.simps[of c b] by (rule if_P[OF True])
    ultimately show ?thesis using 1(1)[OF True n(1)] by simp
  qed
qed

lemma refill_inv:
  assumes "buf_inv c b"
  shows "buf_inv c (refill c b)" "buf_source c (refill c b) = buf_source c b"
    "bb_nbits b \<le> bb_nbits (refill c b)" "bb_pos b \<le> bb_pos (refill c b)"
    "56 < bb_nbits (refill c b) \<or> bb_pos (refill c b) = length c"
  using refill32_inv[OF assms] refill8_inv[of c "refill32 c b"]
  unfolding refill_def by (auto intro: order.trans)

lemma take_bits_ok:
  assumes "buf_inv c b" "n \<le> 32"
  shows "n \<le> length (buf_source c b) \<Longrightarrow> \<exists>b'. take_bits c n b = Inr (of_nat (bits_val (take n (buf_source c b))), b') \<and>
      buf_inv c b' \<and> buf_source c b' = drop n (buf_source c b)"
    and "length (buf_source c b) < n \<Longrightarrow> take_bits c n b = Inl EndOfStream"
proof -
  define b1 where "b1 = (if bb_nbits b < n then refill c b else b)"
  have i: "buf_inv c b1" and s: "buf_source c b1 = buf_source c b"
    and e: "bb_nbits b1 < n \<Longrightarrow> bb_pos b1 = length c"
    using assms refill_inv[OF assms(1)] by (auto simp: b1_def split: if_splits)
  have l: "length (buf_bits b1) = bb_nbits b1" by (rule length_buf_bits[OF i])
  have src: "buf_source c b = buf_bits b1 @ byte_bits (drop (bb_pos b1) c)"
    unfolding s[symmetric] by (rule buf_source_def)
  have short: "bb_nbits b1 < n \<longleftrightarrow> length (buf_source c b) < n"
    using e l by (auto simp: src)
  then show "length (buf_source c b) < n \<Longrightarrow> take_bits c n b = Inl EndOfStream"
    by (simp add: take_bits_def Let_def flip: b1_def)
  assume "n \<le> length (buf_source c b)"
  with short have n: "n \<le> length (buf_bits b1)" using l by auto
  have r: "left_rep (buf_bits b1) (bb_buf b1)" using i by (simp add: buf_inv_def)
  let ?b = "b1\<lparr>bb_buf := push_bit n (bb_buf b1), bb_nbits := bb_nbits b1 - n\<rparr>"
  have u: "unat (drop_bit (64 - n) (bb_buf b1)) = bits_val (take n (buf_source c b))"
    using left_rep_top[OF r n] n by (simp add: src)
  have v: "(ucast (drop_bit (64 - n) (bb_buf b1)) :: u32) = of_nat (bits_val (take n (buf_source c b)))"
    unfolding u[symmetric] by (simp only: of_nat_unat)
  have r': "left_rep (drop n (buf_bits b1)) (bb_buf ?b)"
    using left_rep_shift[OF r n] by simp
  have "bb_nbits ?b = length (drop n (buf_bits b1))" "bb_pos ?b \<le> length c"
    using l i by (simp_all add: buf_inv_def)
  from buf_invI[OF r' this] have "buf_inv c ?b" "buf_source c ?b = drop n (buf_source c b)"
    using n by (simp_all add: src)
  moreover have "take_bits c n b = Inr (of_nat (bits_val (take n (buf_source c b))), ?b)"
    using n l v by (simp add: take_bits_def Let_def flip: b1_def)
  ultimately show "\<exists>b'. take_bits c n b = Inr (of_nat (bits_val (take n (buf_source c b))), b') \<and>
      buf_inv c b' \<and> buf_source c b' = drop n (buf_source c b)" by blast
qed

lemma takeWhile_Not_replicate: "takeWhile Not (replicate z False @ True # rest) = replicate z False"
  by (induction z) simp_all

lemma leading_zeros_rep:
  assumes "left_rep (replicate z False @ True # rest) w"
  shows "leading_zeros w = z"
  using assms by (simp add: left_rep_def leading_zeros_def takeWhile_Not_replicate)

lemma replicate_prefix:
  "replicate z False @ True # rest = xs @ ys \<Longrightarrow> True \<notin> set xs \<Longrightarrow>
   xs = replicate (length xs) False \<and> length xs \<le> z \<and> ys = replicate (z - length xs) False @ True # rest"
proof (induction xs arbitrary: z)
  case (Cons x xs)
  then show ?case by (cases z) auto
qed simp

lemma length_buf_source: "buf_inv c b \<Longrightarrow> length (buf_source c b) = bb_nbits b + 8 * (length c - bb_pos b)"
  by (simp add: buf_source_def length_buf_bits)

lemma refill_progress:
  assumes "buf_inv c b" "bb_nbits b = 0" "bb_pos b < length c"
  shows "0 < bb_nbits (refill c b)" "bb_pos b < bb_pos (refill c b)"
proof -
  note r = refill_inv[OF assms(1)]
  have "bb_nbits (refill c b) + 8 * (length c - bb_pos (refill c b)) = 8 * (length c - bb_pos b)"
    using length_buf_source[OF assms(1)] length_buf_source[OF r(1)] r(2) assms(2) by simp
  then show "0 < bb_nbits (refill c b)" "bb_pos b < bb_pos (refill c b)"
    using r(4,5) assms(3) by linarith+
qed

lemma unary_consume:
  assumes "buf_inv c b" "bb_buf b \<noteq> 0"
  obtains z xs where "buf_bits b = replicate z False @ True # xs" "leading_zeros (bb_buf b) = z"
    "buf_inv c (b\<lparr>bb_buf := push_bit 1 (push_bit z (bb_buf b)), bb_nbits := bb_nbits b - (z + 1)\<rparr>)"
    "buf_source c (b\<lparr>bb_buf := push_bit 1 (push_bit z (bb_buf b)), bb_nbits := bb_nbits b - (z + 1)\<rparr>)
      = xs @ byte_bits (drop (bb_pos b) c)"
proof -
  have r: "left_rep (buf_bits b) (bb_buf b)" and l: "length (buf_bits b) = bb_nbits b"
    using assms(1) length_buf_bits[OF assms(1)] by (simp_all add: buf_inv_def)
  have "True \<in> set (buf_bits b)" using left_rep_zero_iff[OF r] assms(2) by simp
  then obtain ys xs where "buf_bits b = ys @ True # xs" "True \<notin> set ys"
    by (meson split_list_first)
  then have yx: "buf_bits b = replicate (length ys) False @ True # xs"
    by (metis (full_types) replicate_length_same)
  let ?z = "length ys"
  have lz: "leading_zeros (bb_buf b) = ?z"
    using leading_zeros_rep[of ?z xs "bb_buf b"] r yx by simp
  let ?b = "b\<lparr>bb_buf := push_bit 1 (push_bit ?z (bb_buf b)), bb_nbits := bb_nbits b - (?z + 1)\<rparr>"
  have "left_rep (drop 1 (drop ?z (buf_bits b))) (bb_buf ?b)"
    using left_rep_shift[OF left_rep_shift[OF r, of ?z], of 1] yx by simp
  then have lr: "left_rep xs (bb_buf ?b)" using yx by simp
  have "bb_nbits ?b = length xs" "bb_pos ?b \<le> length c"
    using l yx assms(1) by (simp_all add: buf_inv_def)
  from buf_invI[OF lr this] show ?thesis using that[OF yx lz] by simp
qed

lemma unary_buf_ok:
  assumes "buf_inv c b" "buf_source c b = replicate z False @ True # rest" "nzero + z \<le> 1024"
    and "length c - bb_pos b < fuel"
  shows "\<exists>b'. unary_buf fuel c nzero b = Inr (nzero + z, b') \<and> buf_inv c b' \<and> buf_source c b' = rest"
  using assms
proof (induction fuel arbitrary: b nzero z)
  case (Suc fuel)
  have r: "left_rep (buf_bits b) (bb_buf b)" and l: "length (buf_bits b) = bb_nbits b"
    using Suc.prems(1) length_buf_bits[OF Suc.prems(1)] by (simp_all add: buf_inv_def)
  have src: "replicate z False @ True # rest = buf_bits b @ byte_bits (drop (bb_pos b) c)"
    using Suc.prems(2) by (simp add: buf_source_def)
  show ?case
  proof (cases "bb_buf b = 0")
    case True
    then have "True \<notin> set (buf_bits b)" using left_rep_zero_iff[OF r] by simp
    from replicate_prefix[OF src this]
    have p: "bb_nbits b \<le> z" "byte_bits (drop (bb_pos b) c) = replicate (z - bb_nbits b) False @ True # rest"
      using l by auto
    let ?b0 = "b\<lparr>bb_nbits := 0\<rparr>"
    have i0: "buf_inv c ?b0" "buf_source c ?b0 = replicate (z - bb_nbits b) False @ True # rest"
      using Suc.prems(1) True p(2) buf_invI[of "[]" ?b0 c] left_rep_0 by (simp_all add: buf_inv_def)
    have pos: "bb_pos ?b0 < length c" using p(2) by (cases "bb_pos b < length c") auto
    note ri = refill_inv[OF i0(1)] and rp = refill_progress[OF i0(1) _ pos]
    have "length c - bb_pos (refill c ?b0) < fuel" using Suc.prems(4) pos rp(2) by simp
    then obtain b' where "unary_buf fuel c (nzero + bb_nbits b) (refill c ?b0)
        = Inr (nzero + bb_nbits b + (z - bb_nbits b), b')" "buf_inv c b'" "buf_source c b' = rest"
      using Suc.IH[OF ri(1), of "z - bb_nbits b" "nzero + bb_nbits b"] ri(2) i0(2) Suc.prems(3) p(1) by auto
    then show ?thesis using True Suc.prems(3) p(1) rp(1) by (simp add: Let_def)
  next
    case False
    from unary_consume[OF Suc.prems(1) False] obtain y xs where yx: "buf_bits b = replicate y False @ True # xs"
      "leading_zeros (bb_buf b) = y"
      "buf_inv c (b\<lparr>bb_buf := push_bit 1 (push_bit y (bb_buf b)), bb_nbits := bb_nbits b - (y + 1)\<rparr>)"
      "buf_source c (b\<lparr>bb_buf := push_bit 1 (push_bit y (bb_buf b)), bb_nbits := bb_nbits b - (y + 1)\<rparr>)
        = xs @ byte_bits (drop (bb_pos b) c)" .
    then have eq: "replicate z False @ True # rest = replicate y False @ True # xs @ byte_bits (drop (bb_pos b) c)"
      using src by simp
    then have "replicate z False = replicate y False"
      using takeWhile_Not_replicate by metis
    then have z: "y = z" by (metis length_replicate)
    then have "rest = xs @ byte_bits (drop (bb_pos b) c)" using eq by simp
    then show ?thesis using False yx z by (simp add: Let_def)
  qed
qed simp

lemma unary_buf_total:
  assumes "buf_inv c b" "length c - bb_pos b < fuel"
  shows "no_panic (\<lambda>(z, b'). buf_inv c b') (unary_buf fuel c nzero b)"
  using assms
proof (induction fuel arbitrary: b nzero)
  case (Suc fuel)
  show ?case
  proof (cases "bb_buf b = 0")
    case True
    let ?b0 = "b\<lparr>bb_nbits := 0\<rparr>"
    have i0: "buf_inv c ?b0" "bb_nbits ?b0 = 0"
      using Suc.prems(1) True buf_invI[of "[]" ?b0 c] left_rep_0 by (simp_all add: buf_inv_def)
    have "no_panic (\<lambda>(z, b'). buf_inv c b') (unary_buf fuel c (nzero + bb_nbits b) (refill c ?b0))"
      if "bb_nbits (refill c ?b0) \<noteq> 0"
    proof (rule Suc.IH[OF refill_inv(1)[OF i0(1)]])
      have "bb_pos ?b0 < length c"
        using that length_buf_source[OF i0(1)] length_buf_source[OF refill_inv(1)[OF i0(1)]] refill_inv(2)[OF i0(1)] i0(2)
        by simp
      from refill_progress(2)[OF i0 this] this Suc.prems(2)
      show "length c - bb_pos (refill c ?b0) < fuel" by simp
    qed
    with True show ?thesis by (simp add: Let_def)
  next
    case False
    from unary_consume[OF Suc.prems(1) False] show ?thesis using False by (auto simp: Let_def)
  qed
qed simp


text \<open>A run longer than the limit by a buffer's width is always rejected.\<close>

lemma unary_buf_long:
  assumes "buf_inv c b" "buf_source c b = replicate z False @ rest" "1088 < nzero + z" "nzero \<le> 1024"
    and "length c - bb_pos b < fuel"
  shows "unary_buf fuel c nzero b = Inl UnaryTooLong"
  using assms
proof (induction fuel arbitrary: b nzero z)
  case (Suc fuel)
  have l: "length (buf_bits b) = bb_nbits b" "bb_nbits b \<le> 64"
    using length_buf_bits[OF Suc.prems(1)] Suc.prems(1) by (simp_all add: buf_inv_def)
  have "take (bb_nbits b) (buf_source c b) = take (bb_nbits b) (replicate z False @ rest)" using Suc.prems(2) by simp
  then have bits: "buf_bits b = replicate (bb_nbits b) False"
    using l Suc.prems(3,4) by (simp add: buf_source_def)
  then have z: "bb_buf b = 0"
    using left_rep_zero_iff[of "buf_bits b" "bb_buf b"] Suc.prems(1) by (auto simp: buf_inv_def)
  show ?case
  proof (cases "nzero + bb_nbits b > 1024")
    case False
    let ?b0 = "b\<lparr>bb_nbits := 0\<rparr>"
    have i0: "buf_inv c ?b0" "bb_nbits ?b0 = 0" "buf_source c ?b0 = byte_bits (drop (bb_pos b) c)"
      using Suc.prems(1) z buf_invI[of "[]" ?b0 c] left_rep_0 by (simp_all add: buf_inv_def)
    have "drop (bb_nbits b) (buf_source c b) = replicate (z - bb_nbits b) False @ rest"
      using Suc.prems(2,3,4) l(2) by simp
    then have src: "buf_source c ?b0 = replicate (z - bb_nbits b) False @ rest"
      using i0(3) l by (simp add: buf_source_def)
    moreover have "0 < z - bb_nbits b" using Suc.prems(3,4) l(2) by simp
    ultimately have pos: "bb_pos ?b0 < length c" using i0(3) by (cases "bb_pos b < length c") auto
    note rp = refill_progress[OF i0(1,2) pos] and ri = refill_inv[OF i0(1)]
    have "unary_buf fuel c (nzero + bb_nbits b) (refill c ?b0) = Inl UnaryTooLong"
      by (rule Suc.IH[OF ri(1), of "z - bb_nbits b"])
        (use ri(2) src Suc.prems(3,4,5) False l(2) pos rp(2) in simp_all)
    then show ?thesis using z False rp(1) by (simp add: Let_def)
  qed (use z in \<open>simp add: Let_def\<close>)
qed simp

interpretation fast: bit_source "buf_inv c" "buf_source c"
    "\<lambda>n b. map_sum id (map_prod unat id) (take_bits c n b)" "take_unary c" 32 for c
proof unfold_locales
  fix s and n :: nat assume i: "buf_inv c s" "n \<le> 32"
  have u: "unat (of_nat (bits_val (take n bs)) :: u32) = bits_val (take n bs)" for bs
  proof -
    have "bits_val (take n bs) < 2 ^ length (take n bs)" by (rule bits_val_less)
    also have "\<dots> \<le> 2 ^ 32" using i(2) by (intro power_increasing) auto
    finally show ?thesis by (simp add: unat_of_nat)
  qed
  {
    assume "n \<le> length (buf_source c s)"
    with take_bits_ok(1)[OF i] u show "\<exists>s'. map_sum id (map_prod unat id) (take_bits c n s)
        = Inr (bits_val (take n (buf_source c s)), s') \<and> buf_inv c s' \<and> buf_source c s' = drop n (buf_source c s)"
      by fastforce
  next
    assume "length (buf_source c s) < n"
    with take_bits_ok(2)[OF i] show "map_sum id (map_prod unat id) (take_bits c n s) = Inl EndOfStream"
      by simp
  }
next
  fix s z rest
  assume "buf_inv c s" "buf_source c s = replicate z False @ True # rest" "z \<le> 1024"
  then show "\<exists>s'. take_unary c s = Inr (z, s') \<and> buf_inv c s' \<and> buf_source c s' = rest"
    using unary_buf_ok[of c s z rest 0 "Suc (Suc (length c - bb_pos s))"]
    by (simp add: take_unary_def del: unary_buf.simps)
next
  fix s assume "buf_inv c s"
  then show "no_panic (\<lambda>(z, s'). buf_inv c s') (take_unary c s)"
    unfolding take_unary_def by (rule unary_buf_total) simp
qed

subsection \<open>\<open>BitReader\<close> is a bit source\<close>

definition reader_inv :: "bit_reader \<Rightarrow> bool" where
  "reader_inv r \<longleftrightarrow> bit_pos r < 8 \<and> (byte_pos r < length (br_data r) \<or> byte_pos r = length (br_data r) \<and> bit_pos r = 0)"

definition reader_bits :: "bit_reader \<Rightarrow> bool list" where
  "reader_bits r = drop (bit_pos r) (byte_bits (drop (byte_pos r) (br_data r)))"

lemma or_of_nat:
  assumes "b < 2 ^ k"
  shows "push_bit k (of_nat a) OR of_nat b = (of_nat (a * 2 ^ k + b) :: 'a::len word)"
proof -
  have lt: "bit b i \<Longrightarrow> i < k" for i
    using assms bit_take_bit_iff[of k b i] by (simp add: take_bit_nat_eq_self)
  have "push_bit k (of_nat a :: 'a word) OR of_nat b = push_bit k (of_nat a) + of_nat b"
  proof (rule disjunctive_add[symmetric])
    fix i show "\<not> bit (push_bit k (of_nat a :: 'a word)) i \<or> \<not> bit (of_nat b :: 'a word) i"
      using lt[of i] by (auto simp: bit_push_bit_iff bit_of_nat_iff)
  qed
  then show ?thesis by (simp add: push_bit_eq_mult)
qed

lemma byte_field:
  fixes d :: u8
  assumes "p + tk + shift = 8" "tk < 32"
  shows "drop p (msb_bits 8 d) = msb_bits tk (drop_bit shift d) @ msb_bits shift d"
    and "(ucast (drop_bit shift (ucast d :: u32) AND (push_bit tk 1 - 1)) :: u64)
      = of_nat (bits_val (msb_bits tk (drop_bit shift d)))"
proof -
  have "8 = p + (tk + shift)" using assms(1) by simp
  then have "msb_bits 8 d = msb_bits p (drop_bit (tk + shift) d) @ msb_bits tk (drop_bit shift d) @ msb_bits shift d"
    by (metis msb_bits_add)
  then show "drop p (msb_bits 8 d) = msb_bits tk (drop_bit shift d) @ msb_bits shift d" by simp
  have m: "(push_bit tk 1 - 1 :: u32) = mask tk" by (simp add: mask_eq_exp_minus_1 push_bit_eq_mult)
  have "unat (drop_bit shift (ucast d :: u32) AND (push_bit tk 1 - 1)) = unat d div 2 ^ shift mod 2 ^ tk"
    unfolding m unat_and_mask unat_drop_bit_eq using unsigned_less[of d, where ?'a = nat]
    by (simp add: drop_bit_eq_div unsigned_ucast_eq take_bit_nat_eq_self)
  moreover have "bits_val (msb_bits tk (drop_bit shift d)) = unat d div 2 ^ shift mod 2 ^ tk"
    unfolding bits_val_msb_bits unat_drop_bit_eq by (simp only: take_bit_eq_mod drop_bit_eq_div)
  ultimately show "(ucast (drop_bit shift (ucast d :: u32) AND (push_bit tk 1 - 1)) :: u64)
      = of_nat (bits_val (msb_bits tk (drop_bit shift d)))"
    by (metis of_nat_unat)
qed

text \<open>One round of \<open>read_loop\<close> takes the bits up to the end of the byte or of the request.\<close>

lemma read_loop_round:
  assumes "reader_inv r" "0 < n" "byte_pos r < length (br_data r)"
  obtains r' tk where "0 < tk" "tk \<le> n" "tk \<le> length (reader_bits r)" "reader_inv r'"
    "reader_bits r' = drop tk (reader_bits r)"
    "\<And>v. read_loop r (of_nat v) n = read_loop r' (of_nat (v * 2 ^ tk + bits_val (take tk (reader_bits r)))) (n - tk)"
proof -
  let ?p = "bit_pos r" and ?d = "br_data r ! byte_pos r" and ?rest = "byte_bits (drop (Suc (byte_pos r)) (br_data r))"
  define tk where "tk = min n (8 - ?p)"
  define shift where "shift = 8 - ?p - tk"
  define r' where "r' = (if ?p + tk = 8 then r\<lparr>byte_pos := byte_pos r + 1, bit_pos := 0\<rparr> else r\<lparr>bit_pos := ?p + tk\<rparr>)"
  have p: "?p < 8" using assms(1) by (simp add: reader_inv_def)
  have tk: "0 < tk" "tk \<le> n" "tk \<le> 8" "?p + tk + shift = 8" using p assms(2) by (auto simp: tk_def shift_def)
  have "tk < 32" using tk(3) by simp
  note f = byte_field[OF tk(4) this, of ?d]
  have "drop (byte_pos r) (br_data r) = ?d # drop (Suc (byte_pos r)) (br_data r)"
    using assms(3) by (simp add: Cons_nth_drop_Suc)
  then have bits: "reader_bits r = msb_bits tk (drop_bit shift ?d) @ msb_bits shift ?d @ ?rest"
    using f(1) tk p by (simp add: reader_bits_def)
  have "reader_bits r' = msb_bits shift ?d @ ?rest"
  proof (cases "?p + tk = 8")
    case True
    then have "shift = 0" using tk(4) by simp
    then show ?thesis using True by (simp add: r'_def reader_bits_def)
  next
    case False
    have "?p + tk + 0 + shift = 8" using tk(4) by simp
    then have "drop (?p + tk) (msb_bits 8 ?d) = msb_bits shift ?d" using byte_field(1)[of "?p + tk" 0 shift ?d] by simp
    with False show ?thesis
      using tk \<open>drop (byte_pos r) (br_data r) = _\<close> by (simp add: r'_def reader_bits_def)
  qed
  moreover have "reader_inv r'" using p tk assms(3) by (auto simp: r'_def reader_inv_def)
  moreover have "read_loop r (of_nat v) n
      = read_loop r' (of_nat (v * 2 ^ tk + bits_val (take tk (reader_bits r)))) (n - tk)" for v
  proof -
    have lt: "bits_val (msb_bits tk (drop_bit shift ?d)) < 2 ^ tk" using bits_val_less by (metis length_msb_bits)
    have c: "n \<noteq> 0" "\<not> 8 \<le> ?p" "\<not> length (br_data r) \<le> byte_pos r" "tk \<noteq> 32"
      using assms(2,3) p tk(3) by simp_all
    have "take tk (reader_bits r) = msb_bits tk (drop_bit shift ?d)" using bits by simp
    then show ?thesis
      unfolding read_loop.simps[of r] Let_def if_not_P[OF c(1)] if_not_P[OF c(2)] if_not_P[OF c(3)]
        tk_def[symmetric] shift_def[symmetric] if_not_P[OF c(4)] f(2) or_of_nat[OF lt] r'_def[symmetric]
      by simp
  qed
  ultimately show ?thesis using tk bits by (intro that[of tk r']) simp_all
qed

lemma read_loop_ok:
  assumes "reader_inv r"
  shows "n \<le> length (reader_bits r) \<Longrightarrow> \<exists>r'. read_loop r (of_nat v) n
      = Inr (of_nat (v * 2 ^ n + bits_val (take n (reader_bits r))), r') \<and>
      reader_inv r' \<and> reader_bits r' = drop n (reader_bits r)"
    and "length (reader_bits r) < n \<Longrightarrow> read_loop r (of_nat v) n = Inl EndOfStream"
  using assms
proof (induction n arbitrary: r v rule: less_induct)
  case (less n)
  have no_byte: "reader_bits r = []" if "\<not> byte_pos r < length (br_data r)"
    for r :: bit_reader
    using that by (simp add: reader_bits_def)
  {
    case 1
    show ?case
    proof (cases "n = 0")
      case True
      then show ?thesis using 1 by (subst read_loop.simps) simp
    next
      case False
      have b: "byte_pos r < length (br_data r)"
      proof (rule ccontr)
        assume "\<not> byte_pos r < length (br_data r)"
        from no_byte[OF this] 1(1) False show False by simp
      qed
      obtain r' tk where t: "0 < tk" "tk \<le> n" "tk \<le> length (reader_bits r)" "reader_inv r'"
        "reader_bits r' = drop tk (reader_bits r)"
        "\<And>v. read_loop r (of_nat v) n = read_loop r' (of_nat (v * 2 ^ tk + bits_val (take tk (reader_bits r)))) (n - tk)"
        by (rule read_loop_round[OF 1(2) _ b, of n]) (use False in simp_all)
      let ?v = "v * 2 ^ tk + bits_val (take tk (reader_bits r))"
      have len: "n - tk < n" "n - tk \<le> length (reader_bits r')" using t 1(1) False by simp_all
      obtain r'' where r'': "read_loop r' (of_nat ?v) (n - tk)
          = Inr (of_nat (?v * 2 ^ (n - tk) + bits_val (take (n - tk) (reader_bits r'))), r'')"
        "reader_inv r''" "reader_bits r'' = drop (n - tk) (reader_bits r')"
        using less.IH(1)[OF len t(4)] by blast
      have "take n (reader_bits r) = take tk (reader_bits r) @ take (n - tk) (drop tk (reader_bits r))"
        using t(2) by (metis le_add_diff_inverse take_add)
      then have "bits_val (take n (reader_bits r)) = bits_val (take tk (reader_bits r)) * 2 ^ (n - tk)
          + bits_val (take (n - tk) (reader_bits r'))"
        using len by (simp add: bits_val_append t(5))
      moreover have "2 ^ n = 2 ^ tk * (2 :: nat) ^ (n - tk)"
        using t(2) by (simp flip: power_add)
      ultimately have E: "?v * 2 ^ (n - tk) + bits_val (take (n - tk) (reader_bits r'))
          = v * 2 ^ n + bits_val (take n (reader_bits r))"
        by (simp add: algebra_simps)
      have "read_loop r (of_nat v) n = Inr (of_nat (v * 2 ^ n + bits_val (take n (reader_bits r))), r'')"
        using t(6)[of v] r''(1) by (simp only: E)
      moreover have "reader_bits r'' = drop n (reader_bits r)" using r''(3) t(2,5) by simp
      ultimately show ?thesis using r''(2) by blast
    qed
  next
    case 2
    show ?case
    proof (cases "byte_pos r < length (br_data r)")
      case False
      then show ?thesis using 2 no_byte by (subst read_loop.simps) (simp add: reader_inv_def)
    next
      case True
      obtain r' tk where t: "0 < tk" "tk \<le> n" "tk \<le> length (reader_bits r)" "reader_inv r'"
        "reader_bits r' = drop tk (reader_bits r)"
        "\<And>v. read_loop r (of_nat v) n = read_loop r' (of_nat (v * 2 ^ tk + bits_val (take tk (reader_bits r)))) (n - tk)"
        by (rule read_loop_round[OF 2(2) _ True, of n]) (use 2(1) in simp_all)
      have "n - tk < n" "length (reader_bits r') < n - tk" using t 2(1) by simp_all
      from less.IH(2)[OF this t(4)] show ?thesis by (simp only: t(6))
    qed
  }
qed

lemma read_bits_ok:
  assumes "reader_inv r" "n \<le> 64"
  shows "n \<le> length (reader_bits r) \<Longrightarrow> \<exists>r'. read_bits r n
      = Inr (of_nat (bits_val (take n (reader_bits r))), r') \<and> reader_inv r' \<and> reader_bits r' = drop n (reader_bits r)"
    and "length (reader_bits r) < n \<Longrightarrow> read_bits r n = Inl EndOfStream"
  using read_loop_ok[OF assms(1), of n 0] assms by (auto simp: read_bits_def)

lemma unary_loop_ok:
  "reader_inv r \<Longrightarrow> reader_bits r = replicate z False @ True # rest \<Longrightarrow> count + z \<le> 1024 \<Longrightarrow>
   \<exists>r'. unary_loop r count = Inr (count + z, r') \<and> reader_inv r' \<and> reader_bits r' = rest"
proof (induction z arbitrary: r count)
  case 0
  then obtain r' where "read_bits r 1 = Inr (1, r')" "reader_inv r'" "reader_bits r' = rest"
    using read_bits_ok(1)[of r 1] by (auto simp: bits_val_def)
  then show ?case using 0(3) by (subst unary_loop.simps) simp
next
  case (Suc z)
  then obtain r' where r': "read_bits r 1 = Inr (0, r')" "reader_inv r'" "reader_bits r' = replicate z False @ True # rest"
    using read_bits_ok(1)[of r 1] by (auto simp: bits_val_def)
  with Suc.IH[OF r'(2,3), of "Suc count"] Suc.prems(3) show ?case
    by (subst unary_loop.simps) simp
qed

lemma unary_loop_total: "reader_inv r \<Longrightarrow> no_panic (\<lambda>(z, r'). reader_inv r') (unary_loop r count)"
proof (induction r count rule: unary_loop.induct)
  case (1 r count)
  have "no_panic (\<lambda>(b, r'). reader_inv r') (read_bits r 1)"
    using read_bits_ok[OF 1(2), of 1] by (cases "reader_bits r = []") (auto simp: Suc_le_eq)
  then show ?case
    using 1(1) by (subst unary_loop.simps) (auto simp: no_panic_def split: sum.splits)
qed

interpretation slow: bit_source reader_inv reader_bits
    "\<lambda>n r. map_sum id (map_prod unat id) (read_bits r n)" read_unary 64
proof unfold_locales
  fix s and n :: nat assume i: "reader_inv s" "n \<le> 64"
  have u: "unat (of_nat (bits_val (take n bs)) :: u64) = bits_val (take n bs)" for bs
  proof -
    have "bits_val (take n bs) < 2 ^ length (take n bs)" by (rule bits_val_less)
    also have "\<dots> \<le> 2 ^ 64" using i(2) by (intro power_increasing) auto
    finally show ?thesis by (simp add: unat_of_nat)
  qed
  {
    assume "n \<le> length (reader_bits s)"
    with read_bits_ok(1)[OF i] u show "\<exists>s'. map_sum id (map_prod unat id) (read_bits s n)
        = Inr (bits_val (take n (reader_bits s)), s') \<and> reader_inv s' \<and> reader_bits s' = drop n (reader_bits s)"
      by fastforce
  next
    assume "length (reader_bits s) < n"
    with read_bits_ok(2)[OF i] show "map_sum id (map_prod unat id) (read_bits s n) = Inl EndOfStream"
      by simp
  }
next
  fix s z rest
  assume "reader_inv s" "reader_bits s = replicate z False @ True # rest" "z \<le> 1024"
  then show "\<exists>s'. read_unary s = Inr (z, s') \<and> reader_inv s' \<and> reader_bits s' = rest"
    using unary_loop_ok[of s z rest 0] by (simp add: read_unary_def)
next
  fix s assume "reader_inv s"
  then show "no_panic (\<lambda>(z, s'). reader_inv s') (read_unary s)"
    unfolding read_unary_def by (rule unary_loop_total)
qed

subsection \<open>What the writer has written\<close>

definition writer_rep :: "bit_writer \<Rightarrow> bool list \<Rightarrow> bool" where
  "writer_rep w bs \<longleftrightarrow> (\<exists>cur. bs = byte_bits (bw_out w) @ cur \<and> length cur = bits_used w \<and>
     bits_used w < 8 \<and> left_rep cur (cur_byte w))"

lemma writer_rep_new: "writer_rep writer_new []"
  by (simp add: writer_rep_def writer_new_def left_rep_0)

lemma writer_rep_flush:
  assumes "left_rep cur (cur_byte w)" "length cur = bits_used w" "bits_used w \<le> 8"
  shows "writer_rep (writer_flush w) (byte_bits (bw_out w) @ cur)"
proof (cases "bits_used w = 8")
  case True
  then have "msb_bits 8 (cur_byte w) = cur" using assms by (simp add: left_rep_def)
  then show ?thesis using True by (simp add: writer_flush_def writer_rep_def left_rep_0)
next
  case False
  then show ?thesis using assms by (simp add: writer_flush_def writer_rep_def)
qed

lemma write_loop_rep:
  "writer_rep w bs \<Longrightarrow> n \<le> 64 \<Longrightarrow> writer_rep (write_loop w v n) (bs @ msb_bits n v)"
proof (induction w v n arbitrary: bs rule: write_loop.induct)
  case (1 w v n)
  obtain cur where cur: "bs = byte_bits (bw_out w) @ cur" "length cur = bits_used w" "bits_used w < 8"
    "left_rep cur (cur_byte w)"
    using 1(2) by (auto simp: writer_rep_def)
  show ?case
  proof (cases "n = 0")
    case True
    then show ?thesis using 1(2) by (subst write_loop.simps) simp
  next
    case False
    let ?u = "bits_used w"
    define tk where "tk = min n (8 - ?u)"
    define shift where "shift = n - tk"
    define top where "top = (ucast (drop_bit shift v) :: u8) AND (if tk = 8 then 0xFF else push_bit tk 1 - 1)"
    define v' where "v' = (if shift > 0 then v AND (push_bit shift 1 - 1) else v)"
    define w1 where "w1 = w\<lparr>cur_byte := cur_byte w OR push_bit (8 - ?u - tk) top, bits_used := ?u + tk\<rparr>"
    have tk: "0 < tk" "tk \<le> n" "tk \<le> 8 - ?u" "n = tk + shift" using False cur(3) by (auto simp: tk_def shift_def)
    have mask8: "(if tk = 8 then 0xFF else push_bit tk 1 - 1 :: u8) = mask tk"
      by (simp add: mask_eq_exp_minus_1 push_bit_eq_mult)
    have top: "bit top i \<longleftrightarrow> i < tk \<and> bit v (i + shift)" for i
      using tk(3) unfolding top_def mask8
      by (auto simp: bit_and_iff bit_mask_iff bit_ucast_iff bit_drop_bit_eq add.commute dest: bit_imp_le_length)
    have mtop: "msb_bits tk top = msb_bits tk (drop_bit shift v)"
      by (rule msb_bits_cong) (simp add: top bit_drop_bit_eq add.commute)
    have "left_rep (cur @ msb_bits tk (drop_bit shift v)) (cur_byte w1)"
      using left_rep_append[OF cur(4), of tk top] top tk(3) cur(2,3) mtop by (simp add: w1_def)
    then have r: "writer_rep (writer_flush w1) (bs @ msb_bits tk (drop_bit shift v))"
      using writer_rep_flush[of "cur @ msb_bits tk (drop_bit shift v)" w1] cur tk by (simp add: w1_def)
    have "msb_bits shift v' = msb_bits shift v"
    proof (rule msb_bits_cong)
      fix i assume "i < shift"
      moreover have "(push_bit shift 1 - 1 :: u64) = mask shift" by (simp add: mask_eq_exp_minus_1 push_bit_eq_mult)
      moreover have "i < 64" using \<open>i < shift\<close> tk 1(3) by simp
      ultimately show "bit v' i = bit v i" by (simp add: v'_def bit_and_iff bit_mask_iff)
    qed
    then have m: "msb_bits n v = msb_bits tk (drop_bit shift v) @ msb_bits shift v'"
      using msb_bits_add[of tk shift v] tk(4) by simp
    have c: "\<not> (n = 0 \<or> 8 \<le> ?u)" using False cur(3) by simp
    have "write_loop w v n = write_loop (writer_flush w1) v' (n - tk)"
      unfolding write_loop.simps[of w v n] if_not_P[OF c] Let_def tk_def[symmetric] shift_def[symmetric]
        top_def[symmetric] w1_def[symmetric] v'_def[symmetric] ..
    moreover have "writer_rep (write_loop (writer_flush w1) v' (n - tk))
        ((bs @ msb_bits tk (drop_bit shift v)) @ msb_bits (n - tk) v')"
      using 1(1)[OF c refl tk_def shift_def refl top_def w1_def v'_def r] 1(3) by simp
    ultimately show ?thesis using m tk(4) by simp
  qed
qed

lemma zeros_loop_rep: "writer_rep w bs \<Longrightarrow> writer_rep (zeros_loop w n) (bs @ replicate n False)"
proof (induction w n arbitrary: bs rule: zeros_loop.induct)
  case (1 w n)
  obtain cur where cur: "bs = byte_bits (bw_out w) @ cur" "length cur = bits_used w" "bits_used w < 8"
    "left_rep cur (cur_byte w)"
    using 1(2) by (auto simp: writer_rep_def)
  show ?case
  proof (cases "n = 0")
    case True
    then show ?thesis using 1(2) by (subst zeros_loop.simps) simp
  next
    case False
    let ?u = "bits_used w"
    define tk where "tk = min n (8 - ?u)"
    define w1 where "w1 = w\<lparr>bits_used := ?u + tk\<rparr>"
    have tk: "0 < tk" "tk \<le> n" "tk \<le> 8 - ?u" using False cur(3) by (auto simp: tk_def)
    have z: "msb_bits tk (0 :: u8) = replicate tk False" by (rule nth_equalityI) auto
    have "left_rep (cur @ replicate tk False) (cur_byte w1)"
      using left_rep_append[OF cur(4), of tk 0] tk(3) cur(2,3) z by (simp add: w1_def)
    then have r: "writer_rep (writer_flush w1) (bs @ replicate tk False)"
      using writer_rep_flush[of "cur @ replicate tk False" w1] cur tk by (simp add: w1_def)
    have c: "\<not> (n = 0 \<or> 8 \<le> ?u)" using False cur(3) by simp
    have "zeros_loop w n = zeros_loop (writer_flush w1) (n - tk)"
      unfolding zeros_loop.simps[of w n] if_not_P[OF c] Let_def tk_def[symmetric] w1_def[symmetric] ..
    moreover have "replicate n False = replicate tk False @ replicate (n - tk) False"
      using tk(2) by (simp flip: replicate_add)
    moreover have "writer_rep (zeros_loop (writer_flush w1) (n - tk))
        ((bs @ replicate tk False) @ replicate (n - tk) False)"
      using 1(1)[OF c tk_def r[unfolded w1_def]] by (simp add: w1_def)
    ultimately show ?thesis by simp
  qed
qed

lemma write_bits_rep:
  assumes "writer_rep w bs" "n \<le> 64"
  shows "writer_rep (write_bits w v n) (bs @ msb_bits n v)"
proof -
  let ?m = "if n = 64 then - 1 else push_bit n 1 - 1 :: u64"
  have "msb_bits n (v AND ?m) = msb_bits n v"
  proof (rule msb_bits_cong)
    fix i assume "i < n"
    moreover have "?m = mask n" by (simp add: mask_eq_exp_minus_1 push_bit_eq_mult)
    ultimately show "bit (v AND ?m) i = bit v i" using assms(2) by (simp add: bit_and_iff bit_mask_iff)
  qed
  with write_loop_rep[OF assms, of "v AND ?m"] show ?thesis
    using assms(1) by (auto simp: write_bits_def)
qed

lemma write_unary_rep:
  assumes "writer_rep w bs"
  shows "writer_rep (write_unary w n) (bs @ replicate n False @ [True])"
proof -
  have "msb_bits 1 (1 :: u64) = [True]" by (simp add: msb_bits_def)
  then show ?thesis
    using write_bits_rep[OF zeros_loop_rep[OF assms, of n], of 1 1]
    by (simp add: write_unary_def write_zeros_def)
qed

lemma writer_finish_rep:
  assumes "writer_rep w bs"
  obtains k where "byte_bits (writer_finish w) = bs @ replicate k False" "k < 8"
proof -
  obtain cur where cur: "bs = byte_bits (bw_out w) @ cur" "length cur = bits_used w" "bits_used w < 8"
    "left_rep cur (cur_byte w)"
    using assms by (auto simp: writer_rep_def)
  show ?thesis
  proof (cases "bits_used w = 0")
    case True
    then show ?thesis using cur that[of 0] by (simp add: writer_finish_def)
  next
    case False
    then show ?thesis using cur that[of "8 - bits_used w"] by (simp add: writer_finish_def left_rep_def)
  qed
qed

end
