(* ===== verification/Rice.thy ===== *)
theory Rice
  imports RiceBits
begin

text \<open>
  The RICE_1 tile codec (\<open>src/zimage/rice.rs\<close>). A tile is its first pixel verbatim and then
  blocks of differences, each block stored in one of three ways. The pixel loops over index
  ranges of the tile are recursions over the pixels left.
\<close>

subsection \<open>Parameters and the zigzag map\<close>

definition rice_params :: "nat \<Rightarrow> codec_error + nat \<times> nat \<times> nat" where
  "rice_params bytepix =
     (if bytepix = 1 then Inr (8, 3, 6)
      else if bytepix = 2 then Inr (16, 4, 14)
      else if bytepix = 4 then Inr (32, 5, 25)
      else if bytepix = 8 then Inr (64, 6, 53)
      else Inl (UnsupportedBytepix bytepix))"

definition unzigzag :: "u64 \<Rightarrow> i64" where
  "unzigzag z = (if z AND 1 \<noteq> 0 then - (drop_bit 1 z + 1) else drop_bit 1 z)"

definition sign_extend :: "u64 \<Rightarrow> nat \<Rightarrow> i64" where
  "sign_extend val nbits =
     (if nbits = 0 then 0 else if nbits \<ge> 64 then val
      else signed_drop_bit (64 - nbits) (push_bit (64 - nbits) val))"

text \<open>The decoding of a difference in the fast path.\<close>

definition unzigzag32 :: "u32 \<Rightarrow> i32" where
  "unzigzag32 diff = (if diff AND 1 = 0 then drop_bit 1 diff else NOT (drop_bit 1 diff))"

subsection \<open>Fast decoder\<close>

text \<open>One pixel of a raw block, and one pixel of a Rice block with parameter \<open>fs\<close>.\<close>

definition fast_raw :: "bytes \<Rightarrow> nat \<Rightarrow> i32 \<Rightarrow> bit_buffer \<Rightarrow> codec_error + i32 \<times> bit_buffer" where
  "fast_raw c bbits lastpix b =
     res_bind (take_bits c bbits b) (\<lambda>(diff, b1). Inr (lastpix + unzigzag32 diff, b1))"

definition fast_rice :: "bytes \<Rightarrow> nat \<Rightarrow> i32 \<Rightarrow> bit_buffer \<Rightarrow> codec_error + i32 \<times> bit_buffer" where
  "fast_rice c fs lastpix b =
     res_bind (take_unary c b) (\<lambda>(nzero, b1).
     res_bind (if fs = 0 then Inr (0, b1) else take_bits c fs b1) (\<lambda>(bottom, b2).
     let diff = (ucast (push_bit fs (of_nat nzero :: u64)) :: u32) OR bottom
     in Inr (lastpix + unzigzag32 diff, b2)))"

text \<open>\<open>k\<close> pixels of a block, each from the one before; the pixels written and the final state.\<close>

fun fast_pixels ::
  "(i32 \<Rightarrow> bit_buffer \<Rightarrow> codec_error + i32 \<times> bit_buffer) \<Rightarrow> nat \<Rightarrow> i32 \<Rightarrow> bit_buffer
     \<Rightarrow> codec_error + i32 list \<times> i32 \<times> bit_buffer" where
  "fast_pixels px 0 lastpix b = Inr ([], lastpix, b)"
| "fast_pixels px (Suc k) lastpix b =
     res_bind (px lastpix b) (\<lambda>(p, b1).
     res_bind (fast_pixels px k p b1) (\<lambda>(ps, l, b2). Inr (p # ps, l, b2)))"

definition fast_block ::
  "bytes \<Rightarrow> nat \<Rightarrow> nat \<Rightarrow> nat \<Rightarrow> nat \<Rightarrow> i32 \<Rightarrow> bit_buffer \<Rightarrow> codec_error + i32 list \<times> i32 \<times> bit_buffer" where
  "fast_block c bbits fsbits fsmax k lastpix b =
     res_bind (take_bits c fsbits b) (\<lambda>(stored_fs, b1).
     let fs = int (unat stored_fs) - 1
     in if fs < 0 then Inr (replicate k lastpix, lastpix, b1)
        else if nat fs = fsmax then fast_pixels (fast_raw c bbits) k lastpix b1
        else fast_pixels (fast_rice c (nat fs)) k lastpix b1)"

function fast_blocks ::
  "bytes \<Rightarrow> nat \<Rightarrow> nat \<Rightarrow> nat \<Rightarrow> nat \<Rightarrow> nat \<Rightarrow> i32 \<Rightarrow> bit_buffer \<Rightarrow> codec_error + i32 list" where
  "fast_blocks c bbits fsbits fsmax nblock left lastpix b =
     (if left = 0 \<or> nblock = 0 then Inr []
      else
        (let k = min nblock left
         in res_bind (fast_block c bbits fsbits fsmax k lastpix b) (\<lambda>(ps, l, b1).
            res_bind (fast_blocks c bbits fsbits fsmax nblock (left - k) l b1) (\<lambda>qs. Inr (ps @ qs)))))"
  by pat_completeness auto
termination by (relation "measure (\<lambda>(_, _, _, _, _, left, _, _). left)") auto

declare fast_blocks.simps [simp del]

definition decode_rice_int_u32buf ::
  "bytes \<Rightarrow> nat \<Rightarrow> nat \<Rightarrow> nat \<Rightarrow> nat \<Rightarrow> nat \<Rightarrow> codec_error + i32 list" where
  "decode_rice_int_u32buf c nx bbits fsbits fsmax nblock =
     (let seed_bytes = bbits div 8
      in if length c < seed_bytes + 1 then Inl EndOfStream
         else
           (let seed_u = foldl (\<lambda>s b. push_bit 8 s OR ucast b) (0 :: u32) (take seed_bytes c);
                lastpix = (if bbits < 32
                           then signed_drop_bit (32 - bbits) (push_bit (32 - bbits) seed_u) else seed_u);
                b = refill c \<lparr>bb_buf = 0, bb_nbits = 0, bb_pos = seed_bytes\<rparr>
            in fast_blocks c bbits fsbits fsmax nblock nx lastpix b))"

text \<open>\<open>PixelWrite::write_at\<close> of the four output widths.\<close>

definition write_pixel :: "bool \<Rightarrow> int \<Rightarrow> i32 \<Rightarrow> bytes" where
  "write_pixel big zbitpix v =
     (if zbitpix = 8 then [ucast v]
      else if zbitpix = 16 then to_ne big 2 (ucast v :: i16)
      else if zbitpix = 32 then to_ne big 4 v
      else to_ne big 8 (scast v :: i64))"

subsection \<open>Slow decoder\<close>

definition cast_i64_to_target_bytes :: "bool \<Rightarrow> i64 list \<Rightarrow> int \<Rightarrow> bytes" where
  "cast_i64_to_target_bytes big values zbitpix =
     (if zbitpix = 8 then map ucast values
      else if zbitpix = 16 then concat (map (\<lambda>v. to_ne big 2 (ucast v :: i16)) values)
      else if zbitpix = 32 then concat (map (\<lambda>v. to_ne big 4 (ucast v :: i32)) values)
      else if zbitpix = 64 then concat (map (to_ne big 8) values)
      else [])"

fun slow_pixels ::
  "(i64 \<Rightarrow> bit_reader \<Rightarrow> codec_error + i64 \<times> bit_reader) \<Rightarrow> nat \<Rightarrow> i64 \<Rightarrow> bit_reader
     \<Rightarrow> codec_error + i64 list \<times> i64 \<times> bit_reader" where
  "slow_pixels px 0 lastpix r = Inr ([], lastpix, r)"
| "slow_pixels px (Suc k) lastpix r =
     res_bind (px lastpix r) (\<lambda>(p, r1).
     res_bind (slow_pixels px k p r1) (\<lambda>(ps, l, r2). Inr (p # ps, l, r2)))"

definition slow_block ::
  "nat \<Rightarrow> nat \<Rightarrow> nat \<Rightarrow> nat \<Rightarrow> i64 \<Rightarrow> bit_reader \<Rightarrow> codec_error + i64 list \<times> i64 \<times> bit_reader" where
  "slow_block bbits fsbits fsmax k lastpix r =
     res_bind (read_bits r fsbits) (\<lambda>(stored_fs, r1).
     let fs = int (unat stored_fs) - 1
     in if fs < 0 then Inr (replicate k lastpix, lastpix, r1)
        else if nat fs \<ge> fsmax then
          slow_pixels (\<lambda>l r. res_bind (read_bits r bbits) (\<lambda>(raw, r'). Inr (l + unzigzag raw, r'))) k lastpix r1
        else
          slow_pixels (\<lambda>l r. res_bind (read_unary r) (\<lambda>(top, r').
             res_bind (if nat fs > 0 then read_bits r' (nat fs) else Inr (0, r')) (\<lambda>(bottom, r'').
             Inr (l + unzigzag (push_bit (nat fs) (of_nat top) OR bottom), r'')))) k lastpix r1)"

function slow_blocks ::
  "nat \<Rightarrow> nat \<Rightarrow> nat \<Rightarrow> nat \<Rightarrow> nat \<Rightarrow> i64 \<Rightarrow> bit_reader \<Rightarrow> codec_error + i64 list" where
  "slow_blocks bbits fsbits fsmax blocksize left lastpix r =
     (if left = 0 \<or> blocksize = 0 then Inr []
      else
        (let k = min blocksize left
         in res_bind (slow_block bbits fsbits fsmax k lastpix r) (\<lambda>(ps, l, r1).
            res_bind (slow_blocks bbits fsbits fsmax blocksize (left - k) l r1) (\<lambda>qs. Inr (ps @ qs)))))"
  by pat_completeness auto
termination by (relation "measure (\<lambda>(_, _, _, _, left, _, _). left)") auto

declare slow_blocks.simps [simp del]

definition decode_rice_slow_i64 ::
  "bool \<Rightarrow> bytes \<Rightarrow> nat \<Rightarrow> nat \<Rightarrow> nat \<Rightarrow> nat \<Rightarrow> nat \<Rightarrow> int \<Rightarrow> codec_error + bytes" where
  "decode_rice_slow_i64 big compressed n_pixels bbits fsbits fsmax blocksize zbitpix =
     res_bind (read_bits (reader_new compressed) bbits) (\<lambda>(seed_raw, r).
     res_bind (slow_blocks bbits fsbits fsmax blocksize n_pixels (sign_extend seed_raw bbits) r) (\<lambda>out.
     if length out \<noteq> n_pixels then Inl (WrongLength n_pixels (length out))
     else Inr (cast_i64_to_target_bytes big out zbitpix)))"

definition decode_rice ::
  "bool \<Rightarrow> bytes \<Rightarrow> nat \<Rightarrow> nat \<Rightarrow> nat \<Rightarrow> int \<Rightarrow> codec_error + bytes" where
  "decode_rice big compressed n_pixels bytepix blocksize zbitpix =
     (if n_pixels = 0 then Inr []
      else if blocksize = 0 then Inl ZeroBlocksize
      else res_bind (rice_params bytepix) (\<lambda>(bbits, fsbits, fsmax).
        if bytepix = 8 then
          decode_rice_slow_i64 big compressed n_pixels bbits fsbits fsmax blocksize zbitpix
        else if zbitpix \<notin> {8, 16, 32, 64} then Inl (UnsupportedZbitpix zbitpix)
        else res_bind (decode_rice_int_u32buf compressed n_pixels bbits fsbits fsmax blocksize)
               (\<lambda>ps. Inr (concat (map (write_pixel big zbitpix) ps)))))"

subsection \<open>Encoder\<close>

definition read_pixel :: "bytes \<Rightarrow> nat \<Rightarrow> nat \<Rightarrow> i32" where
  "read_pixel bs bytepix i =
     (if bytepix = 1 then scast (bs ! i)
      else if bytepix = 2 then scast (from_be [bs ! (2 * i), bs ! (2 * i + 1)] :: i16)
      else from_be [bs ! (4 * i), bs ! (4 * i + 1), bs ! (4 * i + 2), bs ! (4 * i + 3)])"

definition rice_pdiff :: "nat \<Rightarrow> i32 \<Rightarrow> i32 \<Rightarrow> i32" where
  "rice_pdiff bytepix nextpix lastpix =
     (let pdiff_raw = nextpix - lastpix
      in if bytepix = 1 then scast (ucast pdiff_raw :: i8)
         else if bytepix = 2 then scast (ucast pdiff_raw :: i16)
         else pdiff_raw)"

definition zigzag :: "i32 \<Rightarrow> u32" where
  "zigzag pdiff = push_bit 1 pdiff XOR signed_drop_bit 31 pdiff"

fun rice_diffs :: "nat \<Rightarrow> i32 \<Rightarrow> i32 list \<Rightarrow> u32 list" where
  "rice_diffs bytepix lastpix [] = []"
| "rice_diffs bytepix lastpix (p # ps) =
     zigzag (rice_pdiff bytepix p lastpix) # rice_diffs bytepix p ps"

text \<open>
  The block parameter. The code computes the mean in \<open>f64\<close>; for block sizes up to 2^20 the sums
  are integers below 2^53 and the quotient's integer part is exact, so the model divides
  integers. The cast to the pixel width saturates.
\<close>

definition rice_psum :: "nat \<Rightarrow> nat \<Rightarrow> nat \<Rightarrow> nat" where
  "rice_psum bytepix pixelsum thisblock =
     (let num = int pixelsum - int (thisblock div 2) - 1;
          dpsum = (if num < 0 then 0 else nat num div thisblock);
          cap = (if bytepix = 1 then 255 else if bytepix = 2 then 65535 else 4294967295)
      in min dpsum cap div 2)"

fun bit_length :: "nat \<Rightarrow> nat" where
  "bit_length n = (if n = 0 then 0 else Suc (bit_length (n div 2)))"

declare bit_length.simps [simp del]

definition write_raw :: "nat \<Rightarrow> bit_writer \<Rightarrow> u32 \<Rightarrow> bit_writer" where
  "write_raw bbits w d = write_bits w (ucast d) bbits"

definition write_rice :: "nat \<Rightarrow> bit_writer \<Rightarrow> u32 \<Rightarrow> bit_writer" where
  "write_rice fs w d =
     (let fsmask = (if fs > 0 then push_bit fs 1 - 1 else 0 :: u32);
          w1 = write_unary w (unat (drop_bit fs d))
      in if fs > 0 then write_bits w1 (ucast (d AND fsmask)) fs else w1)"

definition encode_block ::
  "nat \<Rightarrow> nat \<Rightarrow> nat \<Rightarrow> nat \<Rightarrow> i32 \<Rightarrow> i32 list \<Rightarrow> bit_writer \<Rightarrow> bit_writer" where
  "encode_block bytepix bbits fsbits fsmax lastpix blk w =
     (let diff_buf = rice_diffs bytepix lastpix blk;
          pixelsum = sum_list (map unat diff_buf);
          fs = bit_length (rice_psum bytepix pixelsum (length blk))
      in if fs \<ge> fsmax then foldl (write_raw bbits) (write_bits w (of_nat (fsmax + 1)) fsbits) diff_buf
         else if fs = 0 \<and> pixelsum = 0 then write_bits w 0 fsbits
         else foldl (write_rice fs) (write_bits w (of_nat (fs + 1)) fsbits) diff_buf)"

function encode_blocks ::
  "nat \<Rightarrow> nat \<Rightarrow> nat \<Rightarrow> nat \<Rightarrow> nat \<Rightarrow> i32 \<Rightarrow> i32 list \<Rightarrow> bit_writer \<Rightarrow> bit_writer" where
  "encode_blocks bytepix bbits fsbits fsmax blocksize lastpix ps w =
     (if ps = [] \<or> blocksize = 0 then w
      else
        (let blk = take blocksize ps
         in encode_blocks bytepix bbits fsbits fsmax blocksize (last blk) (drop blocksize ps)
              (encode_block bytepix bbits fsbits fsmax lastpix blk w)))"
  by pat_completeness auto
termination by (relation "measure (\<lambda>(_, _, _, _, _, _, ps, _). length ps)") auto

declare encode_blocks.simps [simp del]

definition encode_rice :: "bytes \<Rightarrow> nat \<Rightarrow> nat \<Rightarrow> nat \<Rightarrow> codec_error + bytes" where
  "encode_rice pixel_bytes_be n_pixels bytepix blocksize =
     (if n_pixels = 0 then Inr []
      else if blocksize = 0 then Inl ZeroBlocksize
      else if bytepix = 8 then Inl Rice64NotSupported
      else res_bind (rice_params bytepix) (\<lambda>(bbits, fsbits, fsmax).
        res_bind (checked_mul n_pixels bytepix) (\<lambda>expected_bytes.
        if length pixel_bytes_be \<noteq> expected_bytes
        then Inl (WrongLength expected_bytes (length pixel_bytes_be))
        else
          (let px = map (read_pixel pixel_bytes_be bytepix) [0..<n_pixels];
               seed = px ! 0;
               w = write_bits writer_new (ucast seed) bbits
           in Inr (writer_finish (encode_blocks bytepix bbits fsbits fsmax blocksize seed px w))))))"

subsection \<open>Zigzag and congruence modulo the pixel width\<close>

lemma bit_zigzag:
  "bit (zigzag p) 0 \<longleftrightarrow> bit p 31"
  "bit (zigzag p) (Suc i) \<longleftrightarrow> i < 31 \<and> bit p i \<noteq> bit p 31"
  unfolding zigzag_def bit_xor_iff bit_push_bit_iff bit_signed_drop_bit_iff
  by (auto dest: bit_imp_le_length)

lemma unzigzag32_zigzag: "unzigzag32 (zigzag p) = p"
proof (rule bit_word_eqI)
  fix i assume i: "i < LENGTH(32)"
  have o: "zigzag p AND 1 = 0 \<longleftrightarrow> \<not> bit p 31"
    using bit_zigzag(1)[of p] by (auto simp: and_one_eq bit_0 even_iff_mod_2_eq_zero)
  show "bit (unzigzag32 (zigzag p)) i = bit p i"
  proof (cases "i = 31")
    case True
    then show ?thesis using bit_zigzag(2)[of p 31]
      unfolding unzigzag32_def o by (auto simp: bit_not_iff bit_drop_bit_eq)
  next
    case False
    then show ?thesis using i bit_zigzag(2)[of p i]
      unfolding unzigzag32_def o by (auto simp: bit_not_iff bit_drop_bit_eq)
  qed
qed

definition same_low :: "nat \<Rightarrow> 'a::len word \<Rightarrow> 'a word \<Rightarrow> bool" where
  "same_low k v w \<longleftrightarrow> take_bit k v = take_bit k w"

lemma take_bit_word_add: "take_bit k (take_bit k a + take_bit k b :: 'a::len word) = take_bit k (a + b)"
  by transfer (auto simp: take_bit_add min_def)

lemma same_low_add: "same_low k a b \<Longrightarrow> same_low k c d \<Longrightarrow> same_low k (a + c) (b + d)"
  unfolding same_low_def using take_bit_word_add[of k a c] take_bit_word_add[of k b d] by simp

lemma same_low_refl [simp]: "same_low k a a"
  by (simp add: same_low_def)

lemma same_lowD: "same_low k a b \<Longrightarrow> i < k \<Longrightarrow> bit a i = bit b i"
  unfolding same_low_def by (metis bit_take_bit_iff)

lemma rice_pdiff_low:
  assumes "bytepix \<in> {1, 2, 4}"
  shows "same_low (8 * bytepix) (rice_pdiff bytepix n l) (n - l)"
  using assms unfolding same_low_def
  by (intro bit_word_eqI) (auto simp: rice_pdiff_def Let_def bit_take_bit_iff bit_signed_iff bit_ucast_iff)

lemma zigzag_small:
  assumes "bytepix \<in> {1, 2, 4}"
  shows "unat (zigzag (rice_pdiff bytepix n l)) < 2 ^ (8 * bytepix)"
proof -
  have "take_bit (8 * bytepix) (zigzag (rice_pdiff bytepix n l)) = zigzag (rice_pdiff bytepix n l)"
  proof (rule bit_word_eqI)
    fix i assume i: "i < LENGTH(32)"
    show "bit (take_bit (8 * bytepix) (zigzag (rice_pdiff bytepix n l))) i = bit (zigzag (rice_pdiff bytepix n l)) i"
    proof (cases i)
      case (Suc j)
      then show ?thesis using i assms
        by (auto simp: bit_take_bit_iff bit_zigzag rice_pdiff_def Let_def bit_signed_iff bit_ucast_iff min_def)
    qed (use assms in \<open>auto simp: bit_take_bit_iff\<close>)
  qed
  then have "unat (zigzag (rice_pdiff bytepix n l)) = take_bit (8 * bytepix) (unat (zigzag (rice_pdiff bytepix n l)))"
    by (metis unsigned_take_bit_eq)
  also have "\<dots> < 2 ^ (8 * bytepix)" by (rule take_bit_nat_less_exp)
  finally show ?thesis .
qed

lemma fast_read:
  assumes "buf_inv c b" "buf_source c b = cs @ rest" "length cs = n" "n \<le> 32"
  obtains b' where "take_bits c n b = Inr (of_nat (bits_val cs), b')" "buf_inv c b'" "buf_source c b' = rest"
proof -
  have "length cs \<le> 32" using assms(3,4) by simp
  then obtain b' where b': "map_sum id (map_prod unat id) (take_bits c (length cs) b) = Inr (bits_val cs, b')"
      "buf_inv c b'" "buf_source c b' = rest"
    by (rule fast.rd_append[OF assms(1,2)])
  then obtain v where "take_bits c n b = Inr (v, b')" "unat v = bits_val cs"
    using assms(3) by (cases "take_bits c n b") auto
  moreover from this(2) have "v = of_nat (bits_val cs)" by (metis of_nat_unat ucast_id)
  ultimately show ?thesis using b'(2,3) that by simp
qed

lemma of_nat_low: "unat (d :: u32) < 2 ^ n \<Longrightarrow> of_nat (bits_val (msb_bits n d)) = d"
  by (simp add: bits_val_msb_bits take_bit_nat_eq_self)

lemma fast_raw_ok:
  assumes "buf_inv c b" "buf_source c b = msb_bits bbits d @ rest" "bbits \<le> 32" "unat d < 2 ^ bbits"
  obtains b' where "fast_raw c bbits l b = Inr (l + unzigzag32 d, b')" "buf_inv c b'" "buf_source c b' = rest"
proof -
  obtain b' where "take_bits c bbits b = Inr (of_nat (bits_val (msb_bits bbits d)), b')" "buf_inv c b'" "buf_source c b' = rest"
    by (rule fast_read[OF assms(1,2) _ assms(3)]) simp_all
  then show ?thesis using that of_nat_low[OF assms(4)] by (simp add: fast_raw_def)
qed

definition rice_code :: "nat \<Rightarrow> u32 \<Rightarrow> bool list" where
  "rice_code fs d = replicate (unat (drop_bit fs d)) False @ True # msb_bits fs d"

lemma rice_code_value:
  assumes "fs \<le> 32"
  shows "ucast (push_bit fs (of_nat (unat (drop_bit fs d)) :: u64)) OR of_nat (bits_val (msb_bits fs d)) = (d :: u32)"
proof -
  have lt: "bits_val (msb_bits fs d) < 2 ^ fs" using bits_val_less[of "msb_bits fs d"] by simp
  have "ucast (push_bit fs (of_nat n :: u64)) = push_bit fs (of_nat n :: u32)" for n
    by (rule bit_word_eqI) (auto simp: bit_ucast_iff bit_push_bit_iff bit_of_nat_iff)
  then have "?thesis \<longleftrightarrow> of_nat (unat (drop_bit fs d) * 2 ^ fs + bits_val (msb_bits fs d)) = d"
    by (simp only: or_of_nat[OF lt])
  also have "unat (drop_bit fs d) * 2 ^ fs + bits_val (msb_bits fs d) = unat d"
    unfolding bits_val_msb_bits unat_drop_bit_eq by (simp only: drop_bit_eq_div take_bit_eq_mod div_mult_mod_eq)
  finally show ?thesis by simp
qed

lemma fast_rice_ok:
  assumes "buf_inv c b" "buf_source c b = rice_code fs d @ rest" "fs \<le> 32" "unat (drop_bit fs d) \<le> 1024"
  obtains b' where "fast_rice c fs l b = Inr (l + unzigzag32 d, b')" "buf_inv c b'" "buf_source c b' = rest"
proof -
  obtain b1 where b1: "take_unary c b = Inr (unat (drop_bit fs d), b1)" "buf_inv c b1" "buf_source c b1 = msb_bits fs d @ rest"
    using fast.un_ok[OF assms(1) _ assms(4)] assms(2) by (auto simp: rice_code_def)
  obtain b2 where b2: "take_bits c fs b1 = Inr (of_nat (bits_val (msb_bits fs d)), b2)" "buf_inv c b2" "buf_source c b2 = rest"
    by (rule fast_read[OF b1(2,3) _ assms(3)]) simp_all
  show ?thesis
  proof (cases "fs = 0")
    case True
    then have "fast_rice c fs l b = Inr (l + unzigzag32 d, b1)"
      using b1 rice_code_value[OF assms(3), of d] by (simp add: fast_rice_def Let_def)
    then show ?thesis using that b1 True by simp
  next
    case False
    then have "fast_rice c fs l b = Inr (l + unzigzag32 d, b2)"
      using b1 b2 rice_code_value[OF assms(3), of d] unfolding fast_rice_def by (simp add: Let_def)
    then show ?thesis using that b2 by simp
  qed
qed

text \<open>A pixel reader that decodes every difference of a block decodes the block.\<close>

lemma fast_pixels_ok:
  assumes px: "\<And>l b d rest. d \<in> set ds \<Longrightarrow> buf_inv c b \<Longrightarrow> buf_source c b = code d @ rest \<Longrightarrow>
      \<exists>b'. px l b = Inr (l + unzigzag32 d, b') \<and> buf_inv c b' \<and> buf_source c b' = rest"
    and bp: "bytepix \<in> {1, 2, 4}" and ds: "ds = rice_diffs bytepix l0 ps"
    and l: "same_low (8 * bytepix) l l0"
    and b: "buf_inv c b" "buf_source c b = concat (map code ds) @ rest"
  shows "\<exists>qs l' b'. fast_pixels px (length ps) l b = Inr (qs, l', b') \<and> buf_inv c b' \<and> buf_source c b' = rest \<and>
      list_all2 (same_low (8 * bytepix)) qs ps \<and> same_low (8 * bytepix) l' (last (l0 # ps))"
  using px ds l b
proof (induction ps arbitrary: l0 l b ds)
  case Nil
  then show ?case by simp
next
  case (Cons p ps)
  let ?d = "zigzag (rice_pdiff bytepix p l0)" and ?ds = "rice_diffs bytepix p ps"
  obtain b1 where b1: "px l b = Inr (l + unzigzag32 ?d, b1)" "buf_inv c b1" "buf_source c b1 = concat (map code ?ds) @ rest"
    using Cons.prems(1)[of ?d b "concat (map code ?ds) @ rest" l] Cons.prems(2,4,5) by auto
  have "same_low (8 * bytepix) (l + unzigzag32 ?d) (l0 + (p - l0))"
    unfolding unzigzag32_zigzag by (rule same_low_add[OF Cons.prems(3) rice_pdiff_low[OF bp]])
  then have s: "same_low (8 * bytepix) (l + unzigzag32 ?d) p" by simp
  have "\<exists>qs l' b'. fast_pixels px (length ps) (l + unzigzag32 ?d) b1 = Inr (qs, l', b') \<and> buf_inv c b' \<and>
      buf_source c b' = rest \<and> list_all2 (same_low (8 * bytepix)) qs ps \<and> same_low (8 * bytepix) l' (last (p # ps))"
  proof (rule Cons.IH[OF _ refl s b1(2,3)])
    fix l b d rest assume "d \<in> set ?ds" "buf_inv c b" "buf_source c b = code d @ rest"
    then show "\<exists>b'. px l b = Inr (l + unzigzag32 d, b') \<and> buf_inv c b' \<and> buf_source c b' = rest"
      using Cons.prems(1)[of d b rest l] Cons.prems(2) by simp
  qed
  then obtain qs l' b' where "fast_pixels px (length ps) (l + unzigzag32 ?d) b1 = Inr (qs, l', b')" "buf_inv c b'"
      "buf_source c b' = rest" "list_all2 (same_low (8 * bytepix)) qs ps" "same_low (8 * bytepix) l' (last (p # ps))"
    by blast
  with b1(1) s show ?case by simp
qed

subsection \<open>The block parameter\<close>

lemma bit_length_bound: "n < 2 ^ bit_length n"
proof (induction n rule: bit_length.induct)
  case (1 n)
  show ?case
  proof (cases "n = 0")
    case False
    then have "n div 2 < 2 ^ bit_length (n div 2)" by (rule 1)
    then have "n < 2 ^ Suc (bit_length (n div 2))" by simp
    then show ?thesis using False by (subst bit_length.simps) simp
  qed (simp add: bit_length.simps)
qed

text \<open>The largest difference of a block, shifted by the block's parameter, is at most 2.5 block lengths.\<close>

lemma rice_top_bound:
  assumes d: "d \<in> set ds" and len: "length ds = k" "k \<le> 409"
    and w: "\<forall>d \<in> set ds. unat d < 2 ^ (8 * bytepix)" and bp: "bytepix \<in> {1, 2, 4}"
    and fs: "fs = bit_length (rice_psum bytepix (sum_list (map unat ds)) k)"
  shows "unat (drop_bit fs d :: u32) \<le> 1024"
proof -
  let ?S = "sum_list (map unat ds)"
  let ?m = "if int ?S - int (k div 2) - 1 < 0 then 0 else nat (int ?S - int (k div 2) - 1) div k"
  let ?cap = "if bytepix = 1 then 255 else if bytepix = 2 then 65535 else 4294967295 :: nat"
  have k: "0 < k" using d len(1) by (cases ds) auto
  have cap: "Suc ?cap = 2 ^ (8 * bytepix)" using bp by auto
  have "?S \<le> sum_list (map (\<lambda>_. ?cap) ds)"
    using w cap by (intro sum_list_mono) (auto simp del: One_nat_def simp: less_Suc_eq_le[symmetric])
  then have "?S \<le> k * ?cap" using len(1) by (simp add: sum_list_triv mult.commute)
  then have "nat (int ?S - int (k div 2) - 1) \<le> k * ?cap" by linarith
  then have "?m \<le> ?cap" using k by (auto simp: div_le_mono[of _ "k * ?cap" k, simplified] intro: order_trans[OF div_le_mono])
  then have "?m div 2 < 2 ^ fs"
    using bit_length_bound[of "rice_psum bytepix ?S k"] fs by (simp add: rice_psum_def Let_def min_absorb1 cong: if_cong)
  then have "?m < 2 ^ Suc fs" by simp
  then have "int ?S - int (k div 2) - 1 < int (k * 2 ^ Suc fs)"
  proof (cases "int ?S - int (k div 2) - 1 < 0")
    case False
    then have "nat (int ?S - int (k div 2) - 1) < 2 ^ Suc fs * k"
      using \<open>?m < 2 ^ Suc fs\<close> k by (simp add: div_less_iff_less_mult)
    then show ?thesis by (simp add: mult.commute nat_less_iff[OF False[unfolded not_less]])
  next
    case True
    moreover have "0 \<le> int (k * 2 ^ Suc fs)" by simp
    ultimately show ?thesis by linarith
  qed
  then have "?S \<le> k * 2 ^ Suc fs + k div 2" by linarith
  moreover have "unat d \<le> ?S" using d by (intro member_le_sum_list) auto
  ultimately have "unat d \<le> k * 2 ^ Suc fs + k div 2" by simp
  also have "\<dots> \<le> (2 * k + k div 2) * 2 ^ fs" by (simp add: algebra_simps)
  also have "\<dots> \<le> 1024 * 2 ^ fs" using len(2) by (intro mult_right_mono) auto
  finally have "unat d div 2 ^ fs \<le> 1024 * 2 ^ fs div 2 ^ fs" by (rule div_le_mono)
  then show ?thesis unfolding unat_drop_bit_eq by (simp add: drop_bit_eq_div)
qed

subsection \<open>Blocks\<close>

lemma rice_paramsD:
  assumes "rice_params bytepix = Inr (bbits, fsbits, fsmax)" "bytepix \<in> {1, 2, 4}"
  shows "bbits = 8 * bytepix" "bbits \<le> 32" "0 < fsbits" "fsbits \<le> 32" "fsmax \<le> 32" "fsmax + 1 < 2 ^ fsbits"
  using assms by (auto simp: rice_params_def)

lemma rice_diffs_small:
  "bytepix \<in> {1, 2, 4} \<Longrightarrow> d \<in> set (rice_diffs bytepix l ps) \<Longrightarrow> unat d < 2 ^ (8 * bytepix)"
proof (induction ps arbitrary: l)
  case (Cons p ps)
  then consider "d = zigzag (rice_pdiff bytepix p l)" | "d \<in> set (rice_diffs bytepix p ps)" by auto
  then show ?case by cases (use Cons zigzag_small in blast)+
qed simp

lemma length_rice_diffs [simp]: "length (rice_diffs bytepix l ps) = length ps"
  by (induction bytepix l ps rule: rice_diffs.induct) auto

lemma foldl_writer:
  assumes "\<And>w bs d. writer_rep w bs \<Longrightarrow> writer_rep (step w d) (bs @ code d)" "writer_rep w bs"
  shows "writer_rep (foldl step w ds) (bs @ concat (map code ds))"
  using assms(2)
proof (induction ds arbitrary: w bs)
  case (Cons d ds)
  from Cons.IH[OF assms(1)[OF Cons.prems, of d]] show ?case by simp
qed simp

lemma write_raw_rep:
  assumes "writer_rep w bs" "bbits \<le> 32"
  shows "writer_rep (write_raw bbits w d) (bs @ msb_bits bbits d)"
proof -
  have "msb_bits bbits (ucast d :: u64) = msb_bits bbits d"
    using assms(2) by (intro msb_bits_cong) (simp add: bit_ucast_iff)
  with write_bits_rep[OF assms(1), of bbits "ucast d"] assms(2) show ?thesis by (simp add: write_raw_def)
qed

lemma write_rice_rep:
  assumes "writer_rep w bs" "fs \<le> 32"
  shows "writer_rep (write_rice fs w d) (bs @ rice_code fs d)"
proof -
  let ?w = "write_unary w (unat (drop_bit fs d))"
  have u: "writer_rep ?w (bs @ replicate (unat (drop_bit fs d)) False @ [True])"
    by (rule write_unary_rep[OF assms(1)])
  have "msb_bits fs (ucast (d AND (push_bit fs 1 - 1)) :: u64) = msb_bits fs d"
  proof (rule msb_bits_cong)
    fix i assume "i < fs"
    moreover have "(push_bit fs 1 - 1 :: u32) = mask fs" by (simp add: mask_eq_exp_minus_1 push_bit_eq_mult)
    ultimately show "bit (ucast (d AND (push_bit fs 1 - 1)) :: u64) i = bit d i"
      using assms(2) by (simp add: bit_ucast_iff bit_and_iff bit_mask_iff)
  qed
  with write_bits_rep[OF u, of fs "ucast (d AND (push_bit fs 1 - 1))"] u assms(2) show ?thesis
    unfolding write_rice_def Let_def rice_code_def by (cases "fs = 0") (auto simp only: append_assoc append_Cons append_Nil if_P msb_bits_0 append_Nil2 neq0_conv if_True less_irrefl if_False)
qed

lemma read_fs:
  assumes "m < 2 ^ fsbits" "fsbits \<le> 32"
    and "buf_inv c b" "buf_source c b = msb_bits fsbits (of_nat m :: u64) @ rest"
  obtains b' v where "take_bits c fsbits b = Inr (v, b')" "unat v = m" "buf_inv c b'" "buf_source c b' = rest"
proof -
  have lt: "m < 2 ^ 32" using assms(1,2) by (meson less_le_trans one_le_numeral power_increasing)
  have "bits_val (msb_bits fsbits (of_nat m :: u64)) = m"
    using assms(1) lt by (simp add: bits_val_msb_bits unat_of_nat take_bit_nat_eq_self)
  moreover obtain b' where "take_bits c fsbits b = Inr (of_nat (bits_val (msb_bits fsbits (of_nat m :: u64))), b')"
      "buf_inv c b'" "buf_source c b' = rest"
    by (rule fast_read[OF assms(3,4) _ assms(2)]) simp_all
  moreover have "unat (of_nat m :: u32) = m" using lt by (simp add: unat_of_nat)
  ultimately show ?thesis using that by metis
qed

lemma zero_block:
  "fast_pixels (\<lambda>l b. Inr (l, b)) k l b = Inr (replicate k l, l, b)"
  by (induction k) simp_all

text \<open>
  What a block writes can be read back: \<open>decodes\<close> says that the decoder, from any state congruent
  to the encoder's, turns the bits \<open>cs\<close> into pixels congruent to \<open>ps\<close>.
\<close>

definition decodes :: "nat \<Rightarrow> (bytes \<Rightarrow> i32 \<Rightarrow> bit_buffer \<Rightarrow> codec_error + i32 list \<times> i32 \<times> bit_buffer)
    \<Rightarrow> i32 \<Rightarrow> i32 list \<Rightarrow> bool list \<Rightarrow> bool" where
  "decodes bbits dec l0 ps cs \<longleftrightarrow>
     (\<forall>c l b rest. buf_inv c b \<longrightarrow> buf_source c b = cs @ rest \<longrightarrow> same_low bbits l l0 \<longrightarrow>
       (\<exists>qs l' b'. dec c l b = Inr (qs, l', b') \<and> buf_inv c b' \<and> buf_source c b' = rest \<and>
          list_all2 (same_low bbits) qs ps \<and> same_low bbits l' (last (l0 # ps))))"

lemma fast_block_eq:
  assumes "take_bits c fsbits b = Inr (v, b')" "unat v = m"
  shows "fast_block c bbits fsbits fsmax k l b =
    (if m = 0 then Inr (replicate k l, l, b')
     else if m = Suc fsmax then fast_pixels (fast_raw c bbits) k l b'
     else fast_pixels (fast_rice c (m - 1)) k l b')"
proof -
  have "int m - 1 < 0 \<longleftrightarrow> m = 0" "nat (int m - 1) = m - 1" "m \<noteq> 0 \<Longrightarrow> m - 1 = fsmax \<longleftrightarrow> m = Suc fsmax" by auto
  then show ?thesis
    unfolding fast_block_def assms(1) res_bind.simps prod.case assms(2) Let_def by auto
qed

lemma decodes_block:
  assumes par: "rice_params bytepix = Inr (bbits, fsbits, fsmax)" "bytepix \<in> {1, 2, 4}"
    and m: "m < 2 ^ fsbits"
    and blk: "\<And>c l b b' v. unat v = m \<Longrightarrow> take_bits c fsbits b = Inr (v, b') \<Longrightarrow>
       fast_block c bbits fsbits fsmax (length ps) l b = fast_pixels (px c) (length ps) l b'"
    and px: "\<And>c l b d rest. d \<in> set (rice_diffs bytepix l0 ps) \<Longrightarrow> buf_inv c b \<Longrightarrow> buf_source c b = code d @ rest \<Longrightarrow>
       \<exists>b'. px c l b = Inr (l + unzigzag32 d, b') \<and> buf_inv c b' \<and> buf_source c b' = rest"
  shows "decodes bbits (\<lambda>c. fast_block c bbits fsbits fsmax (length ps)) l0 ps
     (msb_bits fsbits (of_nat m :: u64) @ concat (map code (rice_diffs bytepix l0 ps)))"
  unfolding decodes_def
proof (intro allI impI)
  fix c l b rest
  let ?body = "concat (map code (rice_diffs bytepix l0 ps))"
  assume b: "buf_inv c b" "buf_source c b = (msb_bits fsbits (of_nat m :: u64) @ ?body) @ rest"
    and l: "same_low bbits l l0"
  obtain v b1 where b1: "take_bits c fsbits b = Inr (v, b1)" "unat v = m" "buf_inv c b1" "buf_source c b1 = ?body @ rest"
    by (rule read_fs[OF m rice_paramsD(4)[OF par] b(1)]) (use b(2) in simp_all)
  show "\<exists>qs l' b'. fast_block c bbits fsbits fsmax (length ps) l b = Inr (qs, l', b') \<and> buf_inv c b' \<and>
      buf_source c b' = rest \<and> list_all2 (same_low bbits) qs ps \<and> same_low bbits l' (last (l0 # ps))"
    unfolding blk[OF b1(2,1)] unfolding rice_paramsD(1)[OF par]
    by (rule fast_pixels_ok[OF _ par(2) refl _ b1(3,4)]) (use px l rice_paramsD(1)[OF par] in simp_all)
qed

lemma concat_Nils [simp]: "concat (map (\<lambda>_. []) xs) = []"
  by (induction xs) simp_all

lemma encode_block_decodes:
  assumes par: "rice_params bytepix = Inr (bbits, fsbits, fsmax)" "bytepix \<in> {1, 2, 4}"
    and len: "length ps \<le> 409"
  obtains cs where "fsbits \<le> length cs"
    "\<And>w bs. writer_rep w bs \<Longrightarrow> writer_rep (encode_block bytepix bbits fsbits fsmax l0 ps w) (bs @ cs)"
    "decodes bbits (\<lambda>c. fast_block c bbits fsbits fsmax (length ps)) l0 ps cs"
proof -
  note P = rice_paramsD[OF par]
  define ds where "ds = rice_diffs bytepix l0 ps"
  define fs where "fs = bit_length (rice_psum bytepix (sum_list (map unat ds)) (length ps))"
  have small: "unat d < 2 ^ bbits" if "d \<in> set ds" for d
    using rice_diffs_small[OF par(2), of d] that P(1) by (simp add: ds_def)
  let ?fs = "\<lambda>m. msb_bits fsbits (of_nat m :: u64)"
  have wfs: "writer_rep w bs \<Longrightarrow> writer_rep (write_bits w (of_nat m) fsbits) (bs @ ?fs m)" for w bs m
    using write_bits_rep P(4) by simp
  consider "fsmax \<le> fs" | "fs < fsmax" "fs = 0 \<and> sum_list (map unat ds) = 0"
    | "fs < fsmax" "\<not> (fs = 0 \<and> sum_list (map unat ds) = 0)" by linarith
  then show ?thesis
  proof cases
    case 1
    show ?thesis
    proof (rule that)
      show "writer_rep (encode_block bytepix bbits fsbits fsmax l0 ps w) (bs @ ?fs (fsmax + 1) @ concat (map (msb_bits bbits) ds))"
        if "writer_rep w bs" for w bs
        using foldl_writer[of "write_raw bbits" "msb_bits bbits", OF write_raw_rep wfs[OF that, of "fsmax + 1"]] P(2) 1
        by (simp add: encode_block_def Let_def flip: ds_def fs_def)
      show "decodes bbits (\<lambda>c. fast_block c bbits fsbits fsmax (length ps)) l0 ps (?fs (fsmax + 1) @ concat (map (msb_bits bbits) ds))"
        unfolding ds_def
      proof (rule decodes_block[OF par P(6)])
        fix c l b d rest
        assume "d \<in> set (rice_diffs bytepix l0 ps)" "buf_inv c b" "buf_source c b = msb_bits bbits d @ rest"
        then show "\<exists>b'. fast_raw c bbits l b = Inr (l + unzigzag32 d, b') \<and> buf_inv c b' \<and> buf_source c b' = rest"
          by (metis fast_raw_ok P(2) small ds_def)
      qed (simp add: fast_block_eq)
    qed simp
  next
    case 2
    show ?thesis
    proof (rule that)
      show "writer_rep (encode_block bytepix bbits fsbits fsmax l0 ps w) (bs @ ?fs 0 @ concat (map (\<lambda>_. []) ds))"
        if "writer_rep w bs" for w bs
        using wfs[OF that, of 0] 2 concat_Nils by (simp add: encode_block_def Let_def flip: ds_def fs_def)
      show "decodes bbits (\<lambda>c. fast_block c bbits fsbits fsmax (length ps)) l0 ps (?fs 0 @ concat (map (\<lambda>_. []) ds))"
        unfolding ds_def
      proof (rule decodes_block[OF par, where px = "\<lambda>_ l b. Inr (l, b)"])
        fix c l b d rest
        assume "d \<in> set (rice_diffs bytepix l0 ps)" "buf_inv c b" "buf_source c b = [] @ rest"
        moreover from this(1) have "d = 0" using 2(2) by (auto simp: ds_def unat_eq_zero)
        ultimately show "\<exists>b'. Inr (l, b) = (Inr (l + unzigzag32 d, b') :: codec_error + _) \<and> buf_inv c b' \<and> buf_source c b' = rest"
          by (simp add: unzigzag32_def)
      qed (simp_all add: fast_block_eq zero_block)
    qed simp
  next
    case 3
    have fs32: "fs \<le> 32" "fs + 1 < 2 ^ fsbits" using 3(1) P(5,6) by simp_all
    have top: "unat (drop_bit fs d) \<le> 1024" if "d \<in> set ds" for d
      by (rule rice_top_bound[OF that _ len _ par(2) fs_def]) (use small P(1) in \<open>simp_all add: ds_def\<close>)
    show ?thesis
    proof (rule that)
      show "writer_rep (encode_block bytepix bbits fsbits fsmax l0 ps w) (bs @ ?fs (fs + 1) @ concat (map (rice_code fs) ds))"
        if "writer_rep w bs" for w bs
        using foldl_writer[of "write_rice fs" "rice_code fs", OF write_rice_rep wfs[OF that, of "fs + 1"]] fs32(1) 3
        by (auto simp add: encode_block_def Let_def simp flip: ds_def fs_def)
      show "decodes bbits (\<lambda>c. fast_block c bbits fsbits fsmax (length ps)) l0 ps (?fs (fs + 1) @ concat (map (rice_code fs) ds))"
        unfolding ds_def
      proof (rule decodes_block[OF par fs32(2)])
        fix c l b d rest
        assume "d \<in> set (rice_diffs bytepix l0 ps)" "buf_inv c b" "buf_source c b = rice_code fs d @ rest"
        then show "\<exists>b'. fast_rice c fs l b = Inr (l + unzigzag32 d, b') \<and> buf_inv c b' \<and> buf_source c b' = rest"
          by (metis fast_rice_ok fs32(1) top ds_def)
      qed (use 3(1) in \<open>simp add: fast_block_eq\<close>)
    qed simp
  qed
qed


lemma encode_blocks_decodes:
  assumes par: "rice_params bytepix = Inr (bbits, fsbits, fsmax)" "bytepix \<in> {1, 2, 4}"
    and bs: "0 < blocksize" "blocksize \<le> 409"
  shows "\<exists>cs. (ps \<noteq> [] \<longrightarrow> fsbits \<le> length cs) \<and>
    (\<forall>w bs. writer_rep w bs \<longrightarrow> writer_rep (encode_blocks bytepix bbits fsbits fsmax blocksize l0 ps w) (bs @ cs)) \<and>
    (\<forall>c l b rest. buf_inv c b \<longrightarrow> buf_source c b = cs @ rest \<longrightarrow> same_low bbits l l0 \<longrightarrow>
       (\<exists>qs. fast_blocks c bbits fsbits fsmax blocksize (length ps) l b = Inr qs \<and> list_all2 (same_low bbits) qs ps))"
proof (induction "length ps" arbitrary: ps l0 rule: less_induct)
  case less
  show ?case
  proof (cases "ps = []")
    case True
    then show ?thesis by (intro exI[of _ "[]"]) (simp add: encode_blocks.simps fast_blocks.simps)
  next
    case False
    define blk where "blk = take blocksize ps"
    define ps' where "ps' = drop blocksize ps"
    have ps: "ps = blk @ ps'" "length ps' < length ps" "blk \<noteq> []" "length blk = min blocksize (length ps)" "length blk \<le> 409"
      using False bs by (auto simp: blk_def ps'_def)
    obtain cs where cs: "fsbits \<le> length cs"
      "\<And>w bs. writer_rep w bs \<Longrightarrow> writer_rep (encode_block bytepix bbits fsbits fsmax l0 blk w) (bs @ cs)"
      "decodes bbits (\<lambda>c. fast_block c bbits fsbits fsmax (length blk)) l0 blk cs"
      by (rule encode_block_decodes[OF par ps(5)]) blast
    obtain cs' where cs':
      "\<And>w bs. writer_rep w bs \<Longrightarrow> writer_rep (encode_blocks bytepix bbits fsbits fsmax blocksize (last blk) ps' w) (bs @ cs')"
      "\<And>c l b rest. buf_inv c b \<Longrightarrow> buf_source c b = cs' @ rest \<Longrightarrow> same_low bbits l (last blk) \<Longrightarrow>
         \<exists>qs. fast_blocks c bbits fsbits fsmax blocksize (length ps') l b = Inr qs \<and> list_all2 (same_low bbits) qs ps'"
      using less[OF ps(2), of "last blk"] by blast
    have "writer_rep (encode_blocks bytepix bbits fsbits fsmax blocksize l0 ps w) (bs @ cs @ cs')" if "writer_rep w bs" for w bs
      using cs'(1)[OF cs(2)[OF that]] False bs(1)
      unfolding encode_blocks.simps[of _ _ _ _ _ _ ps] by (simp add: Let_def blk_def ps'_def)
    moreover have "\<exists>qs. fast_blocks c bbits fsbits fsmax blocksize (length ps) l b = Inr qs \<and> list_all2 (same_low bbits) qs ps"
      if b: "buf_inv c b" "buf_source c b = (cs @ cs') @ rest" "same_low bbits l l0" for c l b rest
    proof -
      obtain qs l' b' where q: "fast_block c bbits fsbits fsmax (length blk) l b = Inr (qs, l', b')"
        "buf_inv c b'" "buf_source c b' = cs' @ rest" "list_all2 (same_low bbits) qs blk" "same_low bbits l' (last (l0 # blk))"
        using cs(3)[unfolded decodes_def, rule_format, of c b "cs' @ rest" l] b by auto
      then obtain qs' where "fast_blocks c bbits fsbits fsmax blocksize (length ps') l' b' = Inr qs'"
        "list_all2 (same_low bbits) qs' ps'"
        using cs'(2)[OF q(2,3), of l'] ps(3) by auto
      moreover have "length ps - length blk = length ps'" by (simp add: ps(1))
      moreover have "\<not> (length ps = 0 \<or> blocksize = 0)" using False bs(1) by simp
      ultimately have "fast_blocks c bbits fsbits fsmax blocksize (length ps) l b = Inr (qs @ qs')"
        using q(1) unfolding fast_blocks.simps[of _ _ _ _ _ "length ps"] Let_def ps(4)[symmetric]
        by simp
      with q(4) \<open>list_all2 (same_low bbits) qs' ps'\<close> show ?thesis unfolding ps(1) by (blast intro: list_all2_appendI)
    qed
    ultimately show ?thesis using cs(1) by (intro exI[of _ "cs @ cs'"]) auto
  qed
qed

subsection \<open>Streams\<close>

lemma fold_seed:
  "foldl (\<lambda>s b. push_bit 8 s OR ucast b) (of_nat a :: u32) bs = of_nat (a * 256 ^ length bs + be_nat bs)"
proof (induction bs arbitrary: a)
  case (Cons b bs)
  have "unat b < 2 ^ 8" using unsigned_less[of b, where ?'a = nat] by simp
  then have "push_bit 8 (of_nat a :: u32) OR of_nat (unat b) = of_nat (a * 2 ^ 8 + unat b)" by (rule or_of_nat)
  then have "push_bit 8 (of_nat a :: u32) OR ucast b = of_nat (a * 256 + unat b)" by simp
  then show ?case using Cons.IH[of "a * 256 + unat b"] by (simp add: be_nat_Cons algebra_simps)
qed simp

lemma seed_from_be: "foldl (\<lambda>s b. push_bit 8 s OR ucast b) (0 :: u32) bs = from_be bs"
  using fold_seed[of 0 bs] by (simp add: from_be_def)

lemma same_low_msb_bits:
  assumes "msb_bits k v = msb_bits k w" shows "same_low k v w"
  unfolding same_low_def
proof (rule bit_word_eqI)
  fix i
  show "bit (take_bit k v) i = bit (take_bit k w) i"
  proof (cases "i < k")
    case True
    then show ?thesis
      using arg_cong[OF assms, of "\<lambda>xs. xs ! (k - 1 - i)"] by (simp add: bit_take_bit_iff)
  qed (simp add: bit_take_bit_iff)
qed

lemma same_low_trans: "same_low k a b \<Longrightarrow> same_low k b c \<Longrightarrow> same_low k a c"
  by (simp add: same_low_def)

lemma sign_extended_low:
  fixes u :: u32
  assumes "bbits \<in> {8, 16, 32}"
  shows "same_low bbits (if bbits < 32 then signed_drop_bit (32 - bbits) (push_bit (32 - bbits) u) else u) u"
  unfolding same_low_def
  by (rule bit_word_eqI) (use assms in \<open>auto simp: bit_take_bit_iff bit_signed_drop_bit_iff bit_push_bit_iff\<close>)

text \<open>After the seed the fast decoder is at the first block, with a congruent last pixel.\<close>

lemma decode_int_start:
  assumes par: "rice_params bytepix = Inr (bbits, fsbits, fsmax)" "bytepix \<in> {1, 2, 4}"
    and c: "byte_bits c = msb_bits bbits seed @ cs @ rest" "0 < length cs"
    and dec: "\<And>l b. buf_inv c b \<Longrightarrow> buf_source c b = cs @ rest \<Longrightarrow> same_low bbits l seed \<Longrightarrow>
       R (fast_blocks c bbits fsbits fsmax nblock n l b)"
  shows "R (decode_rice_int_u32buf c n bbits fsbits fsmax nblock)"
proof -
  note bb = rice_paramsD(1)[OF par]
  have "8 * length c = bbits + (length cs + length rest)"
    using arg_cong[OF c(1), of length] by simp
  moreover have div8: "bbits div 8 = bytepix" using bb by simp
  ultimately have len: "\<not> length c < bytepix + 1" using bb c(2) by linarith
  have parts: "byte_bits (take bytepix c) = msb_bits bbits seed" "byte_bits (drop bytepix c) = cs @ rest"
  proof -
    have "byte_bits (take bytepix c) @ byte_bits (drop bytepix c) = msb_bits bbits seed @ (cs @ rest)"
      by (metis append_take_drop_id byte_bits_simps(3) c(1))
    moreover have "length (byte_bits (take bytepix c)) = length (msb_bits bbits seed)" using len bb by simp
    ultimately show "byte_bits (take bytepix c) = msb_bits bbits seed" "byte_bits (drop bytepix c) = cs @ rest"
      using append_eq_append_conv by blast+
  qed
  let ?u = "from_be (take bytepix c) :: u32"
  let ?l = "if bbits < 32 then signed_drop_bit (32 - bbits) (push_bit (32 - bbits) ?u) else ?u"
  have "msb_bits bbits ?u = msb_bits bbits seed"
    using msb_bits_from_be[of "take bytepix c", where ?'a = 32] parts(1) len bb rice_paramsD(2)[OF par] by simp
  moreover have "bbits \<in> {8, 16, 32}" using par(2) bb by auto
  ultimately have l: "same_low bbits ?l seed"
    by (intro same_low_trans[OF sign_extended_low same_low_msb_bits])
  let ?b0 = "\<lparr>bb_buf = 0, bb_nbits = 0, bb_pos = bytepix\<rparr>"
  have b0: "buf_inv c ?b0" "buf_source c ?b0 = [] @ byte_bits (drop bytepix c)"
    using buf_invI[of "[]" ?b0 c] left_rep_0 len by simp_all
  then have "buf_inv c (refill c ?b0)" "buf_source c (refill c ?b0) = cs @ rest"
    using refill_inv[OF b0(1)] parts(2) by simp_all
  from dec[OF this l] show ?thesis
    using len by (simp only: decode_rice_int_u32buf_def Let_def seed_from_be if_False div8)
qed

lemma ucast_low:
  fixes v w :: "'a::len word"
  assumes "same_low k v w" "LENGTH('b::len) \<le> k"
  shows "ucast v = (ucast w :: 'b word)"
  by (rule bit_word_eqI) (use assms(2) same_lowD[OF assms(1)] in \<open>auto simp: bit_ucast_iff\<close>)

lemma write_pixel_low:
  assumes "same_low (8 * bytepix) v w" "bytepix \<in> {1, 2, 4}"
  shows "write_pixel big (int (8 * bytepix)) v = write_pixel big (int (8 * bytepix)) w"
  using ucast_low[OF assms(1), where ?'b = 8] ucast_low[OF assms(1), where ?'b = 16]
    ucast_low[OF assms(1), where ?'b = 32] assms(2)
  by (auto simp: write_pixel_def)

lemma take_pixel:
  assumes "Suc i * k \<le> length bs"
  shows "k = 1 \<Longrightarrow> take k (drop (i * k) bs) = [bs ! i]"
    "k = 2 \<Longrightarrow> take k (drop (i * k) bs) = [bs ! (2 * i), bs ! (2 * i + 1)]"
    "k = 4 \<Longrightarrow> take k (drop (i * k) bs) = [bs ! (4 * i), bs ! (4 * i + 1), bs ! (4 * i + 2), bs ! (4 * i + 3)]"
  using assms by (auto simp: Cons_nth_drop_Suc[symmetric] numeral_eq_Suc mult.commute)

lemma ucast_scast_id:
  "LENGTH('b) \<ge> LENGTH('a) \<Longrightarrow> ucast (scast (x :: 'a::len word) :: 'b::len word) = x"
proof (rule bit_word_eqI)
  fix i assume l: "LENGTH('a) \<le> LENGTH('b)" and i: "i < LENGTH('a)"
  then have "min (LENGTH('a) - Suc 0) i = i" by simp
  with l i show "bit (ucast (scast x :: 'b word) :: 'a word) i = bit x i"
    by (simp add: bit_ucast_iff bit_signed_iff)
qed

lemma write_read_pixels:
  assumes len: "length bs = n * bytepix" and bp: "bytepix \<in> {1, 2, 4}"
  shows "concat (map (write_pixel big (int (8 * bytepix))) (map (read_pixel bs bytepix) [0..<n])) = to_native big bytepix bs"
proof -
  have b: "Suc i * bytepix \<le> length bs" if "i < n" for i
    using that len mult_le_mono1[of "Suc i" n bytepix] by simp
  consider "bytepix = 1" | "bytepix = 2" | "bytepix = 4" using bp by blast
  then show ?thesis
  proof cases
    case 1
    have "map ((!) bs) [0..<n] = bs" using 1 len by (auto intro: nth_equalityI)
    with 1 show ?thesis by (simp add: write_pixel_def read_pixel_def ucast_scast_id o_def to_native_eq)
  next
    case 2
    have "map (write_pixel big (int (8 * bytepix))) (map (read_pixel bs bytepix) [0..<n])
        = map (\<lambda>i. to_ne big 2 (from_be (take 2 (drop (i * 2) bs)) :: 16 word)) [0..<n]"
      unfolding map_map using 2 take_pixel(2)[OF b]
      by (intro map_cong[OF refl]) (simp add: write_pixel_def read_pixel_def ucast_scast_id)
    then show ?thesis using native_words[of bs n 2 big, where ?'a = 16] len 2 by (simp only:) simp
  next
    case 3
    have "map (write_pixel big (int (8 * bytepix))) (map (read_pixel bs bytepix) [0..<n])
        = map (\<lambda>i. to_ne big 4 (from_be (take 4 (drop (i * 4) bs)) :: 32 word)) [0..<n]"
      unfolding map_map using 3 take_pixel(3)[OF b]
      by (intro map_cong[OF refl]) (simp add: write_pixel_def read_pixel_def ucast_scast_id)
    then show ?thesis using native_words[of bs n 4 big, where ?'a = 32] len 3 by (simp only:) simp
  qed
qed

lemma rice_lossless:
  assumes bp: "bytepix \<in> {1, 2, 4}" and len: "length bs = n * bytepix" "n * bytepix < 2 ^ 64"
    and blk: "0 < blocksize" "blocksize \<le> 409"
  shows "res_bind (encode_rice bs n bytepix blocksize) (\<lambda>c. decode_rice big c n bytepix blocksize (int (8 * bytepix)))
    = Inr (to_native big bytepix bs)"
proof (cases "n = 0")
  case True
  then show ?thesis using len bp by (auto simp: encode_rice_def decode_rice_def to_native_eq)
next
  case False
  obtain bbits fsbits fsmax where par: "rice_params bytepix = Inr (bbits, fsbits, fsmax)"
    using bp by (auto simp: rice_params_def)
  note P = rice_paramsD[OF par bp]
  define px where "px = map (read_pixel bs bytepix) [0..<n]"
  define w where "w = write_bits writer_new (ucast (px ! 0)) bbits"
  define c where "c = writer_finish (encode_blocks bytepix bbits fsbits fsmax blocksize (px ! 0) px w)"
  obtain cs where cs: "px \<noteq> [] \<longrightarrow> fsbits \<le> length cs"
    "\<And>w bs. writer_rep w bs \<Longrightarrow> writer_rep (encode_blocks bytepix bbits fsbits fsmax blocksize (px ! 0) px w) (bs @ cs)"
    "\<And>c l b rest. buf_inv c b \<Longrightarrow> buf_source c b = cs @ rest \<Longrightarrow> same_low bbits l (px ! 0) \<Longrightarrow>
       \<exists>qs. fast_blocks c bbits fsbits fsmax blocksize (length px) l b = Inr qs \<and> list_all2 (same_low bbits) qs px"
    using encode_blocks_decodes[OF par bp blk, of px "px ! 0"] by blast
  have "writer_rep w (msb_bits bbits (px ! 0))"
    using write_raw_rep[OF writer_rep_new P(2), of "px ! 0"] by (simp add: w_def write_raw_def)
  then have "writer_rep (encode_blocks bytepix bbits fsbits fsmax blocksize (px ! 0) px w) (msb_bits bbits (px ! 0) @ cs)"
    by (rule cs(2))
  then obtain k where k: "byte_bits c = msb_bits bbits (px ! 0) @ cs @ replicate k False"
    by (rule writer_finish_rep) (auto simp: c_def)
  have "0 < length cs" using cs(1) P(3) False by (cases cs) (auto simp: px_def)
  then obtain qs where qs: "decode_rice_int_u32buf c n bbits fsbits fsmax blocksize = Inr qs" "list_all2 (same_low bbits) qs px"
    using decode_int_start[OF par bp k, where R = "\<lambda>r. \<exists>qs. r = Inr qs \<and> list_all2 (same_low bbits) qs px"
        and nblock = blocksize and n = n] cs(3)
    by (auto simp: px_def)
  have "map (write_pixel big (int (8 * bytepix))) qs = map (write_pixel big (int (8 * bytepix))) px"
    using qs(2) write_pixel_low[OF _ bp] P(1)
    by (auto simp: list_all2_conv_all_nth intro!: nth_equalityI)
  then have out: "concat (map (write_pixel big (int (8 * bytepix))) qs) = to_native big bytepix bs"
    using write_read_pixels[OF len(1) bp] by (simp only: px_def)
  have z: "int (8 * bytepix) \<in> {8, 16, 32, 64}" "bytepix \<noteq> 8" using bp by auto
  have "encode_rice bs n bytepix blocksize = Inr c"
    using False blk(1) par len z(2) unfolding encode_rice_def
    by (simp add: checked_mul_def Let_def c_def w_def px_def)
  moreover have "decode_rice big c n bytepix blocksize (int (8 * bytepix)) = Inr (to_native big bytepix bs)"
    using False blk(1) par qs(1) z out unfolding decode_rice_def by simp
  ultimately show ?thesis by simp
qed

subsection \<open>Every stream, corrupt ones included, ends in pixels or in an error\<close>

lemma take_bits_total:
  assumes "buf_inv c b" "n \<le> 32"
  shows "no_panic (\<lambda>(v, b'). unat v < 2 ^ n \<and> buf_inv c b') (take_bits c n b)"
proof (cases "n \<le> length (buf_source c b)")
  case True
  then obtain b' where b': "take_bits c n b = Inr (of_nat (bits_val (take n (buf_source c b))), b')" "buf_inv c b'"
    using take_bits_ok(1)[OF assms] by blast
  have "unat (of_nat (bits_val (take n (buf_source c b))) :: u32) \<le> bits_val (take n (buf_source c b))"
    by (simp add: unat_of_nat)
  also have "\<dots> < 2 ^ n" using bits_val_less[of "take n (buf_source c b)"] True by simp
  finally show ?thesis using b' by simp
next
  case False
  then show ?thesis using take_bits_ok(2)[OF assms] by simp
qed

lemma fast_pixels_total:
  assumes "\<And>l b. buf_inv c b \<Longrightarrow> no_panic (\<lambda>(p, b'). buf_inv c b') (px l b)" "buf_inv c b"
  shows "no_panic (\<lambda>(ps, l', b'). length ps = k \<and> buf_inv c b') (fast_pixels px k l b)"
  using assms(2)
proof (induction k arbitrary: l b)
  case (Suc k)
  show ?case unfolding fast_pixels.simps
  proof (rule no_panic_bind[OF assms(1)[OF Suc.prems]], clarify)
    fix p b1 assume "buf_inv c b1"
    then show "no_panic (\<lambda>(ps, l', b'). length ps = Suc k \<and> buf_inv c b')
        (res_bind (fast_pixels px k p b1) (\<lambda>(ps, l, b2). Inr (p # ps, l, b2)))"
      by (intro no_panic_bind[OF Suc.IH]) auto
  qed
qed simp

lemma fast_pixel_total:
  assumes "buf_inv c b"
  shows "bbits \<le> 32 \<Longrightarrow> no_panic (\<lambda>(p, b'). buf_inv c b') (fast_raw c bbits l b)"
    and "fs \<le> 32 \<Longrightarrow> no_panic (\<lambda>(p, b'). buf_inv c b') (fast_rice c fs l b)"
proof -
  show "bbits \<le> 32 \<Longrightarrow> no_panic (\<lambda>(p, b'). buf_inv c b') (fast_raw c bbits l b)"
    unfolding fast_raw_def by (rule no_panic_bind[OF take_bits_total[OF assms]]) auto
  assume fs: "fs \<le> 32"
  show "no_panic (\<lambda>(p, b'). buf_inv c b') (fast_rice c fs l b)"
    unfolding fast_rice_def
  proof (rule no_panic_bind[OF fast.un_total[OF assms]], clarify)
    fix n b1 assume b1: "buf_inv c b1"
    have "no_panic (\<lambda>(v, b'). buf_inv c b') (if fs = 0 then Inr (0, b1) else take_bits c fs b1)"
      using take_bits_total[OF b1 fs] b1 by (auto elim!: no_panic_mono)
    then show "no_panic (\<lambda>(p, b'). buf_inv c b') (res_bind (if fs = 0 then Inr (0, b1) else take_bits c fs b1)
        (\<lambda>(bottom, b2). let diff = ucast (push_bit fs (of_nat n :: u64)) OR bottom in Inr (l + unzigzag32 diff, b2)))"
      by (rule no_panic_bind) (auto simp: Let_def)
  qed
qed

lemma fast_block_total:
  assumes "buf_inv c b" "bbits \<le> 32" "fsbits \<le> 5"
  shows "no_panic (\<lambda>(ps, l', b'). length ps = k \<and> buf_inv c b') (fast_block c bbits fsbits fsmax k l b)"
proof -
  have "no_panic (\<lambda>(v, b'). unat v < 2 ^ fsbits \<and> buf_inv c b') (take_bits c fsbits b)"
    using take_bits_total[OF assms(1)] assms(3) by simp
  then show ?thesis
    unfolding fast_block_def
  proof (rule no_panic_bind, clarify)
    fix v :: u32 and b1
    assume v: "unat v < 2 ^ fsbits" and b1: "buf_inv c b1"
    have "(2 :: nat) ^ fsbits \<le> 2 ^ 5" using assms(3) by (intro power_increasing) simp_all
    then have "unat v < 32" using v by simp
    then have "nat (int (unat v) - 1) \<le> 32" by linarith
    then show "no_panic (\<lambda>(ps, l', b'). length ps = k \<and> buf_inv c b')
        (let fs = int (unat v) - 1 in if fs < 0 then Inr (replicate k l, l, b1)
         else if nat fs = fsmax then fast_pixels (fast_raw c bbits) k l b1 else fast_pixels (fast_rice c (nat fs)) k l b1)"
      unfolding Let_def using b1 fast_pixel_total assms(2) fast_pixels_total by auto
  qed
qed

lemma fast_blocks_total:
  assumes "bbits \<le> 32" "fsbits \<le> 5" "0 < nblock" "buf_inv c b"
  shows "no_panic (\<lambda>ps. length ps = left) (fast_blocks c bbits fsbits fsmax nblock left l b)"
  using assms(4)
proof (induction left arbitrary: l b rule: less_induct)
  case (less left)
  show ?case
  proof (cases "left = 0")
    case False
    let ?k = "min nblock left"
    have "left - ?k < left" using False assms(3) by simp
    note IH = less.IH[OF this]
    have c: "\<not> (left = 0 \<or> nblock = 0)" using False assms(3) by simp
    show ?thesis
      unfolding fast_blocks.simps[of _ _ _ _ _ left] if_not_P[OF c] Let_def
    proof (rule no_panic_bind[OF fast_block_total[OF less.prems assms(1,2)]], clarify)
      fix ps :: "i32 list" and l1 b1
      assume "length ps = ?k" "buf_inv c b1"
      then show "no_panic (\<lambda>ps. length ps = left)
          (res_bind (fast_blocks c bbits fsbits fsmax nblock (left - ?k) l1 b1) (\<lambda>qs. Inr (ps @ qs)))"
        by (intro no_panic_bind[OF IH]) auto
    qed
  qed (simp add: fast_blocks.simps)
qed

lemma decode_int_total:
  assumes "bbits \<in> {8, 16, 32}" "fsbits \<le> 5" "0 < nblock"
  shows "no_panic (\<lambda>ps. length ps = n) (decode_rice_int_u32buf c n bbits fsbits fsmax nblock)"
proof (cases "length c < bbits div 8 + 1")
  case False
  let ?b0 = "\<lparr>bb_buf = 0, bb_nbits = 0, bb_pos = bbits div 8\<rparr>"
  have "buf_inv c (refill c ?b0)"
    using buf_invI(1)[of "[]" ?b0 c] left_rep_0 False by (intro refill_inv(1)) simp
  then show ?thesis
    using False assms unfolding decode_rice_int_u32buf_def Let_def
    by (simp only: if_False) (rule fast_blocks_total, auto)
qed (simp add: decode_rice_int_u32buf_def)

lemma read_bits_total:
  assumes "reader_inv r" "n \<le> 64"
  shows "no_panic (\<lambda>(v, r'). unat v < 2 ^ n \<and> reader_inv r') (read_bits r n)"
proof (cases "n \<le> length (reader_bits r)")
  case True
  then obtain r' where r': "read_bits r n = Inr (of_nat (bits_val (take n (reader_bits r))), r')" "reader_inv r'"
    using read_bits_ok(1)[OF assms] by blast
  have "unat (of_nat (bits_val (take n (reader_bits r))) :: u64) \<le> bits_val (take n (reader_bits r))"
    by (simp add: unat_of_nat)
  also have "\<dots> < 2 ^ n" using bits_val_less[of "take n (reader_bits r)"] True by simp
  finally show ?thesis using r' by simp
next
  case False
  then show ?thesis using read_bits_ok(2)[OF assms] by simp
qed

lemma slow_pixels_total:
  assumes "\<And>l r. reader_inv r \<Longrightarrow> no_panic (\<lambda>(p, r'). reader_inv r') (px l r)" "reader_inv r"
  shows "no_panic (\<lambda>(ps, l', r'). length ps = k \<and> reader_inv r') (slow_pixels px k l r)"
  using assms(2)
proof (induction k arbitrary: l r)
  case (Suc k)
  show ?case unfolding slow_pixels.simps
  proof (rule no_panic_bind[OF assms(1)[OF Suc.prems]], clarify)
    fix p r1 assume "reader_inv r1"
    then show "no_panic (\<lambda>(ps, l', r'). length ps = Suc k \<and> reader_inv r')
        (res_bind (slow_pixels px k p r1) (\<lambda>(ps, l, r2). Inr (p # ps, l, r2)))"
      by (intro no_panic_bind[OF Suc.IH]) auto
  qed
qed simp

lemma slow_block_total:
  assumes "reader_inv r" "bbits \<le> 64" "fsbits \<le> 6"
  shows "no_panic (\<lambda>(ps, l', r'). length ps = k \<and> reader_inv r') (slow_block bbits fsbits fsmax k l r)"
proof -
  have "no_panic (\<lambda>(v, r'). unat v < 2 ^ fsbits \<and> reader_inv r') (read_bits r fsbits)"
    using read_bits_total[OF assms(1)] assms(3) by simp
  then show ?thesis
    unfolding slow_block_def
  proof (rule no_panic_bind, clarify)
    fix v :: u64 and r1
    assume v: "unat v < 2 ^ fsbits" and r1: "reader_inv r1"
    let ?fs = "int (unat v) - 1"
    have "(2 :: nat) ^ fsbits \<le> 2 ^ 6" using assms(3) by (intro power_increasing) simp_all
    then have "unat v < 64" using v by simp
    then have fs: "nat ?fs \<le> 64" by linarith
    have raw: "no_panic (\<lambda>(p, r'). reader_inv r') (res_bind (read_bits r bbits) (\<lambda>(raw, r'). Inr (l + unzigzag raw, r')))"
      if "reader_inv r" for l r
      by (rule no_panic_bind[OF read_bits_total[OF that assms(2)]]) auto
    have rice: "no_panic (\<lambda>(p, r'). reader_inv r') (res_bind (read_unary r) (\<lambda>(top, r').
             res_bind (if nat ?fs > 0 then read_bits r' (nat ?fs) else Inr (0, r')) (\<lambda>(bottom, r'').
             Inr (l + unzigzag (push_bit (nat ?fs) (of_nat top) OR bottom), r''))))"
      if "reader_inv r" for l r
    proof (rule no_panic_bind[OF slow.un_total[OF that]], clarify)
      fix z r' assume r': "reader_inv r'"
      have "no_panic (\<lambda>(v, r'). reader_inv r') (if nat ?fs > 0 then read_bits r' (nat ?fs) else Inr (0, r'))"
        using read_bits_total[OF r' fs] r' by (auto elim!: no_panic_mono)
      then show "no_panic (\<lambda>(p, r'). reader_inv r') (res_bind (if nat ?fs > 0 then read_bits r' (nat ?fs) else Inr (0, r'))
          (\<lambda>(bottom, r''). Inr (l + unzigzag (push_bit (nat ?fs) (of_nat z) OR bottom), r'')))"
        by (rule no_panic_bind) auto
    qed
    show "no_panic (\<lambda>(ps, l', r'). length ps = k \<and> reader_inv r')
        (let fs = int (unat v) - 1
         in if fs < 0 then Inr (replicate k l, l, r1)
            else if nat fs \<ge> fsmax then
              slow_pixels (\<lambda>l r. res_bind (read_bits r bbits) (\<lambda>(raw, r'). Inr (l + unzigzag raw, r'))) k l r1
            else
              slow_pixels (\<lambda>l r. res_bind (read_unary r) (\<lambda>(top, r').
                 res_bind (if nat fs > 0 then read_bits r' (nat fs) else Inr (0, r')) (\<lambda>(bottom, r'').
                 Inr (l + unzigzag (push_bit (nat fs) (of_nat top) OR bottom), r'')))) k l r1)"
      unfolding Let_def if_splits(1)[of "no_panic _"]
      using slow_pixels_total[OF raw r1] slow_pixels_total[OF rice r1] r1 by simp
  qed
qed

lemma slow_blocks_total:
  assumes "bbits \<le> 64" "fsbits \<le> 6" "0 < blocksize" "reader_inv r"
  shows "no_panic (\<lambda>ps. length ps = left) (slow_blocks bbits fsbits fsmax blocksize left l r)"
  using assms(4)
proof (induction left arbitrary: l r rule: less_induct)
  case (less left)
  show ?case
  proof (cases "left = 0")
    case False
    let ?k = "min blocksize left"
    have "left - ?k < left" using False assms(3) by simp
    note IH = less.IH[OF this]
    have c: "\<not> (left = 0 \<or> blocksize = 0)" using False assms(3) by simp
    show ?thesis
      unfolding slow_blocks.simps[of _ _ _ _ left] if_not_P[OF c] Let_def
    proof (rule no_panic_bind[OF slow_block_total[OF less.prems assms(1,2)]], clarify)
      fix ps :: "i64 list" and l1 r1
      assume "length ps = ?k" "reader_inv r1"
      then show "no_panic (\<lambda>ps. length ps = left)
          (res_bind (slow_blocks bbits fsbits fsmax blocksize (left - ?k) l1 r1) (\<lambda>qs. Inr (ps @ qs)))"
        by (intro no_panic_bind[OF IH]) auto
    qed
  qed (simp add: slow_blocks.simps)
qed

lemma length_concat_same: "(\<And>x. x \<in> set xs \<Longrightarrow> length (f x) = k) \<Longrightarrow> length (concat (map f xs)) = length xs * k"
  by (induction xs) simp_all

lemma decode_slow_total:
  assumes "bbits \<le> 64" "fsbits \<le> 6" "0 < blocksize" "zbitpix \<in> {8, 16, 32, 64}"
  shows "no_panic (\<lambda>out. length out = n * nat (zbitpix div 8))
    (decode_rice_slow_i64 big c n bbits fsbits fsmax blocksize zbitpix)"
proof -
  have r0: "reader_inv (reader_new c)" by (auto simp: reader_inv_def reader_new_def)
  have out: "length (cast_i64_to_target_bytes big vs zbitpix) = length vs * nat (zbitpix div 8)" for vs
    using assms(4) by (auto simp: cast_i64_to_target_bytes_def length_concat_same[where k = 2]
        length_concat_same[where k = 4] length_concat_same[where k = 8])
  show ?thesis
    unfolding decode_rice_slow_i64_def
  proof (rule no_panic_bind[OF read_bits_total[OF r0 assms(1)]], clarify)
    fix v r assume "reader_inv r"
    then show "no_panic (\<lambda>out. length out = n * nat (zbitpix div 8))
        (res_bind (slow_blocks bbits fsbits fsmax blocksize n (sign_extend v bbits) r)
          (\<lambda>out. if length out \<noteq> n then Inl (WrongLength n (length out)) else Inr (cast_i64_to_target_bytes big out zbitpix)))"
      by (intro no_panic_bind[OF slow_blocks_total[OF assms(1-3)]]) (auto simp: out)
  qed
qed

lemma decode_rice_total:
  assumes z: "zbitpix \<in> {8, 16, 32, 64}"
  shows "no_panic (\<lambda>out. length out = n * nat (zbitpix div 8)) (decode_rice big c n bytepix blocksize zbitpix)"
proof (cases "n = 0 \<or> blocksize = 0 \<or> bytepix \<notin> {1, 2, 4, 8}")
  case True
  then show ?thesis by (auto simp: decode_rice_def rice_params_def)
next
  case False
  then have nb: "n \<noteq> 0" "blocksize \<noteq> 0" "0 < blocksize" and bp: "bytepix \<in> {1, 2, 4, 8}" by auto
  have out: "length (concat (map (write_pixel big zbitpix) ps)) = length ps * nat (zbitpix div 8)" for ps
    by (rule length_concat_same) (use z in \<open>auto simp: write_pixel_def\<close>)
  show ?thesis
  proof (cases "bytepix = 8")
    case True
    then show ?thesis
      using nb decode_slow_total[OF _ _ nb(3) z, of 64 6 n big c 53] by (simp add: decode_rice_def rice_params_def)
  next
    case False
    then obtain bbits fsbits fsmax where p: "rice_params bytepix = Inr (bbits, fsbits, fsmax)" "bbits \<in> {8, 16, 32}" "fsbits \<le> 5"
      using bp by (auto simp: rice_params_def)
    have "no_panic (\<lambda>out. length out = n * nat (zbitpix div 8))
        (res_bind (decode_rice_int_u32buf c n bbits fsbits fsmax blocksize) (\<lambda>ps. Inr (concat (map (write_pixel big zbitpix) ps))))"
      by (rule no_panic_bind[OF decode_int_total[OF p(2,3) nb(3)]]) (simp add: out)
    then show ?thesis using nb p(1) z False unfolding decode_rice_def by simp
  qed
qed

subsection \<open>RICE_1 as a tile codec\<close>

text \<open>
  The tiles on which RICE_1 is lossless. The bound on the block size is what keeps every unary
  count within the decoder's limit of 1024.
\<close>

definition rice_tile_ok :: "nat \<Rightarrow> nat \<Rightarrow> nat \<Rightarrow> bytes \<Rightarrow> bool" where
  "rice_tile_ok n bytepix blocksize pix \<longleftrightarrow>
     bytepix \<in> {1, 2, 4} \<and> length pix = n * bytepix \<and> n * bytepix < 2 ^ 64 \<and> 0 < blocksize \<and> blocksize \<le> 409"

interpretation rice: tile_codec "\<lambda>pix. encode_rice pix n bytepix blocksize"
    "\<lambda>c. decode_rice big c n bytepix blocksize (int (8 * bytepix))" "to_native big bytepix" "rice_tile_ok n bytepix blocksize"
    for n bytepix blocksize big
proof unfold_locales
  fix pix assume "rice_tile_ok n bytepix blocksize pix"
  then show "res_bind (encode_rice pix n bytepix blocksize) (\<lambda>c. decode_rice big c n bytepix blocksize (int (8 * bytepix)))
      = Inr (to_native big bytepix pix)"
    unfolding rice_tile_ok_def by (intro rice_lossless) auto
next
  fix pix pix' assume "rice_tile_ok n bytepix blocksize pix"
    and e: "to_native big bytepix pix = to_native big bytepix pix'"
  then have "bytepix \<in> {1, 2, 4, 8}" by (auto simp: rice_tile_ok_def)
  then show "pix = pix'" using e by (rule to_native_inject)
qed

subsection \<open>A block too large for the decoder\<close>

text \<open>A tile with a single jump of 560, in one block of 450 pixels.\<close>

definition jump_tile :: "bytes" where
  "jump_tile = 0 # 0 # concat (replicate 449 [2, 48])"

lemma jump_pixels: "map (read_pixel jump_tile 2) [0..<450] = 0 # replicate 449 560"
proof (rule nth_equalityI)
  fix i assume "i < length (map (read_pixel jump_tile 2) [0..<450])"
  then have i: "i < 450" by simp
  have nth: "concat (replicate n [a, b]) ! (2 * j) = a \<and> concat (replicate n [a, b]) ! (Suc (2 * j)) = b"
    if "j < n" for n j and a b :: u8
    using that
  proof (induction n arbitrary: j)
    case (Suc n)
    then show ?case by (cases j) auto
  qed simp
  show "map (read_pixel jump_tile 2) [0..<450] ! i = (0 # replicate 449 560) ! i"
  proof (cases i)
    case 0
    then show ?thesis by (simp add: read_pixel_def jump_tile_def from_be_def be_nat_def)
  next
    case (Suc j)
    then have "read_pixel jump_tile 2 i = scast (from_be [2, 48] :: i16)"
      using nth[of j 449 2 48] i by (simp add: read_pixel_def jump_tile_def)
    also have "\<dots> = 560" by (simp add: from_be_def be_nat_def)
    finally show ?thesis using i Suc by simp
  qed
qed simp

lemma rice_diffs_flat: "rice_diffs 2 p (replicate n p) = replicate n 0"
  by (induction n) (simp_all add: rice_pdiff_def zigzag_def)

lemma jump_diffs: "rice_diffs 2 0 (0 # replicate 449 560) = 0 # 1120 # replicate 448 0"
proof -
  have "replicate 449 (560 :: i32) = 560 # replicate 448 560"
    by (subst replicate_Suc[symmetric]) simp
  then show ?thesis by (simp add: rice_diffs_flat) (simp add: rice_pdiff_def zigzag_def)
qed

lemma jump_parameter: "bit_length (rice_psum 2 1120 450) = 0"
  by (simp add: rice_psum_def bit_length.simps)

lemma jump_rejected:
  "res_bind (encode_rice jump_tile 450 2 450) (\<lambda>c. decode_rice big c 450 2 450 16) = Inl UnaryTooLong"
proof -
  have par: "rice_params 2 = Inr (16, 4, 14)" by (simp add: rice_params_def)
  define ds where "ds = 0 # 1120 # replicate 448 (0 :: u32)"
  define w where "w = foldl (write_rice 0) (write_bits (write_bits writer_new 0 16) 1 4) ds"
  have "length jump_tile = 900" by (simp add: jump_tile_def length_concat sum_list_replicate)
  moreover have sm: "sum_list (map unat ds) = 1120" by (simp add: ds_def)
  have "encode_block 2 16 4 14 0 (0 # replicate 449 560) w0 = foldl (write_rice 0) (write_bits w0 1 4) ds" for w0
    unfolding encode_block_def Let_def jump_diffs ds_def[symmetric] sm by (simp add: jump_parameter)
  moreover have "encode_blocks 2 16 4 14 450 0 (0 # replicate 449 560) w0 = encode_block 2 16 4 14 0 (0 # replicate 449 560) w0" for w0
    by (simp add: encode_blocks.simps)
  ultimately have enc: "encode_rice jump_tile 450 2 450 = Inr (writer_finish w)"
    unfolding encode_rice_def par by (simp add: checked_mul_def Let_def jump_pixels w_def)
  have "writer_rep (write_bits (write_bits writer_new 0 16) 1 4) ((msb_bits 16 (0 :: u64)) @ msb_bits 4 (1 :: u64))"
    using write_bits_rep[OF write_bits_rep[OF writer_rep_new, of 16 0], of 4 1] by simp
  then have "writer_rep w ((msb_bits 16 (0 :: u64) @ msb_bits 4 (1 :: u64)) @ concat (map (rice_code 0) ds))"
    unfolding w_def by (rule foldl_writer[rotated]) (rule write_rice_rep, simp_all)
  then obtain k where "byte_bits (writer_finish w)
      = (msb_bits 16 (0 :: u64) @ msb_bits 4 (1 :: u64)) @ concat (map (rice_code 0) ds) @ replicate k False"
    by (rule writer_finish_rep) auto
  moreover have "msb_bits 16 (0 :: u64) = msb_bits 16 (0 :: u32)" by (rule msb_bits_cong) simp
  ultimately have c: "byte_bits (writer_finish w) = msb_bits 16 (0 :: u32) @ msb_bits 4 (of_nat 1 :: u64)
      @ concat (map (rice_code 0) ds) @ replicate k False" by simp
  let ?tail = "replicate 1120 False @ True # concat (map (rice_code 0) (replicate 448 0)) @ replicate k False"
  have body: "concat (map (rice_code 0) ds) @ replicate k False = rice_code 0 0 @ ?tail"
    by (simp add: ds_def rice_code_def)
  have "decode_rice_int_u32buf (writer_finish w) 450 16 4 14 450 = Inl UnaryTooLong"
  proof (rule decode_int_start[OF par _ c])
    fix l b assume b: "buf_inv (writer_finish w) b"
      "buf_source (writer_finish w) b = msb_bits 4 (of_nat 1 :: u64) @ concat (map (rice_code 0) ds) @ replicate k False"
    obtain v b1 where b1: "take_bits (writer_finish w) 4 b = Inr (v, b1)" "unat v = 1" "buf_inv (writer_finish w) b1"
        "buf_source (writer_finish w) b1 = rice_code 0 0 @ ?tail"
      by (rule read_fs[OF _ _ b]) (simp_all only: body, simp_all)
    obtain b2 where b2: "fast_rice (writer_finish w) 0 l b1 = Inr (l + unzigzag32 0, b2)" "buf_inv (writer_finish w) b2"
        "buf_source (writer_finish w) b2 = ?tail"
      by (rule fast_rice_ok[OF b1(3,4), where l = l]) simp_all
    have "take_unary (writer_finish w) b2 = Inl UnaryTooLong"
      unfolding take_unary_def by (rule unary_buf_long[OF b2(2,3)]) simp_all
    then have u: "fast_rice (writer_finish w) 0 (l + unzigzag32 0) b2 = Inl UnaryTooLong"
      by (simp add: fast_rice_def)
    have "fast_pixels (fast_rice (writer_finish w) 0) (Suc (Suc 448)) l b1 = Inl UnaryTooLong"
      unfolding fast_pixels.simps b2(1) res_bind.simps prod.case u ..
    then have "fast_block (writer_finish w) 16 4 14 450 l b = Inl UnaryTooLong"
      using fast_block_eq[OF b1(1,2), of 16 14 450 l] by simp
    then show "fast_blocks (writer_finish w) 16 4 14 450 450 l b = Inl UnaryTooLong"
      by (subst fast_blocks.simps) simp
  qed simp_all
  then show ?thesis unfolding enc decode_rice_def by (simp add: par)
qed

subsection \<open>Properties\<close>

text \<open>
  C17: RICE_1 is lossless for pixels of 1, 2 and 4 bytes and block sizes up to 409: decoding the
  encoded tile with the fast decoder gives every pixel back, in host byte order.
\<close>

theorem rice_roundtrip:
  assumes "bytepix \<in> {1, 2, 4}" "length pix = n * bytepix" "n * bytepix < 2 ^ 64" "0 < blocksize" "blocksize \<le> 409"
  shows "res_bind (encode_rice pix n bytepix blocksize)
      (\<lambda>c. decode_rice big c n bytepix blocksize (int (8 * bytepix))) = Inr (to_native big bytepix pix)"
  using rice.lossless[of n bytepix blocksize pix big] assms by (simp add: rice_tile_ok_def)

theorem rice_roundtrip_witness:
  "res_bind (encode_rice [0, 1, 255, 254, 128, 0] 3 2 32) (\<lambda>c. decode_rice False c 3 2 32 16) = Inr [1, 0, 254, 255, 0, 128]"
  using rice_roundtrip[of 2 "[0, 1, 255, 254, 128, 0]" 3 32 False] by (simp add: to_native_eq rev_chunks.simps)



text \<open>
  C26: with a block size above 409 the encoder can write a tile its own decoder refuses: a block of
  450 pixels with one jump of 560 gets parameter 0 and a unary run of 1120 zeros, which is more
  than the decoder's limit of 1024.
\<close>

theorem rice_large_block_unreadable:
  "is_ok (encode_rice jump_tile 450 2 450) \<and>
   res_bind (encode_rice jump_tile 450 2 450) (\<lambda>c. decode_rice big c 450 2 450 16) = Inl UnaryTooLong"
  using jump_rejected[of big] by (cases "encode_rice jump_tile 450 2 450")
    (auto simp: encode_rice_def checked_mul_def rice_params_def Let_def split: if_splits)

end
