(* ===== verification/Grid.thy ===== *)
theory Grid
  imports Pixels
begin

text \<open>
  Loops over two-dimensional arrays that are kept in one row-major list and changed in place, as
  \<open>src/zimage/hcompress.rs\<close> writes them: sequences of indexed writes, passes of steps that
  touch disjoint sets of cells, the traversal by 2 by 2 blocks, and the sizes of the nested
  regions, each half of the one before.
\<close>

subsection \<open>Writes in order\<close>

text \<open>
  A loop that writes one element per step, from elements no earlier step has written: each
  element gets the value computed from the array before the loop.
\<close>

definition write_steps :: "('k \<Rightarrow> nat) \<Rightarrow> ('k \<Rightarrow> 'a list \<Rightarrow> 'a) \<Rightarrow> 'a list \<Rightarrow> 'k list \<Rightarrow> 'a list" where
  "write_steps g F a ks = foldl (\<lambda>a k. a[g k := F k a]) a ks"

lemma write_steps_simps [simp]:
  "write_steps g F a [] = a" "write_steps g F a (k # ks) = write_steps g F (a[g k := F k a]) ks"
  by (simp_all add: write_steps_def)

lemma length_write_steps [simp]: "length (write_steps g F a ks) = length a"
  by (induction ks arbitrary: a) simp_all

lemma write_steps_out: "\<forall>k \<in> set ks. g k \<noteq> i \<Longrightarrow> write_steps g F a ks ! i = a ! i"
  by (induction ks arbitrary: a) simp_all

lemma write_steps_in:
  assumes "\<And>k b b'. length b = length b' \<Longrightarrow> \<forall>i \<in> R k. b ! i = b' ! i \<Longrightarrow> F k b = F k b'"
  shows "sorted_wrt (\<lambda>k k'. g k \<noteq> g k' \<and> g k \<notin> R k') ks \<Longrightarrow> \<forall>k \<in> set ks. g k < length a \<Longrightarrow>
    k \<in> set ks \<Longrightarrow> write_steps g F a ks ! g k = F k a"
proof (induction ks arbitrary: a)
  case (Cons c ks)
  let ?a = "a[g c := F c a]"
  show ?case
  proof (cases "k \<in> set ks")
    case True
    then have "write_steps g F ?a ks ! g k = F k ?a" using Cons by simp
    also have "F k ?a = F k a"
      using Cons.prems(1) True by (intro assms) (auto intro!: nth_list_update_neq)
    finally show ?thesis by simp
  next
    case False
    then have "k = c" "\<forall>k' \<in> set ks. g k' \<noteq> g c" using Cons.prems by (simp, fastforce)
    then show ?thesis using Cons.prems(2) by (simp add: write_steps_out)
  qed
qed simp

lemma sorted_wrt_upt: "(\<And>i j. i < j \<Longrightarrow> j < n \<Longrightarrow> m \<le> i \<Longrightarrow> P i j) \<Longrightarrow> sorted_wrt P [m..<n]"
  by (auto simp: sorted_wrt_iff_nth_less)

lemma sorted_wrt_rev_upt: "(\<And>i j. i < j \<Longrightarrow> j < n \<Longrightarrow> m \<le> i \<Longrightarrow> P j i) \<Longrightarrow> sorted_wrt P (rev [m..<n])"
  by (simp add: sorted_wrt_rev sorted_wrt_upt)

subsection \<open>Passes of local steps\<close>

text \<open>
  A pass runs a step for each of a list of places. Every step reads and writes the cells of its
  place only, and the cells of different places are disjoint: so each cell ends up as its own
  step would have left it.
\<close>

locale local_pass =
  fixes step :: "'a list \<Rightarrow> 'b \<Rightarrow> 'a list"
    and cells :: "'b \<Rightarrow> nat set"
    and valid :: "'b \<Rightarrow> bool"
    and N :: nat
  assumes step_length: "valid b \<Longrightarrow> length a = N \<Longrightarrow> length (step a b) = N"
    and frame: "valid b \<Longrightarrow> length a = N \<Longrightarrow> i \<notin> cells b \<Longrightarrow> step a b ! i = a ! i"
    and local_step: "valid b \<Longrightarrow> length a = N \<Longrightarrow> length a' = N \<Longrightarrow> (\<And>i. i \<in> cells b \<Longrightarrow> a ! i = a' ! i) \<Longrightarrow>
      i \<in> cells b \<Longrightarrow> step a b ! i = step a' b ! i"
    and disjoint: "valid b \<Longrightarrow> valid b' \<Longrightarrow> i \<in> cells b \<Longrightarrow> i \<in> cells b' \<Longrightarrow> b = b'"
begin

lemma pass_length: "\<forall>b \<in> set bs. valid b \<Longrightarrow> length a = N \<Longrightarrow> length (foldl step a bs) = N"
  by (induction bs arbitrary: a) (simp_all add: step_length)

lemma pass_out: "\<forall>b \<in> set bs. valid b \<and> i \<notin> cells b \<Longrightarrow> length a = N \<Longrightarrow> foldl step a bs ! i = a ! i"
  by (induction bs arbitrary: a) (simp_all add: step_length frame)

lemma pass_in:
  "\<forall>b \<in> set bs. valid b \<Longrightarrow> distinct bs \<Longrightarrow> b \<in> set bs \<Longrightarrow> i \<in> cells b \<Longrightarrow> length a = N \<Longrightarrow> foldl step a bs ! i = step a b ! i"
proof (induction bs arbitrary: a)
  case (Cons c bs)
  show ?case
  proof (cases "b = c")
    case True
    then have "\<forall>b' \<in> set bs. valid b' \<and> i \<notin> cells b'" using Cons.prems disjoint by auto
    then show ?thesis using True Cons.prems(1,5) pass_out[of bs i "step a c"] by (simp add: step_length)
  next
    case False
    then have "i \<notin> cells c" "b \<in> set bs" using Cons.prems disjoint[of b c i] by auto
    then have "foldl step (step a c) bs ! i = step (step a c) b ! i"
      using Cons by (simp add: step_length)
    also have "\<dots> = step a b ! i"
    proof (rule local_step)
      fix j assume "j \<in> cells b"
      then have "j \<notin> cells c" using Cons.prems False disjoint[of b c j] by auto
      then show "step a c ! j = a ! j" using Cons.prems by (simp add: frame)
    qed (use Cons.prems in \<open>auto simp: step_length\<close>)
    finally show ?thesis by simp
  qed
qed simp

end

subsection \<open>Cells\<close>

definition cell :: "'a list \<Rightarrow> nat \<Rightarrow> nat \<Rightarrow> nat \<Rightarrow> nat \<Rightarrow> 'a" where
  "cell a base n i j = a ! (base + n * i + j)"

lemma cell_inject:
  fixes n :: nat
  assumes "j < n" "j' < n"
  shows "base + n * i + j = base + n * i' + j' \<longleftrightarrow> i = i' \<and> j = j'"
proof
  assume "base + n * i + j = base + n * i' + j'"
  then have e: "n * i + j = n * i' + j'" by simp
  have "(n * i + j) div n = i" "(n * i' + j') div n = i'" using assms by simp_all
  then show "i = i' \<and> j = j'" using e by simp
qed simp

lemma cell_eqI:
  assumes "length a = nx * ny" "length b = nx * ny" "\<And>i j. i < nx \<Longrightarrow> j < ny \<Longrightarrow> cell a 0 ny i j = cell b 0 ny i j"
  shows "a = b"
proof (rule nth_equalityI)
  fix k assume k: "k < length a"
  then have "0 < ny" using assms(1) by (cases ny) auto
  then have "k div ny < nx" "k mod ny < ny" using k assms(1) by (simp_all add: less_mult_imp_div_less)
  from assms(3)[OF this] show "a ! k = b ! k" by (simp add: cell_def)
qed (use assms in simp)

lemma cell_bound: "i < nx \<Longrightarrow> j < ny \<Longrightarrow> ny \<le> n \<Longrightarrow> base + n * (nx - 1) + ny \<le> N \<Longrightarrow> base + n * i + j < N" for n :: nat
proof -
  assume a: "i < nx" "j < ny" "ny \<le> n" "base + n * (nx - 1) + ny \<le> N"
  then have "n * i \<le> n * (nx - 1)" by (intro mult_le_mono2) simp
  then show ?thesis using a by linarith
qed

subsection \<open>Two by two blocks\<close>

text \<open>
  What happens to one block of a region of \<open>nx\<close> rows and \<open>ny\<close> columns: a whole one (the two
  elements of its first row, then those of its second), one whose second column is off the region (first column only), one whose
  second row is, and the corner.
\<close>

record 'a block_ops =
  bo_full :: "'a \<times> 'a \<times> 'a \<times> 'a \<Rightarrow> 'a \<times> 'a \<times> 'a \<times> 'a"
  bo_right :: "'a \<times> 'a \<Rightarrow> 'a \<times> 'a"
  bo_bottom :: "'a \<times> 'a \<Rightarrow> 'a \<times> 'a"
  bo_corner :: "'a \<Rightarrow> 'a"

text \<open>
  \<open>while i + 1 < nx { .. while j + 1 < ny { .. } if j < ny { .. } } if i < nx { .. }\<close> visits the blocks
  row by row; the branch it takes for a block is the one of the two tests.
\<close>

definition blocks :: "nat \<Rightarrow> nat \<Rightarrow> (nat \<times> nat) list" where
  "blocks nx ny = List.product [0..<(nx + 1) div 2] [0..<(ny + 1) div 2]"

definition block_step ::
  "(nat \<times> nat \<Rightarrow> 'a block_ops) \<Rightarrow> nat \<Rightarrow> nat \<Rightarrow> nat \<Rightarrow> nat \<Rightarrow> 'a list \<Rightarrow> nat \<times> nat \<Rightarrow> 'a list" where
  "block_step ops base n nx ny a b =
     (let (p, q) = b; s00 = base + n * (2 * p) + 2 * q; s10 = s00 + n
      in if 2 * p + 1 < nx then
           (if 2 * q + 1 < ny then
              (let (v00, v01, v10, v11) = bo_full (ops b) (a ! s00, a ! (s00 + 1), a ! s10, a ! (s10 + 1))
               in a[s10 + 1 := v11, s10 := v10, s00 + 1 := v01, s00 := v00])
            else (let (v00, v10) = bo_right (ops b) (a ! s00, a ! s10) in a[s10 := v10, s00 := v00]))
         else if 2 * q + 1 < ny then (let (v00, v01) = bo_bottom (ops b) (a ! s00, a ! (s00 + 1)) in a[s00 + 1 := v01, s00 := v00])
         else a[s00 := bo_corner (ops b) (a ! s00)])"

definition block_cells :: "nat \<Rightarrow> nat \<Rightarrow> nat \<Rightarrow> nat \<Rightarrow> nat \<times> nat \<Rightarrow> nat set" where
  "block_cells base n nx ny b = {base + n * i + j | i j. i < nx \<and> j < ny \<and> i div 2 = fst b \<and> j div 2 = snd b}"

definition in_array :: "nat \<Rightarrow> nat \<Rightarrow> nat \<Rightarrow> nat \<Rightarrow> nat \<Rightarrow> bool" where
  "in_array base n nx ny N \<longleftrightarrow> ny \<le> n \<and> base + n * (nx - 1) + ny \<le> N"

text \<open>The new element at row \<open>i\<close> and column \<open>j\<close>.\<close>

definition block_at :: "'a block_ops \<Rightarrow> nat \<Rightarrow> nat \<Rightarrow> (nat \<Rightarrow> nat \<Rightarrow> 'a) \<Rightarrow> nat \<Rightarrow> nat \<Rightarrow> 'a" where
  "block_at ops nx ny f i j =
     (let p = 2 * (i div 2); q = 2 * (j div 2)
      in if p + 1 < nx then
           (if q + 1 < ny then
              (let (v00, v01, v10, v11) = bo_full ops (f p q, f p (q + 1), f (p + 1) q, f (p + 1) (q + 1))
               in if even i then (if even j then v00 else v01) else (if even j then v10 else v11))
            else (let (v00, v10) = bo_right ops (f p q, f (p + 1) q) in if even i then v00 else v10))
         else if q + 1 < ny then (let (v00, v01) = bo_bottom ops (f p q, f p (q + 1)) in if even j then v00 else v01)
         else bo_corner ops (f p q))"

lemma length_block_step [simp]: "length (block_step ops base n nx ny a b) = length a"
  by (simp add: block_step_def Let_def split: prod.split)

lemma block_step_at:
  assumes b: "i < nx" "j < ny" and r: "in_array base n nx ny (length a)"
  shows "cell (block_step ops base n nx ny a (i div 2, j div 2)) base n i j =
    block_at (ops (i div 2, j div 2)) nx ny (cell a base n) i j"
proof -
  define p q where pq: "p = 2 * (i div 2)" "q = 2 * (j div 2)"
  define s where "s = base + n * p + q"
  have i: "i = p + (if even i then 0 else 1)" "j = q + (if even j then 0 else 1)"
    unfolding pq by simp_all
  have l: "base + n * i' + j' < length a" if "i' < nx" "j' < ny" for i' j'
    using that r by (auto simp: in_array_def intro: cell_bound)
  have n: "p < nx" "q < ny" "ny \<le> n" using b r by (auto simp: pq in_array_def)
  have c: "base + n * p + q = s" "base + n * p + (q + 1) = s + 1" "base + n * (p + 1) + q = s + n" "base + n * (p + 1) + (q + 1) = s + n + 1"
    by (simp_all add: s_def)
  have lt: "s < length a" "q + 1 < ny \<Longrightarrow> s + 1 < length a" "p + 1 < nx \<Longrightarrow> s + n < length a" "p + 1 < nx \<Longrightarrow> q + 1 < ny \<Longrightarrow> s + n + 1 < length a"
    using l[of p q] l[of p "q + 1"] l[of "p + 1" q] l[of "p + 1" "q + 1"] n c by simp_all
  have i': "odd i \<Longrightarrow> p + 1 < nx" "odd j \<Longrightarrow> q + 1 < ny" using i b by (auto split: if_splits)
  have ix: "base + n * i + j = s + (if even i then 0 else n) + (if even j then 0 else 1)"
    using arg_cong[OF i(1), of "\<lambda>x. n * x"] i(2) unfolding s_def by (simp add: distrib_left split: if_splits)
  have n2: "q + 1 < ny \<Longrightarrow> 1 < n" using n by simp
  show ?thesis
    unfolding block_step_def block_at_def cell_def Let_def ix prod.case pq[symmetric] c s_def[symmetric]
    using lt i' n n2 by (auto simp: nth_list_update split: prod.splits)
qed

definition block_ok :: "nat \<Rightarrow> nat \<Rightarrow> nat \<Rightarrow> nat \<Rightarrow> nat \<Rightarrow> nat \<times> nat \<Rightarrow> bool" where
  "block_ok base n nx ny N b \<longleftrightarrow> in_array base n nx ny N \<and> 2 * fst b < nx \<and> 2 * snd b < ny"

lemma block_cellsD:
  assumes "k \<in> block_cells base n nx ny (p, q)"
  obtains i j where "k = base + n * i + j" "i < nx" "j < ny" "i div 2 = p" "j div 2 = q"
  using assms by (auto simp: block_cells_def)

lemma block_step_reads:
  assumes ok: "block_ok base n nx ny (length a) b" and k: "k \<notin> block_cells base n nx ny b"
  shows "block_step ops base n nx ny a b ! k = a ! k"
proof -
  obtain p q where b: "b = (p, q)" by (cases b)
  have "base + n * i + j \<in> block_cells base n nx ny b" if "i < nx" "j < ny" "i div 2 = p" "j div 2 = q" for i j
    using that by (auto simp: block_cells_def b)
  from this[of "2 * p" "2 * q"] this[of "2 * p" "2 * q + 1"] this[of "2 * p + 1" "2 * q"] this[of "2 * p + 1" "2 * q + 1"] ok k
  have "base + n * (2 * p) + 2 * q \<noteq> k" "2 * q + 1 < ny \<Longrightarrow> base + n * (2 * p) + 2 * q + 1 \<noteq> k"
    "2 * p + 1 < nx \<Longrightarrow> base + n * (2 * p) + 2 * q + n \<noteq> k"
    "2 * p + 1 < nx \<Longrightarrow> 2 * q + 1 < ny \<Longrightarrow> base + n * (2 * p) + 2 * q + n + 1 \<noteq> k"
    by (auto simp: block_ok_def b algebra_simps)
  then show ?thesis by (auto simp: block_step_def b Let_def split: prod.split)
qed

interpretation blocks_pass: local_pass "block_step ops base n nx ny" "block_cells base n nx ny" "block_ok base n nx ny N" N
  for ops :: "nat \<times> nat \<Rightarrow> 'a block_ops" and base n nx ny N
proof unfold_locales
  fix b and a a' :: "'a list" and k
  assume ok: "block_ok base n nx ny N b" and l: "length a = N" "length a' = N"
    and eq: "\<And>i. i \<in> block_cells base n nx ny b \<Longrightarrow> a ! i = a' ! i" and k: "k \<in> block_cells base n nx ny b"
  obtain p q where b: "b = (p, q)" by (cases b)
  obtain i j where ij: "k = base + n * i + j" "i < nx" "j < ny" "i div 2 = p" "j div 2 = q"
    using k unfolding b by (rule block_cellsD)
  have e: "cell a base n i' j' = cell a' base n i' j'" if "i' < nx" "j' < ny" "i' div 2 = p" "j' div 2 = q" for i' j'
    unfolding cell_def by (rule eq) (use that in \<open>auto simp: block_cells_def b\<close>)
  have "block_at (ops b) nx ny (cell a base n) i j = block_at (ops b) nx ny (cell a' base n) i j"
    using ok unfolding block_at_def Let_def ij(4,5) by (auto simp: e block_ok_def b)
  then show "block_step ops base n nx ny a b ! k = block_step ops base n nx ny a' b ! k"
    using block_step_at[OF ij(2,3), of base n a ops] block_step_at[OF ij(2,3), of base n a' ops] ok l ij
    by (simp add: cell_def block_ok_def b)
next
  fix b b' :: "nat \<times> nat" and k
  assume ok: "block_ok base n nx ny N b" "block_ok base n nx ny N b'"
    and k: "k \<in> block_cells base n nx ny b" "k \<in> block_cells base n nx ny b'"
  then show "b = b'"
    by (cases b; cases b') (auto simp: block_ok_def in_array_def cell_inject elim!: block_cellsD)
qed (simp_all add: block_step_reads)

lemma in_blocks: "(p, q) \<in> set (blocks nx ny) \<longleftrightarrow> 2 * p < nx \<and> 2 * q < ny"
  by (auto simp: blocks_def)

lemma distinct_blocks: "distinct (blocks nx ny)"
  by (simp add: blocks_def distinct_product)

text \<open>A pass over a region of the array, element by element.\<close>

lemma blocks_at:
  assumes r: "in_array base n nx ny (length a)" and i: "i < nx" "j < ny"
  shows "cell (foldl (block_step ops base n nx ny) a (blocks nx ny)) base n i j =
    block_at (ops (i div 2, j div 2)) nx ny (cell a base n) i j"
proof -
  have "base + n * i + j \<in> block_cells base n nx ny (i div 2, j div 2)" using i by (auto simp: block_cells_def)
  moreover have "\<forall>b \<in> set (blocks nx ny). block_ok base n nx ny (length a) b"
    using r by (auto simp: in_blocks block_ok_def)
  moreover have "(i div 2, j div 2) \<in> set (blocks nx ny)" using i by (auto simp: in_blocks)
  ultimately show ?thesis
    using blocks_pass.pass_in[OF _ distinct_blocks, of nx ny base n nx ny "length a" _ _ a ops] block_step_at[OF i r, of ops]
    by (simp add: cell_def)
qed

lemma blocks_out:
  assumes r: "in_array base n nx ny (length a)" and k: "\<And>i j. i < nx \<Longrightarrow> j < ny \<Longrightarrow> k \<noteq> base + n * i + j"
  shows "foldl (block_step ops base n nx ny) a (blocks nx ny) ! k = a ! k"
  using r k by (intro blocks_pass.pass_out[where N = "length a"]) (fastforce simp: in_blocks block_ok_def block_cells_def)+

lemma length_blocks_pass [simp]: "length (foldl (block_step ops base n nx ny) a bs) = length a"
  by (induction bs arbitrary: a) simp_all

text \<open>Blocks that undo each other give passes that do.\<close>

definition ops_inverse :: "('a \<Rightarrow> bool) \<Rightarrow> 'a block_ops \<Rightarrow> 'a block_ops \<Rightarrow> bool" where
  "ops_inverse P f g \<longleftrightarrow> (\<forall>a b c d. P a \<and> P b \<and> P c \<and> P d \<longrightarrow> bo_full g (bo_full f (a, b, c, d)) = (a, b, c, d)) \<and>
     (\<forall>a b. P a \<and> P b \<longrightarrow> bo_right g (bo_right f (a, b)) = (a, b) \<and> bo_bottom g (bo_bottom f (a, b)) = (a, b)) \<and>
     (\<forall>a. P a \<longrightarrow> bo_corner g (bo_corner f a) = a)"

lemma block_at_corners:
  assumes "even p" "even q"
  shows "p + 1 < nx \<Longrightarrow> q + 1 < ny \<Longrightarrow> bo_full f (m p q, m p (q + 1), m (p + 1) q, m (p + 1) (q + 1)) = (v00, v01, v10, v11) \<Longrightarrow>
      block_at f nx ny m p q = v00 \<and> block_at f nx ny m p (q + 1) = v01 \<and> block_at f nx ny m (p + 1) q = v10 \<and> block_at f nx ny m (p + 1) (q + 1) = v11"
    and "p + 1 < nx \<Longrightarrow> \<not> q + 1 < ny \<Longrightarrow> bo_right f (m p q, m (p + 1) q) = (v00, v10) \<Longrightarrow>
      block_at f nx ny m p q = v00 \<and> block_at f nx ny m (p + 1) q = v10"
    and "\<not> p + 1 < nx \<Longrightarrow> q + 1 < ny \<Longrightarrow> bo_bottom f (m p q, m p (q + 1)) = (v00, v01) \<Longrightarrow>
      block_at f nx ny m p q = v00 \<and> block_at f nx ny m p (q + 1) = v01"
    and "\<not> p + 1 < nx \<Longrightarrow> \<not> q + 1 < ny \<Longrightarrow> block_at f nx ny m p q = bo_corner f (m p q)"
  using assms by (auto simp: block_at_def Let_def)

lemma block_at_inverse:
  assumes inv: "ops_inverse P f g" and P: "\<And>i j. i < nx \<Longrightarrow> j < ny \<Longrightarrow> P (m i j)" and i: "i < nx" "j < ny"
  shows "block_at g nx ny (block_at f nx ny m) i j = m i j"
proof -
  define p q where pq: "p = 2 * (i div 2)" "q = 2 * (j div 2)"
  have e: "even p" "even q" "p < nx" "q < ny" using i by (auto simp: pq)
  have ij: "i = p + (if even i then 0 else 1)" "j = q + (if even j then 0 else 1)" unfolding pq by simp_all
  note P' = P[of p q] P[of p "q + 1"] P[of "p + 1" q] P[of "p + 1" "q + 1"]
  note c = block_at_corners[OF e(1,2), of nx ny f m]
  consider "p + 1 < nx" "q + 1 < ny" | "p + 1 < nx" "\<not> q + 1 < ny" | "\<not> p + 1 < nx" "q + 1 < ny" | "\<not> p + 1 < nx" "\<not> q + 1 < ny" by blast
  then show ?thesis
  proof cases
    case 1
    obtain v00 v01 v10 v11 where v: "bo_full f (m p q, m p (q + 1), m (p + 1) q, m (p + 1) (q + 1)) = (v00, v01, v10, v11)"
      by (metis prod.exhaust)
    have "bo_full g (v00, v01, v10, v11) = (m p q, m p (q + 1), m (p + 1) q, m (p + 1) (q + 1))"
      using inv P' 1 e unfolding ops_inverse_def v[symmetric] by simp
    then show ?thesis using c(1)[OF 1 v] 1 ij unfolding block_at_def[of g] Let_def pq[symmetric] by (auto split: if_splits)
  next
    case 2
    obtain v00 v10 where v: "bo_right f (m p q, m (p + 1) q) = (v00, v10)" by (metis prod.exhaust)
    have "bo_right g (v00, v10) = (m p q, m (p + 1) q)" using inv P' 2 e unfolding ops_inverse_def v[symmetric] by simp
    then show ?thesis using c(2)[OF 2 v] 2 ij i unfolding block_at_def[of g] Let_def pq[symmetric] by (auto split: if_splits)
  next
    case 3
    obtain v00 v01 where v: "bo_bottom f (m p q, m p (q + 1)) = (v00, v01)" by (metis prod.exhaust)
    have "bo_bottom g (v00, v01) = (m p q, m p (q + 1))" using inv P' 3 e unfolding ops_inverse_def v[symmetric] by simp
    then show ?thesis using c(3)[OF 3 v] 3 ij i unfolding block_at_def[of g] Let_def pq[symmetric] by (auto split: if_splits)
  next
    case 4
    then show ?thesis using c(4) P' ij i e inv unfolding block_at_def[of g] Let_def pq[symmetric] by (auto simp: ops_inverse_def split: if_splits)
  qed
qed

subsection \<open>Rows and columns\<close>

text \<open>
  \<open>f a off\<close> rearranges the \<open>n\<close> elements of a line that starts at \<open>off\<close> and has stride \<open>d\<close>: place
  \<open>p\<close> gets the element from place \<open>\<sigma> p\<close>.
\<close>

definition line_op :: "('a list \<Rightarrow> nat \<Rightarrow> 'a list) \<Rightarrow> (nat \<Rightarrow> nat) \<Rightarrow> nat \<Rightarrow> nat \<Rightarrow> bool" where
  "line_op f \<sigma> n d \<longleftrightarrow> 0 < n \<and> (\<forall>p < n. \<sigma> p < n) \<and> (\<forall>a off. off + d * (n - 1) < length a \<longrightarrow> length (f a off) = length a \<and>
     (\<forall>p < n. f a off ! (off + d * p) = a ! (off + d * \<sigma> p)) \<and> (\<forall>i. (\<forall>p < n. i \<noteq> off + d * p) \<longrightarrow> f a off ! i = a ! i))"

lemma line_opD:
  assumes "line_op f \<sigma> n d" "off + d * (n - 1) < length a"
  shows "length (f a off) = length a" "p < n \<Longrightarrow> f a off ! (off + d * p) = a ! (off + d * \<sigma> p)"
    "(\<And>p. p < n \<Longrightarrow> i \<noteq> off + d * p) \<Longrightarrow> f a off ! i = a ! i"
  using assms by (auto simp: line_op_def)

definition row_ok :: "('a list \<Rightarrow> nat \<Rightarrow> 'a list) \<Rightarrow> (nat \<Rightarrow> nat) \<Rightarrow> nat \<Rightarrow> nat \<Rightarrow> nat \<Rightarrow> nat \<Rightarrow> bool" where
  "row_ok f \<sigma> n w N i \<longleftrightarrow> line_op f \<sigma> n 1 \<and> n \<le> w \<and> w * i + n \<le> N"

definition col_ok :: "('a list \<Rightarrow> nat \<Rightarrow> 'a list) \<Rightarrow> (nat \<Rightarrow> nat) \<Rightarrow> nat \<Rightarrow> nat \<Rightarrow> nat \<Rightarrow> nat \<Rightarrow> bool" where
  "col_ok f \<sigma> n w N j \<longleftrightarrow> line_op f \<sigma> n w \<and> j < w \<and> j + w * (n - 1) < N"

lemma row_okD:
  assumes "row_ok f \<sigma> n w (length a) i"
  shows "w * i + 1 * (n - 1) < length a" "line_op f \<sigma> n 1" "n \<le> w"
  using assms by (auto simp: row_ok_def line_op_def)

interpretation rows_pass: local_pass "\<lambda>a i. f a (w * i)" "\<lambda>i. {w * i + p | p. p < n}" "row_ok f \<sigma> n w N" N
  for f :: "'a list \<Rightarrow> nat \<Rightarrow> 'a list" and \<sigma> n w N
proof unfold_locales
  fix i and a :: "'a list" assume ok: "row_ok f \<sigma> n w N i" and l: "length a = N"
  then have ok': "line_op f \<sigma> n 1" "w * i + 1 * (n - 1) < length a" by (auto simp: row_ok_def line_op_def)
  note d = line_opD[OF ok']
  show "length (f a (w * i)) = N" using d(1) l by simp
  show "f a (w * i) ! k = a ! k" if "k \<notin> {w * i + p | p. p < n}" for k
    using d(3)[of k] that by auto
  fix a' :: "'a list" and k
  assume l': "length a' = N" and e: "\<And>j. j \<in> {w * i + p | p. p < n} \<Longrightarrow> a ! j = a' ! j" and k: "k \<in> {w * i + p | p. p < n}"
  have "w * i + 1 * (n - 1) < length a'" using ok' l l' by simp
  note d' = line_opD[OF ok'(1) this]
  obtain p where p: "k = w * i + p" "p < n" "\<sigma> p < n" using k ok by (auto simp: row_ok_def line_op_def)
  then show "f a (w * i) ! k = f a' (w * i) ! k"
    using d(2)[of p] d'(2)[of p] e[of "w * i + \<sigma> p"] by auto
next
  fix i i' k assume "row_ok f \<sigma> n w N i" "k \<in> {w * i + p | p. p < n}" "k \<in> {w * i' + p | p. p < n}"
  then show "i = i'" using cell_inject[of _ w _ 0 i i'] by (auto simp: row_ok_def)
qed

interpretation cols_pass: local_pass f "\<lambda>j. {j + w * p | p. p < n}" "col_ok f \<sigma> n w N" N
  for f :: "'a list \<Rightarrow> nat \<Rightarrow> 'a list" and \<sigma> n w N
proof unfold_locales
  fix j and a :: "'a list" assume ok: "col_ok f \<sigma> n w N j" and l: "length a = N"
  then have ok': "line_op f \<sigma> n w" "j + w * (n - 1) < length a" by (auto simp: col_ok_def)
  note d = line_opD[OF ok']
  show "length (f a j) = N" using d(1) l by simp
  show "f a j ! k = a ! k" if "k \<notin> {j + w * p | p. p < n}" for k
    using d(3)[of k] that by auto
  fix a' :: "'a list" and k
  assume l': "length a' = N" and e: "\<And>i. i \<in> {j + w * p | p. p < n} \<Longrightarrow> a ! i = a' ! i" and k: "k \<in> {j + w * p | p. p < n}"
  have "j + w * (n - 1) < length a'" using ok' l l' by simp
  note d' = line_opD[OF ok'(1) this]
  obtain p where p: "k = j + w * p" "p < n" "\<sigma> p < n" using k ok by (auto simp: col_ok_def line_op_def)
  then show "f a j ! k = f a' j ! k"
    using d(2)[of p] d'(2)[of p] e[of "j + w * \<sigma> p"] by auto
next
  fix j j' k assume "col_ok f \<sigma> n w N j" "col_ok f \<sigma> n w N j'" "k \<in> {j + w * p | p. p < n}" "k \<in> {j' + w * p | p. p < n}"
  then show "j = j'" using cell_inject[of j w j' 0] by (auto simp: col_ok_def add.commute)
qed

lemma rows_at:
  assumes f: "line_op f \<sigma> m 1" and r: "in_array 0 w k m (length a)" and i: "i < k"
  shows "j < m \<Longrightarrow> cell (foldl (\<lambda>a i. f a (w * i)) a [0..<k]) 0 w i j = cell a 0 w i (\<sigma> j)"
    and "length (foldl (\<lambda>a i. f a (w * i)) a [0..<k]) = length a"
    and "(\<And>i j. i < k \<Longrightarrow> j < m \<Longrightarrow> x \<noteq> w * i + j) \<Longrightarrow> foldl (\<lambda>a i. f a (w * i)) a [0..<k] ! x = a ! x"
proof -
  have ok: "row_ok f \<sigma> m w (length a) i'" if "i' < k" for i'
  proof -
    have "w * i' \<le> w * (k - 1)" using that by (intro mult_le_mono2) simp
    then show ?thesis using f r unfolding row_ok_def in_array_def by linarith
  qed
  then have v: "\<forall>b \<in> set [0..<k]. row_ok f \<sigma> m w (length a) b" by simp
  show "length (foldl (\<lambda>a i. f a (w * i)) a [0..<k]) = length a" by (rule rows_pass.pass_length[OF v refl])
  show "cell (foldl (\<lambda>a i. f a (w * i)) a [0..<k]) 0 w i j = cell a 0 w i (\<sigma> j)" if j: "j < m"
    using rows_pass.pass_in[OF v distinct_upt, of i "w * i + j" a] line_opD(2)[OF f, of "w * i" a j] row_okD(1)[OF ok, of i] i j
    by (auto simp: cell_def)
  show "foldl (\<lambda>a i. f a (w * i)) a [0..<k] ! x = a ! x" if x: "\<And>i j. i < k \<Longrightarrow> j < m \<Longrightarrow> x \<noteq> w * i + j"
  proof (rule rows_pass.pass_out[OF _ refl], intro ballI conjI)
    fix b assume "b \<in> set [0..<k]"
    then show "row_ok f \<sigma> m w (length a) b" "x \<notin> {w * b + p | p. p < m}" using v x[of b] by (simp, fastforce)
  qed
qed

lemma cols_at:
  assumes f: "line_op f \<sigma> k w" and r: "in_array 0 w k m (length a)" and j: "j < m"
  shows "i < k \<Longrightarrow> cell (foldl f a [0..<m]) 0 w i j = cell a 0 w (\<sigma> i) j"
    and "length (foldl f a [0..<m]) = length a"
    and "(\<And>i j. i < k \<Longrightarrow> j < m \<Longrightarrow> x \<noteq> w * i + j) \<Longrightarrow> foldl f a [0..<m] ! x = a ! x"
proof -
  have ok: "col_ok f \<sigma> k w (length a) j'" if "j' < m" for j'
    using that f r unfolding col_ok_def in_array_def by linarith
  then have v: "\<forall>b \<in> set [0..<m]. col_ok f \<sigma> k w (length a) b" by simp
  show "length (foldl f a [0..<m]) = length a" by (rule cols_pass.pass_length[OF v refl])
  show "cell (foldl f a [0..<m]) 0 w i j = cell a 0 w (\<sigma> i) j" if i: "i < k"
    using cols_pass.pass_in[OF v distinct_upt, of j "j + w * i" a] line_opD(2)[OF f, of j a i] ok[OF j] i j
    by (auto simp: cell_def col_ok_def add.commute)
  show "foldl f a [0..<m] ! x = a ! x" if x: "\<And>i j. i < k \<Longrightarrow> j < m \<Longrightarrow> x \<noteq> w * i + j"
  proof (rule cols_pass.pass_out[OF _ refl], intro ballI conjI)
    fix b assume "b \<in> set [0..<m]"
    then show "col_ok f \<sigma> k w (length a) b" "x \<notin> {b + w * p | p. p < k}" using v x[of _ b] by (simp, fastforce simp: add.commute)
  qed
qed

subsection \<open>Nested regions\<close>

text \<open>
  \<open>halve k n\<close> is the size after \<open>k\<close> halvings that round up; \<open>log2n\<close> halvings leave one. The code
  computes \<open>log2n\<close> as \<open>ln n / ln 2 + 0.5\<close> in floating point, truncated, and adds one when \<open>n\<close> is larger than
  \<open>2 ^ log2n\<close>: whichever way the rounding goes this is the least exponent with \<open>n \<le> 2 ^ log2n\<close>, and
  0 for \<open>n = 0\<close>, whose logarithm is minus infinity and saturates.
\<close>

fun log2n_of :: "nat \<Rightarrow> nat" where
  "log2n_of n = (if n \<le> 1 then 0 else Suc (log2n_of ((n + 1) div 2)))"

declare log2n_of.simps [simp del]

fun halve :: "nat \<Rightarrow> nat \<Rightarrow> nat" where
  "halve 0 n = n"
| "halve (Suc k) n = halve k ((n + 1) div 2)"

lemma halve_Suc: "halve (Suc k) n = (halve k n + 1) div 2"
  by (induction k arbitrary: n) simp_all

lemma halve_unique: "0 < sz \<Longrightarrow> (sz - 1) * 2 ^ k < n \<Longrightarrow> n \<le> sz * 2 ^ k \<Longrightarrow> halve k n = sz"
proof (induction k arbitrary: n)
  case (Suc k)
  let ?m = "(n + 1) div 2"
  have "(sz - 1) * 2 ^ k < ?m" "?m \<le> sz * 2 ^ k" using Suc.prems(2,3) by (simp_all add: mult.left_commute)
  then show ?case using Suc.IH Suc.prems(1) by simp
qed simp

lemma halve_pos: "0 < n \<Longrightarrow> 0 < halve k n"
  by (induction k arbitrary: n) simp_all

lemma halve_le: "halve k n \<le> n"
proof (induction k arbitrary: n)
  case (Suc k)
  have "halve k ((n + 1) div 2) \<le> (n + 1) div 2" by (rule Suc)
  also have "\<dots> \<le> n" by (cases n) auto
  finally show ?case by simp
qed simp

lemma halve_1 [simp]: "halve k (Suc 0) = Suc 0"
  by (induction k) simp_all

lemma log2n_bounds: "0 < n \<Longrightarrow> n \<le> 2 ^ log2n_of n \<and> (1 < n \<longrightarrow> 2 ^ log2n_of n < 2 * n)"
proof (induction n rule: log2n_of.induct)
  case (1 n)
  show ?case
  proof (cases "n \<le> 1")
    case False
    then have e: "log2n_of n = Suc (log2n_of ((n + 1) div 2))" by (subst log2n_of.simps) simp
    have IH: "(n + 1) div 2 \<le> 2 ^ log2n_of ((n + 1) div 2) \<and> (1 < (n + 1) div 2 \<longrightarrow> 2 ^ log2n_of ((n + 1) div 2) < 2 * ((n + 1) div 2))"
      using 1(1)[OF False] False by simp
    show ?thesis
    proof (cases "n = 2")
      case True
      have "log2n_of (Suc 0) = 0" by (subst log2n_of.simps) simp
      then have "log2n_of n = 1" unfolding e by (simp add: True)
      with True show ?thesis by simp
    next
      case n: False
      define t :: nat where "t = 2 ^ log2n_of ((n + 1) div 2)"
      have ev: "even t" if "1 < t" unfolding t_def using that by (cases "log2n_of ((n + 1) div 2)") (simp_all add: t_def)
      have "n \<le> 2 * t \<and> (1 < n \<longrightarrow> t < n)" using IH False n ev unfolding t_def[symmetric] by presburger
      then show ?thesis unfolding e power_Suc t_def[symmetric] by simp
    qed
  qed (use 1 in \<open>simp add: log2n_of.simps\<close>)
qed

lemma halve_log2n: "0 < n \<Longrightarrow> n \<le> 2 ^ k \<Longrightarrow> halve k n = 1"
  by (rule halve_unique) simp_all

text \<open>
  The way back, as the two decoders walk it: from a region of one element, \<open>c\<close> halves and the
  size doubles, less one when the rest \<open>nf\<close> of the full size fits in \<open>c\<close>.
\<close>

definition grow :: "nat \<Rightarrow> nat \<times> nat \<Rightarrow> nat \<times> nat" where
  "grow c s = (let (sz, nf) = s; sz = 2 * sz in if nf \<le> c then (sz - 1, nf) else (sz, nf - c))"

definition grown :: "nat \<Rightarrow> nat \<Rightarrow> nat \<times> nat \<Rightarrow> bool" where
  "grown n k s \<longleftrightarrow> (let (sz, nf) = s in 0 < sz \<and> 0 < nf \<and> nf \<le> 2 ^ k \<and> n = (sz - 1) * 2 ^ k + nf)"

lemma grown_start: "0 < n \<Longrightarrow> n \<le> 2 ^ k \<Longrightarrow> grown n k (1, n)"
  by (simp add: grown_def)

lemma grown_step: "grown n (Suc k) s \<Longrightarrow> grown n k (grow (2 ^ k) s)"
proof -
  assume g: "grown n (Suc k) s"
  obtain sz nf where s: "s = (sz, nf)" by (cases s)
  obtain t where t: "sz = Suc t" using g by (cases sz) (auto simp: grown_def s)
  show ?thesis using g by (auto simp: grown_def grow_def s t Let_def algebra_simps)
qed

lemma grown_halve: "grown n k s \<Longrightarrow> fst s = halve k n"
  by (cases s) (auto simp: grown_def add.commute intro!: halve_unique[symmetric] dest: gr0_conv_Suc[THEN iffD1])

end
