(* ===== verification/HTransform.thy ===== *)
theory HTransform
  imports Grid
begin

text \<open>
  The H-transform of \<open>src/zimage/hcompress.rs\<close>: the shuffles of one row or column, the forward
  transform \<open>htrans\<close>, the inverse \<open>hinv\<close> with its optional smoothing, and the division of the
  coefficients by the scale. The code has each function twice, for \<open>i32\<close> and for \<open>i64\<close> pixels; here it is
  one function on words of any length. An array of \<open>nx\<close> rows and \<open>ny\<close> columns is one list, and every
  index the loops compute lies inside it when its length is \<open>nx * ny\<close> and neither is 0.
\<close>

subsection \<open>Rows and columns\<close>

text \<open>
  One line of \<open>n\<close> elements with stride \<open>n2\<close>, from \<open>off\<close> on. \<open>hshuffle\<close> moves the elements of even index to the
  front and those of odd index behind them, \<open>hunshuffle\<close> moves them back.
\<close>

definition hshuffle :: "nat \<Rightarrow> nat \<Rightarrow> 'a list \<Rightarrow> nat \<Rightarrow> 'a list" where
  "hshuffle n n2 a off =
     (let tmp = map (\<lambda>k. a ! (off + n2 * (2 * k + 1))) [0..<n div 2];
          a1 = write_steps (\<lambda>k. off + n2 * k) (\<lambda>k a. a ! (off + n2 * (2 * k))) a [1..<(n + 1) div 2]
      in write_steps (\<lambda>k. off + n2 * ((n + 1) div 2 + k)) (\<lambda>k _. tmp ! k) a1 [0..<n div 2])"

definition hunshuffle :: "nat \<Rightarrow> nat \<Rightarrow> 'a list \<Rightarrow> nat \<Rightarrow> 'a list" where
  "hunshuffle n n2 a off =
     (let nhalf = (n + 1) div 2;
          tmp = map (\<lambda>i. a ! (off + n2 * i)) [nhalf..<n];
          a1 = write_steps (\<lambda>i. off + 2 * (n2 * i)) (\<lambda>i a. a ! (off + n2 * i)) a (rev [0..<nhalf])
      in write_steps (\<lambda>k. off + (n2 + 2 * n2 * k)) (\<lambda>k _. tmp ! k) a1 [0..<n div 2])"

definition shuffled :: "nat \<Rightarrow> nat \<Rightarrow> nat \<Rightarrow> 'a list \<Rightarrow> 'a list" where
  "shuffled w nx ny a = foldl (hshuffle nx w) (foldl (\<lambda>a i. hshuffle ny 1 a (w * i)) a [0..<nx]) [0..<ny]"

definition unshuffled :: "nat \<Rightarrow> nat \<Rightarrow> nat \<Rightarrow> 'a list \<Rightarrow> 'a list" where
  "unshuffled w nx ny a = foldl (hunshuffle nx w) (foldl (\<lambda>a i. hunshuffle ny 1 a (w * i)) a [0..<nx]) [0..<ny]"

subsection \<open>The forward transform\<close>

definition round_to :: "'a::len word \<Rightarrow> 'a word \<Rightarrow> 'a word \<Rightarrow> 'a word \<Rightarrow> 'a word" where
  "round_to p n m h = (if 0 <=s h then h + p else h + n) AND m"

record 'w ht_consts =
  ht_shift :: nat
  ht_mask :: 'w
  ht_mask2 :: 'w
  ht_prnd :: 'w
  ht_prnd2 :: 'w
  ht_nrnd2 :: 'w

definition htrans_ops :: "('a::len word) ht_consts \<Rightarrow> ('a word) block_ops" where
  "htrans_ops c = \<lparr>
     bo_full = (\<lambda>(a00, a01, a10, a11).
       let h0 = signed_drop_bit (ht_shift c) (a11 + a10 + a01 + a00);
           hx = signed_drop_bit (ht_shift c) (a11 + a10 - a01 - a00);
           hy = signed_drop_bit (ht_shift c) (a11 - a10 + a01 - a00);
           hc = signed_drop_bit (ht_shift c) (a11 - a10 - a01 + a00)
       in (round_to (ht_prnd2 c) (ht_nrnd2 c) (ht_mask2 c) h0, round_to (ht_prnd c) 0 (ht_mask c) hy,
           round_to (ht_prnd c) 0 (ht_mask c) hx, hc)),
     bo_right = (\<lambda>(a00, a10).
       let h0 = push_bit (1 - ht_shift c) (a10 + a00); hx = push_bit (1 - ht_shift c) (a10 - a00)
       in (round_to (ht_prnd2 c) (ht_nrnd2 c) (ht_mask2 c) h0, round_to (ht_prnd c) 0 (ht_mask c) hx)),
     bo_bottom = (\<lambda>(a00, a01).
       let h0 = push_bit (1 - ht_shift c) (a01 + a00); hy = push_bit (1 - ht_shift c) (a01 - a00)
       in (round_to (ht_prnd2 c) (ht_nrnd2 c) (ht_mask2 c) h0, round_to (ht_prnd c) 0 (ht_mask c) hy)),
     bo_corner = (\<lambda>a00. round_to (ht_prnd2 c) (ht_nrnd2 c) (ht_mask2 c) (push_bit (2 - ht_shift c) a00))\<rparr>"

definition htrans_next :: "('a::len word) ht_consts \<Rightarrow> ('a word) ht_consts" where
  "htrans_next c = \<lparr>ht_shift = 1, ht_mask = ht_mask2 c, ht_mask2 = push_bit 1 (ht_mask2 c), ht_prnd = ht_prnd2 c,
     ht_prnd2 = push_bit 1 (ht_prnd2 c), ht_nrnd2 = push_bit 1 (ht_prnd2 c) - 1\<rparr>"

definition htrans_pass :: "nat \<Rightarrow> ('a::len word) ht_consts \<Rightarrow> nat \<Rightarrow> nat \<Rightarrow> 'a word list \<Rightarrow> 'a word list" where
  "htrans_pass ny c nxtop nytop a =
     shuffled ny nxtop nytop (foldl (block_step (\<lambda>_. htrans_ops c) 0 ny nxtop nytop) a (blocks nxtop nytop))"

fun htrans_loop :: "nat \<Rightarrow> nat \<Rightarrow> ('a::len word) ht_consts \<Rightarrow> nat \<Rightarrow> nat \<Rightarrow> 'a word list \<Rightarrow> 'a word list" where
  "htrans_loop 0 ny c nxtop nytop a = a"
| "htrans_loop (Suc k) ny c nxtop nytop a =
     htrans_loop k ny (htrans_next c) ((nxtop + 1) div 2) ((nytop + 1) div 2) (htrans_pass ny c nxtop nytop a)"

definition htrans_start :: "('a::len word) ht_consts" where
  "htrans_start = \<lparr>ht_shift = 0, ht_mask = - 2, ht_mask2 = push_bit 1 (- 2), ht_prnd = 1, ht_prnd2 = push_bit 1 1,
     ht_nrnd2 = push_bit 1 1 - 1\<rparr>"

definition htrans :: "'a::len word list \<Rightarrow> nat \<Rightarrow> nat \<Rightarrow> 'a word list" where
  "htrans a nx ny = htrans_loop (log2n_of (max nx ny)) ny htrans_start nx ny a"

subsection \<open>Smoothing\<close>

definition smin :: "'a::len word \<Rightarrow> 'a word \<Rightarrow> 'a word" where
  "smin a b = (if a <=s b then a else b)"

definition smax :: "'a::len word \<Rightarrow> 'a word \<Rightarrow> 'a word" where
  "smax a b = (if a <=s b then b else a)"

definition sdiv_word :: "'a::len word \<Rightarrow> int \<Rightarrow> 'a word" where
  "sdiv_word a n = word_of_int (sgn (sint a) * (\<bar>sint a\<bar> div n))"

definition smooth_diff :: "'a::len word \<Rightarrow> 'a word \<Rightarrow> 'a word \<Rightarrow> 'a word \<Rightarrow> 'a word \<Rightarrow> 'a word" where
  "smooth_diff lim hm h0 hp v =
     (let diff = hp - hm;
          dmax = push_bit 2 (smax (smin (hp - h0) (h0 - hm)) 0);
          dmin = push_bit 2 (smin (smax (hp - h0) (h0 - hm)) 0)
      in if dmin <s dmax then
           (let diff = smax (smin diff dmax) dmin;
                s = sdiv_word (diff - push_bit 3 v) 8
            in v + smax (smin s lim) (- lim))
         else v)"

definition smooth_x :: "'a::len word \<Rightarrow> nat \<Rightarrow> 'a word list \<Rightarrow> nat \<times> nat \<Rightarrow> 'a word list" where
  "smooth_x lim ny a ij =
     (let s00 = ny * fst ij + snd ij; s10 = s00 + ny
      in a[s10 := smooth_diff lim (a ! (s00 - 2 * ny)) (a ! s00) (a ! (s00 + 2 * ny)) (a ! s10)])"

definition smooth_y :: "'a::len word \<Rightarrow> nat \<Rightarrow> 'a word list \<Rightarrow> nat \<times> nat \<Rightarrow> 'a word list" where
  "smooth_y lim ny a ij =
     (let s00 = ny * fst ij + snd ij
      in a[s00 + 1 := smooth_diff lim (a ! (s00 - 2)) (a ! s00) (a ! (s00 + 2)) (a ! (s00 + 1))])"

definition smooth_c :: "'a::len word \<Rightarrow> nat \<Rightarrow> 'a word list \<Rightarrow> nat \<times> nat \<Rightarrow> 'a word list" where
  "smooth_c lim ny a ij =
     (let s00 = ny * fst ij + snd ij; s10 = s00 + ny; ny2 = 2 * ny;
          hmm = a ! (s00 - ny2 - 2); hpm = a ! (s00 + ny2 - 2); hmp = a ! (s00 - ny2 + 2); hpp = a ! (s00 + ny2 + 2);
          h0 = a ! s00;
          diff = hpp + hmm - hmp - hpm;
          hx2 = push_bit 1 (a ! s10); hy2 = push_bit 1 (a ! (s00 + 1));
          m1 = smin (smax (hpp - h0) 0 - hx2 - hy2) (smax (h0 - hpm) 0 + hx2 - hy2);
          m2 = smin (smax (h0 - hmp) 0 - hx2 + hy2) (smax (hmm - h0) 0 + hx2 + hy2);
          dmax = push_bit 4 (smin m1 m2);
          m1 = smax (smin (hpp - h0) 0 - hx2 - hy2) (smin (h0 - hpm) 0 + hx2 - hy2);
          m2 = smax (smin (h0 - hmp) 0 - hx2 + hy2) (smin (hmm - h0) 0 + hx2 + hy2);
          dmin = push_bit 4 (smax m1 m2)
      in if dmin <s dmax then
           (let diff = smax (smin diff dmax) dmin;
                s = sdiv_word (diff - push_bit 6 (a ! (s10 + 1))) 64
            in a[s10 + 1 := a ! (s10 + 1) + smax (smin s lim) (- lim)])
         else a)"

text \<open>\<open>i = 2; while i + 2 < n { .. i += 2 }\<close> and \<open>j = 0; while j < n { .. j += 2 }\<close>\<close>

definition inner_evens :: "nat \<Rightarrow> nat list" where
  "inner_evens n = map (\<lambda>k. 2 * k) [1..<(n - 1) div 2]"

definition all_evens :: "nat \<Rightarrow> nat list" where
  "all_evens n = map (\<lambda>k. 2 * k) [0..<(n + 1) div 2]"

definition hsmooth :: "'a::len word list \<Rightarrow> nat \<Rightarrow> nat \<Rightarrow> nat \<Rightarrow> i32 \<Rightarrow> 'a word list" where
  "hsmooth a nxtop nytop ny scale =
     (let lim = scast (signed_drop_bit 1 scale) :: 'a word
      in if lim <=s 0 then a
         else
           (let a1 = (if nxtop \<ge> 4 then foldl (smooth_x lim ny) a (List.product (inner_evens nxtop) (all_evens nytop)) else a);
                a2 = (if nytop \<ge> 4 then foldl (smooth_y lim ny) a1 (List.product (all_evens nxtop) (inner_evens nytop)) else a1)
            in if nxtop \<ge> 4 \<and> nytop \<ge> 4
               then foldl (smooth_c lim ny) a2 (List.product (inner_evens nxtop) (inner_evens nytop)) else a2))"

subsection \<open>The inverse transform\<close>

record 'w hi_consts =
  hi_shift :: nat
  hi_bit0 :: 'w
  hi_bit1 :: 'w
  hi_mask0 :: 'w
  hi_mask1 :: 'w
  hi_prnd0 :: 'w
  hi_prnd1 :: 'w
  hi_nrnd0 :: 'w
  hi_nrnd1 :: 'w

definition away_by :: "'a::len word \<Rightarrow> 'a word \<Rightarrow> 'a word" where
  "away_by h b = (if 0 <=s h then h - b else h + b)"

definition hinv_ops :: "('a::len word) hi_consts \<Rightarrow> ('a word) block_ops" where
  "hinv_ops c = \<lparr>
     bo_full = (\<lambda>(h0, hy, hx, hc).
       let hx = round_to (hi_prnd1 c) (hi_nrnd1 c) (hi_mask1 c) hx;
           hy = round_to (hi_prnd1 c) (hi_nrnd1 c) (hi_mask1 c) hy;
           hc = round_to (hi_prnd0 c) (hi_nrnd0 c) (hi_mask0 c) hc;
           lowbit0 = hc AND hi_bit0 c;
           hx = away_by hx lowbit0;
           hy = away_by hy lowbit0;
           lowbit1 = (hc XOR hx XOR hy) AND hi_bit1 c;
           h0 = (if 0 <=s h0 then h0 + lowbit0 - lowbit1
                 else if lowbit0 = 0 then h0 + lowbit1 else h0 + (lowbit0 - lowbit1))
       in (signed_drop_bit (hi_shift c) (h0 - hx - hy + hc), signed_drop_bit (hi_shift c) (h0 - hx + hy - hc),
           signed_drop_bit (hi_shift c) (h0 + hx - hy - hc), signed_drop_bit (hi_shift c) (h0 + hx + hy + hc))),
     bo_right = (\<lambda>(h0, hx).
       let hx = round_to (hi_prnd1 c) (hi_nrnd1 c) (hi_mask1 c) hx;
           h0 = away_by h0 (hx AND hi_bit1 c)
       in (signed_drop_bit (hi_shift c) (h0 - hx), signed_drop_bit (hi_shift c) (h0 + hx))),
     bo_bottom = (\<lambda>(h0, hy).
       let hy = round_to (hi_prnd1 c) (hi_nrnd1 c) (hi_mask1 c) hy;
           h0 = away_by h0 (hy AND hi_bit1 c)
       in (signed_drop_bit (hi_shift c) (h0 - hy), signed_drop_bit (hi_shift c) (h0 + hy))),
     bo_corner = (\<lambda>h0. signed_drop_bit (hi_shift c) h0)\<rparr>"

definition hinv_pass ::
  "nat \<Rightarrow> bool \<Rightarrow> i32 \<Rightarrow> ('a::len word) hi_consts \<Rightarrow> nat \<Rightarrow> nat \<Rightarrow> 'a word list \<Rightarrow> 'a word list" where
  "hinv_pass ny smooth scale c nxtop nytop a =
     (let a1 = unshuffled ny nxtop nytop a;
          a2 = (if smooth then hsmooth a1 nxtop nytop ny scale else a1)
      in foldl (block_step (\<lambda>_. hinv_ops c) 0 ny nxtop nytop) a2 (blocks nxtop nytop))"

definition hinv_next :: "('a::len word) hi_consts \<Rightarrow> ('a word) hi_consts" where
  "hinv_next c = c\<lparr>hi_bit1 := hi_bit0 c, hi_bit0 := signed_drop_bit 1 (hi_bit0 c), hi_mask1 := hi_mask0 c,
     hi_mask0 := signed_drop_bit 1 (hi_mask0 c), hi_prnd1 := hi_prnd0 c, hi_prnd0 := signed_drop_bit 1 (hi_prnd0 c),
     hi_nrnd1 := hi_nrnd0 c, hi_nrnd0 := signed_drop_bit 1 (hi_prnd0 c) - 1\<rparr>"

text \<open>\<open>for k in (0..log2n).rev()\<close>: the first argument is \<open>k + 1\<close>.\<close>

fun hinv_loop ::
  "nat \<Rightarrow> nat \<Rightarrow> bool \<Rightarrow> i32 \<Rightarrow> ('a::len word) hi_consts \<Rightarrow> nat \<times> nat \<Rightarrow> nat \<times> nat \<Rightarrow> nat \<Rightarrow> 'a word list \<Rightarrow> 'a word list" where
  "hinv_loop 0 ny smooth scale hc sx sy c a = a"
| "hinv_loop (Suc k) ny smooth scale hc sx sy c a =
     (let c = c div 2;
          sx = grow c sx;
          sy = grow c sy;
          hc = (if k = 0 then hc\<lparr>hi_nrnd0 := 0, hi_shift := 2\<rparr> else hc)
      in hinv_loop k ny smooth scale (hinv_next hc) sx sy c (hinv_pass ny smooth scale hc (fst sx) (fst sy) a))"

definition hinv_start :: "nat \<Rightarrow> ('a::len word) hi_consts" where
  "hinv_start log2n =
     (let bit0 = push_bit ((log2n + LENGTH('a) - 1) mod LENGTH('a)) 1; bit1 = push_bit 1 bit0; mask0 = - bit0;
          prnd0 = signed_drop_bit 1 bit0; prnd1 = signed_drop_bit 1 bit1
      in \<lparr>hi_shift = 1, hi_bit0 = bit0, hi_bit1 = bit1, hi_mask0 = mask0, hi_mask1 = push_bit 1 mask0,
          hi_prnd0 = prnd0, hi_prnd1 = prnd1, hi_nrnd0 = prnd0 - 1, hi_nrnd1 = prnd1 - 1\<rparr>)"

definition hinv :: "('a::len) word list \<Rightarrow> nat \<Rightarrow> nat \<Rightarrow> bool \<Rightarrow> i32 \<Rightarrow> 'a word list" where
  "hinv a nx ny smooth scale =
     (let log2n = log2n_of (max nx ny);
          c = hinv_start log2n :: ('a word) hi_consts;
          mask2 = push_bit 2 (hi_mask0 c);
          prnd2 = signed_drop_bit 1 (push_bit 2 (hi_bit0 c));
          nrnd2 = prnd2 - 1
      in hinv_loop log2n ny smooth scale c (1, nx) (1, ny) (2 ^ log2n) (a[0 := round_to prnd2 nrnd2 mask2 (a ! 0)]))"

subsection \<open>Scaling the coefficients\<close>

definition undigitize :: "'a::len word list \<Rightarrow> i32 \<Rightarrow> 'a word list" where
  "undigitize a scale = (if scale <=s 1 then a else map (\<lambda>v. v * scast scale) a)"

definition digitize :: "'a::len word list \<Rightarrow> i32 \<Rightarrow> 'a word list" where
  "digitize a scale =
     (if scale <=s 1 then a
      else
        (let s = scast scale :: 'a word; d = sdiv_word (s + 1) 2 - 1
         in map (\<lambda>v. sdiv_word (if 0 <s v then v + d else v - d) (sint s)) a))"

end
