(* ===== verification/HLevels.thy ===== *)
theory HLevels
  imports HTransform
begin

text \<open>
  The inverse H-transform undoes the forward one, coefficient by coefficient, when no sum
  overflows: the predicate \<open>room\<close> says how large the pixels may be for a number of levels. At level \<open>t\<close> every
  coefficient is \<open>2 ^ t\<close> times a small integer, and the bits the forward transform rounds away
  are the parities the inverse reads off the other coefficients of the block.
\<close>

subsection \<open>Shuffling and back\<close>

definition from_even_odd :: "nat \<Rightarrow> nat \<Rightarrow> nat" where
  "from_even_odd n p = (if p < (n + 1) div 2 then 2 * p else 2 * (p - (n + 1) div 2) + 1)"

definition to_even_odd :: "nat \<Rightarrow> nat \<Rightarrow> nat" where
  "to_even_odd n p = (if even p then p div 2 else (n + 1) div 2 + p div 2)"

lemma even_odd_inverse: "p < n \<Longrightarrow> from_even_odd n (to_even_odd n p) = p"
  by (auto simp: from_even_odd_def to_even_odd_def elim!: evenE oddE)

lemma line_in: "p < n \<Longrightarrow> off + d * (n - 1) < N \<Longrightarrow> off + d * p < N" for d :: nat
proof -
  assume "p < n" "off + d * (n - 1) < N"
  moreover from this have "d * p \<le> d * (n - 1)" by (intro mult_le_mono2) simp
  ultimately show ?thesis by linarith
qed

lemma line_op_shuffle:
  assumes n: "0 < n" and d: "0 < d"
  shows "line_op (hshuffle n d) (from_even_odd n) n d"
  unfolding line_op_def
proof (intro conjI allI impI)
  fix p assume "p < n" then show "from_even_odd n p < n" by (auto simp: from_even_odd_def)
next
  fix a :: "'a list" and off assume l: "off + d * (n - 1) < length a"
  note lt = line_in[OF _ l]
  let ?h = "(n + 1) div 2"
  define a1 where "a1 = write_steps (\<lambda>k. off + d * k) (\<lambda>k a. a ! (off + d * (2 * k))) a [1..<?h]"
  define tmp where "tmp = map (\<lambda>k. a ! (off + d * (2 * k + 1))) [0..<n div 2]"
  have s: "hshuffle n d a off = write_steps (\<lambda>k. off + d * (?h + k)) (\<lambda>k _. tmp ! k) a1 [0..<n div 2]"
    by (simp only: hshuffle_def Let_def a1_def tmp_def)
  show "length (hshuffle n d a off) = length a" by (simp add: s a1_def)
  have low: "a1 ! (off + d * p) = a ! (off + d * (2 * p))" if p: "p < ?h" for p
  proof (cases "p = 0")
    case False
    then show ?thesis unfolding a1_def using p d lt
      by (intro write_steps_in[where R = "\<lambda>k. {off + d * (2 * k)}"] sorted_wrt_upt) auto
  qed (use d in \<open>auto simp: a1_def write_steps_out\<close>)
  have high: "hshuffle n d a off ! (off + d * (?h + k)) = tmp ! k" if k: "k < n div 2" for k
    unfolding s using k d lt
    by (intro write_steps_in[where R = "\<lambda>k. {}"] sorted_wrt_upt) (auto simp: a1_def)
  show "hshuffle n d a off ! (off + d * p) = a ! (off + d * from_even_odd n p)" if p: "p < n" for p
  proof (cases "p < ?h")
    case True
    then have "hshuffle n d a off ! (off + d * p) = a1 ! (off + d * p)"
      unfolding s using d by (intro write_steps_out) auto
    with low[OF True] True show ?thesis by (simp add: from_even_odd_def)
  next
    case False
    then show ?thesis using high[of "p - ?h"] p by (simp add: from_even_odd_def tmp_def)
  qed
  show "hshuffle n d a off ! i = a ! i" if i: "\<forall>p < n. i \<noteq> off + d * p" for i
  proof -
    have "\<forall>k \<in> set [0..<n div 2]. off + d * (?h + k) \<noteq> i" 
    proof
      fix k assume "k \<in> set [0..<n div 2]"
      then have "?h + k < n" by simp
      then show "off + d * (?h + k) \<noteq> i" using i by blast
    qed
    moreover have "\<forall>k \<in> set [1..<?h]. off + d * k \<noteq> i"
    proof
      fix k assume "k \<in> set [1..<?h]"
      then have "k < n" by (simp only: set_upt atLeastLessThan_iff) presburger
      then show "off + d * k \<noteq> i" using i by blast
    qed
    ultimately show ?thesis unfolding s a1_def by (simp add: write_steps_out)
  qed
qed (rule n)

lemma line_op_unshuffle:
  assumes n: "0 < n" and d: "0 < d"
  shows "line_op (hunshuffle n d) (to_even_odd n) n d"
  unfolding line_op_def
proof (intro conjI allI impI)
  fix p assume "p < n" then show "to_even_odd n p < n" by (auto simp: to_even_odd_def elim!: evenE oddE)
next
  fix a :: "'a list" and off assume l: "off + d * (n - 1) < length a"
  note lt = line_in[OF _ l]
  let ?h = "(n + 1) div 2"
  define a1 where "a1 = write_steps (\<lambda>i. off + 2 * (d * i)) (\<lambda>i a. a ! (off + d * i)) a (rev [0..<?h])"
  define tmp where "tmp = map (\<lambda>i. a ! (off + d * i)) [?h..<n]"
  have s: "hunshuffle n d a off = write_steps (\<lambda>k. off + (d + 2 * d * k)) (\<lambda>k _. tmp ! k) a1 [0..<n div 2]"
    by (simp only: hunshuffle_def Let_def a1_def tmp_def)
  have two: "2 * (d * i) = d * (2 * i)" "d + 2 * d * k = d * (2 * k + 1)" for i k by (simp_all add: algebra_simps)
  show "length (hunshuffle n d a off) = length a" by (simp add: s a1_def)
  have ev: "a1 ! (off + 2 * (d * i)) = a ! (off + d * i)" if i: "i < ?h" for i
    unfolding a1_def two using i d lt
    by (intro write_steps_in[where R = "\<lambda>i. {off + d * i}"] sorted_wrt_rev_upt) auto
  have od: "hunshuffle n d a off ! (off + (d + 2 * d * k)) = tmp ! k" if k: "k < n div 2" for k
    unfolding s two using k d lt[of "2 * _ + 1"]
    by (intro write_steps_in[where R = "\<lambda>k. {}"] sorted_wrt_upt) (auto simp: a1_def simp del: mult_Suc_right)
  show "hunshuffle n d a off ! (off + d * p) = a ! (off + d * to_even_odd n p)" if p: "p < n" for p
  proof (cases "even p")
    case True
    then obtain i where i: "p = 2 * i" by (elim evenE)
    have "d * (2 * k + 1) \<noteq> d * (2 * i)" for k unfolding mult_cancel1 using d by presburger
    then have "\<forall>k \<in> set [0..<n div 2]. off + (d + 2 * d * k) \<noteq> off + d * p"
      unfolding two i add_left_cancel by blast
    then have "hunshuffle n d a off ! (off + d * p) = a1 ! (off + d * p)"
      unfolding s by (rule write_steps_out)
    with ev[of i] i p show ?thesis by (simp add: to_even_odd_def two)
  next
    case False
    then obtain i where i: "p = 2 * i + 1" by (elim oddE)
    have k: "i < n div 2" using i p by presburger
    have e: "off + d * p = off + (d + 2 * d * i)" by (simp add: i algebra_simps)
    show ?thesis unfolding e using od[OF k] p i by (simp add: to_even_odd_def tmp_def)
  qed
  show "hunshuffle n d a off ! i = a ! i" if i: "\<forall>p < n. i \<noteq> off + d * p" for i
  proof -
    have "\<forall>k \<in> set [0..<n div 2]. off + (d + 2 * d * k) \<noteq> i"
    proof
      fix k assume "k \<in> set [0..<n div 2]"
      then have "2 * k + 1 < n" by simp
      then show "off + (d + 2 * d * k) \<noteq> i" unfolding two using i by blast
    qed
    moreover have "\<forall>k \<in> set (rev [0..<?h]). off + 2 * (d * k) \<noteq> i"
    proof
      fix k assume "k \<in> set (rev [0..<?h])"
      then have "2 * k < n" by simp
      then show "off + 2 * (d * k) \<noteq> i" unfolding two using i by blast
    qed
    ultimately show ?thesis unfolding s a1_def by (simp add: write_steps_out)
  qed
qed (rule n)

lemma region_eqI:
  assumes "length a = length b"
    and "\<And>i j. i < nx \<Longrightarrow> j < ny \<Longrightarrow> cell a 0 w i j = cell b 0 w i j"
    and "\<And>x. x < length a \<Longrightarrow> (\<And>i j. i < nx \<Longrightarrow> j < ny \<Longrightarrow> x \<noteq> w * i + j) \<Longrightarrow> a ! x = b ! x"
  shows "a = b"
proof (rule nth_equalityI)
  fix x assume x: "x < length a"
  show "a ! x = b ! x"
  proof (cases "\<exists>i j. i < nx \<and> j < ny \<and> x = w * i + j")
    case True
    then show ?thesis using assms(2) by (auto simp: cell_def)
  next
    case False
    then show ?thesis using assms(3)[OF x] by blast
  qed
qed (rule assms(1))

lemma in_array_pos: "in_array base w nx ny N \<Longrightarrow> 0 < ny \<Longrightarrow> 0 < w"
  by (simp add: in_array_def)

lemma shuffle_cell:
  assumes r: "in_array 0 w nx ny (length a)" and p: "0 < nx" "0 < ny"
  shows "length (shuffled w nx ny a) = length a"
    and "i < nx \<Longrightarrow> j < ny \<Longrightarrow> cell (shuffled w nx ny a) 0 w i j = cell a 0 w (from_even_odd nx i) (from_even_odd ny j)"
    and "(\<And>i j. i < nx \<Longrightarrow> j < ny \<Longrightarrow> x \<noteq> w * i + j) \<Longrightarrow> shuffled w nx ny a ! x = a ! x"
proof -
  have w: "0 < w" by (rule in_array_pos[OF r p(2)])
  note R = rows_at[OF line_op_shuffle[OF p(2) zero_less_one] r]
  define b where "b = foldl (\<lambda>a i. hshuffle ny 1 a (w * i)) a [0..<nx]"
  have lb: "length b = length a" using R(2)[of 0] p by (simp add: b_def)
  note C = cols_at[OF line_op_shuffle[OF p(1) w], of ny b]
  have r': "in_array 0 w nx ny (length b)" using r lb by simp
  show "length (shuffled w nx ny a) = length a"
    using C(2)[OF r' p(2)] lb unfolding shuffled_def b_def by simp
  show "cell (shuffled w nx ny a) 0 w i j = cell a 0 w (from_even_odd nx i) (from_even_odd ny j)" if i: "i < nx" "j < ny"
  proof -
    have f: "from_even_odd nx i < nx" using i by (auto simp: from_even_odd_def)
    have "cell (shuffled w nx ny a) 0 w i j = cell b 0 w (from_even_odd nx i) j"
      using C(1)[OF r' i(2) i(1)] unfolding shuffled_def b_def .
    also have "\<dots> = cell a 0 w (from_even_odd nx i) (from_even_odd ny j)"
      using R(1)[OF f i(2)] by (simp add: b_def)
    finally show ?thesis .
  qed
  show "shuffled w nx ny a ! x = a ! x" if "\<And>i j. i < nx \<Longrightarrow> j < ny \<Longrightarrow> x \<noteq> w * i + j"
    using C(3)[OF r' p(2) that] R(3)[OF p(1) that] unfolding shuffled_def b_def by simp
qed

lemma unshuffle_cell:
  assumes r: "in_array 0 w nx ny (length a)" and p: "0 < nx" "0 < ny"
  shows "length (unshuffled w nx ny a) = length a"
    and "i < nx \<Longrightarrow> j < ny \<Longrightarrow> cell (unshuffled w nx ny a) 0 w i j = cell a 0 w (to_even_odd nx i) (to_even_odd ny j)"
    and "(\<And>i j. i < nx \<Longrightarrow> j < ny \<Longrightarrow> x \<noteq> w * i + j) \<Longrightarrow> unshuffled w nx ny a ! x = a ! x"
proof -
  have w: "0 < w" by (rule in_array_pos[OF r p(2)])
  note R = rows_at[OF line_op_unshuffle[OF p(2) zero_less_one] r]
  define b where "b = foldl (\<lambda>a i. hunshuffle ny 1 a (w * i)) a [0..<nx]"
  have lb: "length b = length a" using R(2)[of 0] p by (simp add: b_def)
  note C = cols_at[OF line_op_unshuffle[OF p(1) w], of ny b]
  have r': "in_array 0 w nx ny (length b)" using r lb by simp
  show "length (unshuffled w nx ny a) = length a"
    using C(2)[OF r' p(2)] lb unfolding unshuffled_def b_def by simp
  show "cell (unshuffled w nx ny a) 0 w i j = cell a 0 w (to_even_odd nx i) (to_even_odd ny j)" if i: "i < nx" "j < ny"
  proof -
    have f: "to_even_odd nx i < nx" using i by (auto simp: to_even_odd_def elim!: evenE oddE)
    have "cell (unshuffled w nx ny a) 0 w i j = cell b 0 w (to_even_odd nx i) j"
      using C(1)[OF r' i(2) i(1)] unfolding unshuffled_def b_def .
    also have "\<dots> = cell a 0 w (to_even_odd nx i) (to_even_odd ny j)"
      using R(1)[OF f i(2)] by (simp add: b_def)
    finally show ?thesis .
  qed
  show "unshuffled w nx ny a ! x = a ! x" if "\<And>i j. i < nx \<Longrightarrow> j < ny \<Longrightarrow> x \<noteq> w * i + j"
    using C(3)[OF r' p(2) that] R(3)[OF p(1) that] unfolding unshuffled_def b_def by simp
qed

lemma hunshuffle_hshuffle:
  assumes r: "in_array 0 w nx ny (length a)" and p: "0 < nx" "0 < ny"
  shows "unshuffled w nx ny (shuffled w nx ny a) = a"
proof (rule region_eqI[where w = w and nx = nx and ny = ny])
  have r': "in_array 0 w nx ny (length (shuffled w nx ny a))" using r shuffle_cell(1)[OF r p] by simp
  note S = shuffle_cell[OF r p] and U = unshuffle_cell[OF r' p]
  show "length (unshuffled w nx ny (shuffled w nx ny a)) = length a" using S(1) U(1) by simp
  show "cell (unshuffled w nx ny (shuffled w nx ny a)) 0 w i j = cell a 0 w i j" if i: "i < nx" "j < ny" for i j
  proof -
    have "to_even_odd nx i < nx" "to_even_odd ny j < ny" using i by (auto simp: to_even_odd_def elim!: evenE oddE)
    then show ?thesis using U(2)[OF i] S(2) i by (simp add: even_odd_inverse)
  qed
  show "unshuffled w nx ny (shuffled w nx ny a) ! x = a ! x" if "\<And>i j. i < nx \<Longrightarrow> j < ny \<Longrightarrow> x \<noteq> w * i + j" for x
    using U(3)[OF that] S(3)[OF that] by simp
qed

subsection \<open>Integers of one level\<close>

definition away2 :: "int \<Rightarrow> int" where
  "away2 x = (if 0 \<le> x then (x + 1) div 2 * 2 else x div 2 * 2)"

definition near4 :: "int \<Rightarrow> int" where
  "near4 h = (if 0 \<le> h then (h + 2) div 4 * 4 else (h + 1) div 4 * 4)"

lemma away2_undo:
  assumes "even (x - c)"
  shows "(if 0 \<le> away2 x then away2 x - c mod 2 else away2 x + c mod 2) = x"
proof (cases "even c")
  case True
  then have "even x" "c mod 2 = 0" using assms by presburger+
  then show ?thesis by (auto simp: away2_def)
next
  case False
  then have "odd x" "c mod 2 = 1" using assms by presburger+
  then show ?thesis by (auto simp: away2_def elim!: oddE)
qed

lemma away2_even: "even x \<Longrightarrow> away2 x = x"
  by (auto simp: away2_def)

lemma bit_1_iff: "bit z (Suc 0) \<longleftrightarrow> odd (z div 2)" for z :: int
  by (simp add: bit_iff_odd)

lemma xor_div_2: "odd ((x XOR y) div 2) \<longleftrightarrow> odd (x div 2 + y div 2)" for x y :: int
  using bit_1_iff[of x] bit_1_iff[of y] bit_1_iff[of "x XOR y"] by (simp add: bit_xor_iff)

lemma and_2: "x AND 2 = 2 * ((x div 2) mod 2)" for x :: int
proof (rule bit_eqI)
  fix n
  have "2 * ((x div 2) mod 2) = of_bool (odd (x div 2)) * 2" by (simp add: mod_2_eq_odd)
  then show "bit (x AND 2) n \<longleftrightarrow> bit (2 * ((x div 2) mod 2)) n"
    using bit_1_iff[of x] by (cases "n = Suc 0") (auto simp: bit_and_iff bit_2_iff)
qed

lemma near4_cases:
  "near4 (4 * m) = 4 * m" "near4 (4 * m + 1) = 4 * m" "near4 (4 * m + 3) = 4 * m + 4"
  "near4 (4 * m + 2) = (if 0 \<le> m then 4 * m + 4 else 4 * m)"
proof -
  have d: "(4 * m + r) div 4 = m" if "0 \<le> r" "r < 4" for r using that by simp
  have e: "(4 * m + r) div 4 = m + 1" if "4 \<le> r" "r < 8" for r
    using d[of "r - 4"] div_add_self1[of 4 "4 * m + (r - 4)"] that by (simp add: algebra_simps)
  show "near4 (4 * m) = 4 * m" using d[of 2] d[of 1] by (simp add: near4_def)
  show "near4 (4 * m + 1) = 4 * m" using d[of 3] d[of 2] by (simp add: near4_def)
  show "near4 (4 * m + 3) = 4 * m + 4" using e[of 5] e[of 4] by (simp add: near4_def)
  show "near4 (4 * m + 2) = (if 0 \<le> m then 4 * m + 4 else 4 * m)" using e[of 4] d[of 3] by (auto simp: near4_def)
qed

lemma near4_even:
  "(if 0 \<le> near4 (2 * k) then near4 (2 * k) - 2 * (k mod 2) else near4 (2 * k) + 2 * (k mod 2)) = 2 * k"
proof (cases "even k")
  case True
  then obtain m where "k = 2 * m" by (rule evenE)
  then show ?thesis using near4_cases(1)[of m] by simp
next
  case False
  then obtain m where k: "k = 2 * m + 1" by (rule oddE)
  then have e: "2 * k = 4 * m + 2" "k mod 2 = 1" by simp_all
  show ?thesis unfolding e near4_cases by auto
qed

lemma near4_odd: "near4 (2 * k + 1) + (1 - 2 * (k mod 2)) = 2 * k + 1"
proof (cases "even k")
  case True
  then obtain m where k: "k = 2 * m" by (rule evenE)
  then have e: "2 * k + 1 = 4 * m + 1" "k mod 2 = 0" by simp_all
  show ?thesis unfolding e near4_cases by simp
next
  case False
  then obtain m where k: "k = 2 * m + 1" by (rule oddE)
  then have e: "2 * k + 1 = 4 * m + 3" "k mod 2 = 1" by simp_all
  show ?thesis unfolding e near4_cases by simp
qed

text \<open>The four coefficients of a block determine its pixels.\<close>

lemma block_parity:
  fixes x y z d h :: int
  assumes e: "even (x - z)" "even (y - z)" and h: "h = 4 * d - x - y - z"
  defines "l1 \<equiv> 2 * ((z div 2 + x div 2 + y div 2) mod 2)" and "l0 \<equiv> z mod 2"
  shows "(if 0 \<le> near4 h then near4 h + l0 - l1 else if l0 = 0 then near4 h + l1 else near4 h + (l0 - l1)) = h"
proof (cases "even z")
  case True
  then have "even x" "even y" using e by presburger+
  with True obtain x' y' z' where v: "x = 2 * x'" "y = 2 * y'" "z = 2 * z'" by (elim evenE)
  define k where "k = 2 * d - (x' + y' + z')"
  have k: "h = 2 * k" "l0 = 0" "l1 = 2 * (k mod 2)" unfolding h l0_def l1_def v k_def by simp_all presburger
  show ?thesis unfolding k using near4_even[of k] by (simp only: add_0_right refl if_True)
next
  case False
  then have "odd x" "odd y" using e by presburger+
  with False obtain x' y' z' where v: "x = 2 * x' + 1" "y = 2 * y' + 1" "z = 2 * z' + 1" by (elim oddE)
  define k where "k = 2 * d - (x' + y' + z') - 2"
  have k: "h = 2 * k + 1" "l0 = 1" "l1 = 2 * (k mod 2)" unfolding h l0_def l1_def v k_def by simp_all presburger
  show ?thesis unfolding k using near4_odd[of k] by simp
qed

subsection \<open>Words of one level\<close>

text \<open>At level \<open>t\<close> the coefficients are multiples of \<open>2 ^ t\<close>; \<open>lev t z\<close> is the word of \<open>2 ^ t * z\<close>.\<close>

definition lev :: "nat \<Rightarrow> int \<Rightarrow> 'a::len word" where
  "lev t z = word_of_int (2 ^ t * z)"

definition fits :: "'a::len itself \<Rightarrow> nat \<Rightarrow> int \<Rightarrow> bool" where
  "fits _ t z \<longleftrightarrow> - (2 ^ (LENGTH('a) - 1)) \<le> 2 ^ t * z \<and> 2 ^ t * z < 2 ^ (LENGTH('a) - 1)"

lemma sint_lev: "fits TYPE('a::len) t z \<Longrightarrow> sint (lev t z :: 'a word) = 2 ^ t * z"
  unfolding lev_def fits_def by (simp only: sint_sbintrunc' signed_take_bit_int_eq_self)

lemma lev_add: "lev t x + lev t y = lev t (x + y)"
  by (simp add: lev_def distrib_left)

lemma lev_diff: "lev t x - lev t y = lev t (x - y)"
  by (simp add: lev_def right_diff_distrib)

lemma lev_and: "lev t x AND lev t y = lev t (x AND y)"
proof -
  have "2 ^ t * x AND 2 ^ t * y = 2 ^ t * (x AND y)"
    using push_bit_and[of t x y] by (simp add: push_bit_eq_mult mult.commute)
  then show ?thesis unfolding lev_def of_int_and_eq[symmetric] by (simp only:)
qed

lemma lev_xor: "lev t x XOR lev t y = lev t (x XOR y)"
proof -
  have "2 ^ t * x XOR 2 ^ t * y = 2 ^ t * (x XOR y)"
    using push_bit_xor[of t x y] by (simp add: push_bit_eq_mult mult.commute)
  then show ?thesis unfolding lev_def of_int_xor_eq[symmetric] by (simp only:)
qed

lemma lev_nonneg: "fits TYPE('a::len) t z \<Longrightarrow> 0 <=s (lev t z :: 'a word) \<longleftrightarrow> 0 \<le> z"
  by (simp add: word_sle_eq sint_lev zero_le_mult_iff)

lemma lev_push: "push_bit k (lev t z) = lev t (2 ^ k * z)"
  by (simp add: lev_def push_bit_eq_mult mult_ac)

lemma lev_sdb: "fits TYPE('a::len) t (2 ^ k * z) \<Longrightarrow> signed_drop_bit k (lev t (2 ^ k * z) :: 'a word) = lev t z"
proof -
  assume f: "fits TYPE('a) t (2 ^ k * z)"
  have "sint (signed_drop_bit k (lev t (2 ^ k * z) :: 'a word)) = 2 ^ t * z"
    by (simp add: sint_signed_drop_bit_eq sint_lev[OF f] drop_bit_eq_div)
  moreover have "w = word_of_int (sint w)" for w :: "'a word" by simp
  ultimately show ?thesis unfolding lev_def by metis
qed

lemma and_minus_exp: "y AND - (2 ^ k) = y div 2 ^ k * 2 ^ k" for y :: int
proof -
  have "y AND - (2 ^ k) = y AND NOT (mask k)" by (simp add: minus_exp_eq_not_mask)
  also have "\<dots> = push_bit k (drop_bit k y)"
    by (rule bit_eqI) (auto simp: bit_simps)
  finally show ?thesis by (simp add: push_bit_eq_mult drop_bit_eq_div)
qed

lemma mask_lev: "(word_of_int y :: 'a::len word) AND lev t (- (2 ^ k)) = lev t (y div 2 ^ t div 2 ^ k * 2 ^ k)"
proof -
  have "(word_of_int y :: 'a word) AND lev t (- (2 ^ k)) = word_of_int (y AND - (2 ^ (t + k)))"
    unfolding lev_def of_int_and_eq by (simp add: power_add)
  also have "y AND - (2 ^ (t + k)) = 2 ^ t * (y div 2 ^ t div 2 ^ k * 2 ^ k)"
    unfolding and_minus_exp by (simp add: power_add zdiv_zmult2_eq)
  finally show ?thesis by (simp only: lev_def)
qed

lemma round_away2:
  assumes "fits TYPE('a::len) t z"
  shows "round_to (lev t 1) 0 (lev t (- 2)) (lev t z :: 'a word) = lev t (away2 z)"
proof -
  have m: "lev t x AND lev t (- 2) = (lev t (x div 2 * 2) :: 'a word)" for x
    using mask_lev[of "2 ^ t * x" t 1] by (simp add: lev_def)
  show ?thesis by (simp add: round_to_def lev_nonneg[OF assms] lev_add m away2_def)
qed

lemma round_near4:
  assumes "fits TYPE('a::len) t h"
  shows "round_to (lev t 2) (lev t 2 - 1) (lev t (- 4)) (lev t h :: 'a word) = lev t (near4 h)"
proof -
  have m: "word_of_int x AND lev t (- 4) = (lev t (x div 2 ^ t div 4 * 4) :: 'a word)" for x
    using mask_lev[of x t 2] by simp
  have e: "lev t h + (lev t 2 - 1) = (word_of_int (2 ^ t * (h + 2) - 1) :: 'a word)"
    unfolding lev_def by (simp add: distrib_left)
  have d: "(2 ^ t * (h + 2) - 1) div 2 ^ t = h + 1"
  proof -
    have "2 ^ t * (h + 2) - 1 = (2 ^ t - 1) + (h + 1) * 2 ^ t" by (simp add: algebra_simps)
    then show ?thesis by (simp only: div_mult_self1) simp
  qed
  have p: "lev t x AND lev t (- 4) = (lev t (x div 4 * 4) :: 'a word)" for x
    using m[of "2 ^ t * x"] by (simp add: lev_def)
  show ?thesis unfolding round_to_def lev_nonneg[OF assms] lev_add e near4_def
    by (simp only: m d p split: if_split) simp
qed

lemma round_exact:
  assumes "0 \<le> p" "p < 2 ^ t * 2 ^ k" "0 \<le> n" "n < 2 ^ t * 2 ^ k"
  shows "round_to (word_of_int p) (word_of_int n) (lev t (- (2 ^ k))) (lev t (2 ^ k * z) :: 'a::len word) = lev t (2 ^ k * z)"
proof -
  have "(lev t (2 ^ k * z) + word_of_int q) AND lev t (- (2 ^ k)) = (lev t (2 ^ k * z) :: 'a word)" if q: "0 \<le> q" "q < 2 ^ t * 2 ^ k" for q
  proof -
    have "lev t (2 ^ k * z) + word_of_int q = (word_of_int (q + z * (2 ^ t * 2 ^ k)) :: 'a word)"
      unfolding lev_def of_int_add[symmetric] by (simp add: mult_ac add.commute)
    moreover have "(q + z * (2 ^ t * 2 ^ k)) div 2 ^ t div 2 ^ k = z"
      using q by (simp flip: zdiv_zmult2_eq)
    ultimately show ?thesis by (simp only: mask_lev mult.commute)
  qed
  then show ?thesis using assms by (simp add: round_to_def)
qed

subsection \<open>One block\<close>

definition unit_of :: "nat \<Rightarrow> int" where
  "unit_of t = (if t = 0 then 1 else 2)"

definition room :: "'a::len itself \<Rightarrow> nat \<Rightarrow> int \<Rightarrow> bool" where
  "room _ t B \<longleftrightarrow> 1 \<le> B \<and> 2 ^ t * (32 * B) \<le> 2 ^ (LENGTH('a) - 1)"

definition htrans_level :: "nat \<Rightarrow> ('a::len word) ht_consts" where
  "htrans_level t = \<lparr>ht_shift = (if t = 0 then 0 else 1), ht_mask = lev t (- 2), ht_mask2 = lev t (- 4), ht_prnd = lev t 1,
     ht_prnd2 = lev t 2, ht_nrnd2 = lev t 2 - 1\<rparr>"

definition hinv_level :: "nat \<Rightarrow> ('a::len word) hi_consts" where
  "hinv_level t = \<lparr>hi_shift = (if t = 0 then 2 else 1), hi_bit0 = lev t 1, hi_bit1 = lev t 2, hi_mask0 = lev t (- 1),
     hi_mask1 = lev t (- 2), hi_prnd0 = word_of_int (2 ^ t div 2), hi_prnd1 = lev t 1,
     hi_nrnd0 = (if t = 0 then 0 else word_of_int (2 ^ t div 2 - 1)), hi_nrnd1 = word_of_int (2 ^ t - 1)\<rparr>"

definition at_level :: "nat \<Rightarrow> int \<Rightarrow> 'a::len word \<Rightarrow> bool" where
  "at_level t B w \<longleftrightarrow> (\<exists>n. \<bar>n\<bar> \<le> B \<and> w = lev t (unit_of t * n))"

lemma room_fits: "room TYPE('a::len) t B \<Longrightarrow> \<bar>z\<bar> \<le> 16 * B \<Longrightarrow> fits TYPE('a) t z"
proof -
  assume r: "room TYPE('a) t B" and z: "\<bar>z\<bar> \<le> 16 * B"
  have "\<bar>2 ^ t * z\<bar> \<le> 2 ^ t * (16 * B)" using z by (simp add: abs_mult)
  moreover have "0 < 2 ^ t * B" using r by (simp add: room_def)
  ultimately show ?thesis using r unfolding room_def fits_def by linarith
qed

lemma sdb_level:
  assumes "room TYPE('a::len) t B" "\<bar>s\<bar> \<le> 4 * B"
  shows "signed_drop_bit (if t = 0 then 0 else 1) (lev t (unit_of t * s) :: 'a word) = lev t s"
  using lev_sdb[of t 1 s, where ?'a = 'a] room_fits[OF assms(1), of "2 * s"] assms
  by (cases "t = 0") (auto simp: unit_of_def)

lemma push_level: "push_bit (j - (if t = 0 then 0 else 1)) (lev t (unit_of t * s)) = lev t (2 ^ j * s)" if "0 < j"
  using that by (cases j) (auto simp: unit_of_def lev_push mult_ac)

lemma htrans_level_full:
  assumes r: "room TYPE('a::len) t B" and n: "\<bar>a\<bar> \<le> B" "\<bar>b\<bar> \<le> B" "\<bar>c\<bar> \<le> B" "\<bar>d\<bar> \<le> B"
  shows "bo_full (htrans_ops (htrans_level t)) (lev t (unit_of t * a), lev t (unit_of t * b), lev t (unit_of t * c), lev t (unit_of t * d)) =
    (lev t (near4 (d + c + b + a)) :: 'a word, lev t (away2 (d - c + b - a)), lev t (away2 (d + c - b - a)), lev t (d - c - b + a))"
proof -
  note s = sdb_level[OF r]
  have f: "fits TYPE('a) t z" if "\<bar>z\<bar> \<le> 4 * B" for z using that by (intro room_fits[OF r]) simp
  show ?thesis
    using n by (simp add: htrans_ops_def htrans_level_def Let_def lev_add lev_diff s f round_near4 round_away2
        flip: distrib_left right_diff_distrib)
qed

lemma near4_even2: "(if 0 \<le> near4 h then near4 h - 2 * ((h div 2) mod 2) else near4 h + 2 * ((h div 2) mod 2)) = h" if "even h"
proof -
  from that obtain k where h: "h = 2 * k" by (rule evenE)
  have "2 * k div 2 = k" by simp
  then show ?thesis unfolding h using near4_even[of k] by (simp only:)
qed

lemma near4_bound: "\<bar>near4 h\<bar> \<le> \<bar>h\<bar> + 2"
  unfolding near4_def by auto

lemma away2_bound: "\<bar>away2 h\<bar> \<le> \<bar>h\<bar> + 1"
  unfolding away2_def by auto

lemma near4_exact: "near4 (4 * h) = 4 * h"
  unfolding near4_def by auto

lemma htrans_level_edges:
  assumes r: "room TYPE('a::len) t B" and n: "\<bar>a\<bar> \<le> B" "\<bar>b\<bar> \<le> B"
  shows "bo_right (htrans_ops (htrans_level t)) (lev t (unit_of t * a), lev t (unit_of t * b)) =
      (lev t (near4 (2 * (b + a))) :: 'a word, lev t (2 * (b - a)))"
    and "bo_bottom (htrans_ops (htrans_level t)) (lev t (unit_of t * a), lev t (unit_of t * b)) =
      (lev t (near4 (2 * (b + a))) :: 'a word, lev t (2 * (b - a)))"
    and "bo_corner (htrans_ops (htrans_level t)) (lev t (unit_of t * a)) = (lev t (4 * a) :: 'a word)"
proof -
  have f: "fits TYPE('a) t z" if "\<bar>z\<bar> \<le> 4 * B" for z using that by (intro room_fits[OF r]) simp
  have p: "push_bit (1 - (if t = 0 then 0 else 1)) (lev t (unit_of t * s)) = (lev t (2 * s) :: 'a word)"
    "push_bit (2 - (if t = 0 then 0 else 1)) (lev t (unit_of t * s)) = (lev t (4 * s) :: 'a word)" for s
    using push_level[of 1 t s] push_level[of 2 t s] by simp_all
  have sum: "lev t (unit_of t * b) + lev t (unit_of t * a) = (lev t (unit_of t * (b + a)) :: 'a word)"
    "lev t (unit_of t * b) - lev t (unit_of t * a) = (lev t (unit_of t * (b - a)) :: 'a word)"
    by (simp_all add: lev_add lev_diff distrib_left right_diff_distrib)
  have f1: "fits TYPE('a) t (2 * (b + a))" and f2: "fits TYPE('a) t (2 * (b - a))" and f3: "fits TYPE('a) t (4 * a)"
    and even: "even (2 * (b - a))"
    using n by (auto intro!: f)
  show "bo_right (htrans_ops (htrans_level t)) (lev t (unit_of t * a), lev t (unit_of t * b)) =
      (lev t (near4 (2 * (b + a))) :: 'a word, lev t (2 * (b - a)))"
    "bo_bottom (htrans_ops (htrans_level t)) (lev t (unit_of t * a), lev t (unit_of t * b)) =
      (lev t (near4 (2 * (b + a))) :: 'a word, lev t (2 * (b - a)))"
    "bo_corner (htrans_ops (htrans_level t)) (lev t (unit_of t * a)) = (lev t (4 * a) :: 'a word)"
    using n by (simp_all only: htrans_ops_def htrans_level_def Let_def block_ops.simps ht_consts.simps prod.case sum p f1 f2 f3
        round_near4 round_away2 even away2_even near4_exact)
qed

lemma hinv_sdb:
  assumes r: "room TYPE('a::len) t B" and n: "\<bar>n\<bar> \<le> B"
  shows "signed_drop_bit (if t = 0 then 2 else 1) (lev t (4 * n) :: 'a word) = lev t (unit_of t * n)"
  using lev_sdb[of t 1 "2 * n", where ?'a = 'a] lev_sdb[of t 2 n, where ?'a = 'a] room_fits[OF r, of "4 * n"] n
  by (auto simp: unit_of_def)

lemma hinv_round:
  shows "even x \<Longrightarrow> round_to (lev t 1) (word_of_int (2 ^ t - 1)) (lev t (- 2)) (lev t x :: 'a::len word) = lev t x"
    and "round_to (word_of_int (2 ^ t div 2)) (if t = 0 then 0 else word_of_int (2 ^ t div 2 - 1)) (lev t (- 1)) (lev t x :: 'a::len word) = lev t x"
proof -
  have "(2 :: int) ^ t - 1 < 2 ^ t * 2" using zero_less_power[of "2 :: int" t] by linarith
  then show "round_to (lev t 1) (word_of_int (2 ^ t - 1)) (lev t (- 2)) (lev t x :: 'a word) = lev t x" if "even x"
    using round_exact[of "2 ^ t" t 1 "2 ^ t - 1" "x div 2", where ?'a = 'a] that by (simp add: lev_def)
  have "(2 :: int) ^ t div 2 < 2 ^ t" "t \<noteq> 0 \<Longrightarrow> 0 \<le> (2 :: int) ^ t div 2 - 1" by (cases t; simp)+
  then show "round_to (word_of_int (2 ^ t div 2)) (if t = 0 then 0 else word_of_int (2 ^ t div 2 - 1)) (lev t (- 1)) (lev t x :: 'a word) = lev t x"
    using round_exact[of "2 ^ t div 2" t 0 "if t = 0 then 0 else 2 ^ t div 2 - 1" x, where ?'a = 'a] by (cases "t = 0") simp_all
qed

lemma lev_and_1: "lev t z AND lev t 1 = lev t (z mod 2)"
  by (simp add: lev_and and_one_eq)

lemma lev_and_2: "lev t z AND lev t 2 = lev t (2 * ((z div 2) mod 2))"
  by (simp add: lev_and and_2)

lemma lev_inject: "fits TYPE('a::len) t x \<Longrightarrow> fits TYPE('a) t y \<Longrightarrow> (lev t x :: 'a word) = lev t y \<longleftrightarrow> x = y"
  by (metis sint_lev mult_left_cancel power_eq_0_iff zero_neq_numeral)

lemma lev_0: "lev t 0 = 0"
  by (simp add: lev_def)

lemma away_by_lev: "fits TYPE('a::len) t x \<Longrightarrow> away_by (lev t x :: 'a word) (lev t l) = lev t (if 0 \<le> x then x - l else x + l)"
  by (simp add: away_by_def lev_nonneg lev_add lev_diff)

lemma xor3_div_2: "((z XOR x XOR y) div 2) mod 2 = (z div 2 + x div 2 + y div 2) mod 2" for x y z :: int
proof -
  have "odd ((z XOR x XOR y) div 2) \<longleftrightarrow> odd (z div 2 + x div 2 + y div 2)"
    using xor_div_2[of z "x XOR y"] xor_div_2[of x y] by auto
  then show ?thesis by presburger
qed

lemma even_away2: "even (away2 x)"
  by (simp add: away2_def)

lemma hinv_level_full:
  assumes r: "room TYPE('a::len) t B" and n: "\<bar>a\<bar> \<le> B" "\<bar>b\<bar> \<le> B" "\<bar>c\<bar> \<le> B" "\<bar>d\<bar> \<le> B"
  shows "bo_full (hinv_ops (hinv_level t)) (lev t (near4 (d + c + b + a)) :: 'a word, lev t (away2 (d - c + b - a)), lev t (away2 (d + c - b - a)), lev t (d - c - b + a))
    = (lev t (unit_of t * a), lev t (unit_of t * b), lev t (unit_of t * c), lev t (unit_of t * d))"
proof -
  define h x y z where v: "h = d + c + b + a" "x = d + c - b - a" "y = d - c + b - a" "z = d - c - b + a"
  have B: "1 \<le> B" using r by (simp add: room_def)
  have f: "fits TYPE('a) t q" if "\<bar>q\<bar> \<le> 8 * B" for q using that B by (intro room_fits[OF r]) linarith
  have "\<bar>h\<bar> \<le> 4 * B" "\<bar>x\<bar> \<le> 4 * B" "\<bar>y\<bar> \<le> 4 * B" unfolding v using n by linarith+
  then have g: "fits TYPE('a) t (near4 h)" "fits TYPE('a) t (away2 x)" "fits TYPE('a) t (away2 y)"
    using B near4_bound[of h] away2_bound[of x] away2_bound[of y] by (intro f; linarith)+
  have m: "fits TYPE('a) t (z mod 2)" "fits TYPE('a) t 0"
  proof -
    have "\<bar>z mod 2\<bar> \<le> 1" by simp
    then show "fits TYPE('a) t (z mod 2)" using B by (intro f) linarith
  qed (use B in \<open>auto intro: f\<close>)
  have lz: "lev t (z mod 2) = (0 :: 'a word) \<longleftrightarrow> z mod 2 = 0" using lev_inject[OF m] by (simp add: lev_0)
  have e: "even (x - z)" "even (y - z)" "h = 4 * d - x - y - z" by (simp_all add: v)
  have hx: "away_by (lev t (away2 x) :: 'a word) (lev t (z mod 2)) = lev t x"
    "away_by (lev t (away2 y) :: 'a word) (lev t (z mod 2)) = lev t y"
    by (simp_all only: away_by_lev[OF g(2)] away_by_lev[OF g(3)] away2_undo[OF e(1)] away2_undo[OF e(2)])
  have h0: "(if 0 <=s (lev t (near4 h) :: 'a word) then lev t (near4 h) + lev t (z mod 2) - lev t (2 * ((z div 2 + x div 2 + y div 2) mod 2))
     else if lev t (z mod 2) = (0 :: 'a word) then lev t (near4 h) + lev t (2 * ((z div 2 + x div 2 + y div 2) mod 2))
     else lev t (near4 h) + (lev t (z mod 2) - lev t (2 * ((z div 2 + x div 2 + y div 2) mod 2)))) = lev t h"
    unfolding lev_nonneg[OF g(1)] lz lev_add lev_diff
    using block_parity[OF e] by (simp only: if_distrib[of "lev t", symmetric])
  have s: "h - x - y + z = 4 * a" "h - x + y - z = 4 * b" "h + x - y - z = 4 * c" "h + x + y + z = 4 * d" by (simp_all add: v)
  show ?thesis
    unfolding v[symmetric] hinv_ops_def hinv_level_def Let_def
    by (simp only: block_ops.simps hi_consts.simps prod.case hinv_round(1)[OF even_away2] hinv_round(2) lev_and_1 hx lev_xor lev_and_2 xor3_div_2 h0)
      (simp only: lev_add lev_diff s hinv_sdb[OF r] n)
qed

lemma hinv_level_edges:
  assumes r: "room TYPE('a::len) t B" and n: "\<bar>a\<bar> \<le> B" "\<bar>b\<bar> \<le> B"
  shows "bo_right (hinv_ops (hinv_level t)) (lev t (near4 (2 * (b + a))) :: 'a word, lev t (2 * (b - a))) =
      (lev t (unit_of t * a), lev t (unit_of t * b))"
    and "bo_bottom (hinv_ops (hinv_level t)) (lev t (near4 (2 * (b + a))) :: 'a word, lev t (2 * (b - a))) =
      (lev t (unit_of t * a), lev t (unit_of t * b))"
    and "bo_corner (hinv_ops (hinv_level t)) (lev t (4 * a) :: 'a word) = lev t (unit_of t * a)"
proof -
  define h x where v: "h = 2 * (b + a)" "x = 2 * (b - a)"
  have B: "1 \<le> B" using r by (simp add: room_def)
  have "\<bar>h\<bar> \<le> 4 * B" using n unfolding v abs_le_iff by simp
  then have "\<bar>near4 h\<bar> \<le> 16 * B" using near4_bound[of h] B by linarith
  then have g: "fits TYPE('a) t (near4 h)" by (rule room_fits[OF r])
  have e: "even h" "even x" by (simp_all add: v)
  have "(x div 2) mod 2 = (h div 2) mod 2" by (simp add: v) presburger
  then have h0: "away_by (lev t (near4 h) :: 'a word) (lev t (2 * ((x div 2) mod 2))) = lev t h"
    by (simp only: away_by_lev[OF g] near4_even2[OF e(1)])
  have s: "h - x = 4 * a" "h + x = 4 * b" by (simp_all add: v)
  show "bo_right (hinv_ops (hinv_level t)) (lev t (near4 (2 * (b + a))) :: 'a word, lev t (2 * (b - a))) =
      (lev t (unit_of t * a), lev t (unit_of t * b))"
    "bo_bottom (hinv_ops (hinv_level t)) (lev t (near4 (2 * (b + a))) :: 'a word, lev t (2 * (b - a))) =
      (lev t (unit_of t * a), lev t (unit_of t * b))"
    unfolding v[symmetric] hinv_ops_def hinv_level_def Let_def
    by (simp_all only: block_ops.simps hi_consts.simps prod.case hinv_round(1)[OF e(2)] lev_and_2 h0 lev_add lev_diff s hinv_sdb[OF r] n)
  show "bo_corner (hinv_ops (hinv_level t)) (lev t (4 * a) :: 'a word) = lev t (unit_of t * a)"
    unfolding hinv_ops_def hinv_level_def by (simp only: block_ops.simps hi_consts.simps hinv_sdb[OF r n(1)])
qed

lemma block_inverse:
  assumes r: "room TYPE('a::len) t B"
  shows "ops_inverse (at_level t B) (htrans_ops (htrans_level t) :: ('a word) block_ops) (hinv_ops (hinv_level t))"
  unfolding ops_inverse_def at_level_def
  using htrans_level_full[OF r] hinv_level_full[OF r] htrans_level_edges[OF r] hinv_level_edges[OF r]
  by (auto simp del: of_int_mult)

subsection \<open>One level\<close>

definition level_cells :: "nat \<Rightarrow> int \<Rightarrow> nat \<Rightarrow> nat \<Rightarrow> nat \<Rightarrow> 'a::len word list \<Rightarrow> bool" where
  "level_cells t B w nx ny a \<longleftrightarrow> (\<forall>i < nx. \<forall>j < ny. at_level t B (cell a 0 w i j))"

definition small :: "'a::len word \<Rightarrow> bool" where
  "small v \<longleftrightarrow> \<bar>sint v\<bar> < 2 ^ (LENGTH('a) - 3)"

lemma near4_div: "\<bar>h\<bar> \<le> 4 * B \<Longrightarrow> \<exists>q. near4 h = 4 * q \<and> \<bar>q\<bar> \<le> B"
  by (rule exI[of _ "near4 h div 4"]) (auto simp: near4_def)

lemma at_level_next:
  assumes "\<bar>h\<bar> \<le> 4 * B"
  shows "at_level (Suc t) B (lev t (near4 h) :: 'a::len word)"
proof -
  obtain q where "near4 h = 4 * q" "\<bar>q\<bar> \<le> B" using near4_div[OF assms] by blast
  moreover have "(lev t (4 * q) :: 'a word) = lev (Suc t) (unit_of (Suc t) * q)"
    by (simp add: lev_def unit_of_def)
  ultimately show ?thesis by (auto simp: at_level_def)
qed

lemma room_small:
  assumes r: "room TYPE('a::len) t B" and z: "\<bar>z\<bar> \<le> 4 * B + 2"
  shows "small (lev t z :: 'a word)"
proof -
  have B: "1 \<le> B" "2 ^ t * (32 * B) \<le> 2 ^ (LENGTH('a) - 1)" using r by (auto simp: room_def)
  have "(32 :: int) \<le> 2 ^ t * (32 * B)" using B(1) mult_mono[of 1 "2 ^ t" 32 "32 * B"] by simp
  then have "(2 :: int) ^ 5 \<le> 2 ^ (LENGTH('a) - 1)" using B(2) by simp
  then have n: "5 \<le> LENGTH('a) - 1" by (rule power_le_imp_le_exp[rotated]) simp
  then have "LENGTH('a) - 1 = 2 + (LENGTH('a) - 3)" by simp
  then have "(2 :: int) ^ (LENGTH('a) - 1) = 4 * 2 ^ (LENGTH('a) - 3)" by (simp only: power_add) simp
  moreover have "\<bar>2 ^ t * z\<bar> \<le> 2 ^ t * (4 * B + 2)" using z by (simp add: abs_mult)
  moreover have "2 ^ t * (4 * B + 2) < 2 ^ t * (8 * B)" using B by simp
  ultimately have "\<bar>2 ^ t * z\<bar> < 2 ^ (LENGTH('a) - 3)" using B(2) by linarith
  then show ?thesis using sint_lev[OF room_fits[OF r, of z]] z B by (simp add: small_def)
qed

lemma htrans_outputs:
  assumes r: "room TYPE('a::len) t B" and m: "\<And>i j. i < nx \<Longrightarrow> j < ny \<Longrightarrow> at_level t B (m i j :: 'a word)" and i: "i < nx" "j < ny"
  shows "small (block_at (htrans_ops (htrans_level t)) nx ny m i j) \<and>
    (even i \<longrightarrow> even j \<longrightarrow> at_level (Suc t) B (block_at (htrans_ops (htrans_level t)) nx ny m i j))"
proof -
  define p q where pq: "p = 2 * (i div 2)" "q = 2 * (j div 2)"
  have le: "p < nx" "q < ny" using i by (auto simp: pq)
  obtain a where a: "m p q = lev t (unit_of t * a)" "\<bar>a\<bar> \<le> B" using m[OF le] by (auto simp: at_level_def)
  have o: "odd i \<Longrightarrow> p + 1 < nx" "odd j \<Longrightarrow> q + 1 < ny" using i unfolding pq by presburger+
  note s = room_small[OF r] and n = at_level_next[where t = t and 'a = 'a]
  consider "p + 1 < nx" "q + 1 < ny" | "p + 1 < nx" "\<not> q + 1 < ny" | "\<not> p + 1 < nx" "q + 1 < ny" | "\<not> p + 1 < nx" "\<not> q + 1 < ny" by blast
  then show ?thesis
  proof cases
    case 1
    obtain b where b: "m p (q + 1) = lev t (unit_of t * b)" "\<bar>b\<bar> \<le> B" using m 1 le by (meson at_level_def)
    obtain c where c: "m (p + 1) q = lev t (unit_of t * c)" "\<bar>c\<bar> \<le> B" using m 1 le by (meson at_level_def)
    obtain d where d: "m (p + 1) (q + 1) = lev t (unit_of t * d)" "\<bar>d\<bar> \<le> B" using m 1 by (meson at_level_def)
    have l: "\<bar>d + c + b + a\<bar> \<le> 4 * B" "\<bar>d - c + b - a\<bar> \<le> 4 * B" "\<bar>d + c - b - a\<bar> \<le> 4 * B" "\<bar>d - c - b + a\<bar> \<le> 4 * B"
      using a(2) b(2) c(2) d(2) by linarith+
    have "small (lev t (near4 (d + c + b + a)) :: 'a word)" "small (lev t (away2 (d - c + b - a)) :: 'a word)"
      "small (lev t (away2 (d + c - b - a)) :: 'a word)" "small (lev t (d - c - b + a) :: 'a word)"
      using l near4_bound[of "d + c + b + a"] away2_bound[of "d - c + b - a"] away2_bound[of "d + c - b - a"] by (intro s; linarith)+
    with 1 n[OF l(1)] show ?thesis
      unfolding block_at_def Let_def pq[symmetric] a(1) b(1) c(1) d(1) htrans_level_full[OF r a(2) b(2) c(2) d(2)]
      by (simp del: of_int_mult)
  next
    case 2
    obtain c where c: "m (p + 1) q = lev t (unit_of t * c)" "\<bar>c\<bar> \<le> B" using m 2 le by (meson at_level_def)
    have l: "\<bar>2 * (c + a)\<bar> \<le> 4 * B" "\<bar>2 * (c - a)\<bar> \<le> 4 * B" using a(2) c(2) unfolding abs_le_iff by simp_all
    have "small (lev t (near4 (2 * (c + a))) :: 'a word)" "small (lev t (2 * (c - a)) :: 'a word)"
      using l near4_bound[of "2 * (c + a)"] by (intro s; linarith)+
    with 2 n[OF l(1)] o show ?thesis
      unfolding block_at_def Let_def pq[symmetric] a(1) c(1) htrans_level_edges[OF r a(2) c(2)] by (auto simp del: of_int_mult)
  next
    case 3
    obtain c where c: "m p (q + 1) = lev t (unit_of t * c)" "\<bar>c\<bar> \<le> B" using m 3 le by (meson at_level_def)
    have l: "\<bar>2 * (c + a)\<bar> \<le> 4 * B" "\<bar>2 * (c - a)\<bar> \<le> 4 * B" using a(2) c(2) unfolding abs_le_iff by simp_all
    have "small (lev t (near4 (2 * (c + a))) :: 'a word)" "small (lev t (2 * (c - a)) :: 'a word)"
      using l near4_bound[of "2 * (c + a)"] by (intro s; linarith)+
    with 3 n[OF l(1)] o show ?thesis
      unfolding block_at_def Let_def pq[symmetric] a(1) c(1) htrans_level_edges[OF r a(2) c(2)] by (auto simp del: of_int_mult)
  next
    case 4
    have l: "\<bar>4 * a\<bar> \<le> 4 * B" using a(2) by simp
    have "small (lev t (4 * a) :: 'a word)" using l by (intro s) linarith
    with 4 n[OF l] show ?thesis
      unfolding block_at_def Let_def pq[symmetric] a(1) htrans_level_edges(3)[OF r a(2) a(2)] by (simp add: near4_exact del: of_int_mult)
  qed
qed

lemma htrans_pass_props:
  fixes a :: "'a::len word list"
  assumes r: "room TYPE('a) t B" and ar: "in_array 0 w nx ny (length a)" and p: "0 < nx" "0 < ny" and lv: "level_cells t B w nx ny a"
  defines "b \<equiv> htrans_pass w (htrans_level t) nx ny a"
  shows "length b = length a"
    and "level_cells (Suc t) B w ((nx + 1) div 2) ((ny + 1) div 2) b"
    and "i < nx \<Longrightarrow> j < ny \<Longrightarrow> small (cell b 0 w i j)"
    and "(\<And>i j. i < nx \<Longrightarrow> j < ny \<Longrightarrow> x \<noteq> w * i + j) \<Longrightarrow> b ! x = a ! x"
proof -
  define a1 where "a1 = foldl (block_step (\<lambda>_. htrans_ops (htrans_level t :: ('a word) ht_consts)) 0 w nx ny) a (blocks nx ny)"
  have l1: "length a1 = length a" by (simp add: a1_def)
  have ar1: "in_array 0 w nx ny (length a1)" using ar l1 by simp
  have b: "b = shuffled w nx ny a1" by (simp add: b_def htrans_pass_def a1_def)
  note S = shuffle_cell[OF ar1 p]
  have m: "at_level t B (cell a 0 w i j)" if "i < nx" "j < ny" for i j using lv that by (simp add: level_cells_def)
  have O: "small (block_at (htrans_ops (htrans_level t)) nx ny (cell a 0 w) i j) \<and>
      (even i \<longrightarrow> even j \<longrightarrow> at_level (Suc t) B (block_at (htrans_ops (htrans_level t)) nx ny (cell a 0 w) i j))"
    if "i < nx" "j < ny" for i j
    by (rule htrans_outputs[OF r m that])
  have c: "cell b 0 w i j = block_at (htrans_ops (htrans_level t)) nx ny (cell a 0 w) (from_even_odd nx i) (from_even_odd ny j)"
    if i: "i < nx" "j < ny" for i j
  proof -
    have f: "from_even_odd nx i < nx" "from_even_odd ny j < ny" using i by (auto simp: from_even_odd_def)
    show ?thesis using S(2)[OF i] blocks_at[OF ar f, of "\<lambda>_. htrans_ops (htrans_level t)"] by (simp add: b a1_def)
  qed
  show "length b = length a" using S(1) l1 by (simp add: b)
  show "small (cell b 0 w i j)" if i: "i < nx" "j < ny" for i j
  proof -
    have f: "from_even_odd nx i < nx" "from_even_odd ny j < ny" using i by (auto simp: from_even_odd_def)
    show ?thesis unfolding c[OF i] by (rule conjunct1[OF O[OF f]])
  qed
  show "level_cells (Suc t) B w ((nx + 1) div 2) ((ny + 1) div 2) b"
    unfolding level_cells_def
  proof (intro allI impI)
    fix i j assume i: "i < (nx + 1) div 2" "j < (ny + 1) div 2"
    then have "from_even_odd nx i = 2 * i" "from_even_odd ny j = 2 * j" "2 * i < nx" "2 * j < ny" "i < nx" "j < ny"
      by (auto simp: from_even_odd_def)
    then show "at_level (Suc t) B (cell b 0 w i j)" using O[of "2 * i" "2 * j"] c[of i j] by simp
  qed
  show "b ! x = a ! x" if x: "\<And>i j. i < nx \<Longrightarrow> j < ny \<Longrightarrow> x \<noteq> w * i + j"
    using S(3)[OF x] blocks_out[OF ar, of x] x by (simp add: b a1_def)
qed

lemma hsmooth_off:
  assumes s: "scale <=s 1" and l: "32 \<le> LENGTH('a)"
  shows "hsmooth a nx ny w scale = (a :: 'a::len word list)"
proof -
  define h where "h = signed_drop_bit 1 scale"
  have h: "sint h \<le> 0"
    using s by (simp add: h_def sint_signed_drop_bit_eq word_sle_eq drop_bit_eq_div)
  have "- (2 ^ 31) \<le> sint h" using sint_greater_eq[of h] by simp
  moreover have "(2 :: int) ^ 31 \<le> 2 ^ (LENGTH('a) - 1)" using l by (intro power_increasing) simp_all
  ultimately have "- (2 ^ (LENGTH('a) - 1)) \<le> sint h" "sint h < 2 ^ (LENGTH('a) - 1)"
    using h zero_less_power[of "2 :: int" "LENGTH('a) - 1"] by linarith+
  then have "signed_take_bit (LENGTH('a) - Suc 0) (sint h) = sint h"
    by (intro signed_take_bit_int_eq_self) simp_all
  then have "scast h <=s (0 :: 'a word)" using h by (simp add: word_sle_eq signed_scast_eq)
  then show ?thesis unfolding hsmooth_def h_def[symmetric] Let_def by (simp only: if_True)
qed

lemma hinv_pass_inverse:
  fixes a :: "'a::len word list"
  assumes r: "room TYPE('a) t B" and ar: "in_array 0 w nx ny (length a)" and p: "0 < nx" "0 < ny" and lv: "level_cells t B w nx ny a"
    and s: "smooth \<Longrightarrow> scale <=s 1" and l: "32 \<le> LENGTH('a)"
  shows "hinv_pass w smooth scale (hinv_level t) nx ny (htrans_pass w (htrans_level t) nx ny a) = a"
proof -
  define a1 where "a1 = foldl (block_step (\<lambda>_. htrans_ops (htrans_level t :: ('a word) ht_consts)) 0 w nx ny) a (blocks nx ny)"
  have l1: "length a1 = length a" by (simp add: a1_def)
  have ar1: "in_array 0 w nx ny (length a1)" using ar l1 by simp
  have "unshuffled w nx ny (htrans_pass w (htrans_level t) nx ny a) = a1"
    unfolding htrans_pass_def a1_def[symmetric] by (rule hunshuffle_hshuffle[OF ar1 p])
  then have h: "hinv_pass w smooth scale (hinv_level t) nx ny (htrans_pass w (htrans_level t) nx ny a) =
      foldl (block_step (\<lambda>_. hinv_ops (hinv_level t)) 0 w nx ny) a1 (blocks nx ny)"
    using s l by (simp add: hinv_pass_def hsmooth_off Let_def)
  show ?thesis unfolding h
  proof (rule region_eqI[where w = w and nx = nx and ny = ny])
    fix i j assume i: "i < nx" "j < ny"
    have e: "block_at g nx ny f i j = block_at g nx ny f' i j" if "\<And>i j. i < nx \<Longrightarrow> j < ny \<Longrightarrow> f i j = f' i j" for g and f f' :: "nat \<Rightarrow> nat \<Rightarrow> 'a word"
      using i that by (auto simp: block_at_def Let_def)
    show "cell (foldl (block_step (\<lambda>_. hinv_ops (hinv_level t)) 0 w nx ny) a1 (blocks nx ny)) 0 w i j = cell a 0 w i j"
      unfolding blocks_at[OF ar1 i]
      using blocks_at[OF ar] lv block_at_inverse[OF block_inverse[OF r], of nx ny "cell a 0 w" i j] i
        e[of "cell a1 0 w" "block_at (htrans_ops (htrans_level t)) nx ny (cell a 0 w)" "hinv_ops (hinv_level t)"]
      by (simp add: level_cells_def a1_def)
  next
    fix x assume "\<And>i j. i < nx \<Longrightarrow> j < ny \<Longrightarrow> x \<noteq> w * i + j"
    then show "foldl (block_step (\<lambda>_. hinv_ops (hinv_level t)) 0 w nx ny) a1 (blocks nx ny) ! x = a ! x"
      using blocks_out[OF ar1, of x] blocks_out[OF ar, of x] by (simp add: a1_def)
  qed (simp add: l1)
qed

lemma room_mono: "room TYPE('a::len) t B \<Longrightarrow> s \<le> t \<Longrightarrow> room TYPE('a) s B"
proof -
  assume r: "room TYPE('a) t B" and s: "s \<le> t"
  have "2 ^ s * (32 * B) \<le> 2 ^ t * (32 * B)" using r s by (intro mult_right_mono) (simp_all add: room_def)
  then show ?thesis using r unfolding room_def by linarith
qed

lemma htrans_next_level: "htrans_next (htrans_level t) = (htrans_level (Suc t) :: ('a::len word) ht_consts)"
  unfolding htrans_next_def htrans_level_def
  by (simp add: lev_push) (simp add: lev_def)

lemma htrans_start_level: "htrans_start = (htrans_level 0 :: ('a::len word) ht_consts)"
  by (simp add: htrans_start_def htrans_level_def lev_def push_bit_eq_mult)

text \<open>The constants of the inverse before the two the last round changes.\<close>

definition hinv_pre :: "nat \<Rightarrow> ('a::len word) hi_consts" where
  "hinv_pre t = (hinv_level t)\<lparr>hi_shift := 1, hi_nrnd0 := word_of_int (2 ^ t div 2 - 1)\<rparr>"

lemma hinv_pre_level: "(if t = 0 then (hinv_pre t)\<lparr>hi_nrnd0 := 0, hi_shift := 2\<rparr> else hinv_pre t) = (hinv_level t :: ('a::len word) hi_consts)"
  by (simp add: hinv_pre_def hinv_level_def)

lemma hinv_next_level:
  assumes r: "room TYPE('a::len) (Suc t) B"
  shows "hinv_next (hinv_level (Suc t)) = (hinv_pre t :: ('a word) hi_consts)"
proof -
  have B: "1 \<le> B" using r by (simp add: room_def)
  have f: "fits TYPE('a) t' (2 ^ 1 * z)" if "t' \<le> t" "\<bar>z\<bar> \<le> 1" for t' z
    using that B by (intro room_fits[OF room_mono[OF r]]) auto
  have d: "signed_drop_bit 1 (lev (Suc t) z) = (lev t z :: 'a word)" if "\<bar>z\<bar> \<le> 1" for z
    using lev_sdb[OF f[OF le_refl that]] by (simp add: lev_def mult_ac)
  have p: "signed_drop_bit 1 (word_of_int (2 ^ Suc t div 2) :: 'a word) = word_of_int (2 ^ t div 2)"
  proof (cases t)
    case 0
    have "signed_drop_bit 1 (1 :: 'a word) = 0"
    proof -
      have "sint (signed_drop_bit 1 (1 :: 'a word)) = 0"
        using sint_lev[OF room_fits[OF room_mono[OF r, of 0], of 1]] B by (auto simp: lev_def sint_signed_drop_bit_eq split: if_splits)
      then show ?thesis using signed_eq_0_iff by blast
    qed
    with 0 show ?thesis by simp
  next
    case (Suc s)
    then show ?thesis using lev_sdb[OF f[of s 1]] by (simp add: lev_def mult_ac)
  qed
  show ?thesis
    unfolding hinv_next_def hinv_level_def hinv_pre_def using d[of 1] d[of "- 1"] p by (simp add: lev_def)
qed

lemma hinv_start_level:
  assumes r: "room TYPE('a::len) t B"
  shows "hinv_start (Suc t) = (hinv_pre t :: ('a word) hi_consts)"
proof -
  have B: "1 \<le> B" "2 ^ t * (32 * B) \<le> 2 ^ (LENGTH('a) - 1)" using r by (auto simp: room_def)
  have "(2 :: int) ^ t \<le> 2 ^ t * (32 * B)" using B(1) by simp
  then have "(2 :: int) ^ t \<le> 2 ^ (LENGTH('a) - 1)" using B(2) by linarith
  then have t: "t < LENGTH('a)" using power_le_imp_le_exp[of "2 :: int" t "LENGTH('a) - 1"] by simp
  have f: "fits TYPE('a) t' (2 ^ 1 * z)" if "t' \<le> t" "\<bar>z\<bar> \<le> 2" for t' z
    using that B by (intro room_fits[OF room_mono[OF r]]) auto
  have b: "push_bit ((Suc t + LENGTH('a) - 1) mod LENGTH('a)) 1 = (lev t 1 :: 'a word)"
    using t by (simp add: lev_def push_bit_eq_mult)
  have p: "signed_drop_bit 1 (lev t 1 :: 'a word) = word_of_int (2 ^ t div 2)"
  proof (cases t)
    case 0
    have "sint (signed_drop_bit 1 (1 :: 'a word)) = 0"
      using sint_lev[OF room_fits[OF room_mono[OF r, of 0], of 1]] B by (auto simp: lev_def sint_signed_drop_bit_eq split: if_splits)
    then have "signed_drop_bit 1 (1 :: 'a word) = 0" using signed_eq_0_iff by blast
    with 0 show ?thesis by (simp add: lev_def)
  next
    case (Suc s)
    then show ?thesis using lev_sdb[OF f[of s 1]] by (simp add: lev_def mult_ac)
  qed
  have p1: "signed_drop_bit 1 (lev t 2 :: 'a word) = lev t 1" using lev_sdb[OF f[of t 1]] by simp
  have l: "push_bit 1 (lev t 1) = (lev t 2 :: 'a word)" "push_bit 1 (- lev t 1) = (lev t (- 2) :: 'a word)" "- lev t 1 = (lev t (- 1) :: 'a word)"
    by (simp_all add: lev_def push_bit_eq_mult)
  show ?thesis
    unfolding hinv_start_def b Let_def p l p1 hinv_pre_def hinv_level_def by (simp add: lev_def)
qed

subsection \<open>All levels\<close>

fun forward_levels :: "nat \<Rightarrow> nat \<Rightarrow> nat \<Rightarrow> 'a::len word list \<Rightarrow> 'a word list" where
  "forward_levels 0 nx ny a = a"
| "forward_levels (Suc k) nx ny a = htrans_pass ny (htrans_level k) (halve k nx) (halve k ny) (forward_levels k nx ny a)"

fun inverse_levels :: "nat \<Rightarrow> nat \<Rightarrow> nat \<Rightarrow> bool \<Rightarrow> i32 \<Rightarrow> 'a::len word list \<Rightarrow> 'a word list" where
  "inverse_levels 0 nx ny smooth scale a = a"
| "inverse_levels (Suc k) nx ny smooth scale a =
     inverse_levels k nx ny smooth scale (hinv_pass ny smooth scale (hinv_level k) (halve k nx) (halve k ny) a)"

lemma htrans_loop_levels:
  "htrans_loop k ny (htrans_level t) (halve t nx) (halve t ny) (forward_levels t nx ny a) = forward_levels (t + k) nx ny a"
proof (induction k arbitrary: t)
  case (Suc k)
  then show ?case using Suc[of "Suc t"] by (simp add: htrans_next_level halve_Suc del: halve.simps(2))
qed simp

lemma htrans_levels: "htrans a nx ny = forward_levels (log2n_of (max nx ny)) nx ny a"
  using htrans_loop_levels[of "log2n_of (max nx ny)" ny 0 nx a] by (simp add: htrans_def htrans_start_level)

lemma hinv_loop_levels:
  assumes "\<And>t. t < k \<Longrightarrow> room TYPE('a::len) t B" "grown nx k sx" "grown ny k sy"
  shows "hinv_loop k ny smooth scale (if k = 0 then hc else hinv_pre (k - 1)) sx sy (2 ^ k) a =
    inverse_levels k nx ny smooth scale (a :: 'a word list)"
  using assms
proof (induction k arbitrary: sx sy a hc)
  case (Suc k)
  have r: "room TYPE('a) k B" "\<And>t. t < k \<Longrightarrow> room TYPE('a) t B" using Suc.prems(1) by simp_all
  note g = grown_step[OF Suc.prems(2)] grown_step[OF Suc.prems(3)]
  have n: "hinv_next (hinv_level k) = (if k = 0 then hinv_next (hinv_level 0) else hinv_pre (k - 1) :: ('a word) hi_consts)"
    using hinv_next_level[of "k - 1" B, where ?'a = 'a] r(1) by (cases k) auto
  show ?case
    using Suc.IH[OF r(2) g] grown_halve[OF g(1)] grown_halve[OF g(2)] n
    by (simp add: Let_def hinv_pre_level)
qed simp

lemma halve_in_array: "0 < nx \<Longrightarrow> length a = nx * ny \<Longrightarrow> in_array 0 ny (halve k nx) (halve k ny) (length a)"
proof -
  assume p: "0 < nx" and l: "length a = nx * ny"
  have "ny * (halve k nx - 1) \<le> ny * (nx - 1)" using halve_le[of k nx] by (intro mult_le_mono2) simp
  moreover have "ny * (nx - 1) + ny = nx * ny" using p by (cases nx) simp_all
  ultimately have "ny * (halve k nx - 1) + halve k ny \<le> nx * ny" using halve_le[of k ny] by linarith
  then show ?thesis using halve_le[of k ny] l by (simp add: in_array_def)
qed

lemma forward_levels_props:
  assumes l: "length a = nx * ny" and p: "0 < nx" "0 < ny" and lv: "level_cells 0 B ny nx ny (a :: 'a::len word list)"
  shows "(\<And>t. t < k \<Longrightarrow> room TYPE('a) t B) \<Longrightarrow> length (forward_levels k nx ny a) = length a \<and>
    level_cells k B ny (halve k nx) (halve k ny) (forward_levels k nx ny a) \<and>
    (0 < k \<longrightarrow> (\<forall>i < nx. \<forall>j < ny. small (cell (forward_levels k nx ny a) 0 ny i j)))"
proof (induction k)
  case (Suc k)
  let ?b = "forward_levels k nx ny a"
  have r: "room TYPE('a) k B" using Suc.prems by simp
  have IH: "length ?b = length a" "level_cells k B ny (halve k nx) (halve k ny) ?b"
    "0 < k \<Longrightarrow> i < nx \<Longrightarrow> j < ny \<Longrightarrow> small (cell ?b 0 ny i j)" for i j
    using Suc by auto
  have ar: "in_array 0 ny (halve k nx) (halve k ny) (length ?b)" using halve_in_array[OF p(1) l] IH(1) by simp
  note P = htrans_pass_props[OF r ar halve_pos[OF p(1)] halve_pos[OF p(2)] IH(2)]
  have "small (cell (forward_levels (Suc k) nx ny a) 0 ny i j)" if i: "i < nx" "j < ny" for i j
  proof (cases "i < halve k nx \<and> j < halve k ny")
    case False
    then have k: "0 < k" using i by (cases k) auto
    have "ny * i + j \<noteq> ny * i' + j'" if "i' < halve k nx" "j' < halve k ny" for i' j'
      using cell_inject[of j ny j' 0 i i'] i(2) halve_le[of k ny] that False by auto
    then show ?thesis using P(4)[of "ny * i + j"] IH(3)[OF k i] by (simp add: cell_def)
  qed (use P(3) in simp)
  then show ?case using P(1,2) IH(1) by (simp add: halve_Suc del: halve.simps)
qed (use lv in simp)

lemma inverse_forward:
  assumes l: "length a = nx * ny" and p: "0 < nx" "0 < ny" and lv: "level_cells 0 B ny nx ny (a :: 'a::len word list)"
    and s: "smooth \<Longrightarrow> scale <=s 1" and w: "32 \<le> LENGTH('a)"
  shows "(\<And>t. t < k \<Longrightarrow> room TYPE('a) t B) \<Longrightarrow> inverse_levels k nx ny smooth scale (forward_levels k nx ny a) = a"
proof (induction k)
  case (Suc k)
  have r: "room TYPE('a) k B" using Suc.prems by simp
  have F: "length (forward_levels k nx ny a) = length a" "level_cells k B ny (halve k nx) (halve k ny) (forward_levels k nx ny a)"
    using forward_levels_props[OF l p lv] Suc.prems by auto
  have "in_array 0 ny (halve k nx) (halve k ny) (length (forward_levels k nx ny a))"
    using halve_in_array[OF p(1) l] F(1) by simp
  from hinv_pass_inverse[OF r this halve_pos[OF p(1)] halve_pos[OF p(2)] F(2) s w] show ?case using Suc by simp
qed simp

lemma log2n_pos: "1 < n \<Longrightarrow> 0 < log2n_of n"
  by (subst log2n_of.simps) simp

lemma at_level_0:
  fixes w :: "'a::len word"
  assumes that: "fits TYPE('a) 0 B" "fits TYPE('a) 0 (- B)"
  shows "at_level 0 B w \<longleftrightarrow> \<bar>sint w\<bar> \<le> B"
proof
  assume "at_level 0 B w"
  then obtain n where n: "\<bar>n\<bar> \<le> B" "w = lev 0 n" by (auto simp: at_level_def unit_of_def)
  then have "fits TYPE('a) 0 n" using that unfolding fits_def by auto
  then show "\<bar>sint w\<bar> \<le> B" using n sint_lev[of 0 n, where ?'a = 'a] by simp
next
  assume "\<bar>sint w\<bar> \<le> B"
  moreover have "w = lev 0 (sint w)" by (simp add: lev_def)
  ultimately show "at_level 0 B w" by (auto simp: at_level_def unit_of_def)
qed

lemma htrans_inverse:
  fixes a :: "'a::len word list"
  assumes l: "length a = nx * ny" and p: "0 < nx" "0 < ny" "1 < max nx ny" and B: "\<forall>v \<in> set a. \<bar>sint v\<bar> \<le> B"
    and r: "room TYPE('a) (log2n_of (max nx ny) - 1) B" and s: "smooth \<Longrightarrow> scale <=s 1" and w: "32 \<le> LENGTH('a)"
  shows "length (htrans a nx ny) = length a" "\<forall>v \<in> set (htrans a nx ny). small v"
    "hinv (htrans a nx ny) nx ny smooth scale = a"
proof -
  let ?m = "max nx ny"
  obtain k where k: "log2n_of ?m = Suc k" using log2n_pos[OF p(3)] by (cases "log2n_of ?m") auto
  have rk: "room TYPE('a) k B" using r k by simp
  have rt: "room TYPE('a) t B" if "t < Suc k" for t using room_mono[OF rk] that by simp
  have B1: "1 \<le> B" using rk by (simp add: room_def)
  have f0: "fits TYPE('a) 0 B" "fits TYPE('a) 0 (- B)" using B1 by (auto intro!: room_fits[OF rt])
  have cs: "ny * i + j < length a" if "i < nx" "j < ny" for i j
    using cell_bound[of i nx j ny ny 0 "length a"] that l p(1) by (cases nx) auto
  then have lv: "level_cells 0 B ny nx ny a"
    using B by (auto simp: level_cells_def at_level_0[OF f0] cell_def)
  note F = forward_levels_props[OF l p(1,2) lv, of "Suc k"]
  define h where "h = htrans a nx ny"
  have h: "h = forward_levels (Suc k) nx ny a" by (simp only: h_def htrans_levels k)
  have hl: "length h = length a" using F rt by (simp add: h del: forward_levels.simps)
  then show "length (htrans a nx ny) = length a" by (simp add: h_def)
  have sm: "small (cell h 0 ny i j)" if "i < nx" "j < ny" for i j using F rt that by (simp add: h del: forward_levels.simps)
  show "\<forall>v \<in> set (htrans a nx ny). small v"
    unfolding h_def[symmetric]
  proof
    fix v assume "v \<in> set h"
    then obtain x where x: "x < length h" "v = h ! x" by (auto simp: in_set_conv_nth)
    then have "x div ny < nx" "x mod ny < ny" using hl l p by (simp_all add: less_mult_imp_div_less)
    from sm[OF this] show "small v" using x by (simp add: cell_def)
  qed
  have n: "nx \<le> 2 ^ Suc k" "ny \<le> 2 ^ Suc k" using log2n_bounds[of ?m] p k by auto
  have top: "level_cells (Suc k) B ny 1 1 h"
    using F rt halve_log2n[OF p(1) n(1)] halve_log2n[OF p(2) n(2)] by (simp add: h del: forward_levels.simps halve.simps)
  then obtain q where q: "h ! 0 = lev (Suc k) (2 * q)" by (auto simp: level_cells_def cell_def at_level_def unit_of_def)
  have c: "(hinv_start (Suc k) :: ('a word) hi_consts) = hinv_pre k" by (rule hinv_start_level[OF rk])
  have f2: "fits TYPE('a) k (2 ^ 1 * 2)" using B1 by (intro room_fits[OF rk]) simp
  have e: "push_bit 2 (lev k (- 1)) = (lev k (- 4) :: 'a word)" "push_bit 2 (lev k 1) = (lev k 4 :: 'a word)"
    "signed_drop_bit 1 (lev k 4) = (lev k 2 :: 'a word)" "lev k 2 - 1 = (word_of_int (2 ^ k * 2 - 1) :: 'a word)"
    "lev k 2 = (word_of_int (2 ^ k * 2) :: 'a word)"
    using lev_push[of 2 k "- 1", where ?'a = 'a] lev_push[of 2 k 1, where ?'a = 'a] lev_sdb[OF f2] by simp_all (simp_all add: lev_def)
  have "round_to (word_of_int (2 ^ k * 2)) (word_of_int (2 ^ k * 2 - 1)) (lev k (- (2 ^ 2))) (lev k (2 ^ 2 * q) :: 'a word) = lev k (2 ^ 2 * q)"
  proof (rule round_exact)
    show "0 \<le> (2 :: int) ^ k * 2 - 1" "(2 :: int) ^ k * 2 - 1 < 2 ^ k * 2 ^ 2" using zero_less_power[of "2 :: int" k] unfolding power2_eq_square by linarith+
  qed simp_all
  then have r0: "round_to (lev k 2) (lev k 2 - 1) (lev k (- 4)) (h ! 0) = h ! 0"
    unfolding e(4) unfolding e(5) q by (simp add: lev_def mult_ac)
  have "hinv h nx ny smooth scale = hinv_loop (Suc k) ny smooth scale (hinv_pre k) (1, nx) (1, ny) (2 ^ Suc k) h"
    unfolding hinv_def Let_def k c
    by (simp only: hinv_pre_def hinv_level_def hi_consts.simps e(1,2,3) r0 list_update_id)
  also have "\<dots> = inverse_levels (Suc k) nx ny smooth scale h"
    using hinv_loop_levels[OF rt grown_start[OF p(1) n(1)] grown_start[OF p(2) n(2)]] by (simp del: hinv_loop.simps inverse_levels.simps)
  also have "\<dots> = a" unfolding h by (rule inverse_forward[OF l p(1,2) lv s w rt])
  finally show "hinv (htrans a nx ny) nx ny smooth scale = a" by (simp add: h_def)
qed

end
