(* ===== verification/HBits.thy ===== *)
theory HBits
  imports Pixels
begin

text \<open>
  Bit input and output of the H-compress codec (\<open>src/zimage/hcompress.rs\<close>): the reader \<open>HState\<close>, the
  writer \<open>HWriter\<close> and the Huffman code of 4-bit values. A reader stands for the bits still to come, and
  \<open>reads bs v f\<close> says that \<open>f\<close> consumes \<open>bs\<close> and returns \<open>v\<close>, whatever follows; a
  writer stands for the bits written so far, and \<open>writes bs w w'\<close> says that \<open>w'\<close> has \<open>bs\<close> more.
\<close>

subsection \<open>The reader\<close>

record h_state =
  hs_bytes :: bytes
  hs_pos :: nat
  hs_buffer :: u32
  hs_togo :: nat

definition hstate_new :: "bytes \<Rightarrow> h_state" where
  "hstate_new bs = \<lparr>hs_bytes = bs, hs_pos = 0, hs_buffer = 0, hs_togo = 0\<rparr>"

definition qread :: "h_state \<Rightarrow> nat \<Rightarrow> codec_error + bytes \<times> h_state" where
  "qread st n =
     (if hs_pos st + n > length (hs_bytes st) then Inl EndOfStream
      else Inr (take n (drop (hs_pos st) (hs_bytes st)), st\<lparr>hs_pos := hs_pos st + n\<rparr>))"

definition readint :: "h_state \<Rightarrow> codec_error + i32 \<times> h_state" where
  "readint st = res_bind (qread st 4) (\<lambda>(b, st). Inr (from_be b, st))"

definition readlonglong :: "h_state \<Rightarrow> codec_error + i64 \<times> h_state" where
  "readlonglong st = res_bind (qread st 8) (\<lambda>(b, st). Inr (from_be b, st))"

definition start_inputing_bits :: "h_state \<Rightarrow> h_state" where
  "start_inputing_bits st = st\<lparr>hs_togo := 0\<rparr>"

definition input_bit :: "h_state \<Rightarrow> codec_error + u32 \<times> h_state" where
  "input_bit st =
     (if hs_togo st = 0 \<and> hs_pos st \<ge> length (hs_bytes st) then Inl EndOfStream
      else
        (let st1 = (if hs_togo st = 0
                    then st\<lparr>hs_buffer := ucast (hs_bytes st ! hs_pos st), hs_pos := hs_pos st + 1, hs_togo := 8\<rparr> else st);
             togo = hs_togo st1 - 1
         in Inr (drop_bit togo (hs_buffer st1) AND 1, st1\<lparr>hs_togo := togo\<rparr>)))"

text \<open>The next byte shifted in below the bits that are there, as both field readers do it.\<close>

definition load_byte :: "h_state \<Rightarrow> h_state" where
  "load_byte st = st\<lparr>hs_buffer := push_bit 8 (hs_buffer st) OR ucast (hs_bytes st ! hs_pos st), hs_pos := hs_pos st + 1,
     hs_togo := hs_togo st + 8\<rparr>"

definition input_nbits :: "h_state \<Rightarrow> nat \<Rightarrow> codec_error + u32 \<times> h_state" where
  "input_nbits st n =
     (if hs_togo st < n \<and> hs_pos st \<ge> length (hs_bytes st) then Inl EndOfStream
      else
        (let st1 = (if hs_togo st < n then load_byte st else st);
             togo = hs_togo st1 - n;
             mask = (if n = 0 then 0 else push_bit n 1 - 1)
         in Inr (drop_bit togo (hs_buffer st1) AND mask, st1\<lparr>hs_togo := togo\<rparr>)))"

definition input_nybble :: "h_state \<Rightarrow> codec_error + u32 \<times> h_state" where
  "input_nybble st =
     (if hs_togo st < 4 \<and> hs_pos st \<ge> length (hs_bytes st) then Inl EndOfStream
      else
        (let st1 = (if hs_togo st < 4 then load_byte st else st);
             togo = hs_togo st1 - 4
         in Inr (drop_bit togo (hs_buffer st1) AND 0x0F, st1\<lparr>hs_togo := togo\<rparr>)))"

text \<open>
  The loop of \<open>input_nnybble\<close>. Its byte-aligned branch is the other one with \<open>shift1 = 4\<close> and
  \<open>shift2 = 0\<close>; neither changes \<open>bits_to_go\<close>.
\<close>

fun nybble_pairs :: "nat \<Rightarrow> nat \<Rightarrow> nat \<Rightarrow> h_state \<Rightarrow> codec_error + bytes \<times> h_state" where
  "nybble_pairs 0 shift1 shift2 st = Inr ([], st)"
| "nybble_pairs (Suc half) shift1 shift2 st =
     (if hs_pos st \<ge> length (hs_bytes st) then Inl EndOfStream
      else
        (let buffer = push_bit 8 (hs_buffer st) OR ucast (hs_bytes st ! hs_pos st)
         in res_bind (nybble_pairs half shift1 shift2 (st\<lparr>hs_buffer := buffer, hs_pos := hs_pos st + 1\<rparr>)) (\<lambda>(vs, st).
              Inr (ucast (drop_bit shift1 buffer AND 0x0F) # ucast (drop_bit shift2 buffer AND 0x0F) # vs, st))))"

definition input_nnybble :: "h_state \<Rightarrow> nat \<Rightarrow> codec_error + bytes \<times> h_state" where
  "input_nnybble st n =
     (if n = 1 then res_bind (input_nybble st) (\<lambda>(v, st). Inr ([ucast v], st))
      else
        (let st1 = (if hs_togo st = 8 then st\<lparr>hs_pos := hs_pos st - 1, hs_togo := 0\<rparr> else st);
             half = n div 2
         in res_bind (nybble_pairs half (hs_togo st1 + 4) (hs_togo st1) st1) (\<lambda>(vs, st).
              if half * 2 \<noteq> n then res_bind (input_nybble st) (\<lambda>(v, st). Inr (vs @ [ucast v], st)) else Inr (vs, st))))"

text \<open>
  One Huffman code: three bits, and a fourth, fifth and sixth where the bits so far ask for it. The two arms
  the code marks unreachable are panics.
\<close>

definition huffman_6 :: "u32 \<Rightarrow> h_state \<Rightarrow> codec_error + u32 \<times> h_state" where
  "huffman_6 c st = res_bind (input_bit st) (\<lambda>(b, st). let c = b OR push_bit 1 c in if c = 62 then Inr (0, st) else Inr (14, st))"

definition huffman_5 :: "u32 \<Rightarrow> h_state \<Rightarrow> codec_error + u32 \<times> h_state" where
  "huffman_5 c st = res_bind (input_bit st) (\<lambda>(b, st). let c = b OR push_bit 1 c in
     if c < 31 then
       (if c = 26 then Inr (6, st) else if c = 27 then Inr (7, st) else if c = 28 then Inr (9, st)
        else if c = 29 then Inr (11, st) else if c = 30 then Inr (13, st) else Inl Panic)
     else huffman_6 c st)"

definition huffman_4 :: "u32 \<Rightarrow> h_state \<Rightarrow> codec_error + u32 \<times> h_state" where
  "huffman_4 c st = res_bind (input_bit st) (\<lambda>(b, st). let c = b OR push_bit 1 c in
     if c < 13 then
       (if c = 8 then Inr (3, st) else if c = 9 then Inr (5, st) else if c = 10 then Inr (10, st)
        else if c = 11 then Inr (12, st) else if c = 12 then Inr (15, st) else Inl Panic)
     else huffman_5 c st)"

definition input_huffman :: "h_state \<Rightarrow> codec_error + u32 \<times> h_state" where
  "input_huffman st =
     res_bind (input_nbits st 3) (\<lambda>(c, st). if c < 4 then Inr (push_bit (unat c) 1, st) else huffman_4 c st)"

subsection \<open>The writer\<close>

record h_writer =
  hw_out :: bytes
  hw_buffer :: u32
  hw_togo :: int

definition hwriter_new :: h_writer where
  "hwriter_new = \<lparr>hw_out = [], hw_buffer = 0, hw_togo = 8\<rparr>"

definition qwrite :: "h_writer \<Rightarrow> bytes \<Rightarrow> h_writer" where
  "qwrite w bs = w\<lparr>hw_out := hw_out w @ bs\<rparr>"

definition writeint :: "h_writer \<Rightarrow> i32 \<Rightarrow> h_writer" where
  "writeint w a = w\<lparr>hw_out := hw_out w @ to_be 4 a\<rparr>"

definition writelonglong :: "h_writer \<Rightarrow> i64 \<Rightarrow> h_writer" where
  "writelonglong w a = w\<lparr>hw_out := hw_out w @ to_be 8 a\<rparr>"

definition start_outputing_bits :: "h_writer \<Rightarrow> h_writer" where
  "start_outputing_bits w = w\<lparr>hw_buffer := 0, hw_togo := 8\<rparr>"

text \<open>The end of both field writers: a full byte leaves the buffer.\<close>

definition flush_byte :: "h_writer \<Rightarrow> h_writer" where
  "flush_byte w =
     (if hw_togo w \<le> 0
      then w\<lparr>hw_out := hw_out w @ [ucast (drop_bit (nat (- hw_togo w)) (hw_buffer w) AND 0xFF)], hw_togo := hw_togo w + 8\<rparr>
      else w)"

definition output_nbits :: "h_writer \<Rightarrow> u32 \<Rightarrow> nat \<Rightarrow> h_writer" where
  "output_nbits w bits n =
     (let mask = (if n = 0 then 0 else push_bit n 1 - 1)
      in flush_byte (w\<lparr>hw_buffer := push_bit n (hw_buffer w) OR (bits AND mask), hw_togo := hw_togo w - int n\<rparr>))"

definition output_nybble :: "h_writer \<Rightarrow> u32 \<Rightarrow> h_writer" where
  "output_nybble w bits =
     flush_byte (w\<lparr>hw_buffer := push_bit 4 (hw_buffer w) OR (bits AND 0x0F), hw_togo := hw_togo w - 4\<rparr>)"

fun aligned_pairs :: "h_writer \<Rightarrow> bytes \<Rightarrow> h_writer" where
  "aligned_pairs w (x # y # rest) =
     aligned_pairs (w\<lparr>hw_out := hw_out w @ [push_bit 4 (x AND 15) OR (y AND 15)]\<rparr>) rest"
| "aligned_pairs w _ = w"

fun shifted_pairs :: "nat \<Rightarrow> h_writer \<Rightarrow> bytes \<Rightarrow> h_writer" where
  "shifted_pairs shift w (x # y # rest) =
     (let buffer = push_bit 8 (hw_buffer w) OR push_bit 4 (ucast (x AND 15)) OR ucast (y AND 15)
      in shifted_pairs shift (w\<lparr>hw_buffer := buffer, hw_out := hw_out w @ [ucast (drop_bit shift buffer AND 0xFF)]\<rparr>) rest)"
| "shifted_pairs shift w _ = w"

definition output_nnybble :: "h_writer \<Rightarrow> bytes \<Rightarrow> h_writer" where
  "output_nnybble w array =
     (let n = length array
      in if n = 0 then w
         else if n = 1 then output_nybble w (ucast (array ! 0))
         else
           (let first = hw_togo w \<le> 4;
                w1 = (if first then output_nybble w (ucast (array ! 0)) else w)
            in if first \<and> n = 2 then output_nybble w1 (ucast (array ! 1))
               else
                 (let rest = (if first then drop 1 array else array);
                      shift = nat (8 - hw_togo w1);
                      w2 = (if hw_togo w1 = 8 then aligned_pairs (w1\<lparr>hw_buffer := 0\<rparr>) rest else shifted_pairs shift w1 rest)
                  in if odd (length rest) then output_nybble w2 (ucast (array ! (n - 1))) else w2)))"

definition done_outputing_bits :: "h_writer \<Rightarrow> h_writer" where
  "done_outputing_bits w =
     (if hw_togo w < 8 then w\<lparr>hw_out := hw_out w @ [ucast (push_bit (nat (hw_togo w)) (hw_buffer w) AND 0xFF)]\<rparr> else w)"

definition HCODE :: "u32 list" where
  "HCODE = [0x3e, 0x00, 0x01, 0x08, 0x02, 0x09, 0x1a, 0x1b, 0x03, 0x1c, 0x0a, 0x1d, 0x0b, 0x1e, 0x3f, 0x0c]"

definition HNCODE :: "nat list" where
  "HNCODE = [6, 3, 3, 4, 3, 4, 5, 5, 3, 5, 4, 5, 4, 5, 6, 4]"

subsection \<open>Bit strings\<close>

definition hs_bits :: "h_state \<Rightarrow> bool list" where
  "hs_bits st = msb_bits (hs_togo st) (hs_buffer st) @ byte_bits (drop (hs_pos st) (hs_bytes st))"

definition hs_inv :: "h_state \<Rightarrow> bool" where
  "hs_inv st \<longleftrightarrow> hs_togo st < 8 \<and> hs_pos st \<le> length (hs_bytes st)"

definition reads :: "bool list \<Rightarrow> 'a \<Rightarrow> (h_state \<Rightarrow> codec_error + 'a \<times> h_state) \<Rightarrow> bool" where
  "reads bs v f \<longleftrightarrow> (\<forall>st rest. hs_inv st \<longrightarrow> hs_bits st = bs @ rest \<longrightarrow>
     (\<exists>st'. f st = Inr (v, st') \<and> hs_inv st' \<and> hs_bits st' = rest \<and> hs_bytes st' = hs_bytes st))"

lemma readsD: "reads bs v f \<Longrightarrow> hs_inv st \<Longrightarrow> hs_bits st = bs @ rest \<Longrightarrow>
    \<exists>st'. f st = Inr (v, st') \<and> hs_inv st' \<and> hs_bits st' = rest \<and> hs_bytes st' = hs_bytes st"
  by (simp add: reads_def)

lemma reads_return: "reads [] v (\<lambda>st. Inr (v, st))"
  by (simp add: reads_def)

lemma reads_bind:
  assumes "reads bs v f" "reads cs u (g v)"
  shows "reads (bs @ cs) u (\<lambda>st. res_bind (f st) (\<lambda>(v, st). g v st))"
  unfolding reads_def
proof (intro allI impI)
  fix st rest assume st: "hs_inv st" "hs_bits st = (bs @ cs) @ rest"
  then obtain st1 where 1: "f st = Inr (v, st1)" "hs_inv st1" "hs_bits st1 = cs @ rest" "hs_bytes st1 = hs_bytes st"
    using readsD[OF assms(1), of st "cs @ rest"] by auto
  from readsD[OF assms(2) 1(2,3)] obtain st2 where "g v st1 = Inr (u, st2)" "hs_inv st2" "hs_bits st2 = rest" "hs_bytes st2 = hs_bytes st1"
    by blast
  with 1 show "\<exists>st'. res_bind (f st) (\<lambda>(v, st). g v st) = Inr (u, st') \<and> hs_inv st' \<and> hs_bits st' = rest \<and> hs_bytes st' = hs_bytes st"
    by simp
qed

lemma msb_bits_load:
  fixes w :: u32
  assumes "n \<le> 24"
  shows "msb_bits (n + 8) (push_bit 8 w OR ucast (b :: u8)) = msb_bits n w @ msb_bits 8 b"
proof (rule nth_equalityI)
  fix i assume i: "i < length (msb_bits (n + 8) (push_bit 8 w OR ucast b))"
  have z: "\<not> bit b j" if "8 \<le> j" for j using that bit_imp_le_length[of b j] by fastforce
  show "msb_bits (n + 8) (push_bit 8 w OR ucast b) ! i = (msb_bits n w @ msb_bits 8 b) ! i"
  proof (cases "i < n")
    case True
    then have "8 \<le> n + 8 - 1 - i" "n + 8 - 1 - i - 8 = n - 1 - i" "n + 8 - 1 - i < 32" using assms by linarith+
    then show ?thesis using i True z[of "n + 8 - 1 - i"] by (simp add: nth_append bit_or_iff bit_push_bit_iff bit_ucast_iff)
  next
    case False
    then have "n + 8 - 1 - i < 8" "8 - 1 - (i - n) = n + 8 - 1 - i" using i by (simp, simp)
    then show ?thesis using i False by (simp add: nth_append bit_or_iff bit_push_bit_iff bit_ucast_iff)
  qed
qed simp

lemma load_byte_bits:
  assumes "hs_inv st" "hs_pos st < length (hs_bytes st)"
  shows "hs_bits (load_byte st) = hs_bits st" "hs_togo (load_byte st) = hs_togo st + 8" "hs_pos (load_byte st) \<le> length (hs_bytes st)"
    "hs_bytes (load_byte st) = hs_bytes st"
proof -
  have "drop (hs_pos st) (hs_bytes st) = hs_bytes st ! hs_pos st # drop (Suc (hs_pos st)) (hs_bytes st)"
    using assms by (simp add: Cons_nth_drop_Suc)
  then show "hs_bits (load_byte st) = hs_bits st"
    using assms(1) msb_bits_load[of "hs_togo st"] by (simp add: hs_bits_def load_byte_def hs_inv_def)
qed (use assms in \<open>auto simp: load_byte_def\<close>)

lemma word_unat_inverse: "of_nat (unat w) = w" for w :: u32
  by simp

lemma take_togo:
  fixes w :: u32
  assumes n: "n \<le> k" "n \<le> 8"
  shows "msb_bits k w = msb_bits n (drop_bit (k - n) w) @ msb_bits (k - n) w"
    and "drop_bit (k - n) w AND mask n = of_nat (bits_val (msb_bits n (drop_bit (k - n) w)))"
proof -
  show "msb_bits k w = msb_bits n (drop_bit (k - n) w) @ msb_bits (k - n) w"
    using msb_bits_add[of n "k - n" w] n by simp
  have "unat (drop_bit (k - n) w AND mask n) = bits_val (msb_bits n (drop_bit (k - n) w))"
    by (simp add: unat_and_mask bits_val_msb_bits take_bit_eq_mod)
  then show "drop_bit (k - n) w AND mask n = of_nat (bits_val (msb_bits n (drop_bit (k - n) w)))"
    using word_unat_inverse by metis
qed


lemma reads_field:
  assumes l: "length bs \<le> 8"
    and f: "\<And>st. f st = (if hs_togo st < length bs \<and> hs_pos st \<ge> length (hs_bytes st) then Inl EndOfStream
      else (let st1 = (if hs_togo st < length bs then load_byte st else st); togo = hs_togo st1 - length bs
            in Inr (drop_bit togo (hs_buffer st1) AND mask (length bs), st1\<lparr>hs_togo := togo\<rparr>)))"
  shows "reads bs (of_nat (bits_val bs)) f"
  unfolding reads_def
proof (intro allI impI)
  fix st rest assume i: "hs_inv st" and b: "hs_bits st = bs @ rest"
  let ?n = "length bs"
  have ne: "\<not> (hs_togo st < ?n \<and> hs_pos st \<ge> length (hs_bytes st))"
  proof
    assume a: "hs_togo st < ?n \<and> hs_pos st \<ge> length (hs_bytes st)"
    then have "length (hs_bits st) = hs_togo st" by (simp add: hs_bits_def)
    then show False using b a by simp
  qed
  define st1 where "st1 = (if hs_togo st < ?n then load_byte st else st)"
  have s: "hs_bits st1 = bs @ rest" "?n \<le> hs_togo st1" "hs_togo st1 < ?n + 8" "hs_pos st1 \<le> length (hs_bytes st1)" "hs_bytes st1 = hs_bytes st"
    using load_byte_bits[OF i] ne b i l by (auto simp: st1_def hs_inv_def)
  note t = take_togo[OF s(2) l, of "hs_buffer st1"]
  let ?x = "msb_bits ?n (drop_bit (hs_togo st1 - ?n) (hs_buffer st1))"
  have eq: "?x @ msb_bits (hs_togo st1 - ?n) (hs_buffer st1) @ byte_bits (drop (hs_pos st1) (hs_bytes st1)) = bs @ rest"
    using s(1) t(1) by (simp add: hs_bits_def)
  then have x: "?x = bs" "msb_bits (hs_togo st1 - ?n) (hs_buffer st1) @ byte_bits (drop (hs_pos st1) (hs_bytes st1)) = rest"
    by (simp_all add: append_eq_append_conv)
  have "f st = Inr (of_nat (bits_val bs), st1\<lparr>hs_togo := hs_togo st1 - ?n\<rparr>)"
    using t(2) x(1) unfolding f if_not_P[OF ne] st1_def[symmetric] Let_def by simp
  moreover have "hs_bits (st1\<lparr>hs_togo := hs_togo st1 - ?n\<rparr>) = rest" using x(2) by (simp add: hs_bits_def)
  moreover have "hs_inv (st1\<lparr>hs_togo := hs_togo st1 - ?n\<rparr>)" using s by (simp add: hs_inv_def)
  ultimately show "\<exists>st'. f st = Inr (of_nat (bits_val bs), st') \<and> hs_inv st' \<and> hs_bits st' = rest \<and> hs_bytes st' = hs_bytes st"
    using s(5) by auto
qed

lemma reads_nbits: "length bs \<le> 8 \<Longrightarrow> length bs = n \<Longrightarrow> reads bs (of_nat (bits_val bs)) (\<lambda>st. input_nbits st n)"
  by (rule reads_field) (auto simp: input_nbits_def mask_eq_exp_minus_1 push_bit_eq_mult)

lemma reads_nybble: "length bs = 4 \<Longrightarrow> reads bs (of_nat (bits_val bs)) input_nybble"
  by (rule reads_field) (auto simp: input_nybble_def mask_eq_exp_minus_1)

lemma reads_bit: "reads [b] (of_bool b) input_bit"
  unfolding reads_def
proof (intro allI impI)
  fix st rest assume i: "hs_inv st" and b: "hs_bits st = [b] @ rest"
  have one: "w AND 1 = (of_bool (bit w 0) :: u32)" for w by (simp add: and_one_eq bit_0 mod_2_eq_odd)
  show "\<exists>st'. input_bit st = Inr (of_bool b, st') \<and> hs_inv st' \<and> hs_bits st' = rest \<and> hs_bytes st' = hs_bytes st"
  proof (cases "hs_togo st")
    case 0
    have p: "hs_pos st < length (hs_bytes st)" using b 0 by (cases "hs_pos st < length (hs_bytes st)") (auto simp: hs_bits_def)
    let ?c = "hs_bytes st ! hs_pos st"
    have "hs_bits st = msb_bits 8 ?c @ byte_bits (drop (Suc (hs_pos st)) (hs_bytes st))"
      using p 0 by (simp add: hs_bits_def Cons_nth_drop_Suc[symmetric])
    moreover have "msb_bits 8 ?c = bit ?c 7 # msb_bits 7 (ucast ?c :: u32)"
      using msb_bits_Suc[of 7 ?c] by (auto simp: msb_bits_def bit_ucast_iff)
    ultimately show ?thesis using b p 0
      by (simp add: input_bit_def Let_def hs_inv_def hs_bits_def one bit_drop_bit_eq bit_ucast_iff)
  next
    case (Suc k)
    have "hs_bits st = bit (hs_buffer st) k # msb_bits k (hs_buffer st) @ byte_bits (drop (hs_pos st) (hs_bytes st))"
      using Suc by (simp add: hs_bits_def msb_bits_Suc)
    then show ?thesis using b Suc i
      by (simp add: input_bit_def Let_def hs_inv_def hs_bits_def one bit_drop_bit_eq)
  qed
qed


definition hcode :: "nat \<Rightarrow> bool list" where
  "hcode v = msb_bits (HNCODE ! v) (HCODE ! v)"

lemma reads_bitI: "reads bs v (g (of_bool b)) \<Longrightarrow> reads (b # bs) v (\<lambda>st. res_bind (input_bit st) (\<lambda>(b, st). g b st))"
  using reads_bind[OF reads_bit] by fastforce

lemma reads_huffman_6: "reads [b] (if b then 14 else 0) (huffman_6 31)"
  unfolding huffman_6_def by (rule reads_bitI) (auto simp: Let_def reads_return)

lemma reads_huffman_5:
  "reads [False] 6 (huffman_5 13)" "reads [True] 7 (huffman_5 13)" "reads [False] 9 (huffman_5 14)" "reads [True] 11 (huffman_5 14)"
  "reads [False] 13 (huffman_5 15)" "reads [True, b] (if b then 14 else 0) (huffman_5 15)"
  unfolding huffman_5_def by (rule reads_bitI; simp add: Let_def reads_return reads_huffman_6[simplified])+

lemma reads_huffman_4:
  "reads [False] 3 (huffman_4 4)" "reads [True] 5 (huffman_4 4)" "reads [False] 10 (huffman_4 5)" "reads [True] 12 (huffman_4 5)"
  "reads [False] 15 (huffman_4 6)" "reads [True, False] 6 (huffman_4 6)" "reads [True, True] 7 (huffman_4 6)"
  "reads [False, False] 9 (huffman_4 7)" "reads [False, True] 11 (huffman_4 7)" "reads [True, False] 13 (huffman_4 7)"
  "reads [True, True, b] (if b then 14 else 0) (huffman_4 7)"
  unfolding huffman_4_def by (rule reads_bitI; simp add: Let_def reads_return reads_huffman_5)+

lemma reads_huffmanI:
  assumes "reads bs v (\<lambda>st. if (of_nat (bits_val [a, b, c]) :: u32) < 4 then Inr (push_bit (unat (of_nat (bits_val [a, b, c]) :: u32)) 1, st)
      else huffman_4 (of_nat (bits_val [a, b, c])) st)"
  shows "reads (a # b # c # bs) v input_huffman"
proof -
  have "reads ([a, b, c] @ bs) v input_huffman"
    unfolding input_huffman_def
    by (rule reads_bind[where g = "\<lambda>c st. if c < 4 then Inr (push_bit (unat c) 1, st) else huffman_4 c st", OF reads_nbits assms]) simp_all
  then show ?thesis by simp
qed

lemma hcode_table:
  "hcode 0 = [True, True, True, True, True, False]" "hcode 1 = [False, False, False]" "hcode 2 = [False, False, True]"
  "hcode 3 = [True, False, False, False]" "hcode 4 = [False, True, False]" "hcode 5 = [True, False, False, True]"
  "hcode 6 = [True, True, False, True, False]" "hcode 7 = [True, True, False, True, True]" "hcode 8 = [False, True, True]"
  "hcode 9 = [True, True, True, False, False]" "hcode 10 = [True, False, True, False]" "hcode 11 = [True, True, True, False, True]"
  "hcode 12 = [True, False, True, True]" "hcode 13 = [True, True, True, True, False]" "hcode 14 = [True, True, True, True, True, True]"
  "hcode 15 = [True, True, False, False]"
  by code_simp+

lemma reads_huffman: "v < 16 \<Longrightarrow> reads (hcode v) (of_nat v) input_huffman"
proof -
  assume v: "v < 16"
  have "v = 0 \<or> v = 1 \<or> v = 2 \<or> v = 3 \<or> v = 4 \<or> v = 5 \<or> v = 6 \<or> v = 7 \<or> v = 8 \<or> v = 9 \<or> v = 10 \<or> v = 11 \<or>
    v = 12 \<or> v = 13 \<or> v = 14 \<or> v = 15" using v by presburger
  then show ?thesis
    apply (elim disjE)
    apply (simp_all only: hcode_table)
    apply (rule reads_huffmanI, simp add: bits_val_Cons reads_return reads_huffman_4 reads_huffman_4(11)[of False, simplified] reads_huffman_4(11)[of True, simplified])+
    done
qed

definition nybbles :: "bytes \<Rightarrow> bool list" where
  "nybbles vs = concat (map (msb_bits 4) vs)"

lemma nybbles_simps [simp]: "nybbles [] = []" "nybbles (v # vs) = msb_bits 4 v @ nybbles vs" "nybbles (vs @ ws) = nybbles vs @ nybbles ws"
  by (simp_all add: nybbles_def)

lemma length_nybbles [simp]: "length (nybbles vs) = 4 * length vs"
  by (induction vs) simp_all

lemma ucast_nybble: "v < 16 \<Longrightarrow> ucast (of_nat (bits_val (msb_bits 4 v)) :: u32) = (v :: u8)"
proof -
  assume "v < 16"
  then have l: "unat v < 16" by (simp add: word_less_nat_alt)
  then have "bits_val (msb_bits 4 v) = unat v" by (simp add: bits_val_msb_bits take_bit_nat_eq_self)
  moreover have "unat (ucast (of_nat (unat v) :: u32) :: u8) = unat v"
    using l by (simp add: unsigned_ucast_eq unat_of_nat take_bit_nat_eq_self take_bit_word_eq_self)
  ultimately show ?thesis by (simp add: word_unat_eq_iff)
qed

lemma nybble_field: "drop_bit s w AND 0x0F = (of_nat (bits_val (msb_bits 4 (drop_bit s w))) :: u32)"
  using take_togo(2)[of 4 "s + 4" w] by (simp add: mask_eq_exp_minus_1)

lemma reads_pairs:
  "hs_inv st \<Longrightarrow> length vs = 2 * half \<Longrightarrow> \<forall>v \<in> set vs. v < 16 \<Longrightarrow> hs_bits st = nybbles vs @ rest \<Longrightarrow>
   \<exists>st'. nybble_pairs half (hs_togo st + 4) (hs_togo st) st = Inr (vs, st') \<and> hs_inv st' \<and> hs_bits st' = rest \<and>
     hs_bytes st' = hs_bytes st"
proof (induction half arbitrary: st vs)
  case 0
  then show ?case by simp
next
  case (Suc half)
  obtain x y ws where vs: "vs = x # y # ws" "length ws = 2 * half"
    using Suc.prems(2) by (auto simp: length_Suc_conv)
  have p: "hs_pos st < length (hs_bytes st)"
  proof (rule ccontr)
    assume "\<not> hs_pos st < length (hs_bytes st)"
    then have "length (hs_bits st) = hs_togo st" by (simp add: hs_bits_def)
    then show False using Suc.prems(1,4) vs by (simp add: hs_inv_def)
  qed
  let ?w = "push_bit 8 (hs_buffer st) OR ucast (hs_bytes st ! hs_pos st) :: u32" and ?k = "hs_togo st"
  let ?st = "st\<lparr>hs_buffer := ?w, hs_pos := Suc (hs_pos st)\<rparr>"
  have split: "msb_bits (?k + 8) ?w = msb_bits 4 (drop_bit (?k + 4) ?w) @ msb_bits 4 (drop_bit ?k ?w) @ msb_bits ?k ?w"
    using msb_bits_add[of 4 "?k + 4" ?w] msb_bits_add[of 4 ?k ?w] by (simp add: add.commute)
  have "hs_bits st = msb_bits (?k + 8) ?w @ byte_bits (drop (Suc (hs_pos st)) (hs_bytes st))"
    using load_byte_bits(1)[OF Suc.prems(1) p] by (simp add: hs_bits_def load_byte_def)
  then have eq: "msb_bits 4 (drop_bit (?k + 4) ?w) @ msb_bits 4 (drop_bit ?k ?w) @ hs_bits ?st = msb_bits 4 x @ msb_bits 4 y @ nybbles ws @ rest"
    using Suc.prems(4) vs split by (simp add: hs_bits_def)
  then have e: "msb_bits 4 (drop_bit (?k + 4) ?w) = msb_bits 4 x" "msb_bits 4 (drop_bit ?k ?w) = msb_bits 4 y" "hs_bits ?st = nybbles ws @ rest"
    by (simp_all add: append_eq_append_conv)
  have i: "hs_inv ?st" using Suc.prems(1) p by (simp add: hs_inv_def)
  obtain st' where st': "nybble_pairs half (?k + 4) ?k ?st = Inr (ws, st')" "hs_inv st'" "hs_bits st' = rest" "hs_bytes st' = hs_bytes st"
    using Suc.IH[OF i vs(2) _ e(3)] Suc.prems(3) vs by auto
  have v: "ucast (drop_bit (?k + 4) ?w AND 0x0F) = x" "ucast (drop_bit ?k ?w AND 0x0F) = y"
    using Suc.prems(3) vs unfolding nybble_field e by (simp_all add: ucast_nybble)
  show ?case using p st' v vs by (simp add: Let_def)
qed

lemma reads_nnybble:
  assumes v: "\<forall>v \<in> set vs. v < 16"
  shows "reads (nybbles vs) vs (\<lambda>st. input_nnybble st (length vs))"
proof (cases "length vs = 1")
  case True
  then obtain x where vs: "vs = [x]" by (auto simp: length_Suc_conv)
  have "reads (msb_bits 4 x @ []) [x] (\<lambda>st. res_bind (input_nybble st) (\<lambda>(v, st). Inr ([ucast v], st)))"
    by (rule reads_bind[where g = "\<lambda>v st. Inr ([ucast v], st)", OF reads_nybble])
       (use v vs in \<open>simp_all add: ucast_nybble reads_return\<close>)
  then show ?thesis using vs by (simp add: input_nnybble_def)
next
  case False
  show ?thesis unfolding reads_def
  proof (intro allI impI)
    fix st rest assume i: "hs_inv st" and b: "hs_bits st = nybbles vs @ rest"
    let ?half = "length vs div 2"
    let ?xs = "take (2 * ?half) vs" and ?ys = "drop (2 * ?half) vs"
    have b': "hs_bits st = nybbles ?xs @ nybbles ?ys @ rest" using b by (metis append.assoc append_take_drop_id nybbles_simps(3))
    have l: "length ?xs = 2 * ?half" by simp
    obtain st1 where st1: "nybble_pairs ?half (hs_togo st + 4) (hs_togo st) st = Inr (?xs, st1)" "hs_inv st1"
      "hs_bits st1 = nybbles ?ys @ rest" "hs_bytes st1 = hs_bytes st"
      using reads_pairs[OF i l _ b'] v by (meson in_set_takeD)
    have n: "input_nnybble st (length vs) = (if ?half * 2 \<noteq> length vs
        then res_bind (input_nybble st1) (\<lambda>(v, st). Inr (?xs @ [ucast v], st)) else Inr (?xs, st1))"
      using False i st1(1) by (simp add: input_nnybble_def hs_inv_def Let_def)
    show "\<exists>st'. input_nnybble st (length vs) = Inr (vs, st') \<and> hs_inv st' \<and> hs_bits st' = rest \<and> hs_bytes st' = hs_bytes st"
    proof (cases "even (length vs)")
      case True
      then show ?thesis using n st1 by simp
    next
      case odd: False
      then obtain k where "length vs = 2 * k + 1" by (rule oddE)
      then have "length ?ys = 1" by simp
      then obtain y where y: "?ys = [y]" by (metis One_nat_def length_0_conv length_Suc_conv)
      have v16: "y < 16" using v y by (metis in_set_dropD list.set_intros(1))
      obtain st2 where st2: "input_nybble st1 = Inr (of_nat (bits_val (msb_bits 4 y)), st2)" "hs_inv st2" "hs_bits st2 = rest" "hs_bytes st2 = hs_bytes st1"
        using readsD[OF reads_nybble[of "msb_bits 4 y"] st1(2), of rest] st1(3) y by auto
      have ne: "?half * 2 \<noteq> length vs" using odd by presburger
      have "?xs @ [y] = vs" using y by (metis append_take_drop_id)
      then show ?thesis using n st2 st1(4) v16 unfolding if_P[OF ne] by (simp add: ucast_nybble)
    qed
  qed
qed

subsection \<open>Writing\<close>

definition hw_bits :: "h_writer \<Rightarrow> bool list" where
  "hw_bits w = byte_bits (hw_out w) @ msb_bits (nat (8 - hw_togo w)) (hw_buffer w)"

definition hw_inv :: "h_writer \<Rightarrow> bool" where
  "hw_inv w \<longleftrightarrow> 1 \<le> hw_togo w \<and> hw_togo w \<le> 8"

definition writes :: "bool list \<Rightarrow> h_writer \<Rightarrow> h_writer \<Rightarrow> bool" where
  "writes bs w w' \<longleftrightarrow> (hw_inv w \<longrightarrow> hw_inv w' \<and> hw_bits w' = hw_bits w @ bs)"

lemma writes_refl: "writes [] w w"
  by (simp add: writes_def)

lemma writes_trans: "writes bs w w1 \<Longrightarrow> writes cs w1 w2 \<Longrightarrow> writes (bs @ cs) w w2"
  by (auto simp: writes_def)

lemma msb_bits_or_field:
  fixes w b :: u32
  assumes "m + n \<le> 32"
  shows "msb_bits (m + n) (push_bit n w OR (b AND mask n)) = msb_bits m w @ msb_bits n b"
proof (rule nth_equalityI)
  fix i assume i: "i < length (msb_bits (m + n) (push_bit n w OR (b AND mask n)))"
  show "msb_bits (m + n) (push_bit n w OR (b AND mask n)) ! i = (msb_bits m w @ msb_bits n b) ! i"
  proof (cases "i < m")
    case True
    then have "n \<le> m + n - 1 - i" "m + n - 1 - i - n = m - 1 - i" "m + n - 1 - i < 32" using assms by linarith+
    then show ?thesis using i True by (simp add: nth_append bit_simps)
  next
    case False
    then have "m + n - 1 - i < n" "n - 1 - (i - m) = m + n - 1 - i" "m + n - 1 - i < 32" using i assms by (simp, simp, simp)
    then show ?thesis using i False by (simp add: nth_append bit_simps)
  qed
qed simp

lemma msb_bits_byte: "msb_bits 8 (ucast (w AND 0xFF) :: u8) = msb_bits 8 (w :: u32)"
proof -
  have "w AND 0xFF = w AND mask 8" by (simp add: mask_eq_exp_minus_1)
  then show ?thesis unfolding \<open>w AND 0xFF = w AND mask 8\<close> by (intro msb_bits_cong) (simp add: bit_simps)
qed

lemma writes_field:
  assumes n: "n \<le> 8"
  shows "writes (msb_bits n b) w (flush_byte (w\<lparr>hw_buffer := push_bit n (hw_buffer w) OR (b AND mask n), hw_togo := hw_togo w - int n\<rparr>))"
  unfolding writes_def
proof (intro impI)
  assume i: "hw_inv w"
  define m where "m = nat (8 - hw_togo w)"
  have m: "m \<le> 7" "hw_togo w = 8 - int m" using i by (auto simp: m_def hw_inv_def)
  define v where "v = push_bit n (hw_buffer w) OR (b AND mask n)"
  have v: "msb_bits (m + n) v = msb_bits m (hw_buffer w) @ msb_bits n b"
    unfolding v_def using m n by (intro msb_bits_or_field) simp
  have nm: "nat (8 - (8 - int m)) = m" by simp
  let ?w' = "flush_byte (w\<lparr>hw_buffer := v, hw_togo := hw_togo w - int n\<rparr>)"
  have "hw_inv ?w' \<and> hw_bits ?w' = hw_bits w @ msb_bits n b"
  proof (cases "8 \<le> m + n")
    case True
    let ?r = "m + n - 8"
    have r: "nat (- (8 - int m - int n)) = ?r" "nat (8 - (8 - int m - int n + 8)) = ?r" using True by simp_all
    have "msb_bits (8 + ?r) v = msb_bits 8 (drop_bit ?r v) @ msb_bits ?r v" by (rule msb_bits_add)
    then have "msb_bits (m + n) v = msb_bits 8 (drop_bit ?r v) @ msb_bits ?r v" using True by simp
    then show ?thesis using True m n v r by (simp add: flush_byte_def hw_bits_def hw_inv_def msb_bits_byte nm)
  next
    case False
    then have "nat (8 - (8 - int m - int n)) = m + n" by simp
    then show ?thesis using False m v by (simp add: flush_byte_def hw_bits_def hw_inv_def nm)
  qed
  then show "hw_inv (flush_byte (w\<lparr>hw_buffer := push_bit n (hw_buffer w) OR (b AND mask n), hw_togo := hw_togo w - int n\<rparr>)) \<and>
    hw_bits (flush_byte (w\<lparr>hw_buffer := push_bit n (hw_buffer w) OR (b AND mask n), hw_togo := hw_togo w - int n\<rparr>)) = hw_bits w @ msb_bits n b"
    by (simp only: v_def)
qed

lemma writes_nbits: "n \<le> 8 \<Longrightarrow> writes (msb_bits n b) w (output_nbits w b n)"
  using writes_field[of n b w] by (cases "n = 0") (simp_all add: output_nbits_def mask_eq_exp_minus_1 push_bit_eq_mult)

lemma writes_nybble: "writes (msb_bits 4 b) w (output_nybble w b)"
  using writes_field[of 4 b w] by (simp add: output_nybble_def mask_eq_exp_minus_1)


lemma msb_bits_ucast: "n \<le> 8 \<Longrightarrow> msb_bits n (ucast (v :: u8) :: u32) = msb_bits n v"
  by (rule msb_bits_cong) (simp add: bit_ucast_iff)

lemma pair_bits:
  fixes x y :: u8
  shows "msb_bits 8 (push_bit 4 (x AND 15) OR (y AND 15)) = msb_bits 4 x @ msb_bits 4 y"
proof (rule nth_equalityI)
  have m: "z AND 15 = z AND mask 4" for z :: u8 by (simp add: mask_eq_exp_minus_1)
  fix i assume i: "i < length (msb_bits 8 (push_bit 4 (x AND 15) OR (y AND 15)))"
  then have "i < 8" by simp
  then show "msb_bits 8 (push_bit 4 (x AND 15) OR (y AND 15)) ! i = (msb_bits 4 x @ msb_bits 4 y) ! i"
    unfolding m by (cases "i < 4") (auto simp: nth_append bit_simps)
qed simp

lemma writes_aligned:
  "hw_togo w = 8 \<Longrightarrow> hw_inv (aligned_pairs w vs) \<and> hw_togo (aligned_pairs w vs) = 8 \<and>
    hw_bits (aligned_pairs w vs) = hw_bits w @ nybbles (take (2 * (length vs div 2)) vs)"
proof (induction w vs rule: aligned_pairs.induct)
  case (1 w x y rest)
  define b where "b = push_bit 4 (x AND 15) OR (y AND 15)"
  have b: "msb_bits 8 b = msb_bits 4 x @ msb_bits 4 y" unfolding b_def by (rule pair_bits)
  have "hw_bits (w\<lparr>hw_out := hw_out w @ [b]\<rparr>) = hw_bits w @ msb_bits 4 x @ msb_bits 4 y"
    using "1.prems" by (simp add: hw_bits_def b)
  then show ?case using "1.IH"[folded b_def] "1.prems" by (simp add: b_def[symmetric] del: push_bit_and)
qed (simp_all add: hw_inv_def)

lemma shifted_bits:
  fixes w :: u32 and x y :: u8
  assumes "m \<le> 7"
  shows "msb_bits (m + 8) (push_bit 8 w OR push_bit 4 (ucast (x AND 15)) OR ucast (y AND 15)) = msb_bits m w @ msb_bits 4 x @ msb_bits 4 y"
proof -
  have "push_bit 8 w OR push_bit 4 (ucast (x AND 15)) OR ucast (y AND 15) = push_bit 8 w OR ucast (push_bit 4 (x AND 15) OR (y AND 15))"
  proof (rule bit_word_eqI)
    have m: "z AND 15 = z AND mask 4" for z :: u8 by (simp add: mask_eq_exp_minus_1)
    fix i assume "i < LENGTH(32)"
    then show "bit (push_bit 8 w OR push_bit 4 (ucast (x AND 15)) OR ucast (y AND 15)) i = bit (push_bit 8 w OR ucast (push_bit 4 (x AND 15) OR (y AND 15))) i"
      unfolding m by (auto simp: bit_simps)
  qed
  then show ?thesis using msb_bits_load[of m w "push_bit 4 (x AND 15) OR (y AND 15)"] assms pair_bits[of x y] by simp
qed

lemma writes_shifted:
  "hw_inv w \<Longrightarrow> s = nat (8 - hw_togo w) \<Longrightarrow> hw_inv (shifted_pairs s w vs) \<and>
    hw_bits (shifted_pairs s w vs) = hw_bits w @ nybbles (take (2 * (length vs div 2)) vs)"
proof (induction s w vs rule: shifted_pairs.induct)
  case (1 s w x y rest)
  have s: "s \<le> 7" using "1.prems" by (auto simp: hw_inv_def)
  define v where "v = push_bit 8 (hw_buffer w) OR push_bit 4 (ucast (x AND 15)) OR (ucast (y AND 15) :: u32)"
  have "msb_bits (8 + s) v = msb_bits 8 (drop_bit s v) @ msb_bits s v" by (rule msb_bits_add)
  then have v: "msb_bits 8 (drop_bit s v) @ msb_bits s v = msb_bits s (hw_buffer w) @ msb_bits 4 x @ msb_bits 4 y"
    using shifted_bits[OF s, of "hw_buffer w" x y] by (simp add: v_def add.commute)
  let ?w = "w\<lparr>hw_buffer := v, hw_out := hw_out w @ [ucast (drop_bit s v AND 0xFF)]\<rparr>"
  have b: "hw_bits ?w = hw_bits w @ msb_bits 4 x @ msb_bits 4 y"
    using v "1.prems"(2) by (simp add: hw_bits_def msb_bits_byte)
  have "hw_inv (shifted_pairs s ?w rest) \<and> hw_bits (shifted_pairs s ?w rest) = hw_bits ?w @ nybbles (take (2 * (length rest div 2)) rest)"
    using "1.IH"[OF v_def] "1.prems" by (simp add: hw_inv_def)
  then show ?case by (simp add: Let_def v_def[symmetric] b)
qed simp_all

lemma writes_nybble_8: "writes (msb_bits 4 v) w (output_nybble w (ucast (v :: u8)))"
  using writes_nybble[of "ucast v" w] by (simp add: msb_bits_ucast)

lemma writes_pairs:
  fixes w :: h_writer
  assumes r: "r \<noteq> []"
  defines "w2 \<equiv> (if hw_togo w = 8 then aligned_pairs (w\<lparr>hw_buffer := 0\<rparr>) r else shifted_pairs (nat (8 - hw_togo w)) w r)"
  shows "writes (nybbles r) w (if odd (length r) then output_nybble w2 (ucast (last r)) else w2)"
proof -
  have p: "writes (nybbles (take (2 * (length r div 2)) r)) w w2"
    unfolding writes_def
  proof
    assume i: "hw_inv w"
    show "hw_inv w2 \<and> hw_bits w2 = hw_bits w @ nybbles (take (2 * (length r div 2)) r)"
    proof (cases "hw_togo w = 8")
      case True
      have "hw_bits (w\<lparr>hw_buffer := 0\<rparr>) = hw_bits w" using True by (simp add: hw_bits_def)
      then show ?thesis using writes_aligned[of "w\<lparr>hw_buffer := 0\<rparr>" r] True by (simp add: w2_def)
    next
      case False
      then show ?thesis using writes_shifted[OF i refl, of r] by (simp add: w2_def)
    qed
  qed
  show ?thesis
  proof (cases "odd (length r)")
    case True
    then obtain k where k: "length r = 2 * k + 1" by (rule oddE)
    then have "butlast r = take (2 * (length r div 2)) r" by (simp add: butlast_conv_take)
    then have "r = take (2 * (length r div 2)) r @ [last r]" using r by (metis append_butlast_last_id)
    then have e: "nybbles r = nybbles (take (2 * (length r div 2)) r) @ msb_bits 4 (last r)"
      by (metis append.right_neutral nybbles_simps)
    show ?thesis unfolding e using writes_trans[OF p writes_nybble_8] True by simp
  next
    case False
    then show ?thesis using p by simp
  qed
qed

lemma writes_nnybble: "writes (nybbles vs) w (output_nnybble w vs)"
proof (cases "length vs \<le> 1")
  case True
  then consider "vs = []" | v where "vs = [v]" by (cases vs) auto
  then show ?thesis by cases (use writes_nybble_8 in \<open>auto simp: output_nnybble_def writes_refl\<close>)
next
  case False
  then obtain x y zs where vs: "vs = x # y # zs" by (cases vs; cases "tl vs") auto
  have l: "vs ! (length vs - 1) = last (y # zs)" "last vs = last (y # zs)" by (simp_all add: vs last_conv_nth nth_Cons')
  note first = writes_nybble_8[of x w]
  show ?thesis
  proof (cases "hw_togo w \<le> 4")
    case True
    show ?thesis
    proof (cases "zs = []")
      case zs: True
      then show ?thesis using True writes_trans[OF first writes_nybble_8[of y]] vs by (simp add: output_nnybble_def Let_def)
    next
      case zs: False
      show ?thesis
        using writes_trans[OF first writes_pairs[of "y # zs"]] True zs unfolding output_nnybble_def Let_def l by (auto simp: vs)
    qed
  next
    case False
    show ?thesis using writes_pairs[of vs w] False unfolding output_nnybble_def Let_def l(1) l(2) by (auto simp: vs)
  qed
qed

lemma done_bits:
  assumes i: "hw_inv w"
  shows "byte_bits (hw_out (done_outputing_bits w)) = hw_bits w @ replicate (nat (hw_togo w) mod 8) False"
proof (cases "hw_togo w = 8")
  case True
  then show ?thesis by (simp add: done_outputing_bits_def hw_bits_def)
next
  case False
  then have l: "hw_togo w < 8" "1 \<le> hw_togo w" using i by (auto simp: hw_inv_def)
  define k m where "k = nat (hw_togo w)" and "m = nat (8 - hw_togo w)"
  have k: "k < 8" "m = 8 - k" "k mod 8 = k" using l by (auto simp: k_def m_def)
  have "msb_bits 8 (push_bit k (hw_buffer w)) = msb_bits m (hw_buffer w) @ replicate k False"
    by (rule nth_equalityI) (use k in \<open>auto simp: nth_append bit_simps add.commute\<close>)
  then show ?thesis using l k by (simp add: done_outputing_bits_def hw_bits_def msb_bits_byte k_def[symmetric] m_def[symmetric])
qed

end
