(* ===== verification/Quadtree.thy ===== *)
theory Quadtree
  imports Grid HBits
begin

text \<open>
  The quadtree coding of bit planes (\<open>src/zimage/hcompress.rs\<close>). A plane of a quadrant is packed into
  4-bit codes, one per 2 by 2 block; the encoder reduces the codes level by level to one root and writes the Huffman codes of
  all that are not zero, the decoder expands from the root. The functions that exist for \<open>i32\<close>
  and for \<open>i64\<close> are one function on words. A quadrant is given by its base index into the array.
\<close>

subsection \<open>Decoding\<close>

definition expand_ops :: "u8 block_ops" where
  "expand_ops = \<lparr>
     bo_full = (\<lambda>(code, _, _, _). (drop_bit 3 code AND 1, drop_bit 2 code AND 1, drop_bit 1 code AND 1, code AND 1)),
     bo_right = (\<lambda>(code, _). (drop_bit 3 code AND 1, drop_bit 1 code AND 1)),
     bo_bottom = (\<lambda>(code, _). (drop_bit 3 code AND 1, drop_bit 2 code AND 1)),
     bo_corner = (\<lambda>code. drop_bit 3 code AND 1)\<rparr>"

definition qtree_copy :: "bytes \<Rightarrow> nat \<Rightarrow> nat \<Rightarrow> nat \<Rightarrow> bytes" where
  "qtree_copy a nx ny n =
     (let nx2 = (nx + 1) div 2; ny2 = (ny + 1) div 2;
          a1 = write_steps (\<lambda>k. 2 * (n * (k div ny2) + k mod ny2)) (\<lambda>k a. a ! k) a (rev [0..<nx2 * ny2])
      in foldl (block_step (\<lambda>_. expand_ops) 0 n nx ny) a1 (blocks nx ny))"

text \<open>\<open>for i in (0..nx * ny).rev()\<close>: the first argument is the number of elements still to look at.\<close>

fun read_codes :: "nat \<Rightarrow> bytes \<Rightarrow> h_state \<Rightarrow> codec_error + bytes \<times> h_state" where
  "read_codes 0 a st = Inr (a, st)"
| "read_codes (Suc i) a st =
     (if a ! i \<noteq> 0 then res_bind (input_huffman st) (\<lambda>(v, st). read_codes i (a[i := ucast v]) st) else read_codes i a st)"

definition qtree_expand :: "h_state \<Rightarrow> bytes \<Rightarrow> nat \<Rightarrow> nat \<Rightarrow> codec_error + bytes \<times> h_state" where
  "qtree_expand st a nx ny = read_codes (nx * ny) (qtree_copy a nx ny ny) st"

text \<open>\<open>1 << bit\<close>, whose shift is taken modulo the width.\<close>

definition shl_bit :: "nat \<Rightarrow> 'a::len word" where
  "shl_bit k = push_bit (k mod LENGTH('a)) 1"

definition or_plane :: "u8 \<Rightarrow> u8 \<Rightarrow> 'a::len word \<Rightarrow> 'a word \<Rightarrow> 'a word" where
  "or_plane code m plane v = (if code AND m \<noteq> 0 then v OR plane else v)"

definition bitins_ops :: "u8 \<Rightarrow> 'a::len word \<Rightarrow> ('a word) block_ops" where
  "bitins_ops code plane = \<lparr>
     bo_full = (\<lambda>(v00, v01, v10, v11).
       (or_plane code 8 plane v00, or_plane code 4 plane v01, or_plane code 2 plane v10, or_plane code 1 plane v11)),
     bo_right = (\<lambda>(v00, v10). (or_plane code 8 plane v00, or_plane code 2 plane v10)),
     bo_bottom = (\<lambda>(v00, v01). (or_plane code 8 plane v00, or_plane code 4 plane v01)),
     bo_corner = (\<lambda>v00. or_plane code 8 plane v00)\<rparr>"

definition qtree_bitins ::
  "bytes \<Rightarrow> nat \<Rightarrow> nat \<Rightarrow> 'a::len word list \<Rightarrow> nat \<Rightarrow> nat \<Rightarrow> nat \<Rightarrow> 'a word list" where
  "qtree_bitins codes nx ny b base n plane =
     foldl (block_step (\<lambda>(p, q). bitins_ops (codes ! (p * ((ny + 1) div 2) + q)) (shl_bit plane)) base n nx ny) b (blocks nx ny)"

definition read_bdirect ::
  "h_state \<Rightarrow> 'a::len word list \<Rightarrow> nat \<Rightarrow> nat \<Rightarrow> nat \<Rightarrow> nat \<Rightarrow> nat \<Rightarrow> codec_error + bytes \<times> 'a word list \<times> h_state" where
  "read_bdirect st a base n nqx nqy plane =
     res_bind (input_nnybble st ((nqx + 1) div 2 * ((nqy + 1) div 2))) (\<lambda>(scratch, st).
       Inr (scratch, qtree_bitins scratch nqx nqy a base n plane, st))"

text \<open>\<open>for _k in 1..log2n\<close>; \<open>c\<close>, and the pairs of the region's size and the rest of the full size, as in \<open>grow\<close>.\<close>

fun expand_loop :: "nat \<Rightarrow> nat \<Rightarrow> nat \<times> nat \<Rightarrow> nat \<times> nat \<Rightarrow> bytes \<Rightarrow> h_state \<Rightarrow> codec_error + bytes \<times> h_state" where
  "expand_loop 0 c sx sy scratch st = Inr (scratch, st)"
| "expand_loop (Suc k) c sx sy scratch st =
     (let c = c div 2; sx = grow c sx; sy = grow c sy
      in res_bind (qtree_expand st scratch (fst sx) (fst sy)) (\<lambda>(scratch, st). expand_loop k c sx sy scratch st))"

text \<open>
  \<open>for bit_idx in (0..nbitplanes).rev()\<close>. An empty quadrant has no root to read into: the code indexes
  its empty scratch buffer and panics.
\<close>

fun decode_planes ::
  "nat \<Rightarrow> nat \<Rightarrow> nat \<Rightarrow> nat \<Rightarrow> nat \<Rightarrow> bytes \<Rightarrow> 'a::len word list \<Rightarrow> h_state \<Rightarrow> codec_error + 'a word list \<times> h_state" where
  "decode_planes 0 base n nqx nqy scratch a st = Inr (a, st)"
| "decode_planes (Suc plane) base n nqx nqy scratch a st =
     res_bind (input_nybble st) (\<lambda>(b, st).
     if b = 0 then
       res_bind (read_bdirect st a base n nqx nqy plane) (\<lambda>(scratch, a, st). decode_planes plane base n nqx nqy scratch a st)
     else if b \<noteq> 0x0F then Inl BadFormatCode
     else
       res_bind (input_huffman st) (\<lambda>(v, st).
       if scratch = [] then Inl Panic
       else
         (let log2n = log2n_of (max nqx nqy)
          in res_bind (expand_loop (log2n - 1) (2 ^ log2n) (1, nqx) (1, nqy) (scratch[0 := ucast v]) st) (\<lambda>(scratch, st).
             decode_planes plane base n nqx nqy scratch (qtree_bitins scratch nqx nqy a base n plane) st))))"

definition qtree_decode ::
  "h_state \<Rightarrow> 'a::len word list \<Rightarrow> nat \<Rightarrow> nat \<Rightarrow> nat \<Rightarrow> nat \<Rightarrow> nat \<Rightarrow> codec_error + 'a word list \<times> h_state" where
  "qtree_decode st a base n nqx nqy nbitplanes =
     decode_planes nbitplanes base n nqx nqy (replicate ((nqx + 1) div 2 * ((nqy + 1) div 2)) 0) a st"

subsection \<open>Encoding\<close>

text \<open>The \<open>k\<close>-th block of a region, in the order of the loops.\<close>

definition block_no :: "nat \<Rightarrow> nat \<Rightarrow> nat \<times> nat" where
  "block_no ny k = (k div ((ny + 1) div 2), k mod ((ny + 1) div 2))"

definition onebit_code :: "'a::len word list \<Rightarrow> nat \<Rightarrow> nat \<Rightarrow> nat \<Rightarrow> nat \<Rightarrow> nat \<Rightarrow> nat \<times> nat \<Rightarrow> u8" where
  "onebit_code a base n nx ny plane b =
     (let b0 = shl_bit plane :: 'a word; b1 = push_bit 1 b0; b2 = push_bit 2 b0; b3 = push_bit 3 b0;
          (p, q) = b; s00 = base + n * (2 * p) + 2 * q; s10 = s00 + n;
          row2 = 2 * p + 1 < nx; col2 = 2 * q + 1 < ny;
          v = (if row2 \<and> col2 then a ! (s10 + 1) AND b0 else 0) OR (if row2 then push_bit 1 (a ! s10) AND b1 else 0)
            OR (if col2 then push_bit 2 (a ! (s00 + 1)) AND b2 else 0) OR (push_bit 3 (a ! s00) AND b3)
      in ucast (signed_drop_bit (plane mod LENGTH('a)) v AND 0x0F))"

definition qtree_onebit :: "'a::len word list \<Rightarrow> nat \<Rightarrow> nat \<Rightarrow> nat \<Rightarrow> nat \<Rightarrow> bytes \<Rightarrow> nat \<Rightarrow> bytes" where
  "qtree_onebit a base n nx ny b plane =
     write_steps (\<lambda>k. k) (\<lambda>k _. onebit_code a base n nx ny plane (block_no ny k)) b [0..<(nx + 1) div 2 * ((ny + 1) div 2)]"

definition reduce_code :: "bytes \<Rightarrow> nat \<Rightarrow> nat \<Rightarrow> nat \<Rightarrow> nat \<times> nat \<Rightarrow> u8" where
  "reduce_code a n nx ny b =
     (let (p, q) = b; s00 = n * (2 * p) + 2 * q; s10 = s00 + n;
          row2 = 2 * p + 1 < nx; col2 = 2 * q + 1 < ny
      in (if row2 \<and> col2 then of_bool (a ! (s10 + 1) \<noteq> 0) else 0) OR (if row2 then push_bit 1 (of_bool (a ! s10 \<noteq> 0)) else 0)
         OR (if col2 then push_bit 2 (of_bool (a ! (s00 + 1) \<noteq> 0)) else 0) OR push_bit 3 (of_bool (a ! s00 \<noteq> 0)))"

definition qtree_reduce :: "bytes \<Rightarrow> nat \<Rightarrow> nat \<Rightarrow> nat \<Rightarrow> bytes" where
  "qtree_reduce a n nx ny =
     write_steps (\<lambda>k. k) (\<lambda>k a. reduce_code a n nx ny (block_no ny k)) a [0..<(nx + 1) div 2 * ((ny + 1) div 2)]"

record huff_buffer =
  hb_buffer :: bytes
  hb_len :: nat
  hb_bits :: u32
  hb_togo :: nat

fun bufcopy :: "bytes \<Rightarrow> nat \<Rightarrow> huff_buffer \<Rightarrow> bool \<times> huff_buffer" where
  "bufcopy [] bmax h = (False, h)"
| "bufcopy (v # vs) bmax h =
     (if v = 0 then bufcopy vs bmax h
      else
        (let bits = hb_bits h OR push_bit (hb_togo h) (HCODE ! unat v);
             togo = hb_togo h + HNCODE ! unat v
         in if togo \<ge> 8 then
              (let h1 = h\<lparr>hb_buffer := (hb_buffer h)[hb_len h := ucast (bits AND 0xFF)], hb_len := hb_len h + 1, hb_bits := bits, hb_togo := togo\<rparr>
               in if hb_len h1 \<ge> bmax then (True, h1)
                  else bufcopy vs bmax (h1\<lparr>hb_bits := drop_bit 8 bits, hb_togo := togo - 8\<rparr>))
            else bufcopy vs bmax (h\<lparr>hb_bits := bits, hb_togo := togo\<rparr>)))"

definition write_bdirect ::
  "h_writer \<Rightarrow> 'a::len word list \<Rightarrow> nat \<Rightarrow> nat \<Rightarrow> nat \<Rightarrow> nat \<Rightarrow> bytes \<Rightarrow> nat \<Rightarrow> bytes \<times> h_writer" where
  "write_bdirect w a base n nqx nqy scratch plane =
     (let w1 = output_nybble w 0; scratch = qtree_onebit a base n nqx nqy scratch plane;
          count = (nqx + 1) div 2 * ((nqy + 1) div 2)
      in (scratch, output_nnybble w1 (take count scratch)))"

text \<open>\<open>for _k in 1..log2n\<close> with its early exit.\<close>

fun reduce_loop :: "nat \<Rightarrow> nat \<Rightarrow> nat \<Rightarrow> nat \<Rightarrow> bytes \<Rightarrow> huff_buffer \<Rightarrow> bool \<times> bytes \<times> huff_buffer" where
  "reduce_loop 0 nx ny bmax scratch h = (False, scratch, h)"
| "reduce_loop (Suc k) nx ny bmax scratch h =
     (let scratch = qtree_reduce scratch ny nx ny;
          nx = (nx + 1) div 2; ny = (ny + 1) div 2;
          (overflowed, h) = bufcopy (take (nx * ny) scratch) bmax h
      in if overflowed then (True, scratch, h) else reduce_loop k nx ny bmax scratch h)"

definition write_huffman :: "h_writer \<Rightarrow> huff_buffer \<Rightarrow> h_writer" where
  "write_huffman w h =
     (let w = output_nybble w 0xF; mask = push_bit (hb_togo h) 1 - 1
      in if hb_len h = 0 then
           (if hb_togo h > 0 then output_nbits w (hb_bits h AND mask) (hb_togo h) else output_nbits w (HCODE ! 0) (HNCODE ! 0))
         else
           (let w = (if hb_togo h > 0 then output_nbits w (hb_bits h AND mask) (hb_togo h) else w)
            in foldl (\<lambda>w i. output_nbits w (ucast (hb_buffer h ! i)) 8) w (rev [0..<hb_len h])))"

definition encode_plane ::
  "'a::len word list \<Rightarrow> nat \<Rightarrow> nat \<Rightarrow> nat \<Rightarrow> nat \<Rightarrow> nat \<Rightarrow> bytes \<times> bytes \<times> h_writer \<Rightarrow> bytes \<times> bytes \<times> h_writer" where
  "encode_plane a base n nqx nqy plane s =
     (let (scratch, buffer, w) = s;
          log2n = log2n_of (max nqx nqy);
          nx = (nqx + 1) div 2; ny = (nqy + 1) div 2;
          bmax = (nx * ny + 1) div 2;
          scratch = qtree_onebit a base n nqx nqy scratch plane;
          (overflowed, h) = bufcopy (take (nx * ny) scratch) bmax \<lparr>hb_buffer = buffer, hb_len = 0, hb_bits = 0, hb_togo = 0\<rparr>;
          (overflowed, scratch, h) = (if overflowed then (True, scratch, h) else reduce_loop (log2n - 1) nx ny bmax scratch h)
      in if overflowed
         then (let (scratch, w) = write_bdirect w a base n nqx nqy scratch plane in (scratch, hb_buffer h, w))
         else (scratch, hb_buffer h, write_huffman w h))"

fun encode_planes :: "'a::len word list \<Rightarrow> nat \<Rightarrow> nat \<Rightarrow> nat \<Rightarrow> nat \<Rightarrow> nat \<Rightarrow> bytes \<times> bytes \<times> h_writer \<Rightarrow> bytes \<times> bytes \<times> h_writer" where
  "encode_planes a base n nqx nqy 0 s = s"
| "encode_planes a base n nqx nqy (Suc plane) s = encode_planes a base n nqx nqy plane (encode_plane a base n nqx nqy plane s)"

definition qtree_encode :: "h_writer \<Rightarrow> 'a::len word list \<Rightarrow> nat \<Rightarrow> nat \<Rightarrow> nat \<Rightarrow> nat \<Rightarrow> nat \<Rightarrow> h_writer" where
  "qtree_encode w a base n nqx nqy nbitplanes =
     (let bmax = ((nqx + 1) div 2 * ((nqy + 1) div 2) + 1) div 2
      in snd (snd (encode_planes a base n nqx nqy nbitplanes (replicate (2 * bmax) 0, replicate bmax 0, w))))"

subsection \<open>Codes of blocks\<close>

text \<open>The place in a 4-bit code of the block's element in row \<open>i\<close> and column \<open>j\<close>.\<close>

definition code_bit :: "nat \<Rightarrow> nat \<Rightarrow> nat" where
  "code_bit i j = 3 - 2 * (i mod 2) - j mod 2"

lemma code_bit_cases: 
  "code_bit i j = (if even i then if even j then 3 else 2 else if even j then 1 else 0)"
  by (auto simp: code_bit_def odd_iff_mod_2_eq_one even_iff_mod_2_eq_zero)

definition code_count :: "nat \<Rightarrow> nat \<Rightarrow> nat" where
  "code_count nx ny = (nx + 1) div 2 * ((ny + 1) div 2)"

lemma bit_and_1: "drop_bit k c AND 1 = (of_bool (bit c k) :: u8)"
  by (simp add: and_one_eq mod_2_eq_odd even_drop_bit_iff_not_bit)

lemma block_no_index:
  assumes "2 * p < nx" "2 * q < ny"
  shows "p * ((ny + 1) div 2) + q < code_count nx ny" "block_no ny (p * ((ny + 1) div 2) + q) = (p, q)"
proof -
  have q: "q < (ny + 1) div 2" and p: "p < (nx + 1) div 2" using assms by simp_all
  have "p * ((ny + 1) div 2) \<le> ((nx + 1) div 2 - 1) * ((ny + 1) div 2)" using p by (intro mult_le_mono1) simp
  moreover have "((nx + 1) div 2 - 1) * ((ny + 1) div 2) + (ny + 1) div 2 = code_count nx ny"
    using p by (cases "(nx + 1) div 2") (simp_all add: code_count_def)
  ultimately show "p * ((ny + 1) div 2) + q < code_count nx ny" using q by linarith
  show "block_no ny (p * ((ny + 1) div 2) + q) = (p, q)" using q by (simp add: block_no_def)
qed

lemma block_no_bounds:
  assumes "k < code_count nx ny" "block_no ny k = (p, q)"
  shows "2 * p < nx" "2 * q < ny" "k = p * ((ny + 1) div 2) + q"
proof -
  have z: "0 < (ny + 1) div 2" using assms(1) by (cases "(ny + 1) div 2") (simp_all add: code_count_def)
  have "q < (ny + 1) div 2" using assms(2) z by (auto simp: block_no_def)
  then show "2 * q < ny" by linarith
  have "p < (nx + 1) div 2" using assms less_mult_imp_div_less[of k] by (auto simp: block_no_def code_count_def)
  then show "2 * p < nx" by linarith
  show "k = p * ((ny + 1) div 2) + q" using assms(2) by (metis block_no_def div_mult_mod_eq prod.inject)
qed

text \<open>\<open>packs cs f nx ny\<close>: the codes \<open>cs\<close> hold the bits \<open>f\<close> of a region of \<open>nx\<close> rows and \<open>ny\<close> columns, and nothing else.\<close>

definition packs :: "bytes \<Rightarrow> (nat \<Rightarrow> nat \<Rightarrow> bool) \<Rightarrow> nat \<Rightarrow> nat \<Rightarrow> bool" where
  "packs cs f nx ny \<longleftrightarrow> (\<forall>p q d e. 2 * p < nx \<longrightarrow> 2 * q < ny \<longrightarrow> d < 2 \<longrightarrow> e < 2 \<longrightarrow>
     bit (cs ! (p * ((ny + 1) div 2) + q)) (code_bit d e) = (2 * p + d < nx \<and> 2 * q + e < ny \<and> f (2 * p + d) (2 * q + e))) \<and>
     (\<forall>p q. 2 * p < nx \<longrightarrow> 2 * q < ny \<longrightarrow> cs ! (p * ((ny + 1) div 2) + q) < 16)"

lemma packsD:
  assumes "packs cs f nx ny" "i < nx" "j < ny"
  shows "bit (cs ! (i div 2 * ((ny + 1) div 2) + j div 2)) (code_bit i j) = f i j"
proof -
  have "code_bit i j = code_bit (i mod 2) (j mod 2)" by (simp add: code_bit_def)
  moreover have "2 * (i div 2) < nx" "2 * (j div 2) < ny" using assms by simp_all
  moreover have "2 * (i div 2) + i mod 2 = i" "2 * (j div 2) + j mod 2 = j" by simp_all
  ultimately show ?thesis using assms unfolding packs_def
    by (metis mod_less_divisor zero_less_numeral)
qed

lemma less_16: "(\<And>i. 4 \<le> i \<Longrightarrow> \<not> bit c i) \<Longrightarrow> c < (16 :: u8)"
proof -
  assume a: "\<And>i. 4 \<le> i \<Longrightarrow> \<not> bit c i"
  have "c = take_bit 4 c" by (rule bit_word_eqI) (use a not_less in \<open>auto simp: bit_take_bit_iff\<close>)
  then have "unat c < 2 ^ 4" by (metis take_bit_nat_less_exp unsigned_take_bit_eq)
  then show ?thesis by (simp add: word_less_nat_alt)
qed

lemma less_16D: "c < (16 :: u8) \<Longrightarrow> 4 \<le> i \<Longrightarrow> \<not> bit c i"
proof -
  assume a: "c < 16" "4 \<le> i"
  then have "take_bit 4 (unat c) = unat c" by (simp add: word_less_nat_alt take_bit_nat_eq_self)
  then have "bit (take_bit 4 (unat c)) i = bit c i" by (simp add: bit_unsigned_iff)
  then show ?thesis using a(2) by (auto simp: bit_take_bit_iff)
qed

lemma code_eqI:
  fixes c c' :: u8
  assumes "c < 16" "c' < 16" "\<And>d e. d < 2 \<Longrightarrow> e < 2 \<Longrightarrow> bit c (code_bit d e) = bit c' (code_bit d e)"
  shows "c = c'"
proof (rule bit_word_eqI)
  fix i
  have "bit c i = bit c' i" if "i < 4"
  proof -
    have "i = 0 \<or> i = 1 \<or> i = 2 \<or> i = 3" using that by linarith
    then show ?thesis using assms(3)[of 0 0] assms(3)[of 0 1] assms(3)[of 1 0] assms(3)[of 1 1] by (auto simp: code_bit_def)
  qed
  then show "bit c i = bit c' i" using less_16D[OF assms(1), of i] less_16D[OF assms(2), of i] by (cases "i < 4") auto
qed

lemma shl_bit_iff: "k < LENGTH('a) \<Longrightarrow> bit (shl_bit k :: 'a::len word) i \<longleftrightarrow> i = k"
  by (auto simp: shl_bit_def bit_simps)

lemma push_shl_bit_iff: "s + k < LENGTH('a) \<Longrightarrow> bit (push_bit s (shl_bit k) :: 'a::len word) i \<longleftrightarrow> i = s + k"
  by (auto simp: shl_bit_def bit_simps)

lemma code_field:
  fixes v :: "'a::len word"
  assumes "plane + 3 < LENGTH('a)"
  shows "bit (ucast (signed_drop_bit (plane mod LENGTH('a)) v AND 0x0F) :: u8) i \<longleftrightarrow> i < 4 \<and> bit v (plane + i)"
proof -
  have m: "(0x0F :: 'a word) = mask 4" by (simp add: mask_eq_exp_minus_1)
  show ?thesis unfolding m using assms by (auto simp: bit_simps min_def)
qed

lemma onebit_code_bit:
  fixes a :: "'a::len word list"
  assumes p: "plane + 3 < LENGTH('a)"
  shows "bit (onebit_code a base n nx ny plane (p, q)) i \<longleftrightarrow>
    (i = 3 \<and> bit (cell a base n (2 * p) (2 * q)) plane) \<or>
    (i = 2 \<and> 2 * q + 1 < ny \<and> bit (cell a base n (2 * p) (2 * q + 1)) plane) \<or>
    (i = 1 \<and> 2 * p + 1 < nx \<and> bit (cell a base n (2 * p + 1) (2 * q)) plane) \<or>
    (i = 0 \<and> 2 * p + 1 < nx \<and> 2 * q + 1 < ny \<and> bit (cell a base n (2 * p + 1) (2 * q + 1)) plane)"
proof -
  have c: "base + n * (2 * p) + (2 * q + 1) = base + n * (2 * p) + 2 * q + 1" "base + n * (2 * p + 1) + 2 * q = base + n * (2 * p) + 2 * q + n"
    "base + n * (2 * p + 1) + (2 * q + 1) = base + n * (2 * p) + 2 * q + n + 1" by (simp_all add: algebra_simps)
  have g: "bit (push_bit s x AND push_bit s (shl_bit plane)) j \<longleftrightarrow> j = plane + s \<and> bit x plane" if "s \<le> 3" for s and x :: "'a word" and j
    using p that unfolding bit_and_iff by (auto simp: shl_bit_iff bit_push_bit_iff)
  have g0: "bit (x AND shl_bit plane) j \<longleftrightarrow> j = plane \<and> bit x plane" for x :: "'a word" and j
    using p unfolding bit_and_iff by (auto simp: shl_bit_iff)
  have s3: "(1::nat) \<le> 3" "(2::nat) \<le> 3" "(3::nat) \<le> 3" by simp_all
  show ?thesis
    unfolding onebit_code_def Let_def prod.case code_field[OF p] bit_or_iff cell_def c if_distrib[of "\<lambda>w. bit w j" for j] g0 g[OF s3(1)] g[OF s3(2)] g[OF s3(3)] bit_0_eq
    by (auto)
qed

lemma onebit_packs:
  fixes a :: "'a::len word list"
  assumes p: "plane + 3 < LENGTH('a)" and cs: "\<And>k. k < code_count nx ny \<Longrightarrow> cs ! k = onebit_code a base n nx ny plane (block_no ny k)"
  shows "packs cs (\<lambda>i j. bit (cell a base n i j) plane) nx ny"
  unfolding packs_def
proof (intro conjI allI impI)
  fix p' q d e :: nat assume b: "2 * p' < nx" "2 * q < ny" and de: "d < 2" "e < 2"
  then have "d = 0 \<or> d = 1" "e = 0 \<or> e = 1" by linarith+
  then show "bit (cs ! (p' * ((ny + 1) div 2) + q)) (code_bit d e) =
      (2 * p' + d < nx \<and> 2 * q + e < ny \<and> bit (cell a base n (2 * p' + d) (2 * q + e)) plane)"
    unfolding cs[OF block_no_index(1)[OF b]] block_no_index(2)[OF b] onebit_code_bit[OF p] by (auto simp: code_bit_def b)
next
  fix p' q assume b: "2 * p' < nx" "2 * q < ny"
  show "cs ! (p' * ((ny + 1) div 2) + q) < 16"
    unfolding cs[OF block_no_index(1)[OF b]] block_no_index(2)[OF b] by (rule less_16) (auto simp: onebit_code_bit[OF p])
qed

lemma reduce_code_bit:
  "bit (reduce_code a n nx ny (p, q)) i \<longleftrightarrow>
    (i = 3 \<and> cell a 0 n (2 * p) (2 * q) \<noteq> 0) \<or>
    (i = 2 \<and> 2 * q + 1 < ny \<and> cell a 0 n (2 * p) (2 * q + 1) \<noteq> 0) \<or>
    (i = 1 \<and> 2 * p + 1 < nx \<and> cell a 0 n (2 * p + 1) (2 * q) \<noteq> 0) \<or>
    (i = 0 \<and> 2 * p + 1 < nx \<and> 2 * q + 1 < ny \<and> cell a 0 n (2 * p + 1) (2 * q + 1) \<noteq> 0)"
proof -
  have c: "0 + n * (2 * p) + 2 * q = n * (2 * p) + 2 * q" "0 + n * (2 * p) + (2 * q + 1) = n * (2 * p) + 2 * q + 1"
    "0 + n * (2 * p + 1) + 2 * q = n * (2 * p) + 2 * q + n"
    "0 + n * (2 * p + 1) + (2 * q + 1) = n * (2 * p) + 2 * q + n + 1" by (simp_all add: algebra_simps)
  have g: "bit (push_bit 1 (of_bool x) :: u8) j \<longleftrightarrow> j = 1 \<and> x" "bit (push_bit 2 (of_bool x) :: u8) j \<longleftrightarrow> j = 2 \<and> x"
    "bit (push_bit 3 (of_bool x) :: u8) j \<longleftrightarrow> j = 3 \<and> x" "bit (of_bool x :: u8) j \<longleftrightarrow> j = 0 \<and> x" for x j
    by (auto simp: bit_simps)
  show ?thesis
    unfolding reduce_code_def Let_def prod.case bit_or_iff cell_def c if_distrib[of "\<lambda>w. bit w j" for j] g bit_0_eq
    by auto
qed

definition onebits :: "'a::len word list \<Rightarrow> nat \<Rightarrow> nat \<Rightarrow> nat \<Rightarrow> nat \<Rightarrow> nat \<Rightarrow> bytes" where
  "onebits a base n nx ny plane = map (\<lambda>k. onebit_code a base n nx ny plane (block_no ny k)) [0..<code_count nx ny]"

definition reduced :: "bytes \<Rightarrow> nat \<Rightarrow> nat \<Rightarrow> bytes" where
  "reduced a nx ny = map (\<lambda>k. reduce_code a ny nx ny (block_no ny k)) [0..<code_count nx ny]"

lemma length_onebits [simp]: "length (onebits a base n nx ny plane) = code_count nx ny"
  by (simp add: onebits_def)

lemma length_reduced [simp]: "length (reduced a nx ny) = code_count nx ny"
  by (simp add: reduced_def)

lemma length_qtree_onebit [simp]: "length (qtree_onebit a base n nx ny b plane) = length b"
  by (simp add: qtree_onebit_def)

lemma length_qtree_reduce [simp]: "length (qtree_reduce a n nx ny) = length a"
  by (simp add: qtree_reduce_def)

text \<open>A loop over \<open>k\<close> that writes element \<open>k\<close> and reads no element before it.\<close>

lemma take_forward_writes:
  assumes F: "\<And>k b b'. length b = length b' \<Longrightarrow> (\<And>i. k \<le> i \<Longrightarrow> b ! i = b' ! i) \<Longrightarrow> F k b = F k b'" and l: "n \<le> length a"
  shows "take n (write_steps (\<lambda>k. k) F a [0..<n]) = map (\<lambda>k. F k a) [0..<n]"
proof (rule nth_equalityI)
  fix k assume k: "k < length (take n (write_steps (\<lambda>k. k) F a [0..<n]))"
  have "write_steps (\<lambda>k. k) F a [0..<n] ! k = F k a"
    by (rule write_steps_in[where R = "\<lambda>k. {i. k \<le> i}"]) (use k l in \<open>auto intro!: F sorted_wrt_upt\<close>)
  then show "take n (write_steps (\<lambda>k. k) F a [0..<n]) ! k = map (\<lambda>k. F k a) [0..<n] ! k" using k by simp
qed (use l in simp)

lemma take_qtree_onebit: "code_count nx ny \<le> length b \<Longrightarrow> take (code_count nx ny) (qtree_onebit a base n nx ny b plane) = onebits a base n nx ny plane"
  unfolding qtree_onebit_def onebits_def code_count_def[symmetric] by (rule take_forward_writes) simp_all

lemma block_no_index': "block_no ny k = (p, q) \<Longrightarrow> p * ((ny + 1) div 2) + q = k"
  by (metis block_no_def div_mult_mod_eq prod.inject)

lemma reduce_code_eqI:
  assumes "\<And>i j. i < nx \<Longrightarrow> j < ny \<Longrightarrow> i div 2 = p \<Longrightarrow> j div 2 = q \<Longrightarrow> cell a 0 n i j = cell b 0 n i j" "2 * p < nx" "2 * q < ny"
  shows "reduce_code a n nx ny (p, q) = reduce_code b n nx ny (p, q)"
proof (rule bit_word_eqI)
  fix i
  have "cell a 0 n (2 * p) (2 * q) = cell b 0 n (2 * p) (2 * q)"
    "2 * q + 1 < ny \<Longrightarrow> cell a 0 n (2 * p) (2 * q + 1) = cell b 0 n (2 * p) (2 * q + 1)"
    "2 * p + 1 < nx \<Longrightarrow> cell a 0 n (2 * p + 1) (2 * q) = cell b 0 n (2 * p + 1) (2 * q)"
    "2 * p + 1 < nx \<Longrightarrow> 2 * q + 1 < ny \<Longrightarrow> cell a 0 n (2 * p + 1) (2 * q + 1) = cell b 0 n (2 * p + 1) (2 * q + 1)"
    by (rule assms(1); use assms(2,3) in simp)+
  then show "bit (reduce_code a n nx ny (p, q)) i = bit (reduce_code b n nx ny (p, q)) i"
    unfolding reduce_code_bit by auto
qed

lemma reduced_packs: "packs (reduced a nx ny) (\<lambda>i j. cell a 0 ny i j \<noteq> 0) nx ny"
  unfolding packs_def
proof (intro conjI allI impI)
  fix p q d e :: nat assume b: "2 * p < nx" "2 * q < ny" and de: "d < 2" "e < 2"
  have r: "reduced a nx ny ! (p * ((ny + 1) div 2) + q) = reduce_code a ny nx ny (p, q)"
    using block_no_index[OF b] by (simp add: reduced_def)
  have "d = 0 \<or> d = 1" "e = 0 \<or> e = 1" using de by linarith+
  then show "bit (reduced a nx ny ! (p * ((ny + 1) div 2) + q)) (code_bit d e) =
      (2 * p + d < nx \<and> 2 * q + e < ny \<and> cell a 0 ny (2 * p + d) (2 * q + e) \<noteq> 0)"
    unfolding r reduce_code_bit by (auto simp: code_bit_def b)
next
  fix p q assume b: "2 * p < nx" "2 * q < ny"
  have r: "reduced a nx ny ! (p * ((ny + 1) div 2) + q) = reduce_code a ny nx ny (p, q)"
    using block_no_index[OF b] by (simp add: reduced_def)
  show "reduced a nx ny ! (p * ((ny + 1) div 2) + q) < 16" unfolding r by (rule less_16) (auto simp: reduce_code_bit)
qed

lemma reduced_less: "\<forall>c \<in> set (reduced a nx ny). c < 16"
proof
  fix c assume "c \<in> set (reduced a nx ny)"
  then obtain k where k: "c = reduce_code a ny nx ny (block_no ny k)" by (auto simp: reduced_def)
  obtain p q where "block_no ny k = (p, q)" by (cases "block_no ny k")
  then show "c < 16" unfolding k by (intro less_16) (auto simp: reduce_code_bit)
qed

lemma onebits_less: "plane + 3 < LENGTH('a) \<Longrightarrow> \<forall>c \<in> set (onebits (a :: 'a::len word list) base n nx ny plane). c < 16"
proof
  fix c assume p: "plane + 3 < LENGTH('a)" and "c \<in> set (onebits a base n nx ny plane)"
  then obtain k where k: "c = onebit_code a base n nx ny plane (block_no ny k)" by (auto simp: onebits_def)
  obtain r q where "block_no ny k = (r, q)" by (cases "block_no ny k")
  then show "c < 16" unfolding k by (intro less_16) (auto simp: onebit_code_bit[OF p])
qed

lemma code_count_le: "code_count nx ny \<le> nx * ny"
  unfolding code_count_def using halve_le[of 1 nx] halve_le[of 1 ny] by (intro mult_le_mono) simp_all

lemma take_qtree_reduce:
  assumes "nx * ny \<le> length a"
  shows "take (code_count nx ny) (qtree_reduce a ny nx ny) = reduced (take (nx * ny) a) nx ny"
proof -
  have "take (code_count nx ny) (qtree_reduce a ny nx ny) = map (\<lambda>k. reduce_code a ny nx ny (block_no ny k)) [0..<code_count nx ny]"
    unfolding qtree_reduce_def code_count_def[symmetric]
  proof (rule take_forward_writes)
    fix k and b b' :: bytes assume e: "\<And>i. k \<le> i \<Longrightarrow> b ! i = b' ! i"
    obtain p q where pq: "block_no ny k = (p, q)" by (cases "block_no ny k")
    have "p * ((ny + 1) div 2) \<le> p * (2 * ny)" by (intro mult_le_mono2) (cases ny; simp)
    moreover have "p * (2 * ny) = ny * (2 * p)" by simp
    ultimately have k: "k \<le> ny * (2 * p) + 2 * q" using block_no_index'[OF pq] by linarith
    show "reduce_code b ny nx ny (block_no ny k) = reduce_code b' ny nx ny (block_no ny k)"
      using k by (simp add: pq reduce_code_def Let_def e)
  next
    show "code_count nx ny \<le> length a" using code_count_le[of nx ny] assms by simp
  qed
  also have "\<dots> = reduced (take (nx * ny) a) nx ny"
    unfolding reduced_def
  proof (rule map_cong[OF refl])
    fix k assume "k \<in> set [0..<code_count nx ny]"
    moreover obtain p q where pq: "block_no ny k = (p, q)" by (cases "block_no ny k")
    ultimately have b: "2 * p < nx" "2 * q < ny" using block_no_bounds by auto
    have "cell a 0 ny i j = cell (take (nx * ny) a) 0 ny i j" if "i < nx" "j < ny" for i j
    proof -
      have "ny * i + j < nx * ny" using cell_bound[of i nx j ny ny 0 "nx * ny"] that by (cases nx) auto
      then show ?thesis by (simp add: cell_def)
    qed
    then show "reduce_code a ny nx ny (block_no ny k) = reduce_code (take (nx * ny) a) ny nx ny (block_no ny k)"
      unfolding pq using b by (intro reduce_code_eqI) auto
  qed
  finally show ?thesis .
qed

subsection \<open>Expansion\<close>

lemma expand_at:
  assumes "i < nx" "j < ny" "c = f (2 * (i div 2)) (2 * (j div 2))"
  shows "block_at expand_ops nx ny f i j = of_bool (bit c (code_bit i j))"
proof -
  have "odd i \<Longrightarrow> 2 * (i div 2) + 1 < nx" "odd j \<Longrightarrow> 2 * (j div 2) + 1 < ny" using assms by simp_all
  then show ?thesis
    unfolding block_at_def Let_def expand_ops_def assms(3) code_bit_cases by (auto simp: bit_0 and_one_eq mod_2_eq_odd even_drop_bit_iff_not_bit)
qed

lemma length_qtree_copy [simp]: "length (qtree_copy a nx ny n) = length a"
  by (simp add: qtree_copy_def Let_def)

lemma qtree_copy_at:
  assumes l: "nx * ny \<le> length a" and p: "packs a f nx ny" and i: "i < nx" "j < ny"
  shows "cell (qtree_copy a nx ny ny) 0 ny i j = of_bool (f i j)"
proof -
  let ?h = "(ny + 1) div 2"
  let ?g = "\<lambda>k. 2 * (ny * (k div ?h) + k mod ?h)"
  define a1 where "a1 = write_steps ?g (\<lambda>k a. a ! k) a (rev [0..<(nx + 1) div 2 * ?h])"
  have r: "in_array 0 ny nx ny (length a)" using l i by (cases nx) (auto simp: in_array_def algebra_simps)
  have g: "?g k = ny * (2 * fst (block_no ny k)) + 2 * snd (block_no ny k)" for k
    by (simp add: block_no_def)
  have ge: "k \<le> ?g k" for k
  proof -
    have "k div ?h * ?h \<le> k div ?h * (2 * ny)" by (intro mult_le_mono2) (cases ny; simp)
    moreover have "k div ?h * ?h + k mod ?h = k" by (rule div_mult_mod_eq)
    moreover have "?g k = k div ?h * (2 * ny) + 2 * (k mod ?h)" by (simp add: algebra_simps)
    ultimately show ?thesis by linarith
  qed
  have lt: "?g k < length a" if "k < code_count nx ny" for k
    using block_no_bounds[OF that, of "fst (block_no ny k)" "snd (block_no ny k)"] cell_bound[of _ nx _ ny ny 0 "length a"] r
    unfolding g by (simp add: in_array_def)
  have a1: "a1 ! ?g k = a ! k" if "k < code_count nx ny" for k
    unfolding a1_def code_count_def[symmetric]
  proof (rule write_steps_in[where R = "\<lambda>k. {k}"])
    show "sorted_wrt (\<lambda>k k'. ?g k \<noteq> ?g k' \<and> ?g k \<notin> {k'}) (rev [0..<code_count nx ny])"
    proof (rule sorted_wrt_rev_upt)
      fix k' k assume k: "k' < k" "k < code_count nx ny"
      then have "?g k \<noteq> k'" using ge[of k] by linarith
      moreover have "?g k \<noteq> ?g k'"
      proof
        assume e: "?g k = ?g k'"
        obtain p q p' q' where b: "block_no ny k = (p, q)" "block_no ny k' = (p', q')" by (meson surj_pair)
        note bd = block_no_bounds[OF k(2) b(1)] block_no_bounds[OF _ b(2), of nx]
        have "0 + ny * (2 * p) + 2 * q = 0 + ny * (2 * p') + 2 * q'" using e unfolding g b by simp
        then have "p = p' \<and> q = q'" using bd k cell_inject[of "2 * q" ny "2 * q'" 0] by simp
        then show False using bd k by simp
      qed
      ultimately show "?g k \<noteq> ?g k' \<and> ?g k \<notin> {k'}" by simp
    qed
  qed (use lt that in auto)
  let ?p = "i div 2" and ?q = "j div 2"
  have b: "2 * ?p < nx" "2 * ?q < ny" using i by simp_all
  have c: "cell a1 0 ny (2 * ?p) (2 * ?q) = a ! (?p * ?h + ?q)"
    using a1[OF block_no_index(1)[OF b]] unfolding g block_no_index(2)[OF b] by (simp add: cell_def)
  have "cell (qtree_copy a nx ny ny) 0 ny i j = block_at expand_ops nx ny (cell a1 0 ny) i j"
    using blocks_at[of 0 ny nx ny a1 i j "\<lambda>_. expand_ops"] r i by (simp add: qtree_copy_def Let_def a1_def)
  also have "\<dots> = of_bool (bit (a ! (?p * ?h + ?q)) (code_bit i j))"
    by (rule expand_at[OF i]) (simp add: c)
  also have "\<dots> = of_bool (f i j)" using packsD[OF p i] by simp
  finally show ?thesis .
qed

end
