(* ===== verification/QuadtreeBits.thy ===== *)
theory QuadtreeBits
  imports Quadtree
begin

text \<open>
  What the quadtree coder writes and what the decoder reads of it. The codes of the levels of a plane, from the
  root down and each level backwards, are the bits of its tree form; \<open>plane_bits\<close> are the two forms a plane can
  take, and a decoder that reads either inserts exactly that plane of the coefficients.
\<close>

subsection \<open>Codes in the stream\<close>

definition huff :: "bytes \<Rightarrow> bool list" where
  "huff cs = concat (map (\<lambda>c. if c = 0 then [] else hcode (unat c)) cs)"

lemma huff_simps [simp]: "huff [] = []" "huff (c # cs) = (if c = 0 then [] else hcode (unat c)) @ huff cs" "huff (cs @ ds) = huff cs @ huff ds"
  by (simp_all add: huff_def)

lemma reads_huffman_8: "c < (16 :: u8) \<Longrightarrow> reads (hcode (unat c)) (of_nat (unat c)) input_huffman"
  by (rule reads_huffman) (simp add: word_less_nat_alt)

lemma ucast_u32_u8: "ucast (ucast c :: u32) = (c :: u8)"
  by (rule bit_word_eqI) (simp add: bit_ucast_iff)

lemma reads_codes:
  assumes "\<forall>c \<in> set cs. c < 16"
  shows "length cs = n \<Longrightarrow> n \<le> length a \<Longrightarrow> (\<And>i. i < n \<Longrightarrow> a ! i = 0 \<longleftrightarrow> cs ! i = 0) \<Longrightarrow>
    reads (huff (rev cs)) (cs @ drop n a) (read_codes n a)"
  using assms
proof (induction n arbitrary: a cs)
  case 0
  then show ?case by (simp add: reads_return)
next
  case (Suc n)
  obtain ds c where cs: "cs = ds @ [c]" "length ds = n" using Suc.prems(1) by (cases cs rule: rev_cases) auto
  have c: "c < 16" "cs ! n = c" "\<And>i. i < n \<Longrightarrow> cs ! i = ds ! i" using Suc.prems(4) cs by (simp_all add: nth_append)
  have ds: "\<forall>c \<in> set ds. c < 16" using Suc.prems(4) cs by simp
  show ?case
  proof (cases "c = 0")
    case True
    have an: "a ! n = 0" using Suc.prems(3)[of n] c True by simp
    have "reads (huff (rev ds)) (ds @ drop n a) (read_codes n a)"
      by (rule Suc.IH) (use Suc.prems cs c ds in auto)
    moreover have "drop n a = 0 # drop (Suc n) a" using Suc.prems(2) an by (metis Cons_nth_drop_Suc Suc_le_lessD)
    ultimately show ?thesis using an True cs by simp
  next
    case False
    have an: "a ! n \<noteq> 0" using Suc.prems(3)[of n] c False by simp
    let ?a = "a[n := c]"
    have "reads (huff (rev ds)) (ds @ drop n ?a) (read_codes n ?a)"
      by (rule Suc.IH) (use Suc.prems cs c ds in auto)
    moreover have "drop n ?a = c # drop (Suc n) a"
      using Suc.prems(2) Cons_nth_drop_Suc[of n ?a] by simp
    ultimately have "reads (hcode (unat c) @ huff (rev ds)) (ds @ c # drop (Suc n) a)
        (\<lambda>st. res_bind (input_huffman st) (\<lambda>(v, st). read_codes n (a[n := ucast v]) st))"
      by (intro reads_bind[where g = "\<lambda>v. read_codes n (a[n := ucast v])", OF reads_huffman_8[OF c(1)]]) (simp add: ucast_u32_u8)
    then show ?thesis using an False cs by simp
  qed
qed

lemma packs_cong: "packs cs f nx ny \<Longrightarrow> (\<And>k. k < code_count nx ny \<Longrightarrow> ds ! k = cs ! k) \<Longrightarrow> packs ds f nx ny"
  unfolding packs_def using block_no_index(1)[of _ nx _ ny] by metis

text \<open>One step of the expansion: from the codes of a level to those of the level below.\<close>

lemma reads_expand:
  assumes c: "length cs = nx * ny" "\<forall>c \<in> set cs. c < 16" and l: "nx * ny \<le> length a" and r: "take (code_count nx ny) a = reduced cs nx ny"
  shows "\<exists>rest. length rest = length a - nx * ny \<and> reads (huff (rev cs)) (cs @ rest) (\<lambda>st. qtree_expand st a nx ny)"
proof -
  let ?b = "qtree_copy a nx ny ny"
  have a: "a ! k = reduced cs nx ny ! k" if "k < code_count nx ny" for k using that by (simp add: r[symmetric])
  have p: "packs a (\<lambda>i j. cell cs 0 ny i j \<noteq> 0) nx ny"
    using reduced_packs[of cs nx ny] a by (rule packs_cong)
  have "?b ! k = 0 \<longleftrightarrow> cs ! k = 0" if "k < nx * ny" for k
  proof -
    have ij: "k div ny < nx" "k mod ny < ny" using that by (cases ny; simp add: less_mult_imp_div_less)+
    show ?thesis using qtree_copy_at[OF l p ij] by (simp add: cell_def)
  qed
  then have "reads (huff (rev cs)) (cs @ drop (nx * ny) ?b) (read_codes (nx * ny) ?b)"
    using l c by (intro reads_codes) auto
  then show ?thesis unfolding qtree_expand_def by (intro exI[of _ "drop (nx * ny) ?b"]) (use l in simp)
qed

subsection \<open>Levels\<close>

text \<open>\<open>tree_level cs nx ny k\<close>: the codes after \<open>k\<close> reductions of the codes \<open>cs\<close> of a grid of \<open>nx\<close> rows and \<open>ny\<close> columns.\<close>

fun tree_level :: "bytes \<Rightarrow> nat \<Rightarrow> nat \<Rightarrow> nat \<Rightarrow> bytes" where
  "tree_level cs nx ny 0 = cs"
| "tree_level cs nx ny (Suc k) = tree_level (reduced cs nx ny) ((nx + 1) div 2) ((ny + 1) div 2) k"

lemma level_Suc: "tree_level cs nx ny (Suc k) = reduced (tree_level cs nx ny k) (halve k nx) (halve k ny)"
  by (induction k arbitrary: cs nx ny) simp_all

lemma level_wf:
  "length cs = nx * ny \<and> (\<forall>c \<in> set cs. c < 16) \<Longrightarrow>
    length (tree_level cs nx ny k) = halve k nx * halve k ny \<and> (\<forall>c \<in> set (tree_level cs nx ny k). c < 16)"
proof (induction k arbitrary: cs nx ny)
  case (Suc k)
  have "length (reduced cs nx ny) = (nx + 1) div 2 * ((ny + 1) div 2) \<and> (\<forall>c \<in> set (reduced cs nx ny). c < 16)"
    using reduced_less by (simp add: code_count_def)
  from Suc.IH[OF this] show ?case unfolding tree_level.simps halve.simps .
qed simp

lemma level_props:
  assumes "length cs = nx * ny" "\<forall>c \<in> set cs. c < 16"
  shows "length (tree_level cs nx ny k) = halve k nx * halve k ny" "\<forall>c \<in> set (tree_level cs nx ny k). c < 16"
  using level_wf[of cs nx ny k] assms by simp_all

text \<open>The codes of the levels \<open>0..k\<close>.\<close>

fun tree_levels :: "bytes \<Rightarrow> nat \<Rightarrow> nat \<Rightarrow> nat \<Rightarrow> bytes" where
  "tree_levels cs nx ny 0 = cs"
| "tree_levels cs nx ny (Suc k) = cs @ tree_levels (reduced cs nx ny) ((nx + 1) div 2) ((ny + 1) div 2) k"

lemma levels_Suc: "tree_levels cs nx ny (Suc k) = tree_levels cs nx ny k @ tree_level cs nx ny (Suc k)"
  by (induction k arbitrary: cs nx ny) simp_all

fun tree_below :: "bytes \<Rightarrow> nat \<Rightarrow> nat \<Rightarrow> nat \<Rightarrow> bytes" where
  "tree_below cs nx ny 0 = []"
| "tree_below cs nx ny (Suc k) = tree_levels cs nx ny k"

lemma below_Suc: "tree_below cs nx ny (Suc k) = tree_below cs nx ny k @ tree_level cs nx ny k"
  by (cases k) (simp_all add: levels_Suc del: tree_levels.simps(2) tree_level.simps(2))

lemma reads_expand_loop:
  fixes nqx nqy :: nat
  defines "nx \<equiv> (nqx + 1) div 2" and "ny \<equiv> (nqy + 1) div 2"
  assumes cs: "length cs = nx * ny" "\<forall>c \<in> set cs. c < 16"
  shows "grown nqx (Suc k) sx \<Longrightarrow> grown nqy (Suc k) sy \<Longrightarrow> length scratch = nx * ny \<Longrightarrow>
    take (halve k nx * halve k ny) scratch = tree_level cs nx ny k \<Longrightarrow>
    reads (huff (rev (tree_below cs nx ny k))) cs (\<lambda>st. expand_loop k (2 ^ Suc k) sx sy scratch st)"
proof (induction k arbitrary: sx sy scratch)
  case 0
  then show ?case by (simp add: reads_return)
next
  case (Suc k)
  let ?sx = "grow (2 ^ Suc k) sx" and ?sy = "grow (2 ^ Suc k) sy"
  note g = grown_step[OF Suc.prems(1)] grown_step[OF Suc.prems(2)]
  have f: "fst ?sx = halve k nx" "fst ?sy = halve k ny"
    using grown_halve[OF g(1)] grown_halve[OF g(2)] by (simp_all add: nx_def ny_def)
  have le: "halve k nx * halve k ny \<le> length scratch"
    using halve_le[of k nx] halve_le[of k ny] Suc.prems(3) by (simp add: mult_le_mono)
  have "code_count (halve k nx) (halve k ny) = halve (Suc k) nx * halve (Suc k) ny"
    by (simp only: code_count_def halve_Suc)
  then have r: "take (code_count (halve k nx) (halve k ny)) scratch = reduced (tree_level cs nx ny k) (halve k nx) (halve k ny)"
    using Suc.prems(4) by (simp only: level_Suc)
  obtain rest where rest: "length rest = length scratch - halve k nx * halve k ny"
    and x: "reads (huff (rev (tree_level cs nx ny k))) (tree_level cs nx ny k @ rest) (\<lambda>st. qtree_expand st scratch (fst ?sx) (fst ?sy))"
    using reads_expand[OF level_props[OF cs] le r] unfolding f by blast
  have "reads (huff (rev (tree_below cs nx ny k))) cs (\<lambda>st. expand_loop k (2 ^ Suc k) ?sx ?sy (tree_level cs nx ny k @ rest) st)"
    by (rule Suc.IH[OF g]) (use rest le Suc.prems(3) level_props[OF cs, of k] in simp_all)
  from reads_bind[OF x, of _ _ "\<lambda>s st. expand_loop k (2 ^ Suc k) ?sx ?sy s st", OF this]
  show ?case unfolding below_Suc by (simp add: Let_def)
qed

subsection \<open>Inserting a plane\<close>

definition top_bits :: "nat \<Rightarrow> 'a::len word \<Rightarrow> 'a word" where
  "top_bits k v = push_bit k (drop_bit k v)"

lemma bit_top_bits: "bit (top_bits k v) i \<longleftrightarrow> k \<le> i \<and> bit v i"
  by (auto simp: top_bits_def bit_push_bit_iff bit_drop_bit_eq dest: bit_imp_le_length)

lemma top_bits_Suc: "k < LENGTH('a) \<Longrightarrow> top_bits k (v :: 'a::len word) = (if bit v k then top_bits (Suc k) v OR shl_bit k else top_bits (Suc k) v)"
  by (rule bit_word_eqI) (auto simp: bit_top_bits shl_bit_iff bit_or_iff Suc_le_eq le_less)

lemma top_bits_0 [simp]: "top_bits 0 v = v"
  by (simp add: top_bits_def)

definition region :: "nat \<Rightarrow> nat \<Rightarrow> nat \<Rightarrow> nat \<Rightarrow> nat set" where
  "region base n nx ny = {base + n * i + j | i j. i < nx \<and> j < ny}"

text \<open>The array \<open>a\<close> with the bits from \<open>plane\<close> up of the elements of \<open>t\<close> in a region.\<close>

definition overlay :: "'a::len word list \<Rightarrow> nat \<Rightarrow> nat \<Rightarrow> nat \<Rightarrow> nat \<Rightarrow> nat \<Rightarrow> 'a word list \<Rightarrow> 'a word list" where
  "overlay t base n nx ny plane a = map (\<lambda>k. if k \<in> region base n nx ny then top_bits plane (t ! k) else a ! k) [0..<length a]"

lemma length_overlay [simp]: "length (overlay t base n nx ny plane a) = length a"
  by (simp add: overlay_def)

lemma region_lt: "in_array base n nx ny N \<Longrightarrow> k \<in> region base n nx ny \<Longrightarrow> k < N"
  by (auto simp: region_def in_array_def intro: cell_bound)

lemma and_code: "c AND 8 \<noteq> 0 \<longleftrightarrow> bit c 3" "c AND 4 \<noteq> 0 \<longleftrightarrow> bit c 2" "c AND 2 \<noteq> 0 \<longleftrightarrow> bit c (Suc 0)" "c AND 1 \<noteq> 0 \<longleftrightarrow> bit c 0" for c :: u8
proof -
  have e: "(8 :: u8) = push_bit 3 1" "(4 :: u8) = push_bit 2 1" "(2 :: u8) = push_bit 1 1" by (simp_all add: push_bit_eq_mult)
  have s: "bit (c AND push_bit k 1) i \<longleftrightarrow> bit c i \<and> i = k" if "k < 8" for i k using that by (auto simp: bit_simps)
  have n: "c AND push_bit k 1 \<noteq> 0 \<longleftrightarrow> bit c k" if "k < 8" for k
    using s[OF that] by (metis bit_0_eq bit_word_eqI bot_apply bot_bool_def)
  show "c AND 8 \<noteq> 0 \<longleftrightarrow> bit c 3" unfolding e by (rule n) simp
  show "c AND 4 \<noteq> 0 \<longleftrightarrow> bit c 2" unfolding e by (rule n) simp
  show "c AND 2 \<noteq> 0 \<longleftrightarrow> bit c (Suc 0)" unfolding e using n[of 1] by simp
  show "c AND 1 \<noteq> 0 \<longleftrightarrow> bit c 0" using n[of 0] by simp
qed

lemma bitins_at:
  assumes "i < nx" "j < ny"
  shows "block_at (bitins_ops code plane) nx ny f i j = (if bit code (code_bit i j) then f i j OR plane else f i j)"
proof -
  have "odd i \<Longrightarrow> 2 * (i div 2) + 1 < nx" "odd j \<Longrightarrow> 2 * (j div 2) + 1 < ny" using assms by simp_all
  moreover have "even i \<Longrightarrow> 2 * (i div 2) = i" "odd i \<Longrightarrow> 2 * (i div 2) + 1 = i" "even j \<Longrightarrow> 2 * (j div 2) = j" "odd j \<Longrightarrow> 2 * (j div 2) + 1 = j"
    by simp_all
  ultimately show ?thesis
    unfolding block_at_def Let_def bitins_ops_def code_bit_cases or_plane_def and_code by (auto split: if_splits)
qed

lemma qtree_bitins_overlay:
  fixes t a :: "'a::len word list"
  assumes p: "packs codes (\<lambda>i j. bit (cell t base n i j) plane) nx ny" and r: "in_array base n nx ny (length a)"
    and l: "plane < LENGTH('a)"
  shows "qtree_bitins codes nx ny (overlay t base n nx ny (Suc plane) a) base n plane = overlay t base n nx ny plane a"
proof (rule nth_equalityI)
  let ?a = "overlay t base n nx ny (Suc plane) a"
  show "length (qtree_bitins codes nx ny ?a base n plane) = length (overlay t base n nx ny plane a)"
    by (simp add: qtree_bitins_def)
  fix k assume k: "k < length (qtree_bitins codes nx ny ?a base n plane)"
  then have k: "k < length a" by (simp add: qtree_bitins_def)
  show "qtree_bitins codes nx ny ?a base n plane ! k = overlay t base n nx ny plane a ! k"
  proof (cases "k \<in> region base n nx ny")
    case True
    then obtain i j where ij: "k = base + n * i + j" "i < nx" "j < ny" by (auto simp: region_def)
    let ?c = "codes ! (i div 2 * ((ny + 1) div 2) + j div 2)"
    have "cell (qtree_bitins codes nx ny ?a base n plane) base n i j =
        block_at (bitins_ops ?c (shl_bit plane)) nx ny (cell ?a base n) i j"
      using blocks_at[of base n nx ny ?a i j "\<lambda>(p, q). bitins_ops (codes ! (p * ((ny + 1) div 2) + q)) (shl_bit plane)"] r ij
      by (simp add: qtree_bitins_def)
    also have "\<dots> = (if bit (t ! k) plane then ?a ! k OR shl_bit plane else ?a ! k)"
      unfolding bitins_at[OF ij(2,3)] packsD[OF p ij(2,3)] by (simp add: cell_def ij(1))
    also have "\<dots> = top_bits plane (t ! k)" using True k l by (simp add: overlay_def top_bits_Suc)
    finally show ?thesis using True k by (simp add: cell_def ij(1)[symmetric]) (simp add: overlay_def)
  next
    case False
    then have "qtree_bitins codes nx ny ?a base n plane ! k = ?a ! k"
      unfolding qtree_bitins_def using r by (intro blocks_out) (auto simp: region_def)
    then show ?thesis using False k by (simp add: overlay_def)
  qed
qed

subsection \<open>Reading a plane\<close>

text \<open>The two forms of a plane in the stream: the codes themselves, or those of every level from the root down.\<close>

definition direct_bits :: "bytes \<Rightarrow> bool list" where
  "direct_bits cs = [False, False, False, False] @ nybbles cs"

definition tree_bits :: "bytes \<Rightarrow> nat \<Rightarrow> nat \<Rightarrow> nat \<Rightarrow> bool list" where
  "tree_bits cs nx ny k = [True, True, True, True] @ hcode (unat (hd (tree_level cs nx ny k))) @ huff (rev (tree_below cs nx ny k))"

definition plane_bits :: "bool list \<Rightarrow> 'a::len word list \<Rightarrow> nat \<Rightarrow> nat \<Rightarrow> nat \<Rightarrow> nat \<Rightarrow> nat \<Rightarrow> bool" where
  "plane_bits bs t base n nqx nqy plane \<longleftrightarrow> (let cs = onebits t base n nqx nqy plane in bs = direct_bits cs \<or>
     bs = tree_bits cs ((nqx + 1) div 2) ((nqy + 1) div 2) (log2n_of (max nqx nqy) - 1))"

lemma onebits_packs:
  assumes "plane + 3 < LENGTH('a)"
  shows "packs (onebits t base n nx ny plane) (\<lambda>i j. bit (cell (t :: 'a::len word list) base n i j) plane) nx ny"
  by (rule onebit_packs[OF assms]) (simp add: onebits_def)

lemma reads_bdirect:
  fixes t a :: "'a::len word list"
  assumes p: "plane + 3 < LENGTH('a)" and r: "in_array base n nqx nqy (length a)"
  shows "reads (nybbles (onebits t base n nqx nqy plane)) (onebits t base n nqx nqy plane, overlay t base n nqx nqy plane a)
    (\<lambda>st. res_bind (read_bdirect st (overlay t base n nqx nqy (Suc plane) a) base n nqx nqy plane) (\<lambda>(s, a, st). Inr ((s, a), st)))"
proof -
  let ?cs = "onebits t base n nqx nqy plane"
  have i: "qtree_bitins ?cs nqx nqy (overlay t base n nqx nqy (Suc plane) a) base n plane = overlay t base n nqx nqy plane a"
    by (rule qtree_bitins_overlay[OF onebits_packs[OF p] r]) (use p in simp)
  have l: "length ?cs = (nqx + 1) div 2 * ((nqy + 1) div 2)" by (simp add: code_count_def)
  have "reads (nybbles ?cs @ []) (?cs, overlay t base n nqx nqy plane a)
      (\<lambda>st. res_bind (input_nnybble st (length ?cs)) (\<lambda>(s, st). Inr ((s, qtree_bitins s nqx nqy (overlay t base n nqx nqy (Suc plane) a) base n plane), st)))"
    by (rule reads_bind[where g = "\<lambda>s st. Inr ((s, qtree_bitins s nqx nqy (overlay t base n nqx nqy (Suc plane) a) base n plane), st)",
          OF reads_nnybble[OF onebits_less[OF p]]]) (simp add: i reads_return)
  moreover have "(\<lambda>st. res_bind (read_bdirect st (overlay t base n nqx nqy (Suc plane) a) base n nqx nqy plane) (\<lambda>(s, a, st). Inr ((s, a), st)))
      = (\<lambda>st. res_bind (input_nnybble st (length ?cs)) (\<lambda>(s, st). Inr ((s, qtree_bitins s nqx nqy (overlay t base n nqx nqy (Suc plane) a) base n plane), st)))"
  proof
    fix st show "res_bind (read_bdirect st (overlay t base n nqx nqy (Suc plane) a) base n nqx nqy plane) (\<lambda>(s, a, st). Inr ((s, a), st))
      = res_bind (input_nnybble st (length ?cs)) (\<lambda>(s, st). Inr ((s, qtree_bitins s nqx nqy (overlay t base n nqx nqy (Suc plane) a) base n plane), st))"
      unfolding read_bdirect_def l by (cases "input_nnybble st ((nqx + 1) div 2 * ((nqy + 1) div 2))") auto
  qed
  ultimately show ?thesis by simp
qed

lemma log2n_halves:
  assumes "0 < nqx" "0 < nqy"
  shows "halve (log2n_of (max nqx nqy) - 1) ((nqx + 1) div 2) = 1" "halve (log2n_of (max nqx nqy) - 1) ((nqy + 1) div 2) = 1"
    "grown nqx (Suc (log2n_of (max nqx nqy) - 1)) (1, nqx)" "grown nqy (Suc (log2n_of (max nqx nqy) - 1)) (1, nqy)"
proof -
  let ?k = "log2n_of (max nqx nqy)"
  have "max nqx nqy \<le> 2 ^ ?k" using log2n_bounds[of "max nqx nqy"] assms by simp
  also have "\<dots> \<le> 2 ^ Suc (?k - 1)" by (intro power_increasing) auto
  finally have m: "nqx \<le> 2 ^ Suc (?k - 1)" "nqy \<le> 2 ^ Suc (?k - 1)" by simp_all
  show "halve (?k - 1) ((nqx + 1) div 2) = 1" using halve_log2n[OF assms(1) m(1)] by simp
  show "halve (?k - 1) ((nqy + 1) div 2) = 1" using halve_log2n[OF assms(2) m(2)] by simp
  show "grown nqx (Suc (?k - 1)) (1, nqx)" using grown_start[OF assms(1) m(1)] .
  show "grown nqy (Suc (?k - 1)) (1, nqy)" using grown_start[OF assms(2) m(2)] .
qed

lemma expand_loop_c: "expand_loop (k - 1) (2 ^ k) sx sy scratch = expand_loop (k - 1) (2 ^ Suc (k - 1)) sx sy scratch"
  by (cases k) (simp_all add: fun_eq_iff)

lemma reads_tree:
  fixes nqx nqy :: nat
  defines "k \<equiv> log2n_of (max nqx nqy)" and "nx \<equiv> (nqx + 1) div 2" and "ny \<equiv> (nqy + 1) div 2"
  assumes q: "0 < nqx" "0 < nqy" and cs: "length cs = nx * ny" "\<forall>c \<in> set cs. c < 16" and s: "length scratch = nx * ny"
  shows "reads (hcode (unat (hd (tree_level cs nx ny (k - 1)))) @ huff (rev (tree_below cs nx ny (k - 1)))) cs
    (\<lambda>st. res_bind (input_huffman st) (\<lambda>(v, st). expand_loop (k - 1) (2 ^ k) (1, nqx) (1, nqy) (scratch[0 := ucast v]) st))"
proof -
  note h = log2n_halves[OF q, folded k_def nx_def ny_def]
  have l: "length (tree_level cs nx ny (k - 1)) = 1" using level_props(1)[OF cs, of "k - 1"] h by simp
  then obtain r where r: "tree_level cs nx ny (k - 1) = [r]" by (auto simp: length_Suc_conv)
  have r16: "r < 16" using level_props(2)[OF cs, of "k - 1"] r by simp
  have "0 < nx" "0 < ny" using q by (simp_all add: nx_def ny_def)
  then have n0: "0 < length scratch" using s by simp
  have t: "take (halve (k - 1) nx * halve (k - 1) ny) (scratch[0 := r]) = tree_level cs nx ny (k - 1)"
    using n0 unfolding h r by (cases scratch) simp_all
  have "reads (huff (rev (tree_below cs nx ny (k - 1)))) cs (expand_loop (k - 1) (2 ^ Suc (k - 1)) (1, nqx) (1, nqy) (scratch[0 := r]))"
    unfolding nx_def ny_def
    by (rule reads_expand_loop) (use cs s h t in \<open>simp_all add: nx_def ny_def\<close>)
  moreover have e: "ucast (of_nat (unat r) :: u32) = r" by (simp add: ucast_u32_u8)
  ultimately have "reads (huff (rev (tree_below cs nx ny (k - 1)))) cs (expand_loop (k - 1) (2 ^ k) (1, nqx) (1, nqy) (scratch[0 := ucast (of_nat (unat r) :: u32)]))"
    by (simp only: expand_loop_c[of k] e)
  then show ?thesis unfolding r list.sel
    by (rule reads_bind[where g = "\<lambda>v. expand_loop (k - 1) (2 ^ k) (1, nqx) (1, nqy) (scratch[0 := ucast v])", OF reads_huffman_8[OF r16]])
qed

lemma reads_nybble_0: "reads [False, False, False, False] 0 input_nybble"
  using reads_nybble[of "[False, False, False, False]"] by (simp add: bits_val_Cons)

lemma reads_nybble_15: "reads [True, True, True, True] 15 input_nybble"
  using reads_nybble[of "[True, True, True, True]"] by (simp add: bits_val_Cons)

text \<open>A first part \<open>f\<close> that returns \<open>b\<close>, and what is left of \<open>h\<close> after it.\<close>

lemma reads_step:
  assumes "reads bs b f" "reads cs v g" "\<And>st st'. f st = Inr (b, st') \<Longrightarrow> h st = g st'"
  shows "reads (bs @ cs) v h"
  unfolding reads_def
proof (intro allI impI)
  fix st rest assume st: "hs_inv st" "hs_bits st = (bs @ cs) @ rest"
  then obtain st1 where 1: "f st = Inr (b, st1)" "hs_inv st1" "hs_bits st1 = cs @ rest" "hs_bytes st1 = hs_bytes st"
    using readsD[OF assms(1), of st "cs @ rest"] by auto
  with readsD[OF assms(2) 1(2,3)] assms(3)[OF 1(1)]
  show "\<exists>st'. h st = Inr (v, st') \<and> hs_inv st' \<and> hs_bits st' = rest \<and> hs_bytes st' = hs_bytes st" by auto
qed

lemma res_bind_assoc: "res_bind (res_bind r f) g = res_bind r (\<lambda>x. res_bind (f x) g)"
  by (cases r) simp_all

lemma reads_plane:
  fixes t a :: "'a::len word list"
  assumes bs: "plane_bits bs t base n nqx nqy plane" and p: "plane + 3 < LENGTH('a)" and r: "in_array base n nqx nqy (length a)"
    and q: "0 < nqx" "0 < nqy" and l: "length scratch = code_count nqx nqy"
    and rest: "\<And>scratch. length scratch = code_count nqx nqy \<Longrightarrow>
      reads rest v (\<lambda>st. decode_planes plane base n nqx nqy scratch (overlay t base n nqx nqy plane a) st)"
  shows "reads (bs @ rest) v (\<lambda>st. decode_planes (Suc plane) base n nqx nqy scratch (overlay t base n nqx nqy (Suc plane) a) st)"
proof -
  let ?cs = "onebits t base n nqx nqy plane" and ?o = "overlay t base n nqx nqy (Suc plane) a"
  let ?k = "log2n_of (max nqx nqy)" and ?nx = "(nqx + 1) div 2" and ?ny = "(nqy + 1) div 2"
  have cs: "length ?cs = ?nx * ?ny" "\<forall>c \<in> set ?cs. c < 16" using onebits_less[OF p] by (auto simp: code_count_def)
  have s: "length scratch = ?nx * ?ny" using l by (simp add: code_count_def)
  have ne: "scratch \<noteq> []" using s q by auto
  have nx: "reads rest v (\<lambda>st. decode_planes plane base n nqx nqy ?cs (overlay t base n nqx nqy plane a) st)"
    by (rule rest) simp
  from bs consider "bs = direct_bits ?cs" | "bs = tree_bits ?cs ?nx ?ny (?k - 1)" by (auto simp: plane_bits_def Let_def)
  then show ?thesis
  proof cases
    case 1
    have "reads (nybbles ?cs @ rest) v (\<lambda>st. res_bind (read_bdirect st ?o base n nqx nqy plane) (\<lambda>(s, a, st). decode_planes plane base n nqx nqy s a st))"
      by (rule reads_step[OF reads_bdirect[OF p r] nx]) (auto simp: res_bind_Inr_iff)
    then show ?thesis unfolding 1 direct_bits_def append_assoc
      by (rule reads_step[OF reads_nybble_0]) simp
  next
    case 2
    have "reads ((hcode (unat (hd (tree_level ?cs ?nx ?ny (?k - 1)))) @ huff (rev (tree_below ?cs ?nx ?ny (?k - 1)))) @ rest) v
      (\<lambda>st. res_bind (res_bind (input_huffman st) (\<lambda>(v, st). expand_loop (?k - 1) (2 ^ ?k) (1, nqx) (1, nqy) (scratch[0 := ucast v]) st))
        (\<lambda>(s, st). decode_planes plane base n nqx nqy s (qtree_bitins s nqx nqy ?o base n plane) st))"
      using nx by (rule reads_step[OF reads_tree[OF q cs s]])
        (simp add: qtree_bitins_overlay[OF onebits_packs[OF p] r] p[THEN add_lessD1])
    then show ?thesis unfolding 2 tree_bits_def append_assoc
      by (rule reads_step[OF reads_nybble_15]) (auto simp: Let_def ne res_bind_assoc split_def)
  qed
qed

text \<open>The planes of a quadrant, from the top one down.\<close>

fun planes_bits :: "bool list \<Rightarrow> 'a::len word list \<Rightarrow> nat \<Rightarrow> nat \<Rightarrow> nat \<Rightarrow> nat \<Rightarrow> nat \<Rightarrow> bool" where
  "planes_bits bs t base n nqx nqy 0 \<longleftrightarrow> bs = []"
| "planes_bits bs t base n nqx nqy (Suc plane) \<longleftrightarrow>
     (\<exists>cs ds. bs = cs @ ds \<and> plane_bits cs t base n nqx nqy plane \<and> planes_bits ds t base n nqx nqy plane)"

lemma reads_planes:
  fixes t a :: "'a::len word list"
  assumes "nb + 2 < LENGTH('a)" "in_array base n nqx nqy (length a)" "0 < nqx" "0 < nqy"
  shows "planes_bits bs t base n nqx nqy nb \<Longrightarrow> length scratch = code_count nqx nqy \<Longrightarrow>
    reads bs (overlay t base n nqx nqy 0 a) (\<lambda>st. decode_planes nb base n nqx nqy scratch (overlay t base n nqx nqy nb a) st)"
  using assms
proof (induction nb arbitrary: bs scratch)
  case 0
  then show ?case by (simp add: reads_return)
next
  case (Suc plane)
  obtain cs ds where bs: "bs = cs @ ds" "plane_bits cs t base n nqx nqy plane" "planes_bits ds t base n nqx nqy plane"
    using Suc.prems(1) by auto
  show ?case unfolding bs(1)
    by (rule reads_plane[OF bs(2)]) (use Suc.IH[OF bs(3)] Suc.prems in auto)
qed

text \<open>Zero outside the low \<open>nb\<close> bits: the overlay with no plane at all is the array of zeros.\<close>

definition fits_planes :: "'a::len word list \<Rightarrow> nat \<Rightarrow> nat \<Rightarrow> nat \<Rightarrow> nat \<Rightarrow> nat \<Rightarrow> bool" where
  "fits_planes t base n nx ny nb \<longleftrightarrow> (\<forall>k \<in> region base n nx ny. top_bits nb (t ! k) = 0)"

lemma reads_quadrant:
  fixes t a :: "'a::len word list"
  assumes b: "planes_bits bs t base n nqx nqy nb" and nb: "nb + 2 < LENGTH('a)" and r: "in_array base n nqx nqy (length a)"
    and q: "0 < nqx" "0 < nqy" and t: "fits_planes t base n nqx nqy nb" and z: "\<forall>k \<in> region base n nqx nqy. a ! k = 0"
  shows "reads bs (overlay t base n nqx nqy 0 a) (\<lambda>st. qtree_decode st a base n nqx nqy nb)"
proof -
  have "overlay t base n nqx nqy nb a = a"
    by (rule nth_equalityI) (use t z in \<open>auto simp: overlay_def fits_planes_def\<close>)
  then show ?thesis
    using reads_planes[OF nb r q b, of "replicate (code_count nqx nqy) 0"] by (simp add: qtree_decode_def code_count_def)
qed

subsection \<open>Packing the codes\<close>

text \<open>
  The buffer is filled with the reversed bits of the codes, lowest bit first, so that reading it backwards gives the codes
  in reverse order. \<open>hb_out\<close> is what will be written.
\<close>

definition hb_out :: "huff_buffer \<Rightarrow> bool list" where
  "hb_out h = msb_bits (hb_togo h) (hb_bits h) @ byte_bits (rev (take (hb_len h) (hb_buffer h)))"

definition hb_inv :: "nat \<Rightarrow> huff_buffer \<Rightarrow> bool" where
  "hb_inv bmax h \<longleftrightarrow> hb_togo h < 8 \<and> hb_len h < bmax \<and> length (hb_buffer h) = bmax \<and> (\<forall>i \<ge> hb_togo h. \<not> bit (hb_bits h) i)"

lemma hcode_fits: "v < 16 \<Longrightarrow> HNCODE ! v \<le> 6 \<and> HNCODE ! v \<ge> 3 \<and> take_bit (HNCODE ! v) (HCODE ! v) = HCODE ! v"
proof -
  have "\<forall>v \<in> set [0..<16]. HNCODE ! v \<le> 6 \<and> HNCODE ! v \<ge> 3 \<and> take_bit (HNCODE ! v) (HCODE ! v) = HCODE ! v" by code_simp
  then show "v < 16 \<Longrightarrow> HNCODE ! v \<le> 6 \<and> HNCODE ! v \<ge> 3 \<and> take_bit (HNCODE ! v) (HCODE ! v) = HCODE ! v" by simp
qed

lemma msb_bits_on_top:
  fixes w c :: "'a::len word"
  assumes "\<forall>i \<ge> k. \<not> bit w i" "k + n \<le> LENGTH('a)"
  shows "msb_bits (k + n) (w OR push_bit k c) = msb_bits n c @ msb_bits k w"
proof (rule nth_equalityI)
  fix i assume i: "i < length (msb_bits (k + n) (w OR push_bit k c))"
  show "msb_bits (k + n) (w OR push_bit k c) ! i = (msb_bits n c @ msb_bits k w) ! i"
  proof (cases "i < n")
    case True
    then have "k + n - 1 - i < LENGTH('a)" "k \<le> k + n - 1 - i" "k + n - 1 - i - k = n - 1 - i" using assms(2) by simp_all
    then show ?thesis using True assms(1) i by (simp add: nth_append bit_or_iff bit_push_bit_iff)
  next
    case False
    then have "k + n - 1 - i < k" "k - 1 - (i - n) = k + n - 1 - i" using i by simp_all
    then show ?thesis using False i by (simp add: nth_append bit_or_iff bit_push_bit_iff)
  qed
qed simp

lemma bufcopy_step:
  assumes v: "v < (16 :: u8)" and i: "hb_inv bmax h"
  defines "bits \<equiv> hb_bits h OR push_bit (hb_togo h) (HCODE ! unat v)" and "togo \<equiv> hb_togo h + HNCODE ! unat v"
  shows "togo < 8 \<Longrightarrow> hb_inv bmax (h\<lparr>hb_bits := bits, hb_togo := togo\<rparr>) \<and>
      hb_out (h\<lparr>hb_bits := bits, hb_togo := togo\<rparr>) = hcode (unat v) @ hb_out h"
    and "8 \<le> togo \<Longrightarrow> hb_len h + 1 < bmax \<Longrightarrow>
      (let h1 = h\<lparr>hb_buffer := (hb_buffer h)[hb_len h := ucast (bits AND 0xFF)], hb_len := hb_len h + 1,
         hb_bits := drop_bit 8 bits, hb_togo := togo - 8\<rparr>
       in hb_inv bmax h1 \<and> hb_out h1 = hcode (unat v) @ hb_out h)"
proof -
  have v16: "unat v < 16" using v by (simp add: word_less_nat_alt)
  note f = hcode_fits[OF v16]
  have t: "hb_togo h + HNCODE ! unat v \<le> 32" using i f by (auto simp: hb_inv_def)
  have m: "msb_bits togo bits = hcode (unat v) @ msb_bits (hb_togo h) (hb_bits h)"
    unfolding togo_def bits_def hcode_def using i t by (intro msb_bits_on_top) (auto simp: hb_inv_def)
  have c: "\<not> bit (HCODE ! unat v) j" if "HNCODE ! unat v \<le> j" for j
    using f that by (metis bit_take_bit_iff not_less)
  have z: "\<forall>j \<ge> togo. \<not> bit bits j" using i c by (auto simp: bits_def togo_def hb_inv_def bit_or_iff bit_push_bit_iff)
  show "togo < 8 \<Longrightarrow> hb_inv bmax (h\<lparr>hb_bits := bits, hb_togo := togo\<rparr>) \<and>
      hb_out (h\<lparr>hb_bits := bits, hb_togo := togo\<rparr>) = hcode (unat v) @ hb_out h"
    using i z m by (simp add: hb_inv_def hb_out_def)
  assume a: "8 \<le> togo" "hb_len h + 1 < bmax"
  have t16: "togo - 8 < 8" using i f by (auto simp: hb_inv_def togo_def)
  have "msb_bits togo bits = msb_bits (togo - 8) (drop_bit 8 bits) @ msb_bits 8 bits"
    using msb_bits_add[of "togo - 8" 8 bits] a by simp
  moreover have "take (Suc (hb_len h)) ((hb_buffer h)[hb_len h := ucast (bits AND 0xFF)]) = take (hb_len h) (hb_buffer h) @ [ucast (bits AND 0xFF)]"
    using i by (simp add: hb_inv_def take_Suc_conv_app_nth)
  ultimately show "let h1 = h\<lparr>hb_buffer := (hb_buffer h)[hb_len h := ucast (bits AND 0xFF)], hb_len := hb_len h + 1,
         hb_bits := drop_bit 8 bits, hb_togo := togo - 8\<rparr>
       in hb_inv bmax h1 \<and> hb_out h1 = hcode (unat v) @ hb_out h"
    using i z m a t16 by (simp add: hb_inv_def hb_out_def Let_def msb_bits_byte bit_drop_bit_eq)
qed

lemma bufcopy_out:
  "\<forall>v \<in> set vs. v < 16 \<Longrightarrow> hb_inv bmax h \<Longrightarrow> bufcopy vs bmax h = (False, h') \<Longrightarrow>
    hb_inv bmax h' \<and> hb_out h' = huff (rev vs) @ hb_out h"
proof (induction vs arbitrary: h)
  case (Cons v vs)
  show ?case
  proof (cases "v = 0")
    case True
    then show ?thesis using Cons by simp
  next
    case False
    have v: "v < 16" using Cons.prems by simp
    let ?bits = "hb_bits h OR push_bit (hb_togo h) (HCODE ! unat v)" and ?togo = "hb_togo h + HNCODE ! unat v"
    show ?thesis
    proof (cases "?togo < 8")
      case True
      from bufcopy_step(1)[OF v Cons.prems(2) True] show ?thesis
        using Cons.IH[of "h\<lparr>hb_bits := ?bits, hb_togo := ?togo\<rparr>"] Cons.prems False True by (simp add: Let_def)
    next
      case t: False
      then have l: "hb_len h + 1 < bmax" using Cons.prems(3) False by (auto simp: Let_def split: if_splits)
      let ?h = "h\<lparr>hb_buffer := (hb_buffer h)[hb_len h := ucast (?bits AND 0xFF)], hb_len := hb_len h + 1,
         hb_bits := drop_bit 8 ?bits, hb_togo := ?togo - 8\<rparr>"
      have "hb_inv bmax ?h \<and> hb_out ?h = hcode (unat v) @ hb_out h"
        using bufcopy_step(2)[OF v Cons.prems(2) _ l] t by (simp only: Let_def not_less)
      moreover have "bufcopy vs bmax ?h = (False, h')" using Cons.prems(3) False t l by (simp add: Let_def)
      ultimately show ?thesis using Cons.IH[of ?h] Cons.prems(1) False by simp
    qed
  qed
qed simp

lemma bufcopy_length: "length (hb_buffer (snd (bufcopy vs bmax h))) = length (hb_buffer h)"
  by (induction vs bmax h rule: bufcopy.induct) (simp_all add: Let_def)

lemma reduce_loop_lengths:
  "length (fst (snd (reduce_loop k nx ny bmax scratch h))) = length scratch"
  "length (hb_buffer (snd (snd (reduce_loop k nx ny bmax scratch h)))) = length (hb_buffer h)"
proof (induction k nx ny bmax scratch h rule: reduce_loop.induct)
  case (2 k nx ny bmax scratch h)
  let ?s = "qtree_reduce scratch ny nx ny" let ?r = "bufcopy (take ((nx + 1) div 2 * ((ny + 1) div 2)) ?s) bmax h"
  obtain b h' where r: "?r = (b, h')" by (cases ?r)
  have l: "length (hb_buffer h') = length (hb_buffer h)" using bufcopy_length[of _ bmax h] r by (metis snd_conv)
  { case 1 show ?case using "2.IH"(1)[OF refl refl refl r[symmetric]] r by (simp add: Let_def) }
  { case 2 show ?case using "2.IH"(2)[OF refl refl refl r[symmetric]] r l by (simp add: Let_def) }
qed simp_all

lemma reduce_loop_out:
  assumes "length cs = nx * ny" "\<forall>c \<in> set cs. c < 16"
  shows "nx * ny \<le> length scratch \<Longrightarrow> take (nx * ny) scratch = cs \<Longrightarrow> hb_inv bmax h \<Longrightarrow>
    reduce_loop k nx ny bmax scratch h = (False, scratch', h') \<Longrightarrow> huff (rev cs) @ rest = hb_out h \<Longrightarrow>
    hb_inv bmax h' \<and> hb_out h' = huff (rev (tree_levels cs nx ny k)) @ rest"
  using assms
proof (induction k arbitrary: nx ny scratch h cs rest)
  case 0
  then show ?case by simp
next
  case (Suc k)
  let ?s = "qtree_reduce scratch ny nx ny" and ?nx = "(nx + 1) div 2" and ?ny = "(ny + 1) div 2"
  have c: "code_count nx ny = ?nx * ?ny" by (simp add: code_count_def)
  have t: "take (?nx * ?ny) ?s = reduced cs nx ny"
    using take_qtree_reduce[OF Suc.prems(1)] Suc.prems(2) unfolding c by simp
  obtain b h1 where b: "bufcopy (reduced cs nx ny) bmax h = (b, h1)" by (cases "bufcopy (reduced cs nx ny) bmax h")
  have nb: "\<not> b" using Suc.prems(4) b t by (simp add: Let_def split: if_splits)
  have h1: "hb_inv bmax h1 \<and> hb_out h1 = huff (rev (reduced cs nx ny)) @ hb_out h"
    by (rule bufcopy_out[OF reduced_less Suc.prems(3)]) (use b nb in simp)
  have r: "reduce_loop k ?nx ?ny bmax ?s h1 = (False, scratch', h')"
    using Suc.prems(4) b nb t by (simp add: Let_def)
  have l: "?nx * ?ny \<le> length ?s" using code_count_le[of nx ny] Suc.prems(1) by (simp add: c)
  have "hb_inv bmax h' \<and> hb_out h' = huff (rev (tree_levels (reduced cs nx ny) ?nx ?ny k)) @ (huff (rev cs) @ rest)"
    by (rule Suc.IH[OF l t _ r]) (use h1 Suc.prems(5) reduced_less in \<open>simp_all add: c\<close>)
  then show ?case by simp
qed

subsection \<open>A plane of zeros\<close>

lemma reduced_zero:
  assumes l: "length cs = nx * ny" and z: "\<forall>c \<in> set (reduced cs nx ny). c = 0"
  shows "\<forall>c \<in> set cs. c = 0"
proof
  fix c assume "c \<in> set cs"
  then obtain k where k: "k < nx * ny" "c = cs ! k" using l by (metis in_set_conv_nth)
  then have ij: "k div ny < nx" "k mod ny < ny" by (cases ny; simp add: less_mult_imp_div_less)+
  have b: "2 * (k div ny div 2) < nx" "2 * (k mod ny div 2) < ny" using ij by simp_all
  have "reduced cs nx ny ! (k div ny div 2 * ((ny + 1) div 2) + k mod ny div 2) = 0"
    using z nth_mem[of "k div ny div 2 * ((ny + 1) div 2) + k mod ny div 2" "reduced cs nx ny"] block_no_index(1)[OF b]
    unfolding length_reduced by blast
  then show "c = 0" using packsD[OF reduced_packs[of cs nx ny] ij] k by (simp add: cell_def)
qed

lemma level_zero: "length cs = nx * ny \<Longrightarrow> \<forall>c \<in> set (tree_level cs nx ny k). c = 0 \<Longrightarrow> \<forall>c \<in> set (tree_levels cs nx ny k). c = 0"
proof (induction k arbitrary: cs nx ny)
  case (Suc k)
  have l: "length (reduced cs nx ny) = (nx + 1) div 2 * ((ny + 1) div 2)" by (simp add: code_count_def)
  have z: "\<forall>c \<in> set (tree_levels (reduced cs nx ny) ((nx + 1) div 2) ((ny + 1) div 2) k). c = 0"
    by (rule Suc.IH[OF l]) (use Suc.prems in simp)
  have "set (reduced cs nx ny) \<subseteq> set (tree_levels (reduced cs nx ny) ((nx + 1) div 2) ((ny + 1) div 2) k)"
    by (cases k) auto
  then have "\<forall>c \<in> set cs. c = 0" using reduced_zero[OF Suc.prems(1)] z by blast
  with z show ?case by auto
qed simp

lemma huff_zero: "\<forall>c \<in> set cs. c = 0 \<Longrightarrow> huff cs = []"
  by (induction cs) simp_all

lemma level_in_levels: "set (tree_level cs nx ny k) \<subseteq> set (tree_levels cs nx ny k)"
  by (induction k arbitrary: cs nx ny) auto

lemma levels_below: "tree_levels cs nx ny k = tree_below cs nx ny k @ tree_level cs nx ny k"
  by (metis tree_below.simps(2) below_Suc)

lemma hcode_nonempty: "v < 16 \<Longrightarrow> hcode v \<noteq> []"
  using hcode_fits[of v] by (auto simp: hcode_def dest: arg_cong[where f = length])

lemma huff_nonempty: "c \<in> set cs \<Longrightarrow> c \<noteq> 0 \<Longrightarrow> c < 16 \<Longrightarrow> huff cs \<noteq> []"
  using hcode_nonempty[of "unat c"] by (induction cs) (auto simp: word_less_nat_alt)

text \<open>What the writer emits after the marker: the packed codes, or the code of 0 when there are none.\<close>

lemma tree_bits_packed:
  assumes cs: "length cs = nx * ny" "\<forall>c \<in> set cs. c < 16" and h: "halve k nx = 1" "halve k ny = 1"
  shows "tree_bits cs nx ny k = [True, True, True, True] @
    (let bs = huff (rev (tree_levels cs nx ny k)) in if bs = [] then hcode 0 else bs)"
proof -
  have "length (tree_level cs nx ny k) = 1" using level_props(1)[OF cs, of k] h by simp
  then obtain r where r: "tree_level cs nx ny k = [r]" by (auto simp: length_Suc_conv)
  have r16: "r < 16" using level_props(2)[OF cs, of k] r by simp
  show ?thesis
  proof (cases "r = 0")
    case True
    have "\<forall>c \<in> set (tree_levels cs nx ny k). c = 0" by (rule level_zero[OF cs(1)]) (use r True in simp)
    then have "\<forall>c \<in> set (rev (tree_levels cs nx ny k)). c = 0" "\<forall>c \<in> set (rev (tree_below cs nx ny k)). c = 0" by (auto simp: levels_below)
    then have "huff (rev (tree_levels cs nx ny k)) = []" "huff (rev (tree_below cs nx ny k)) = []" by (simp_all only: huff_zero)
    then show ?thesis using True r unfolding tree_bits_def by simp
  next
    case False
    have "huff (rev (tree_levels cs nx ny k)) \<noteq> []" using huff_nonempty[of r "rev (tree_levels cs nx ny k)"] False r r16 by (simp add: levels_below)
    moreover have "hcode (unat r) \<noteq> []" using r16 by (intro hcode_nonempty) (simp add: word_less_nat_alt)
    ultimately show ?thesis using False r unfolding tree_bits_def Let_def by (simp add: levels_below)
  qed
qed

subsection \<open>Writing a plane\<close>

lemma mask_shift: "push_bit k 1 - 1 = (mask k :: u32)"
  by (simp add: mask_eq_exp_minus_1 push_bit_eq_mult)

lemma writes_masked: "n < 8 \<Longrightarrow> writes (msb_bits n b) w (output_nbits w (b AND (push_bit n 1 - 1)) n)"
proof -
  assume n: "n < 8"
  have "msb_bits n (b AND mask n) = msb_bits n b" by (rule msb_bits_cong) (auto simp: bit_simps dest: bit_imp_le_length)
  then show ?thesis using writes_nbits[of n "b AND mask n" w] n unfolding mask_shift by simp
qed

lemma writes_bytes: "writes (byte_bits bs) w (foldl (\<lambda>w b. output_nbits w (ucast b) 8) w bs)"
proof (induction bs arbitrary: w)
  case (Cons b bs)
  have "writes (msb_bits 8 b) w (output_nbits w (ucast b) 8)" using writes_nbits[of 8 "ucast b" w] by (simp add: msb_bits_ucast)
  from writes_trans[OF this Cons] show ?case by simp
qed (simp add: writes_refl)

lemma foldl_indices: "n \<le> length xs \<Longrightarrow> foldl (\<lambda>w i. f w (xs ! i)) w (rev [0..<n]) = foldl f w (rev (take n xs))"
proof (induction n arbitrary: w)
  case (Suc n)
  then show ?case by (simp add: take_Suc_conv_app_nth)
qed simp

lemma write_huffman_bits:
  assumes i: "hb_inv bmax h"
  shows "writes ([True, True, True, True] @ (if hb_out h = [] then hcode 0 else hb_out h)) w (write_huffman w h)"
proof -
  let ?w = "output_nybble w 0xF"
  have m: "msb_bits 4 (0xF :: u32) = [True, True, True, True]" by code_simp
  have w: "writes [True, True, True, True] w ?w" using writes_nybble[of "0xF" w] unfolding m .
  let ?v = "if hb_togo h > 0 then output_nbits ?w (hb_bits h AND (push_bit (hb_togo h) 1 - 1)) (hb_togo h) else ?w"
  have v: "writes (msb_bits (hb_togo h) (hb_bits h)) ?w ?v"
    using writes_masked[of "hb_togo h" "hb_bits h" ?w] i by (auto simp: hb_inv_def writes_refl)
  show ?thesis
  proof (cases "hb_len h = 0")
    case True
    have "writes (hcode 0) ?w (output_nbits ?w (HCODE ! 0) (HNCODE ! 0))"
      unfolding hcode_def using hcode_fits[of 0] by (intro writes_nbits) simp
    then show ?thesis using writes_trans[OF w v] writes_trans[OF w, of "hcode 0"] True
      by (auto simp: write_huffman_def Let_def hb_out_def dest: arg_cong[where f = length])
  next
    case False
    then have ne: "hb_out h \<noteq> []" using i by (auto simp: hb_out_def hb_inv_def dest!: arg_cong[where f = length])
    have l: "hb_len h \<le> length (hb_buffer h)" using i by (simp add: hb_inv_def)
    have "writes (byte_bits (rev (take (hb_len h) (hb_buffer h)))) ?v
      (foldl (\<lambda>w i. output_nbits w (ucast (hb_buffer h ! i)) 8) ?v (rev [0..<hb_len h]))"
      unfolding foldl_indices[OF l, of "\<lambda>w b. output_nbits w (ucast b) 8"] by (rule writes_bytes)
    from writes_trans[OF w writes_trans[OF v this]] show ?thesis
      unfolding write_huffman_def Let_def if_not_P[OF False] if_not_P[OF ne] unfolding hb_out_def .
  qed
qed

text \<open>The buffers an encoder keeps from plane to plane have their lengths.\<close>

definition buffers_ok :: "nat \<Rightarrow> nat \<Rightarrow> bytes \<times> bytes \<times> h_writer \<Rightarrow> bool" where
  "buffers_ok nqx nqy s \<longleftrightarrow> code_count nqx nqy \<le> length (fst s) \<and> length (fst (snd s)) = (code_count nqx nqy + 1) div 2"

lemma writes_bdirect_bits:
  assumes "code_count nqx nqy \<le> length scratch"
  shows "\<exists>scratch' w'. write_bdirect w a base n nqx nqy scratch plane = (scratch', w') \<and> length scratch' = length scratch \<and>
    writes (direct_bits (onebits a base n nqx nqy plane)) w w'"
proof -
  have m: "msb_bits 4 (0 :: u32) = [False, False, False, False]" by code_simp
  have w: "writes [False, False, False, False] w (output_nybble w 0)" using writes_nybble[of 0 w] unfolding m .
  show ?thesis
    using writes_trans[OF w writes_nnybble[of "onebits a base n nqx nqy plane"]] take_qtree_onebit[OF assms, of a base n plane]
    by (simp add: write_bdirect_def Let_def direct_bits_def code_count_def)
qed

lemma encode_plane_bits:
  fixes a :: "'a::len word list"
  assumes p: "plane + 3 < LENGTH('a)" and q: "0 < nqx" "0 < nqy" and s: "buffers_ok nqx nqy s"
  shows "\<exists>bs. plane_bits bs a base n nqx nqy plane \<and> buffers_ok nqx nqy (encode_plane a base n nqx nqy plane s) \<and>
    writes bs (snd (snd s)) (snd (snd (encode_plane a base n nqx nqy plane s)))"
proof -
  obtain scratch buffer w where sv: "s = (scratch, buffer, w)" by (cases s)
  let ?nx = "(nqx + 1) div 2" and ?ny = "(nqy + 1) div 2" and ?k = "log2n_of (max nqx nqy) - 1"
  have c: "code_count nqx nqy = ?nx * ?ny" by (simp add: code_count_def)
  define bmax where "bmax = (?nx * ?ny + 1) div 2"
  define cs where "cs = onebits a base n nqx nqy plane"
  define s1 where "s1 = qtree_onebit a base n nqx nqy scratch plane"
  have cs: "length cs = ?nx * ?ny" "\<forall>c \<in> set cs. c < 16" using onebits_less[OF p] by (simp_all add: cs_def c)
  have len: "?nx * ?ny \<le> length scratch" "length buffer = bmax" using s by (simp_all add: buffers_ok_def c bmax_def sv)
  have s1: "length s1 = length scratch" "take (?nx * ?ny) s1 = cs"
    using take_qtree_onebit[of nqx nqy scratch a base n plane] len unfolding c by (simp_all add: s1_def cs_def)
  let ?h = "\<lparr>hb_buffer = buffer, hb_len = 0, hb_bits = 0, hb_togo = 0\<rparr>"
  have "0 < ?nx * ?ny" using q by simp
  then have h: "hb_inv bmax ?h" "hb_out ?h = []" using len by (simp_all add: hb_inv_def hb_out_def bmax_def)
  obtain b1 h1 where b1: "bufcopy cs bmax ?h = (b1, h1)" by (cases "bufcopy cs bmax ?h")
  have lh1: "length (hb_buffer h1) = bmax" using bufcopy_length[of cs bmax ?h] b1 len by simp
  obtain b2 s2 h2 where b2: "(if b1 then (True, s1, h1) else reduce_loop ?k ?nx ?ny bmax s1 h1) = (b2, s2, h2)" by (metis prod.exhaust)
  have l2: "length s2 = length scratch" "length (hb_buffer h2) = bmax"
    using b2 s1 lh1 reduce_loop_lengths[of ?k ?nx ?ny bmax s1 h1] by (auto split: if_splits)
  have e: "encode_plane a base n nqx nqy plane s = (if b2 then (let (scratch, w) = write_bdirect w a base n nqx nqy s2 plane in (scratch, hb_buffer h2, w))
      else (s2, hb_buffer h2, write_huffman w h2))"
    unfolding encode_plane_def Let_def sv prod.case s1_def[symmetric] bmax_def[symmetric] s1(2) b1 b2 by simp
  show ?thesis
  proof (cases b2)
    case True
    obtain s3 w' where "write_bdirect w a base n nqx nqy s2 plane = (s3, w')" "length s3 = length s2" "writes (direct_bits cs) w w'"
      using writes_bdirect_bits[of nqx nqy s2 w a base n plane] len l2 unfolding c cs_def by auto
    then show ?thesis using True l2 len unfolding e plane_bits_def Let_def cs_def[symmetric] unfolding sv
      by (intro exI[of _ "direct_bits cs"]) (simp add: buffers_ok_def c bmax_def)
  next
    case False
    then have f: "\<not> b1" "reduce_loop ?k ?nx ?ny bmax s1 h1 = (False, s2, h2)" using b2 by (auto split: if_splits)
    have h1: "hb_inv bmax h1 \<and> hb_out h1 = huff (rev cs) @ hb_out ?h" by (rule bufcopy_out[OF cs(2) h(1)]) (use b1 f in simp)
    have h2: "hb_inv bmax h2 \<and> hb_out h2 = huff (rev (tree_levels cs ?nx ?ny ?k)) @ []"
      by (rule reduce_loop_out[OF cs _ s1(2) _ f(2)]) (use h1 h(2) s1 len in simp_all)
    have "writes (tree_bits cs ?nx ?ny ?k) w (write_huffman w h2)"
      using write_huffman_bits[OF h2[THEN conjunct1], of w]
      unfolding tree_bits_packed[OF cs log2n_halves(1,2)[OF q]] Let_def h2[THEN conjunct2] append_Nil2 .
    then show ?thesis using False l2 len unfolding e plane_bits_def Let_def cs_def[symmetric] unfolding sv
      by (intro exI[of _ "tree_bits cs ?nx ?ny ?k"]) (simp add: buffers_ok_def c bmax_def)
  qed
qed

lemma encode_planes_bits:
  fixes a :: "'a::len word list"
  assumes q: "0 < nqx" "0 < nqy"
  shows "nb + 2 < LENGTH('a) \<Longrightarrow> buffers_ok nqx nqy s \<Longrightarrow>
    \<exists>bs. planes_bits bs a base n nqx nqy nb \<and> writes bs (snd (snd s)) (snd (snd (encode_planes a base n nqx nqy nb s)))"
proof (induction nb arbitrary: s)
  case 0
  then show ?case by (simp add: writes_refl)
next
  case (Suc plane)
  have p: "plane + 3 < LENGTH('a)" using Suc.prems by simp
  obtain cs where cs: "plane_bits cs a base n nqx nqy plane" "buffers_ok nqx nqy (encode_plane a base n nqx nqy plane s)"
    "writes cs (snd (snd s)) (snd (snd (encode_plane a base n nqx nqy plane s)))"
    using encode_plane_bits[OF p q Suc.prems(2)] by blast
  obtain ds where ds: "planes_bits ds a base n nqx nqy plane"
    "writes ds (snd (snd (encode_plane a base n nqx nqy plane s))) (snd (snd (encode_planes a base n nqx nqy (Suc plane) s)))"
    using Suc.IH[OF _ cs(2)] p by auto
  show ?case using cs(1) ds(1) writes_trans[OF cs(3) ds(2)] by (intro exI[of _ "cs @ ds"]) auto
qed

lemma encode_quadrant_bits:
  fixes a :: "'a::len word list"
  assumes "0 < nqx" "0 < nqy" "nb + 2 < LENGTH('a)"
  shows "\<exists>bs. planes_bits bs a base n nqx nqy nb \<and> writes bs w (qtree_encode w a base n nqx nqy nb)"
  using encode_planes_bits[OF assms, of "(replicate (2 * ((code_count nqx nqy + 1) div 2)) 0, replicate ((code_count nqx nqy + 1) div 2) 0, w)" a base n]
  by (simp add: qtree_encode_def buffers_ok_def code_count_def Let_def)

end
