(* ===== verification/Hcompress.thy ===== *)
theory Hcompress
  imports HTransform Quadtree
begin

text \<open>
  The H-compress tile codec (\<open>src/zimage/hcompress.rs\<close>): the four quadrants of the coefficients and their signs, the head
  of the stream, and the entry points. The functions the code has for \<open>i32\<close> and for \<open>i64\<close>
  are one function on words; the entry points choose the width.
\<close>

subsection \<open>Decoder\<close>

fun read_signs :: "'a::len word list \<Rightarrow> h_state \<Rightarrow> codec_error + 'a word list \<times> h_state" where
  "read_signs [] st = Inr ([], st)"
| "read_signs (v # vs) st =
     (if v = 0 then res_bind (read_signs vs st) (\<lambda>(ws, st). Inr (v # ws, st))
      else res_bind (input_bit st) (\<lambda>(b, st). res_bind (read_signs vs st) (\<lambda>(ws, st). Inr ((if b \<noteq> 0 then - v else v) # ws, st))))"

text \<open>A quadrant is decoded into the slice \<open>a[base..]\<close>, which panics when it starts past the end.\<close>

definition decode_quadrant ::
  "nat \<Rightarrow> nat \<Rightarrow> nat \<Rightarrow> nat \<Rightarrow> u8 \<Rightarrow> 'a::len word list \<Rightarrow> h_state \<Rightarrow> codec_error + 'a word list \<times> h_state" where
  "decode_quadrant base n nqx nqy nb a st =
     (if base > length a then Inl Panic else qtree_decode st a base n nqx nqy (unat nb))"

definition dodecode ::
  "h_state \<Rightarrow> nat \<Rightarrow> nat \<Rightarrow> nat \<Rightarrow> u8 \<times> u8 \<times> u8 \<Rightarrow> codec_error + 'a::len word list \<times> h_state" where
  "dodecode st len nx ny nbitplanes =
     (let nx2 = (nx + 1) div 2; ny2 = (ny + 1) div 2; (nb0, nb1, nb2) = nbitplanes
      in res_bind (decode_quadrant 0 ny nx2 ny2 nb0 (replicate len 0) (start_inputing_bits st)) (\<lambda>(a, st).
         res_bind (decode_quadrant ny2 ny nx2 (ny div 2) nb1 a st) (\<lambda>(a, st).
         res_bind (decode_quadrant (ny * nx2) ny (nx div 2) ny2 nb1 a st) (\<lambda>(a, st).
         res_bind (decode_quadrant (ny * nx2 + ny2) ny (nx div 2) (ny div 2) nb2 a st) (\<lambda>(a, st).
         res_bind (input_nybble st) (\<lambda>(b, st).
         if b \<noteq> 0 then Inl MissingEof else read_signs a (start_inputing_bits st)))))))"

definition CODE_MAGIC :: bytes where
  "CODE_MAGIC = [0xDD, 0x99]"

text \<open>\<open>len\<close> is the length of the buffer of zeros the caller has allocated.\<close>

definition decode_coeffs ::
  "h_state \<Rightarrow> nat \<Rightarrow> codec_error + ((nat \<times> nat \<times> i32) \<times> 'a::len word list) \<times> h_state" where
  "decode_coeffs st len =
     res_bind (qread st 2) (\<lambda>(magic, st).
     if magic \<noteq> CODE_MAGIC then Inl BadMagic
     else
       res_bind (readint st) (\<lambda>(nx, st).
       res_bind (readint st) (\<lambda>(ny, st).
       res_bind (readint st) (\<lambda>(scale, st).
       if sint nx \<le> 0 \<or> sint ny \<le> 0 then Inl (BadDims (sint nx) (sint ny))
       else
         res_bind (readlonglong st) (\<lambda>(sumall, st).
         res_bind (qread st 3) (\<lambda>(nb, st).
         if len \<noteq> unat nx * unat ny then Inl (BufferMismatch (sint nx) (sint ny) len)
         else
           res_bind (dodecode st len (unat nx) (unat ny) (nb ! 0, nb ! 1, nb ! 2)) (\<lambda>(a, st).
           Inr (((unat nx, unat ny, scale), a[0 := ucast sumall]), st))))))))"

definition hcast_i32_to_target_bytes :: "bool \<Rightarrow> i32 list \<Rightarrow> nat \<Rightarrow> int \<Rightarrow> codec_error + bytes" where
  "hcast_i32_to_target_bytes big a bytepix zbitpix =
     (if bytepix = 1 \<and> zbitpix = 8 then Inr (map ucast a)
      else if bytepix = 2 \<and> zbitpix = 16 then Inr (concat (map (\<lambda>v. to_ne big 2 (ucast v :: i16)) a))
      else if bytepix = 4 \<and> zbitpix = 32 then Inr (concat (map (to_ne big 4) a))
      else Inl (BadWidth bytepix zbitpix))"

definition hcast_i64_to_target_bytes :: "bool \<Rightarrow> i64 list \<Rightarrow> nat \<Rightarrow> int \<Rightarrow> codec_error + bytes" where
  "hcast_i64_to_target_bytes big a bytepix zbitpix =
     (if bytepix = 4 \<and> zbitpix = 32 then Inr (concat (map (\<lambda>v. to_ne big 4 (ucast v :: i32)) a))
      else Inl (BadWidth bytepix zbitpix))"

text \<open>The two widths the entry point chooses from.\<close>

definition decode_i32 :: "h_state \<Rightarrow> nat \<Rightarrow> codec_error + ((nat \<times> nat \<times> i32) \<times> i32 list) \<times> h_state" where
  "decode_i32 = decode_coeffs"

definition decode_i64 :: "h_state \<Rightarrow> nat \<Rightarrow> codec_error + ((nat \<times> nat \<times> i32) \<times> i64 list) \<times> h_state" where
  "decode_i64 = decode_coeffs"

definition undigitize_i32 :: "i32 list \<Rightarrow> i32 \<Rightarrow> i32 list" where
  "undigitize_i32 = undigitize"

definition undigitize_i64 :: "i64 list \<Rightarrow> i32 \<Rightarrow> i64 list" where
  "undigitize_i64 = undigitize"

definition hinv_i32 :: "i32 list \<Rightarrow> nat \<Rightarrow> nat \<Rightarrow> bool \<Rightarrow> i32 \<Rightarrow> i32 list" where
  "hinv_i32 = hinv"

definition hinv_i64 :: "i64 list \<Rightarrow> nat \<Rightarrow> nat \<Rightarrow> bool \<Rightarrow> i32 \<Rightarrow> i64 list" where
  "hinv_i64 = hinv"

definition decode_hcompress :: "bool \<Rightarrow> bytes \<Rightarrow> nat \<Rightarrow> nat \<Rightarrow> nat \<Rightarrow> int \<Rightarrow> bool \<Rightarrow> codec_error + bytes" where
  "decode_hcompress big compressed nx ny bytepix zbitpix smooth =
     (if zbitpix \<notin> {8, 16, 32} then Inl (UnsupportedZbitpix zbitpix)
      else if bytepix \<notin> {1, 2, 4} then Inl (UnsupportedBytepix bytepix)
      else if zbitpix = 32 then
        res_bind (decode_i64 (hstate_new compressed) (nx * ny)) (\<lambda>(((nx', ny', scale), buf), _).
        if nx' \<noteq> nx \<or> ny' \<noteq> ny then Inl (DimsMismatch nx' ny' nx ny)
        else hcast_i64_to_target_bytes big (hinv_i64 (undigitize_i64 buf scale) nx ny smooth scale) bytepix zbitpix)
      else
        res_bind (decode_i32 (hstate_new compressed) (nx * ny)) (\<lambda>(((nx', ny', scale), buf), _).
        if nx' \<noteq> nx \<or> ny' \<noteq> ny then Inl (DimsMismatch nx' ny' nx ny)
        else hcast_i32_to_target_bytes big (hinv_i32 (undigitize_i32 buf scale) nx ny smooth scale) bytepix zbitpix))"

subsection \<open>Encoder\<close>

text \<open>The sign bits: the finished bytes, the byte that is being filled and the bits it has room for.\<close>

definition sign_step :: "bytes \<times> u8 \<times> nat \<Rightarrow> 'a::len word \<Rightarrow> bytes \<times> u8 \<times> nat" where
  "sign_step s v =
     (let (full, cur, togo) = s;
          (cur, togo) = (if 0 <s v then (push_bit 1 cur, togo - 1) else if v <s 0 then (push_bit 1 cur OR 1, togo - 1) else (cur, togo))
      in if togo = 0 then (full @ [cur], 0, 8) else (full, cur, togo))"

definition pack_signs :: "'a::len word list \<Rightarrow> bytes" where
  "pack_signs a =
     (let (full, cur, togo) = foldl sign_step ([], 0, 8) a in if togo \<noteq> 8 then full @ [push_bit togo cur] else full)"

definition magnitudes :: "'a::len word list \<Rightarrow> 'a word list" where
  "magnitudes a = map (\<lambda>v. if v <s 0 then - v else v) a"

text \<open>\<open>vmax[q]\<close>, for the element \<open>i\<close> in column \<open>i mod ny\<close> of row \<open>i div ny\<close>.\<close>

definition quadrant_no :: "nat \<Rightarrow> nat \<Rightarrow> nat \<Rightarrow> nat" where
  "quadrant_no nx ny i = of_bool (i mod ny \<ge> (ny + 1) div 2) + of_bool (i div ny \<ge> (nx + 1) div 2)"

definition quadrant_max :: "'a::len word list \<Rightarrow> nat \<Rightarrow> nat \<Rightarrow> nat \<Rightarrow> 'a word" where
  "quadrant_max a nx ny q =
     foldl (\<lambda>m i. if quadrant_no nx ny i = q \<and> m <s a ! i then a ! i else m) 0 [0..<length a]"

function bit_planes :: "'a::len word \<Rightarrow> nat" where
  "bit_planes v = (if 0 <s v then Suc (bit_planes (signed_drop_bit 1 v)) else 0)"
  by pat_completeness auto
termination
  by (relation "measure (\<lambda>v. nat (sint v))") (auto simp: word_sless_alt sint_signed_drop_bit_eq drop_bit_eq_div)

declare bit_planes.simps [simp del]

text \<open>Encoding a quadrant of \<open>a[base..]\<close>.\<close>

definition encode_quadrant :: "h_writer \<Rightarrow> 'a::len word list \<Rightarrow> nat \<Rightarrow> nat \<Rightarrow> nat \<Rightarrow> nat \<Rightarrow> u8 \<Rightarrow> codec_error + h_writer" where
  "encode_quadrant w a base n nqx nqy nb =
     (if base > length a then Inl Panic else Inr (qtree_encode w a base n nqx nqy (unat nb)))"

definition doencode :: "h_writer \<Rightarrow> 'a::len word list \<Rightarrow> nat \<Rightarrow> nat \<Rightarrow> u8 \<times> u8 \<times> u8 \<Rightarrow> codec_error + h_writer" where
  "doencode w a nx ny nbitplanes =
     (let nx2 = (nx + 1) div 2; ny2 = (ny + 1) div 2; (nb0, nb1, nb2) = nbitplanes
      in res_bind (encode_quadrant (start_outputing_bits w) a 0 ny nx2 ny2 nb0) (\<lambda>w.
         res_bind (encode_quadrant w a ny2 ny nx2 (ny div 2) nb1) (\<lambda>w.
         res_bind (encode_quadrant w a (ny * nx2) ny (nx div 2) ny2 nb1) (\<lambda>w.
         res_bind (encode_quadrant w a (ny * nx2 + ny2) ny (nx div 2) (ny div 2) nb2) (\<lambda>w.
         Inr (done_outputing_bits (output_nybble w 0)))))))"

text \<open>The tile of no pixels has no first coefficient to write, and the code panics on it.\<close>

definition encode_coeffs :: "h_writer \<Rightarrow> 'a::len word list \<Rightarrow> nat \<Rightarrow> nat \<Rightarrow> i32 \<Rightarrow> codec_error + h_writer" where
  "encode_coeffs w a nx ny scale =
     (if a = [] then Inl Panic
      else
        (let w = writeint (writeint (writeint (qwrite w CODE_MAGIC) (of_nat nx)) (of_nat ny)) scale;
             w = writelonglong w (scast (a ! 0));
             a = a[0 := 0];
             signbits = pack_signs a;
             a = magnitudes a;
             nbitplanes = map (\<lambda>q. of_nat (bit_planes (quadrant_max a nx ny q))) [0, 1, 2];
             w = qwrite w nbitplanes
         in res_bind (doencode w a nx ny (nbitplanes ! 0, nbitplanes ! 1, nbitplanes ! 2)) (\<lambda>w. Inr (qwrite w signbits))))"

definition encode_i32 :: "h_writer \<Rightarrow> i32 list \<Rightarrow> nat \<Rightarrow> nat \<Rightarrow> i32 \<Rightarrow> codec_error + h_writer" where
  "encode_i32 = encode_coeffs"

definition encode_i64 :: "h_writer \<Rightarrow> i64 list \<Rightarrow> nat \<Rightarrow> nat \<Rightarrow> i32 \<Rightarrow> codec_error + h_writer" where
  "encode_i64 = encode_coeffs"

definition htrans_i32 :: "i32 list \<Rightarrow> nat \<Rightarrow> nat \<Rightarrow> i32 list" where
  "htrans_i32 = htrans"

definition htrans_i64 :: "i64 list \<Rightarrow> nat \<Rightarrow> nat \<Rightarrow> i64 list" where
  "htrans_i64 = htrans"

definition digitize_i32 :: "i32 list \<Rightarrow> i32 \<Rightarrow> i32 list" where
  "digitize_i32 = digitize"

definition digitize_i64 :: "i64 list \<Rightarrow> i32 \<Rightarrow> i64 list" where
  "digitize_i64 = digitize"

text \<open>
  A 32-bit pixel is read from four bytes whatever \<open>bytepix\<close> is: with a smaller one the code reads past the end of
  the input and panics, unless there is no pixel, where \<open>encode_coeffs\<close> panics.
\<close>

definition encode_hcompress :: "bytes \<Rightarrow> nat \<Rightarrow> nat \<Rightarrow> nat \<Rightarrow> int \<Rightarrow> i32 \<Rightarrow> codec_error + bytes" where
  "encode_hcompress pixel_bytes_be nx ny bytepix zbitpix scale =
     (if zbitpix \<notin> {8, 16, 32} then Inl (UnsupportedZbitpix zbitpix)
      else if bytepix \<notin> {1, 2, 4} then Inl (UnsupportedBytepix bytepix)
      else if sint scale < 0 then Inl (NegativeScale (sint scale))
      else res_bind (checked_mul (nx * ny) bytepix) (\<lambda>expected.
        if length pixel_bytes_be \<noteq> expected then Inl (WrongLength expected (length pixel_bytes_be))
        else if zbitpix = 32 then
          (if bytepix \<noteq> 4 then Inl Panic
           else
             (let a = map (\<lambda>i. scast (from_be (take 4 (drop (i * 4) pixel_bytes_be)) :: i32) :: i64) [0..<nx * ny]
              in res_bind (encode_i64 hwriter_new (digitize_i64 (htrans_i64 a nx ny) scale) nx ny scale) (\<lambda>w. Inr (hw_out w))))
        else if (bytepix, zbitpix) \<notin> {(1, 8), (2, 16)} then Inl (BadWidth bytepix zbitpix)
        else
          (let a = (if bytepix = 1 then map (\<lambda>i. ucast (pixel_bytes_be ! i) :: i32) [0..<nx * ny]
                    else map (\<lambda>i. scast (from_be (take 2 (drop (i * 2) pixel_bytes_be)) :: i16) :: i32) [0..<nx * ny])
           in res_bind (encode_i32 hwriter_new (digitize_i32 (htrans_i32 a nx ny) scale) nx ny scale) (\<lambda>w. Inr (hw_out w)))))"

end
