(* ===== verification/HcompressRoundtrip.thy ===== *)
theory HcompressRoundtrip
  imports HLevels QuadtreeBits Hcompress
begin

text \<open>
  Encoding and decoding of H-compress tiles compose to the identity: the sign bits, the head of the stream, the four quadrants
  and the inverse transform, and the tile codec they make.
\<close>

subsection \<open>One width\<close>

text \<open>The two entry points as one function on words of either width, and the conversions around it.\<close>

definition decode_pixels :: "bytes \<Rightarrow> nat \<Rightarrow> nat \<Rightarrow> bool \<Rightarrow> codec_error + 'a::len word list" where
  "decode_pixels compressed nx ny smooth =
     res_bind (decode_coeffs (hstate_new compressed) (nx * ny)) (\<lambda>(((nx', ny', scale), a), _).
     if nx' \<noteq> nx \<or> ny' \<noteq> ny then Inl (DimsMismatch nx' ny' nx ny)
     else Inr (hinv (undigitize a scale) nx ny smooth scale))"

definition encode_pixels :: "'a::len word list \<Rightarrow> nat \<Rightarrow> nat \<Rightarrow> i32 \<Rightarrow> codec_error + bytes" where
  "encode_pixels a nx ny scale =
     res_bind (encode_coeffs hwriter_new (digitize (htrans a nx ny) scale) nx ny scale) (\<lambda>w. Inr (hw_out w))"

lemma decode_hcompress_pixels:
  "decode_hcompress big compressed nx ny bytepix zbitpix smooth =
     (if zbitpix \<notin> {8, 16, 32} then Inl (UnsupportedZbitpix zbitpix)
      else if bytepix \<notin> {1, 2, 4} then Inl (UnsupportedBytepix bytepix)
      else if zbitpix = 32 then
        res_bind (decode_pixels compressed nx ny smooth) (\<lambda>a. hcast_i64_to_target_bytes big a bytepix zbitpix)
      else res_bind (decode_pixels compressed nx ny smooth) (\<lambda>a. hcast_i32_to_target_bytes big a bytepix zbitpix))"
  by (simp add: decode_hcompress_def decode_pixels_def res_bind_assoc split_def decode_i32_def decode_i64_def undigitize_i32_def
      undigitize_i64_def hinv_i32_def hinv_i64_def if_distrib[of "\<lambda>r. res_bind r f" for f] cong: if_cong)

lemma encode_hcompress_pixels:
  "encode_hcompress pixel_bytes_be nx ny bytepix zbitpix scale =
     (if zbitpix \<notin> {8, 16, 32} then Inl (UnsupportedZbitpix zbitpix)
      else if bytepix \<notin> {1, 2, 4} then Inl (UnsupportedBytepix bytepix)
      else if sint scale < 0 then Inl (NegativeScale (sint scale))
      else res_bind (checked_mul (nx * ny) bytepix) (\<lambda>expected.
        if length pixel_bytes_be \<noteq> expected then Inl (WrongLength expected (length pixel_bytes_be))
        else if zbitpix = 32 then
          (if bytepix \<noteq> 4 then Inl Panic
           else encode_pixels (map (\<lambda>i. scast (from_be (take 4 (drop (i * 4) pixel_bytes_be)) :: i32) :: i64) [0..<nx * ny]) nx ny scale)
        else if bytepix = 1 \<and> zbitpix = 8 then
          encode_pixels (map (\<lambda>i. ucast (pixel_bytes_be ! i) :: i32) [0..<nx * ny]) nx ny scale
        else if bytepix = 2 \<and> zbitpix = 16 then
          encode_pixels (map (\<lambda>i. scast (from_be (take 2 (drop (i * 2) pixel_bytes_be)) :: i16) :: i32) [0..<nx * ny]) nx ny scale
        else Inl (BadWidth bytepix zbitpix)))"
  by (auto simp: encode_hcompress_def encode_pixels_def encode_i32_def encode_i64_def htrans_i32_def htrans_i64_def digitize_i32_def
      digitize_i64_def Let_def intro!: arg_cong[where f = "res_bind r" for r])

subsection \<open>Signs\<close>

definition sign_bits :: "'a::len word list \<Rightarrow> bool list" where
  "sign_bits a = map (\<lambda>v. v <s 0) (filter (\<lambda>v. v \<noteq> 0) a)"

lemma reads_signs: "reads (sign_bits a) a (read_signs (magnitudes a))"
proof (induction a)
  case (Cons v vs)
  let ?m = "if v <s 0 then - v else v"
  have m: "magnitudes (v # vs) = ?m # magnitudes vs" "?m = 0 \<longleftrightarrow> v = 0" by (simp_all add: magnitudes_def)
  have r: "reads (sign_bits vs) (x # vs) (\<lambda>st. res_bind (read_signs (magnitudes vs) st) (\<lambda>(ws, st). Inr (x # ws, st)))" for x
    using reads_bind[OF Cons, of "[]" "x # vs" "\<lambda>ws st. Inr (x # ws, st)"] by (simp add: reads_return)
  show ?case
  proof (cases "v = 0")
    case True
    then show ?thesis using r[of 0] unfolding m(1) by (simp add: sign_bits_def)
  next
    case False
    then have b: "sign_bits (v # vs) = (v <s 0) # sign_bits vs" by (simp add: sign_bits_def)
    have x: "(if (of_bool (v <s 0) :: u32) \<noteq> 0 then - ?m else ?m) = v" by simp
    have "reads ((v <s 0) # sign_bits vs) (v # vs)
        (\<lambda>st. res_bind (input_bit st) (\<lambda>(b, st). res_bind (read_signs (magnitudes vs) st) (\<lambda>(ws, st). Inr ((if b \<noteq> 0 then - ?m else ?m) # ws, st))))"
      by (rule reads_bitI) (use r x in simp)
    then show ?thesis using False m(2) unfolding b m(1) by simp
  qed
qed (simp add: magnitudes_def sign_bits_def reads_return)

definition sign_rep :: "bytes \<times> u8 \<times> nat \<Rightarrow> bool list \<Rightarrow> bool" where
  "sign_rep s bs \<longleftrightarrow> (let (full, cur, togo) = s in 1 \<le> togo \<and> togo \<le> 8 \<and> byte_bits full @ msb_bits (8 - togo) cur = bs)"

lemma sign_step_rep: "sign_rep s bs \<Longrightarrow> sign_rep (sign_step s v) (bs @ sign_bits [v])"
proof -
  assume r: "sign_rep s bs"
  obtain full cur togo where s: "s = (full, cur, togo)" by (cases s)
  have t: "1 \<le> togo" "togo \<le> 8" and b: "byte_bits full @ msb_bits (8 - togo) cur = bs" using r by (auto simp: sign_rep_def s)
  have z1: "\<forall>i \<ge> Suc 0. \<not> bit (1 :: u8) i" 
  proof (intro allI impI)
    fix i show "Suc 0 \<le> i \<Longrightarrow> \<not> bit (1 :: u8) i" by (cases i) (simp_all add: bit_Suc)
  qed
  have shift: "msb_bits (Suc n) (push_bit 1 cur) = msb_bits n cur @ [False]" "msb_bits (Suc n) (push_bit 1 cur OR 1) = msb_bits n cur @ [True]"
    if "n < 8" for n
    using that msb_bits_on_top[of 1 0 n cur] msb_bits_on_top[of 1 1 n cur] unfolding or.commute[of "push_bit 1 cur"]
    by (simp_all add: msb_bits_Suc bit_1_iff z1)
  have n: "8 - (togo - 1) = Suc (8 - togo)" "8 - togo < 8" using t by simp_all
  define c where "c = (if v <s 0 then push_bit 1 cur OR 1 else push_bit 1 cur)"
  have c: "msb_bits (8 - (togo - 1)) c = msb_bits (8 - togo) cur @ [v <s 0]" unfolding n(1) c_def using shift[OF n(2)] by simp
  have z: "v = 0 \<or> 0 <s v \<or> v <s 0" 
  proof -
    have "v = word_of_int (sint v)" by simp
    then have "sint v = 0 \<Longrightarrow> v = 0" by (simp only: of_int_0)
    then show ?thesis by (fastforce simp: word_sless_alt)
  qed
  have ns: "0 <s v \<Longrightarrow> \<not> v <s 0" by (auto simp: word_sless_alt)
  show ?thesis
  proof (cases "v = 0")
    case True
    then show ?thesis using r t by (auto simp: sign_step_def s sign_rep_def sign_bits_def)
  next
    case False
    then have st: "sign_step s v = (if togo - 1 = 0 then (full @ [c], 0, 8) else (full, c, togo - 1))"
      using z ns by (auto simp: sign_step_def s c_def Let_def)
    have "sign_bits [v] = [v <s 0]" using False by (simp add: sign_bits_def)
    then show ?thesis unfolding st using c t b by (cases "togo = 1") (auto simp: sign_rep_def)
  qed
qed

lemma pack_signs_bits: "\<exists>k < 8. byte_bits (pack_signs a) = sign_bits a @ replicate k False"
proof -
  have "sign_rep s bs \<Longrightarrow> sign_rep (foldl sign_step s a) (bs @ sign_bits a)" for s bs
  proof (induction a arbitrary: s bs)
    case (Cons v vs)
    from Cons.IH[OF sign_step_rep[OF Cons.prems, of v]] show ?case by (simp add: sign_bits_def split: if_splits)
  qed (simp add: sign_bits_def)
  from this[of "([], 0, 8)" "[]"] have r: "sign_rep (foldl sign_step ([], 0, 8) a) (sign_bits a)" by (simp add: sign_rep_def)
  obtain full cur togo where f: "foldl sign_step ([], 0, 8) a = (full, cur, togo)" by (metis prod.exhaust)
  have t: "1 \<le> togo" "togo \<le> 8" "byte_bits full @ msb_bits (8 - togo) cur = sign_bits a" using r by (auto simp: sign_rep_def f)
  show ?thesis
  proof (cases "togo = 8")
    case True
    then show ?thesis using t f by (intro exI[of _ 0]) (simp add: pack_signs_def)
  next
    case False
    have "msb_bits 8 (push_bit togo cur) = msb_bits (8 - togo) cur @ replicate togo False"
      by (rule nth_equalityI) (use t False in \<open>auto simp: nth_append bit_simps add.commute\<close>)
    then show ?thesis using t f False by (intro exI[of _ togo]) (simp add: pack_signs_def)
  qed
qed

subsection \<open>Numbers of planes\<close>

lemma bit_planes_bound: "sint v < 2 ^ bit_planes v"
proof (induction v rule: bit_planes.induct)
  case (1 v)
  show ?case
  proof (cases "0 <s v")
    case True
    have "sint (signed_drop_bit 1 v) = sint v div 2" by (simp add: sint_signed_drop_bit_eq drop_bit_eq_div)
    then show ?thesis using 1[OF True] True by (subst bit_planes.simps) simp
  next
    case False
    then show ?thesis by (subst bit_planes.simps) (simp add: word_sless_alt)
  qed
qed

lemma bit_planes_le: "sint v < 2 ^ k \<Longrightarrow> bit_planes v \<le> k"
proof (induction v arbitrary: k rule: bit_planes.induct)
  case (1 v)
  show ?case
  proof (cases "0 <s v")
    case True
    then obtain j where k: "k = Suc j" using 1(2) by (cases k) (auto simp: word_sless_alt)
    have "sint (signed_drop_bit 1 v) = sint v div 2" by (simp add: sint_signed_drop_bit_eq drop_bit_eq_div)
    then have "bit_planes (signed_drop_bit 1 v) \<le> j" using 1(1)[OF True, of j] 1(2) unfolding k by simp
    then show ?thesis using True k by (subst bit_planes.simps) simp
  next
    case False
    then show ?thesis by (subst bit_planes.simps) simp
  qed
qed

lemma top_bits_small:
  assumes "0 \<le> sint v" "sint v < 2 ^ k"
  shows "top_bits k v = (0 :: 'a::len word)"
proof -
  have "(2 :: int) ^ (LENGTH('a) - 1) \<le> 2 ^ LENGTH('a)" by (intro power_increasing) auto
  then have "uint v = sint v" using assms(1) sint_lt[of v] unfolding uint_sint by (intro take_bit_int_eq_self) linarith+
  then have "drop_bit k (uint v) = 0" using assms by (simp add: drop_bit_eq_div div_pos_pos_trivial)
  then have "\<not> bit (uint v) (k + i)" for i by (metis bit_0_eq bit_drop_bit_eq bot_apply bot_bool_def comp_apply)
  then have "drop_bit k v = 0" by (intro bit_word_eqI) (auto simp: bit_drop_bit_eq bit_uint_iff dest: bit_imp_le_length)
  then show ?thesis by (simp add: top_bits_def)
qed

lemma fold_max:
  fixes x :: "nat \<Rightarrow> 'a::len word" and P :: "nat \<Rightarrow> bool"
  defines "f \<equiv> \<lambda>m i. if P i \<and> m <s x i then x i else m"
  shows "sint m \<le> sint (foldl f m ks) \<and> (\<forall>i \<in> set ks. P i \<longrightarrow> sint (x i) \<le> sint (foldl f m ks)) \<and>
    (foldl f m ks = m \<or> (\<exists>i \<in> set ks. foldl f m ks = x i))"
proof (induction ks arbitrary: m)
  case (Cons j js)
  have s: "sint m \<le> sint (f m j)" "P j \<longrightarrow> sint (x j) \<le> sint (f m j)" "f m j = m \<or> f m j = x j"
    by (auto simp: f_def word_sless_alt)
  then show ?case using Cons[of "f m j"] by auto
qed simp

lemma quadrant_max_props:
  assumes "\<forall>v \<in> set a. 0 \<le> sint v \<and> sint v < B" "0 < B"
  shows "0 \<le> sint (quadrant_max a nx ny q)" "sint (quadrant_max a nx ny q) < B"
    "i < length a \<Longrightarrow> quadrant_no nx ny i = q \<Longrightarrow> sint (a ! i) \<le> sint (quadrant_max a nx ny q)"
  using fold_max[of 0 "\<lambda>i. quadrant_no nx ny i = q" "\<lambda>i. a ! i" "[0..<length a]"] assms
  unfolding quadrant_max_def[symmetric] by auto

subsection \<open>The four quadrants\<close>

lemma region_mem:
  fixes nx ny :: nat
  assumes "J + nqy \<le> ny" "j < ny"
  shows "ny * i + j \<in> region (ny * I + J) ny nqx nqy \<longleftrightarrow> I \<le> i \<and> i < I + nqx \<and> J \<le> j \<and> j < J + nqy"
proof
  assume "ny * i + j \<in> region (ny * I + J) ny nqx nqy"
  then obtain i' j' where ij: "ny * i + j = ny * I + J + ny * i' + j'" "i' < nqx" "j' < nqy" by (auto simp: region_def)
  then have "0 + ny * i + j = 0 + ny * (I + i') + (J + j')" by (simp add: algebra_simps)
  moreover have "J + j' < ny" using ij assms by simp
  ultimately have "i = I + i'" "j = J + j'" using cell_inject[of j ny "J + j'" 0 i "I + i'"] assms by auto
  then show "I \<le> i \<and> i < I + nqx \<and> J \<le> j \<and> j < J + nqy" using ij by simp
next
  assume a: "I \<le> i \<and> i < I + nqx \<and> J \<le> j \<and> j < J + nqy"
  then have "ny * i = ny * I + ny * (i - I)" by (metis distrib_left le_add_diff_inverse)
  then have "ny * i + j = ny * I + J + ny * (i - I) + (j - J)" using a by simp
  then show "ny * i + j \<in> region (ny * I + J) ny nqx nqy" unfolding region_def using a by fastforce
qed

lemma quadrant_in_array:
  assumes "I + nqx \<le> nx" "J + nqy \<le> ny" "0 < nqx" "N = nx * ny"
  shows "in_array (ny * I + J) ny nqx nqy N"
proof -
  have "ny * I + ny * (nqx - 1) + ny \<le> nx * ny"
  proof -
    have "ny * I + ny * (nqx - 1) + ny = ny * (I + (nqx - 1) + 1)" by (simp add: algebra_simps)
    also have "\<dots> \<le> ny * nx" using assms by (intro mult_le_mono2) simp
    finally show ?thesis by (simp add: mult.commute)
  qed
  then show ?thesis using assms by (simp add: in_array_def)
qed

lemma overlay_nth: "k < length a \<Longrightarrow> overlay t base n nx ny 0 a ! k = (if k \<in> region base n nx ny then t ! k else a ! k)"
  by (simp add: overlay_def)

lemma four_overlays:
  fixes nx ny :: nat and t :: "'a::len word list"
  defines "nx2 \<equiv> (nx + 1) div 2" and "ny2 \<equiv> (ny + 1) div 2"
  assumes l: "length t = nx * ny"
  defines "a0 \<equiv> replicate (nx * ny) 0 :: 'a word list"
  defines "a1 \<equiv> overlay t 0 ny nx2 ny2 0 a0"
  defines "a2 \<equiv> overlay t ny2 ny nx2 (ny div 2) 0 a1"
  defines "a3 \<equiv> overlay t (ny * nx2) ny (nx div 2) ny2 0 a2"
  defines "a4 \<equiv> overlay t (ny * nx2 + ny2) ny (nx div 2) (ny div 2) 0 a3"
  shows "a4 = t" "\<forall>k \<in> region 0 ny nx2 ny2. k < nx * ny \<longrightarrow> a0 ! k = 0" "\<forall>k \<in> region ny2 ny nx2 (ny div 2). k < nx * ny \<longrightarrow> a1 ! k = 0"
    "\<forall>k \<in> region (ny * nx2) ny (nx div 2) ny2. k < nx * ny \<longrightarrow> a2 ! k = 0"
    "\<forall>k \<in> region (ny * nx2 + ny2) ny (nx div 2) (ny div 2). k < nx * ny \<longrightarrow> a3 ! k = 0"
proof -
  have h: "nx2 + nx div 2 = nx" "ny2 + ny div 2 = ny" unfolding nx2_def ny2_def by linarith+
  have la: "length a0 = nx * ny" "length a1 = nx * ny" "length a2 = nx * ny" "length a3 = nx * ny" "length a4 = nx * ny"
    by (simp_all add: a0_def a1_def a2_def a3_def a4_def)
  have m: "ny * i + j \<in> region 0 ny nx2 ny2 \<longleftrightarrow> i < nx2 \<and> j < ny2"
    "ny * i + j \<in> region ny2 ny nx2 (ny div 2) \<longleftrightarrow> i < nx2 \<and> ny2 \<le> j"
    "ny * i + j \<in> region (ny * nx2) ny (nx div 2) ny2 \<longleftrightarrow> nx2 \<le> i \<and> j < ny2"
    "ny * i + j \<in> region (ny * nx2 + ny2) ny (nx div 2) (ny div 2) \<longleftrightarrow> nx2 \<le> i \<and> ny2 \<le> j"
    if "i < nx" "j < ny" for i j
    using region_mem[of 0 ny2 ny j i 0 nx2] region_mem[of ny2 "ny div 2" ny j i 0 nx2]
      region_mem[of 0 ny2 ny j i nx2 "nx div 2"] region_mem[of ny2 "ny div 2" ny j i nx2 "nx div 2"] h that by auto
  have k: "\<exists>i j. k = ny * i + j \<and> i < nx \<and> j < ny" if "k < nx * ny" for k
  proof -
    have "0 < ny" using that by (cases ny) auto
    then have "k = ny * (k div ny) + k mod ny \<and> k div ny < nx \<and> k mod ny < ny" using that by (simp add: less_mult_imp_div_less)
    then show ?thesis by blast
  qed
  have v: "a1 ! k = (if i < nx2 \<and> j < ny2 then t ! k else 0)" "a2 ! k = (if i < nx2 then t ! k else 0)"
    "a3 ! k = (if i < nx2 \<or> j < ny2 then t ! k else 0)" "a4 ! k = t ! k"
    if "k = ny * i + j" "i < nx" "j < ny" "k < nx * ny" for k i j
  proof -
    note m' = m[OF that(2,3), folded that(1)]
    have z: "a0 ! k = 0" using that(4) by (simp add: a0_def)
    show 1: "a1 ! k = (if i < nx2 \<and> j < ny2 then t ! k else 0)" unfolding a1_def using m' z la that(4) by (simp add: overlay_nth)
    show 2: "a2 ! k = (if i < nx2 then t ! k else 0)" unfolding a2_def using m' 1 la that(4) by (auto simp: overlay_nth)
    show 3: "a3 ! k = (if i < nx2 \<or> j < ny2 then t ! k else 0)" unfolding a3_def using m' 2 la that(4) by (auto simp: overlay_nth)
    show "a4 ! k = t ! k" unfolding a4_def using m' 3 la that(4) by (auto simp: overlay_nth)
  qed
  show "a4 = t"
  proof (rule nth_equalityI)
    fix x assume "x < length a4"
    then have x: "x < nx * ny" using la by simp
    then obtain i j where "x = ny * i + j" "i < nx" "j < ny" using k by blast
    then show "a4 ! x = t ! x" using v(4) x by blast
  qed (use la l in simp)
  show "\<forall>k \<in> region 0 ny nx2 ny2. k < nx * ny \<longrightarrow> a0 ! k = 0" by (simp add: a0_def)
  show "\<forall>k \<in> region ny2 ny nx2 (ny div 2). k < nx * ny \<longrightarrow> a1 ! k = 0" using k v(1) m(2) by fastforce
  show "\<forall>k \<in> region (ny * nx2) ny (nx div 2) ny2. k < nx * ny \<longrightarrow> a2 ! k = 0" using k v(2) m(3) by fastforce
  show "\<forall>k \<in> region (ny * nx2 + ny2) ny (nx div 2) (ny div 2). k < nx * ny \<longrightarrow> a3 ! k = 0" using k v(3) m(4) by fastforce
qed

subsection \<open>The coefficients\<close>

text \<open>The magnitudes a quadrant tree can hold: every plane of them and the three above it fit in the word.\<close>

lemma magnitudes_range:
  assumes "\<forall>v \<in> set (a :: 'a::len word list). \<bar>sint v\<bar> < 2 ^ (LENGTH('a) - 3)" "3 < LENGTH('a)"
  shows "\<forall>v \<in> set (magnitudes a). 0 \<le> sint v \<and> sint v < 2 ^ (LENGTH('a) - 3)"
proof
  fix m assume "m \<in> set (magnitudes a)"
  then obtain v where v: "v \<in> set a" "m = (if v <s 0 then - v else v)" by (auto simp: magnitudes_def)
  have b: "\<bar>sint v\<bar> < 2 ^ (LENGTH('a) - 3)" using assms(1) v(1) by blast
  have le: "(2 :: int) ^ (LENGTH('a) - 3) \<le> 2 ^ (LENGTH('a) - 1)" by (intro power_increasing) auto
  have "v <s 0 \<Longrightarrow> sint (- v) = - sint v"
    using b le by (subst sint_word_ariths(4)) (intro signed_take_bit_int_eq_self; linarith)
  then show "0 \<le> sint m \<and> sint m < 2 ^ (LENGTH('a) - 3)" using b v(2) by (auto simp: word_sless_alt)
qed

lemma planes_count:
  fixes nx ny :: nat
  assumes "\<forall>v \<in> set (t :: 'a::len word list). 0 \<le> sint v \<and> sint v < 2 ^ (LENGTH('a) - 3)" "LENGTH('a) \<le> 64" "3 < LENGTH('a)"
  defines "nb \<equiv> \<lambda>q. (of_nat (bit_planes (quadrant_max t nx ny q)) :: u8)"
  shows "unat (nb q) + 2 < LENGTH('a)" "unat (nb q) = bit_planes (quadrant_max t nx ny q)"
    "i < length t \<Longrightarrow> quadrant_no nx ny i = q \<Longrightarrow> top_bits (unat (nb q)) (t ! i) = 0"
proof -
  note q = quadrant_max_props[OF assms(1), where nx = nx and ny = ny and q = q]
  have le: "bit_planes (quadrant_max t nx ny q) \<le> LENGTH('a) - 3" by (rule bit_planes_le) (use q in simp)
  then show u: "unat (nb q) = bit_planes (quadrant_max t nx ny q)"
    unfolding nb_def using assms(2) by (simp add: unat_of_nat take_bit_nat_eq_self)
  show "unat (nb q) + 2 < LENGTH('a)" unfolding u using le assms(3) by simp
  assume i: "i < length t" "quadrant_no nx ny i = q"
  then have "sint (t ! i) \<le> sint (quadrant_max t nx ny q)" using q(3) by simp
  then show "top_bits (unat (nb q)) (t ! i) = 0" unfolding u
    using bit_planes_bound[of "quadrant_max t nx ny q"] assms(1) i by (intro top_bits_small) (auto simp: Ball_def)
qed

lemma quadrant_planes_fit:
  assumes t: "\<And>i. i < length t \<Longrightarrow> quadrant_no nx ny i = q \<Longrightarrow> top_bits nb (t ! i) = 0"
    and l: "length t = nx * ny" and J: "J + nqy \<le> ny" and I: "I + nqx \<le> nx"
    and q: "\<And>i j. I \<le> i \<Longrightarrow> i < I + nqx \<Longrightarrow> J \<le> j \<Longrightarrow> j < J + nqy \<Longrightarrow> of_bool (j \<ge> (ny + 1) div 2) + of_bool (i \<ge> (nx + 1) div 2) = q"
  shows "fits_planes t (ny * I + J) ny nqx nqy nb"
  unfolding fits_planes_def
proof
  fix k assume "k \<in> region (ny * I + J) ny nqx nqy"
  then obtain i j where ij: "k = ny * I + J + ny * i + j" "i < nqx" "j < nqy" by (auto simp: region_def)
  then have k: "k = 0 + ny * (I + i) + (J + j)" by (simp add: algebra_simps)
  have lt: "J + j < ny" "I + i < nx" using ij I J by simp_all
  then have kk: "k < nx * ny" using cell_bound[of "I + i" nx "J + j" ny ny 0 "nx * ny"] unfolding k by (cases nx) (auto simp: algebra_simps)
  have "k div ny = I + i" "k mod ny = J + j" unfolding k using lt by simp_all
  then have "quadrant_no nx ny k = q" using q[of "I + i" "J + j"] ij unfolding quadrant_no_def by simp
  then show "top_bits nb (t ! k) = 0" using t l kk by simp
qed

subsection \<open>Streams\<close>

lemma byte_bits_prefix:
  assumes "byte_bits out = byte_bits h @ r"
  shows "\<exists>rest. out = h @ rest \<and> byte_bits rest = r"
proof -
  have l: "length h \<le> length out" using arg_cong[OF assms, of length] by simp
  have s: "byte_bits (take (length h) out) @ byte_bits (drop (length h) out) = byte_bits h @ r"
    using assms by (metis append_take_drop_id byte_bits_simps(3))
  then have "byte_bits (take (length h) out) = byte_bits h" "byte_bits (drop (length h) out) = r"
    using l by (simp_all add: append_eq_append_conv)
  then have "take (length h) out = h" using l by (intro byte_bits_inject) simp_all
  then show ?thesis using \<open>byte_bits (drop (length h) out) = r\<close> by (metis append_take_drop_id)
qed

definition reads_quadrants ::
  "nat \<Rightarrow> nat \<Rightarrow> nat \<Rightarrow> u8 \<times> u8 \<times> u8 \<Rightarrow> h_state \<Rightarrow> codec_error + ('a::len word list \<times> u32) \<times> h_state" where
  "reads_quadrants len nx ny nbitplanes st =
     (let nx2 = (nx + 1) div 2; ny2 = (ny + 1) div 2; (nb0, nb1, nb2) = nbitplanes
      in res_bind (decode_quadrant 0 ny nx2 ny2 nb0 (replicate len 0) st) (\<lambda>(a, st).
         res_bind (decode_quadrant ny2 ny nx2 (ny div 2) nb1 a st) (\<lambda>(a, st).
         res_bind (decode_quadrant (ny * nx2) ny (nx div 2) ny2 nb1 a st) (\<lambda>(a, st).
         res_bind (decode_quadrant (ny * nx2 + ny2) ny (nx div 2) (ny div 2) nb2 a st) (\<lambda>(a, st).
         res_bind (input_nybble st) (\<lambda>(b, st). Inr ((a, b), st)))))))"

lemma dodecode_quadrants:
  "dodecode st len nx ny nbitplanes =
     res_bind (reads_quadrants len nx ny nbitplanes (start_inputing_bits st)) (\<lambda>((a, b), st).
       if b \<noteq> 0 then Inl MissingEof else read_signs a (start_inputing_bits st))"
  by (simp add: dodecode_def reads_quadrants_def res_bind_assoc split_def Let_def cong: if_cong)

lemma reads_decode_quadrant:
  fixes t a :: "'a::len word list"
  assumes "planes_bits bs t base n nqx nqy (unat nb)" "unat nb + 2 < LENGTH('a)" "in_array base n nqx nqy (length a)" "0 < nqx" "0 < nqy"
    "fits_planes t base n nqx nqy (unat nb)" "\<forall>k \<in> region base n nqx nqy. k < length a \<longrightarrow> a ! k = 0"
  shows "reads bs (overlay t base n nqx nqy 0 a) (decode_quadrant base n nqx nqy nb a)"
proof -
  have "\<forall>k \<in> region base n nqx nqy. a ! k = 0" using assms(3,7) region_lt by blast
  moreover have "base \<le> length a" using assms(3) by (simp add: in_array_def)
  ultimately show ?thesis using reads_quadrant[OF assms(1-6)] by (simp add: decode_quadrant_def[abs_def])
qed

lemma quadrants_roundtrip:
  fixes t :: "'a::len word list" and nx ny :: nat
  defines "nb \<equiv> \<lambda>q. (of_nat (bit_planes (quadrant_max t nx ny q)) :: u8)"
  assumes r: "\<forall>v \<in> set t. 0 \<le> sint v \<and> sint v < 2 ^ (LENGTH('a) - 3)" and w: "LENGTH('a) \<le> 64" "3 < LENGTH('a)"
    and l: "length t = nx * ny" and n: "2 \<le> nx" "2 \<le> ny"
  shows "\<exists>w' bs. doencode w t nx ny (nb 0, nb 1, nb 2) = Inr (done_outputing_bits w') \<and> writes bs (start_outputing_bits w) w' \<and>
    reads bs (t, 0) (reads_quadrants (nx * ny) nx ny (nb 0, nb 1, nb 2))"
proof -
  let ?nx2 = "(nx + 1) div 2" and ?ny2 = "(ny + 1) div 2"
  define nb0 nb1 nb2 where "nb0 = nb 0" and "nb1 = nb 1" and "nb2 = nb 2"
  have p: "0 < ?nx2" "0 < ?ny2" "0 < nx div 2" "0 < ny div 2" using n by simp_all
  have h: "?nx2 + nx div 2 = nx" "?ny2 + ny div 2 = ny" by linarith+
  note c = planes_count[OF r w, where nx = nx and ny = ny]
  have nbs: "unat nb0 + 2 < LENGTH('a)" "unat nb1 + 2 < LENGTH('a)" "unat nb2 + 2 < LENGTH('a)"
    unfolding nb0_def nb1_def nb2_def nb_def by (rule c(1))+
  have f: "fits_planes t (ny * 0 + 0) ny ?nx2 ?ny2 (unat nb0)" "fits_planes t (ny * 0 + ?ny2) ny ?nx2 (ny div 2) (unat nb1)"
    "fits_planes t (ny * ?nx2 + 0) ny (nx div 2) ?ny2 (unat nb1)" "fits_planes t (ny * ?nx2 + ?ny2) ny (nx div 2) (ny div 2) (unat nb2)"
    unfolding nb0_def nb1_def nb2_def nb_def
    by (rule quadrant_planes_fit[OF c(3) l]; use h in simp)+
  have ia: "in_array (ny * 0 + 0) ny ?nx2 ?ny2 (nx * ny)" "in_array (ny * 0 + ?ny2) ny ?nx2 (ny div 2) (nx * ny)"
    "in_array (ny * ?nx2 + 0) ny (nx div 2) ?ny2 (nx * ny)" "in_array (ny * ?nx2 + ?ny2) ny (nx div 2) (ny div 2) (nx * ny)"
    by (rule quadrant_in_array; use h p in simp)+
  have f: "fits_planes t 0 ny ?nx2 ?ny2 (unat nb0)" "fits_planes t ?ny2 ny ?nx2 (ny div 2) (unat nb1)"
    "fits_planes t (ny * ?nx2) ny (nx div 2) ?ny2 (unat nb1)" "fits_planes t (ny * ?nx2 + ?ny2) ny (nx div 2) (ny div 2) (unat nb2)"
    using f by (simp_all only: mult_0_right add_0_left add_0_right)
  have ia: "in_array 0 ny ?nx2 ?ny2 (nx * ny)" "in_array ?ny2 ny ?nx2 (ny div 2) (nx * ny)"
    "in_array (ny * ?nx2) ny (nx div 2) ?ny2 (nx * ny)" "in_array (ny * ?nx2 + ?ny2) ny (nx div 2) (ny div 2) (nx * ny)"
    using ia by (simp_all only: mult_0_right add_0_left add_0_right)
  have le: "?ny2 \<le> length t" "ny * ?nx2 \<le> length t" "ny * ?nx2 + ?ny2 \<le> length t" using ia unfolding l in_array_def by linarith+
  define w0 where "w0 = start_outputing_bits w"
  define w1 where "w1 = qtree_encode w0 t 0 ny ?nx2 ?ny2 (unat nb0)"
  define w2 where "w2 = qtree_encode w1 t ?ny2 ny ?nx2 (ny div 2) (unat nb1)"
  define w3 where "w3 = qtree_encode w2 t (ny * ?nx2) ny (nx div 2) ?ny2 (unat nb1)"
  define w4 where "w4 = qtree_encode w3 t (ny * ?nx2 + ?ny2) ny (nx div 2) (ny div 2) (unat nb2)"
  obtain b0 where b0: "planes_bits b0 t 0 ny ?nx2 ?ny2 (unat nb0)" "writes b0 w0 w1"
    using encode_quadrant_bits[OF p(1,2) nbs(1)] unfolding w1_def by blast
  obtain b1 where b1: "planes_bits b1 t ?ny2 ny ?nx2 (ny div 2) (unat nb1)" "writes b1 w1 w2"
    using encode_quadrant_bits[OF p(1,4) nbs(2)] unfolding w2_def by blast
  obtain b2 where b2: "planes_bits b2 t (ny * ?nx2) ny (nx div 2) ?ny2 (unat nb1)" "writes b2 w2 w3"
    using encode_quadrant_bits[OF p(3,2) nbs(2)] unfolding w3_def by blast
  obtain b3 where b3: "planes_bits b3 t (ny * ?nx2 + ?ny2) ny (nx div 2) (ny div 2) (unat nb2)" "writes b3 w3 w4"
    using encode_quadrant_bits[OF p(3,4) nbs(3)] unfolding w4_def by blast
  let ?F = "[False, False, False, False]"
  have m: "msb_bits 4 (0 :: u32) = ?F" by code_simp
  have wr: "writes (b0 @ b1 @ b2 @ b3 @ ?F) w0 (output_nybble w4 0)"
    using writes_nybble[of 0 w4] unfolding m by (intro writes_trans[OF b0(2)] writes_trans[OF b1(2)] writes_trans[OF b2(2)] writes_trans[OF b3(2)])
  have e: "doencode w t nx ny (nb0, nb1, nb2) = Inr (done_outputing_bits (output_nybble w4 0))"
    using le by (simp add: doencode_def encode_quadrant_def Let_def w0_def w1_def w2_def w3_def w4_def)
  define a0 where "a0 = (replicate (nx * ny) 0 :: 'a word list)"
  define a1 where "a1 = overlay t 0 ny ?nx2 ?ny2 0 a0"
  define a2 where "a2 = overlay t ?ny2 ny ?nx2 (ny div 2) 0 a1"
  define a3 where "a3 = overlay t (ny * ?nx2) ny (nx div 2) ?ny2 0 a2"
  define a4 where "a4 = overlay t (ny * ?nx2 + ?ny2) ny (nx div 2) (ny div 2) 0 a3"
  note z = four_overlays[OF l, folded a0_def, folded a1_def, folded a2_def, folded a3_def, folded a4_def]
  have la: "length a0 = nx * ny" "length a1 = nx * ny" "length a2 = nx * ny" "length a3 = nx * ny"
    by (simp_all add: a0_def a1_def a2_def a3_def)
  have r0: "reads b0 a1 (decode_quadrant 0 ny ?nx2 ?ny2 nb0 a0)"
    unfolding a1_def by (rule reads_decode_quadrant[OF b0(1) nbs(1) _ p(1,2) f(1)]) (use ia z la in simp_all)
  have r1: "reads b1 a2 (decode_quadrant ?ny2 ny ?nx2 (ny div 2) nb1 a1)"
    unfolding a2_def by (rule reads_decode_quadrant[OF b1(1) nbs(2) _ p(1,4) f(2)]) (use ia z la in simp_all)
  have r2: "reads b2 a3 (decode_quadrant (ny * ?nx2) ny (nx div 2) ?ny2 nb1 a2)"
    unfolding a3_def by (rule reads_decode_quadrant[OF b2(1) nbs(2) _ p(3,2) f(3)]) (use ia z la in simp_all)
  have r3: "reads b3 a4 (decode_quadrant (ny * ?nx2 + ?ny2) ny (nx div 2) (ny div 2) nb2 a3)"
    unfolding a4_def by (rule reads_decode_quadrant[OF b3(1) nbs(3) _ p(3,4) f(4)]) (use ia z la in simp_all)
  have r4: "reads (?F @ []) (a4, 0) (\<lambda>st. res_bind (input_nybble st) (\<lambda>(b, st). Inr ((a4, b), st)))"
    by (rule reads_step[OF reads_nybble_0 reads_return]) simp
  have rd: "reads (b0 @ b1 @ b2 @ b3 @ ?F @ []) (a4, 0) (reads_quadrants (nx * ny) nx ny (nb0, nb1, nb2))"
    unfolding reads_quadrants_def[abs_def] Let_def prod.case a0_def[symmetric]
    by (rule reads_step[OF r0 reads_step[OF r1 reads_step[OF r2 reads_step[OF r3 r4]]]]) simp_all
  show ?thesis using wr e rd z(1) unfolding nb0_def[symmetric] nb1_def[symmetric] nb2_def[symmetric] w0_def[symmetric]
    by (intro exI[of _ "output_nybble w4 0"] exI[of _ "b0 @ b1 @ b2 @ b3 @ ?F"]) simp
qed

subsection \<open>The head of the stream\<close>

lemma qread_front:
  assumes "hs_bytes st = pre @ bs @ rest" "hs_pos st = length pre"
  shows "qread st (length bs) = Inr (bs, st\<lparr>hs_pos := length (pre @ bs)\<rparr>)"
  using assms by (simp add: qread_def)

definition stream_head :: "nat \<Rightarrow> nat \<Rightarrow> i32 \<Rightarrow> i64 \<Rightarrow> u8 \<Rightarrow> u8 \<Rightarrow> u8 \<Rightarrow> bytes" where
  "stream_head nx ny scale sumall nb0 nb1 nb2 =
     CODE_MAGIC @ to_be 4 (of_nat nx :: i32) @ to_be 4 (of_nat ny :: i32) @ to_be 4 scale @ to_be 8 sumall @ [nb0, nb1, nb2]"

lemma length_stream_head: "length (stream_head nx ny scale sumall nb0 nb1 nb2) = 25"
  by (simp add: stream_head_def CODE_MAGIC_def)

lemma i32_of_nat: "n < 2 ^ 31 \<Longrightarrow> sint (of_nat n :: i32) = int n" "n < 2 ^ 31 \<Longrightarrow> unat (of_nat n :: i32) = n"
  by (simp_all add: signed_of_nat signed_take_bit_int_eq_self unat_of_nat take_bit_nat_eq_self)

lemma decode_head:
  assumes n: "0 < nx" "nx < 2 ^ 31" "0 < ny" "ny < 2 ^ 31" and l: "len = nx * ny"
  shows "(decode_coeffs (hstate_new (stream_head nx ny scale sumall nb0 nb1 nb2 @ rest)) len
      :: codec_error + ((nat \<times> nat \<times> i32) \<times> 'a::len word list) \<times> h_state) =
    res_bind (dodecode (hstate_new (stream_head nx ny scale sumall nb0 nb1 nb2 @ rest)\<lparr>hs_pos := 25\<rparr>) len nx ny (nb0, nb1, nb2))
      (\<lambda>(a, st). Inr (((nx, ny, scale), a[0 := ucast sumall]), st))"
proof -
  let ?st = "hstate_new (stream_head nx ny scale sumall nb0 nb1 nb2 @ rest)"
  let ?h2 = "to_be 4 (of_nat nx :: i32)" and ?h3 = "to_be 4 (of_nat ny :: i32)" and ?h4 = "to_be 4 scale" and ?h5 = "to_be 8 sumall"
  have b: "hs_bytes ?st = CODE_MAGIC @ ?h2 @ ?h3 @ ?h4 @ ?h5 @ [nb0, nb1, nb2] @ rest" by (simp add: hstate_new_def stream_head_def)
  have l0: "hs_pos ?st = 0" "length CODE_MAGIC = 2" by (simp_all add: hstate_new_def CODE_MAGIC_def)
  have q1: "qread ?st 2 = Inr (CODE_MAGIC, ?st\<lparr>hs_pos := 2\<rparr>)"
    using qread_front[of ?st "[]" CODE_MAGIC "?h2 @ ?h3 @ ?h4 @ ?h5 @ [nb0, nb1, nb2] @ rest"] b l0 by simp
  have q2: "readint (?st\<lparr>hs_pos := 2\<rparr>) = Inr (of_nat nx, ?st\<lparr>hs_pos := 6\<rparr>)"
    using qread_front[of "?st\<lparr>hs_pos := 2\<rparr>" CODE_MAGIC ?h2 "?h3 @ ?h4 @ ?h5 @ [nb0, nb1, nb2] @ rest"] b l0 by (simp add: readint_def from_be_to_be)
  have q3: "readint (?st\<lparr>hs_pos := 6\<rparr>) = Inr (of_nat ny, ?st\<lparr>hs_pos := 10\<rparr>)"
    using qread_front[of "?st\<lparr>hs_pos := 6\<rparr>" "CODE_MAGIC @ ?h2" ?h3 "?h4 @ ?h5 @ [nb0, nb1, nb2] @ rest"] b l0 by (simp add: readint_def from_be_to_be)
  have q4: "readint (?st\<lparr>hs_pos := 10\<rparr>) = Inr (scale, ?st\<lparr>hs_pos := 14\<rparr>)"
    using qread_front[of "?st\<lparr>hs_pos := 10\<rparr>" "CODE_MAGIC @ ?h2 @ ?h3" ?h4 "?h5 @ [nb0, nb1, nb2] @ rest"] b l0 by (simp add: readint_def from_be_to_be)
  have q5: "readlonglong (?st\<lparr>hs_pos := 14\<rparr>) = Inr (sumall, ?st\<lparr>hs_pos := 22\<rparr>)"
    using qread_front[of "?st\<lparr>hs_pos := 14\<rparr>" "CODE_MAGIC @ ?h2 @ ?h3 @ ?h4" ?h5 "[nb0, nb1, nb2] @ rest"] b l0 by (simp add: readlonglong_def from_be_to_be)
  have q6: "qread (?st\<lparr>hs_pos := 22\<rparr>) 3 = Inr ([nb0, nb1, nb2], ?st\<lparr>hs_pos := 25\<rparr>)"
    using qread_front[of "?st\<lparr>hs_pos := 22\<rparr>" "CODE_MAGIC @ ?h2 @ ?h3 @ ?h4 @ ?h5" "[nb0, nb1, nb2]" rest] b l0 by (simp add: numeral_3_eq_3)
  have nn: "\<not> (sint (of_nat nx :: i32) \<le> 0 \<or> sint (of_nat ny :: i32) \<le> 0)" using n by (simp add: i32_of_nat)
  show ?thesis unfolding decode_coeffs_def q1 res_bind.simps prod.case q2 q3 q4 if_not_P[OF nn] q5 q6
    using n l by (simp add: i32_of_nat)
qed

subsection \<open>Coefficients there and back\<close>

lemma magnitudes_length [simp]: "length (magnitudes a) = length a"
  by (simp add: magnitudes_def)

lemma coeffs_roundtrip:
  fixes a :: "'a::len word list"
  assumes s: "\<forall>v \<in> set a. small v" and w: "LENGTH('a) \<le> 64" "3 < LENGTH('a)" and l: "length a = nx * ny"
    and n: "2 \<le> nx" "nx < 2 ^ 31" "2 \<le> ny" "ny < 2 ^ 31"
  shows "\<exists>w st. encode_coeffs hwriter_new a nx ny scale = Inr w \<and> decode_coeffs (hstate_new (hw_out w)) (nx * ny) = Inr (((nx, ny, scale), a), st)"
proof -
  define t where "t = magnitudes (a[0 := 0])"
  define nb where "nb = (\<lambda>q. (of_nat (bit_planes (quadrant_max t nx ny q)) :: u8))"
  define sumall :: i64 where "sumall = scast (a ! 0)"
  have ne: "a \<noteq> []" using l n by auto
  have sm: "\<forall>v \<in> set (a[0 := 0]). \<bar>sint v\<bar> < 2 ^ (LENGTH('a) - 3)"
    using s set_update_subset_insert[of a 0 0] by (auto simp: small_def)
  have r: "\<forall>v \<in> set t. 0 \<le> sint v \<and> sint v < 2 ^ (LENGTH('a) - 3)"
    unfolding t_def using magnitudes_range[OF sm w(2)] .
  have lt: "length t = nx * ny" using l by (simp add: t_def)
  let ?head = "stream_head nx ny scale sumall (nb 0) (nb 1) (nb 2)"
  let ?w0 = "\<lparr>hw_out = ?head, hw_buffer = 0, hw_togo = 8\<rparr>"
  obtain w1 bs where d: "doencode ?w0 t nx ny (nb 0, nb 1, nb 2) = Inr (done_outputing_bits w1)"
    and wr: "writes bs (start_outputing_bits ?w0) w1" and rd: "reads bs (t, 0) (reads_quadrants (nx * ny) nx ny (nb 0, nb 1, nb 2))"
    using quadrants_roundtrip[OF r w lt n(1,3), of ?w0] unfolding nb_def by blast
  have i0: "hw_inv (start_outputing_bits ?w0)" "hw_bits (start_outputing_bits ?w0) = byte_bits ?head"
    by (simp_all add: start_outputing_bits_def hw_inv_def hw_bits_def)
  then have i1: "hw_inv w1" "hw_bits w1 = byte_bits ?head @ bs" using wr by (simp_all add: writes_def)
  define k where "k = nat (hw_togo w1) mod 8"
  have k: "k < 8" by (simp add: k_def)
  obtain body where body: "hw_out (done_outputing_bits w1) = ?head @ body" "byte_bits body = bs @ replicate k False"
    using byte_bits_prefix[of "hw_out (done_outputing_bits w1)" ?head "bs @ replicate k False"] done_bits[OF i1(1)] i1(2) unfolding k_def by auto
  let ?w2 = "qwrite (done_outputing_bits w1) (pack_signs (a[0 := 0]))"
  have e: "encode_coeffs hwriter_new a nx ny scale = Inr ?w2"
  proof -
    have h: "qwrite (writelonglong (writeint (writeint (writeint (qwrite hwriter_new CODE_MAGIC) (of_nat nx)) (of_nat ny)) scale) sumall)
        (map (\<lambda>q. of_nat (bit_planes (quadrant_max t nx ny q))) [0, 1, 2]) = ?w0"
      by (simp add: qwrite_def writelonglong_def writeint_def hwriter_new_def stream_head_def nb_def)
    show ?thesis unfolding encode_coeffs_def if_not_P[OF ne] Let_def t_def[symmetric] sumall_def[symmetric] h
      using d by (simp add: nb_def)
  qed
  have out: "hw_out ?w2 = ?head @ body @ pack_signs (a[0 := 0])" by (simp add: qwrite_def body(1))
  obtain j where j: "j < 8" "byte_bits (pack_signs (a[0 := 0])) = sign_bits (a[0 := 0]) @ replicate j False"
    using pack_signs_bits by blast
  let ?st = "hstate_new (hw_out ?w2)\<lparr>hs_pos := 25\<rparr>"
  have st: "start_inputing_bits ?st = ?st" by (simp add: start_inputing_bits_def hstate_new_def)
  have si: "hs_inv ?st" "hs_bits ?st = bs @ (replicate k False @ byte_bits (pack_signs (a[0 := 0])))"
    using length_stream_head[of nx ny scale sumall "nb 0" "nb 1" "nb 2"] body(2) unfolding out by (simp_all add: hs_inv_def hs_bits_def hstate_new_def)
  obtain st1 where st1: "reads_quadrants (nx * ny) nx ny (nb 0, nb 1, nb 2) ?st = Inr ((t, 0), st1)" "hs_inv st1"
    "hs_bits st1 = replicate k False @ byte_bits (pack_signs (a[0 := 0]))"
    using readsD[OF rd si] by blast
  have "hs_togo st1 + 8 * length (drop (hs_pos st1) (hs_bytes st1)) = k + 8 * length (pack_signs (a[0 := 0]))"
    using arg_cong[OF st1(3), of length] by (simp add: hs_bits_def)
  then have kt: "hs_togo st1 = k" using st1(2) k unfolding hs_inv_def by presburger
  then have "byte_bits (drop (hs_pos st1) (hs_bytes st1)) = byte_bits (pack_signs (a[0 := 0]))"
    using st1(3) by (simp add: hs_bits_def append_eq_append_conv)
  then have st2: "hs_inv (start_inputing_bits st1)" "hs_bits (start_inputing_bits st1) = sign_bits (a[0 := 0]) @ replicate j False"
    using st1(2) j by (simp_all add: start_inputing_bits_def hs_inv_def hs_bits_def)
  obtain st3 where st3: "read_signs t (start_inputing_bits st1) = Inr (a[0 := 0], st3)"
    using readsD[OF reads_signs st2] unfolding t_def by blast
  have dd: "dodecode ?st (nx * ny) nx ny (nb 0, nb 1, nb 2) = Inr (a[0 := 0], st3)"
    unfolding dodecode_quadrants st st1(1) using st3 by simp
  have u: "ucast sumall = a ! 0" unfolding sumall_def
    by (rule bit_word_eqI) (use w in \<open>auto simp: bit_simps\<close>)
  have "decode_coeffs (hstate_new (hw_out ?w2)) (nx * ny) = Inr (((nx, ny, scale), a), st3)"
    using decode_head[of nx ny "nx * ny" scale sumall "nb 0" "nb 1" "nb 2" "body @ pack_signs (a[0 := 0])", where ?'a = 'a] n dd u
    unfolding out by (simp add: out)
  with e show ?thesis by blast
qed

lemma encode_pixels_roundtrip:
  fixes a :: "'a::len word list"
  assumes B: "\<forall>v \<in> set a. \<bar>sint v\<bar> \<le> B" and rm: "room TYPE('a) (log2n_of (max nx ny) - 1) B" and w: "32 \<le> LENGTH('a)" "LENGTH('a) \<le> 64"
    and l: "length a = nx * ny" and n: "2 \<le> nx" "nx < 2 ^ 31" "2 \<le> ny" "ny < 2 ^ 31" and s: "scale <=s 1"
  shows "\<exists>c. encode_pixels a nx ny scale = Inr c \<and> decode_pixels c nx ny smooth = Inr a"
proof -
  have p: "0 < nx" "0 < ny" "1 < max nx ny" using n by simp_all
  note h = htrans_inverse[OF l p B rm s w(1)]
  have dg: "digitize (htrans a nx ny) scale = htrans a nx ny" "undigitize (htrans a nx ny) scale = htrans a nx ny"
    using s by (simp_all add: digitize_def undigitize_def)
  have w3: "3 < LENGTH('a)" using w by simp
  have lh: "length (htrans a nx ny) = nx * ny" using h(1) l by simp
  obtain x st where x: "encode_coeffs hwriter_new (htrans a nx ny) nx ny scale = Inr x"
    "decode_coeffs (hstate_new (hw_out x)) (nx * ny) = Inr (((nx, ny, scale), htrans a nx ny), st)"
    using coeffs_roundtrip[OF h(2) w(2) w3 lh n, of scale] by blast
  show ?thesis using x h(3)[of smooth] dg by (simp add: encode_pixels_def decode_pixels_def)
qed

subsection \<open>H-compress as a tile codec\<close>

text \<open>
  The tiles that come back unchanged: lossless scale, at least two pixels each way, and sides for which no sum of the transform leaves
  the word and every plane of a coefficient, with the three bits above it, lies in it.
\<close>

definition hcompress_tile_ok :: "nat \<Rightarrow> nat \<Rightarrow> nat \<Rightarrow> int \<Rightarrow> i32 \<Rightarrow> bytes \<Rightarrow> bool" where
  "hcompress_tile_ok nx ny bytepix zbitpix scale pix \<longleftrightarrow> bytepix \<in> {1, 2, 4} \<and> zbitpix = int (8 * bytepix) \<and>
     length pix = nx * ny * bytepix \<and> 2 \<le> nx \<and> 2 \<le> ny \<and> sint scale \<in> {0, 1} \<and>
     max nx ny \<le> (if bytepix = 1 then 2 ^ 19 else if bytepix = 2 then 2 ^ 12 else 2 ^ 28)"

lemma log2n_le: "n \<le> 2 ^ k \<Longrightarrow> log2n_of n \<le> k"
proof (induction k arbitrary: n)
  case 0
  then show ?case by (subst log2n_of.simps) simp
next
  case (Suc k)
  have "(n + 1) div 2 \<le> 2 ^ k" using Suc.prems by simp
  then show ?case using Suc.IH[of "(n + 1) div 2"] by (subst log2n_of.simps) simp
qed

lemma room_upto:
  assumes "n \<le> 2 ^ Suc t" "room TYPE('a::len) t B"
  shows "room TYPE('a) (log2n_of n - 1) B"
  using room_mono[OF assms(2)] log2n_le[OF assms(1)] by simp

lemma sint_bound: "- (2 ^ (LENGTH('a) - 1)) \<le> sint (v :: 'a::len word) \<and> sint v < 2 ^ (LENGTH('a) - 1)"
  using sint_ge[of v] sint_lt[of v] by simp

lemma sint_scast_up: "LENGTH('a::len) \<le> LENGTH('b::len) \<Longrightarrow> sint (scast (v :: 'a word) :: 'b word) = sint v"
proof -
  assume "LENGTH('a) \<le> LENGTH('b)"
  then have "(2 :: int) ^ (LENGTH('a) - 1) \<le> 2 ^ (LENGTH('b) - 1)" by (intro power_increasing) auto
  then show ?thesis using sint_bound[of v] unfolding signed_scast_eq One_nat_def by (intro signed_take_bit_int_eq_self) linarith+
qed

lemma ucast_scast_up: "LENGTH('a::len) \<le> LENGTH('b::len) \<Longrightarrow> ucast (scast (v :: 'a word) :: 'b word) = v"
proof (rule bit_word_eqI)
  fix n assume "LENGTH('a) \<le> LENGTH('b)" "n < LENGTH('a)"
  then show "bit (ucast (scast v :: 'b word) :: 'a word) n = bit v n"
    by (cases "n = LENGTH('a) - 1") (auto simp: bit_simps min_def)
qed

text \<open>Pixels read in file order, extended to the internal width, cut back and written in host order.\<close>

lemma native_scast:
  assumes "length pix = n * k" "k \<in> {1, 2, 4, 8}" "8 * k = LENGTH('w::len)" "LENGTH('w) \<le> LENGTH('a::len)"
  shows "concat (map (\<lambda>v. to_ne big k (ucast (v :: 'a word) :: 'w word)) (map (\<lambda>i. scast (from_be (take k (drop (i * k) pix)) :: 'w word)) [0..<n]))
    = to_native big k pix"
  using native_words[OF assms(1-3), of big] by (simp add: ucast_scast_up[OF assms(4)] o_def)

lemma hcompress_lossless:
  assumes ok: "hcompress_tile_ok nx ny bytepix zbitpix scale pix"
  shows "res_bind (encode_hcompress pix nx ny bytepix zbitpix scale) (\<lambda>c. decode_hcompress big c nx ny bytepix zbitpix smooth) = Inr (to_native big bytepix pix)"
proof -
  have k: "bytepix = 1 \<or> bytepix = 2 \<or> bytepix = 4" and z: "zbitpix = int (8 * bytepix)" and l: "length pix = nx * ny * bytepix"
    and n: "2 \<le> nx" "2 \<le> ny" and sc: "sint scale = 0 \<or> sint scale = 1"
    and m: "max nx ny \<le> (if bytepix = 1 then 2 ^ 19 else if bytepix = 2 then 2 ^ 12 else 2 ^ 28)"
    using ok by (auto simp: hcompress_tile_ok_def)
  have m28: "max nx ny \<le> 2 ^ 28" using m by (auto split: if_splits)
  then have n31: "nx < 2 ^ 31" "ny < 2 ^ 31" by simp_all
  have "nx * ny \<le> 2 ^ 28 * 2 ^ 28" using m28 by (intro mult_le_mono) simp_all
  then have cm: "checked_mul (nx * ny) bytepix = Inr (nx * ny * bytepix)" using k by (auto simp: checked_mul_def)
  have s1: "scale <=s 1" "\<not> sint scale < 0" using sc by (auto simp: word_sle_eq)
  from k consider "bytepix = 1" | "bytepix = 2" | "bytepix = 4" by blast
  then show ?thesis
  proof cases
    case 1
    let ?a = "map (\<lambda>i. ucast (pix ! i) :: i32) [0..<nx * ny]"
    have B: "\<forall>v \<in> set ?a. \<bar>sint v\<bar> \<le> 255"
    proof
      fix v assume "v \<in> set ?a"
      then obtain b :: u8 where v: "v = ucast b" by auto
      have "uint b < 256" using unsigned_less[of b] by simp
      moreover have "- (2 ^ 31) \<le> (0 :: int)" "(256 :: int) < 2 ^ 31" "0 \<le> uint b" by simp_all
      ultimately have "signed_take_bit 31 (uint b) = uint b" by (intro signed_take_bit_int_eq_self) linarith+
      then show "\<bar>sint v\<bar> \<le> 255" using \<open>uint b < 256\<close> unfolding v by (simp add: signed_ucast_eq)
    qed
    have r: "room TYPE(32) (log2n_of (max nx ny) - 1) 255"
      by (rule room_upto[where t = 18]) (use m 1 in \<open>simp_all add: room_def\<close>)
    obtain c where c: "encode_pixels ?a nx ny scale = Inr c" "decode_pixels c nx ny smooth = Inr ?a"
      using encode_pixels_roundtrip[OF B r _ _ _ n(1) n31(1) n(2) n31(2) s1(1), of smooth] by auto
    have "map (\<lambda>i. ucast (ucast (pix ! i) :: i32) :: u8) [0..<nx * ny] = pix"
      by (rule nth_equalityI) (use l 1 in \<open>simp_all add: ucast_u32_u8\<close>)
    then show ?thesis using c cm l s1 1 z
      by (simp add: encode_hcompress_pixels decode_hcompress_pixels hcast_i32_to_target_bytes_def to_native_def o_def)
  next
    case 2
    let ?a = "map (\<lambda>i. scast (from_be (take 2 (drop (i * 2) pix)) :: i16) :: i32) [0..<nx * ny]"
    have B: "\<forall>v \<in> set ?a. \<bar>sint v\<bar> \<le> 2 ^ 15"
    proof
      fix v assume "v \<in> set ?a"
      then obtain b :: i16 where v: "v = scast b" by auto
      show "\<bar>sint v\<bar> \<le> 2 ^ 15" using sint_bound[of b] unfolding v by (auto simp: sint_scast_up abs_le_iff)
    qed
    have r: "room TYPE(32) (log2n_of (max nx ny) - 1) (2 ^ 15)"
      by (rule room_upto[where t = 11]) (use m 2 in \<open>simp_all add: room_def\<close>)
    obtain c where c: "encode_pixels ?a nx ny scale = Inr c" "decode_pixels c nx ny smooth = Inr ?a"
      using encode_pixels_roundtrip[OF B r _ _ _ n(1) n31(1) n(2) n31(2) s1(1), of smooth] by auto
    have "concat (map (\<lambda>v. to_ne big 2 (ucast v :: i16)) ?a) = to_native big 2 pix"
      by (rule native_scast) (use l 2 in simp_all)
    then show ?thesis using c cm l s1 2 z
      by (simp add: encode_hcompress_pixels decode_hcompress_pixels hcast_i32_to_target_bytes_def)
  next
    case 3
    let ?a = "map (\<lambda>i. scast (from_be (take 4 (drop (i * 4) pix)) :: i32) :: i64) [0..<nx * ny]"
    have B: "\<forall>v \<in> set ?a. \<bar>sint v\<bar> \<le> 2 ^ 31"
    proof
      fix v assume "v \<in> set ?a"
      then obtain b :: i32 where v: "v = scast b" by auto
      show "\<bar>sint v\<bar> \<le> 2 ^ 31" using sint_bound[of b] unfolding v by (auto simp: sint_scast_up abs_le_iff)
    qed
    have r: "room TYPE(64) (log2n_of (max nx ny) - 1) (2 ^ 31)"
      by (rule room_upto[where t = 27]) (use m 3 in \<open>simp_all add: room_def\<close>)
    obtain c where c: "encode_pixels ?a nx ny scale = Inr c" "decode_pixels c nx ny smooth = Inr ?a"
      using encode_pixels_roundtrip[OF B r _ _ _ n(1) n31(1) n(2) n31(2) s1(1), of smooth] by auto
    have "concat (map (\<lambda>v. to_ne big 4 (ucast v :: i32)) ?a) = to_native big 4 pix"
      by (rule native_scast) (use l 3 in simp_all)
    then show ?thesis using c cm l s1 3 z
      by (simp add: encode_hcompress_pixels decode_hcompress_pixels hcast_i64_to_target_bytes_def)
  qed
qed

interpretation hcompress: tile_codec "\<lambda>pix. encode_hcompress pix nx ny bytepix zbitpix scale"
    "\<lambda>c. decode_hcompress big c nx ny bytepix zbitpix smooth" "to_native big bytepix" "hcompress_tile_ok nx ny bytepix zbitpix scale"
    for nx ny bytepix zbitpix scale big smooth
proof unfold_locales
  fix pix assume "hcompress_tile_ok nx ny bytepix zbitpix scale pix"
  then show "res_bind (encode_hcompress pix nx ny bytepix zbitpix scale) (\<lambda>c. decode_hcompress big c nx ny bytepix zbitpix smooth)
      = Inr (to_native big bytepix pix)" by (rule hcompress_lossless)
next
  fix pix pix' assume "hcompress_tile_ok nx ny bytepix zbitpix scale pix" and e: "to_native big bytepix pix = to_native big bytepix pix'"
  then have "bytepix \<in> {1, 2, 4, 8}" by (auto simp: hcompress_tile_ok_def)
  then show "pix = pix'" using e by (rule to_native_inject)
qed

end
