(* ===== verification/HcompressProps.thy ===== *)
theory HcompressProps
  imports HcompressRoundtrip
begin

text \<open>
  What the H-compress codec does outside the lossless case: hostile streams, tiles of one row, and the rounding of the
  coefficients by the scale.
\<close>

subsection \<open>Decoding any stream\<close>

lemma no_panic_input_bit: "no_panic (\<lambda>(b, _). b = 0 \<or> b = 1) (input_bit st)"
  by (auto simp: input_bit_def Let_def and_one_eq)

lemma no_panic_input_nbits: "no_panic (\<lambda>(c, _). c < 8) (input_nbits st 3)"
proof -
  have m: "push_bit 3 1 - 1 = (mask 3 :: u32)" by (simp add: mask_eq_exp_minus_1 push_bit_eq_mult)
  have "unat (x AND mask 3) < 8" for x :: u32 by (simp add: unat_and_mask)
  then have "x AND (push_bit 3 1 - 1) < (8 :: u32)" for x unfolding m by (simp add: word_less_nat_alt)
  then show ?thesis by (auto simp: input_nbits_def Let_def)
qed

lemma huffman_6_total: "no_panic (\<lambda>_. True) (huffman_6 c st)"
  unfolding huffman_6_def by (rule no_panic_bind[OF no_panic_input_bit]) (auto simp: Let_def split: prod.splits)

lemma huffman_5_total: "c \<in> {13, 14, 15} \<Longrightarrow> no_panic (\<lambda>_. True) (huffman_5 c st)"
  unfolding huffman_5_def by (rule no_panic_bind[OF no_panic_input_bit]) (auto simp: Let_def huffman_6_total split: prod.splits)

lemma huffman_4_total: "c \<in> {4, 5, 6, 7} \<Longrightarrow> no_panic (\<lambda>_. True) (huffman_4 c st)"
  unfolding huffman_4_def by (rule no_panic_bind[OF no_panic_input_bit]) (auto simp: Let_def huffman_5_total split: prod.splits)

lemma small_code: "c < (8 :: u32) \<Longrightarrow> \<not> c < 4 \<Longrightarrow> c \<in> {4, 5, 6, 7}"
  by (auto simp: word_less_nat_alt word_unat_eq_iff)

lemma input_huffman_total: "no_panic (\<lambda>_. True) (input_huffman st)"
  unfolding input_huffman_def
proof (rule no_panic_bind[OF no_panic_input_nbits])
  fix x :: "u32 \<times> h_state" assume x: "case x of (c, _) \<Rightarrow> c < 8"
  obtain c st' where [simp]: "x = (c, st')" by (cases x)
  have "c < 8" using x by simp
  then show "no_panic (\<lambda>_. True) (case x of (c, st) \<Rightarrow> if c < 4 then Inr (push_bit (unat c) 1, st) else huffman_4 c st)"
    using huffman_4_total[OF small_code] by simp
qed

lemma input_nybble_total: "no_panic (\<lambda>_. True) (input_nybble st)"
  by (simp add: input_nybble_def Let_def)

lemma nybble_pairs_total: "no_panic (\<lambda>(vs, _). length vs = 2 * half) (nybble_pairs half s1 s2 st)"
proof (induction half arbitrary: st)
  case (Suc half)
  show ?case
  proof (cases "hs_pos st \<ge> length (hs_bytes st)")
    case False
    then show ?thesis unfolding nybble_pairs.simps(2) if_not_P[OF False] Let_def
      by (intro no_panic_bind[OF Suc]) auto
  qed simp
qed simp

lemma input_nnybble_total: "no_panic (\<lambda>(vs, _). length vs = n) (input_nnybble st n)"
proof (cases "n = 1")
  case True
  then show ?thesis unfolding input_nnybble_def if_P[OF True] by (intro no_panic_bind[OF input_nybble_total]) auto
next
  case False
  have o: "n div 2 * 2 \<noteq> n \<Longrightarrow> 2 * (n div 2) + 1 = n" by presburger
  show ?thesis unfolding input_nnybble_def if_not_P[OF False] Let_def
    by (rule no_panic_bind[OF nybble_pairs_total])
      (use o in \<open>auto intro!: no_panic_bind[OF input_nybble_total] split: if_splits\<close>)
qed

lemma read_codes_total: "no_panic (\<lambda>(a', _). length a' = length a) (read_codes n a st)"
proof (induction n arbitrary: a st)
  case (Suc n)
  show ?case
  proof (cases "a ! n = 0")
    case False
    have "no_panic (\<lambda>(a', _). length a' = length a) (read_codes n (a[n := v]) st)" for v st
      using Suc[of "a[n := v]" st] by simp
    then show ?thesis using False by (auto intro!: no_panic_bind[OF input_huffman_total])
  qed (use Suc in simp)
qed simp

lemma expand_loop_total: "no_panic (\<lambda>(s, _). length s = length scratch) (expand_loop k c sx sy scratch st)"
proof (induction k arbitrary: c sx sy scratch st)
  case (Suc k)
  show ?case unfolding expand_loop.simps(2) Let_def qtree_expand_def
  proof (rule no_panic_bind[OF read_codes_total])
    let ?c = "c div 2"
    fix x :: "bytes \<times> h_state" assume x: "case x of (a', _) \<Rightarrow> length a' = length (qtree_copy scratch (fst (grow ?c sx)) (fst (grow ?c sy)) (fst (grow ?c sy)))"
    obtain s st' where "x = (s, st')" by (cases x)
    with x show "no_panic (\<lambda>(s, _). length s = length scratch) (case x of (x, xa) \<Rightarrow> expand_loop k ?c (grow ?c sx) (grow ?c sy) x xa)"
      using Suc[of s ?c "grow ?c sx" "grow ?c sy" st'] by simp
  qed
qed simp

lemma length_qtree_bitins [simp]: "length (qtree_bitins codes nx ny b base n plane) = length b"
  by (simp add: qtree_bitins_def)

lemma decode_planes_total:
  "length scratch = (nqx + 1) div 2 * ((nqy + 1) div 2) \<Longrightarrow> 0 < nqx \<Longrightarrow> 0 < nqy \<Longrightarrow>
    no_panic (\<lambda>(a', _). length a' = length a) (decode_planes nb base n nqx nqy scratch a st)"
proof (induction nb arbitrary: scratch a st)
  case (Suc plane)
  have ne: "scratch \<noteq> []" using Suc.prems by auto
  have IH: "no_panic (\<lambda>(a', _). length a' = length a) (decode_planes plane base n nqx nqy s (qtree_bitins c nqx nqy a base n plane) st)"
    if "length s = length scratch" for s c st
    using Suc.IH[of s "qtree_bitins c nqx nqy a base n plane" st] Suc.prems that by simp
  show ?case unfolding decode_planes.simps(2)
  proof (rule no_panic_bind[OF input_nybble_total])
    fix x :: "u32 \<times> h_state" assume True
    obtain b st1 where x: "x = (b, st1)" by (cases x)
    have "no_panic (\<lambda>(a', _). length a' = length a) (res_bind (read_bdirect st1 a base n nqx nqy plane) (\<lambda>(s, a, st). decode_planes plane base n nqx nqy s a st))"
      unfolding read_bdirect_def res_bind_assoc
      by (rule no_panic_bind[OF input_nnybble_total]) (use IH Suc.prems(1) in auto)
    moreover have "no_panic (\<lambda>(a', _). length a' = length a) (res_bind (input_huffman st1) (\<lambda>(v, st).
       let log2n = log2n_of (max nqx nqy)
       in res_bind (expand_loop (log2n - 1) (2 ^ log2n) (1, nqx) (1, nqy) (scratch[0 := ucast v]) st) (\<lambda>(scratch, st).
          decode_planes plane base n nqx nqy scratch (qtree_bitins scratch nqx nqy a base n plane) st)))"
      unfolding Let_def
      by (rule no_panic_bind[OF input_huffman_total])
        (auto intro!: no_panic_bind[OF expand_loop_total] IH split: prod.splits)
    ultimately show "no_panic (\<lambda>(a', _). length a' = length a) (case x of (b, st) \<Rightarrow>
       if b = 0 then res_bind (read_bdirect st a base n nqx nqy plane) (\<lambda>(s, a, st). decode_planes plane base n nqx nqy s a st)
       else if b \<noteq> 0x0F then Inl BadFormatCode
       else res_bind (input_huffman st) (\<lambda>(v, st). if scratch = [] then Inl Panic
         else let log2n = log2n_of (max nqx nqy)
          in res_bind (expand_loop (log2n - 1) (2 ^ log2n) (1, nqx) (1, nqy) (scratch[0 := ucast v]) st) (\<lambda>(scratch, st).
             decode_planes plane base n nqx nqy scratch (qtree_bitins scratch nqx nqy a base n plane) st)))"
      using ne by (simp add: x)
  qed
qed simp

lemma decode_quadrant_total:
  "base \<le> length a \<Longrightarrow> 0 < nqx \<Longrightarrow> 0 < nqy \<Longrightarrow> no_panic (\<lambda>(a', _). length a' = length a) (decode_quadrant base n nqx nqy nb a st)"
  unfolding decode_quadrant_def qtree_decode_def by (simp add: decode_planes_total)

lemma read_signs_total: "no_panic (\<lambda>(a', _). length a' = length a) (read_signs a st)"
proof (induction a arbitrary: st)
  case (Cons v vs)
  have r: "no_panic (\<lambda>(a', _). length a' = length (v # vs)) (res_bind (read_signs vs st) (\<lambda>(ws, st). Inr (x # ws, st)))" for x st
    by (rule no_panic_bind[OF Cons]) auto
  show ?case using r by (auto intro!: no_panic_bind[OF no_panic_input_bit])
qed simp

lemma dodecode_total:
  assumes "2 \<le> nx" "2 \<le> ny" "len = nx * ny"
  shows "no_panic (\<lambda>(a, _). length a = len) (dodecode st len nx ny nbs)"
proof -
  let ?nx2 = "(nx + 1) div 2" and ?ny2 = "(ny + 1) div 2"
  obtain nb0 nb1 nb2 where nb: "nbs = (nb0, nb1, nb2)" by (metis prod.exhaust)
  have p: "0 < ?nx2" "0 < ?ny2" "0 < nx div 2" "0 < ny div 2" using assms by simp_all
  have "ny * ?nx2 + ny * (nx div 2) = ny * nx" unfolding add_mult_distrib2[symmetric] by (rule arg_cong[where f = "\<lambda>x. ny * x"]) presburger
  moreover have "ny * 1 \<le> ny * (nx div 2)" using p by (intro mult_le_mono2) simp
  moreover have "?ny2 \<le> ny * 1" using halve_le[of 1 ny] by simp
  moreover have "len = ny * nx" using assms(3) by simp
  ultimately have b: "?ny2 \<le> len" "ny * ?nx2 \<le> len" "ny * ?nx2 + ?ny2 \<le> len" by linarith+
  have q: "no_panic (\<lambda>(a', _). length a' = len) (decode_quadrant base ny nqx nqy nb a st)"
    if "length a = len" "base \<le> len" "0 < nqx" "0 < nqy" for base nqx nqy nb and a :: "'a word list" and st
    using decode_quadrant_total[of base a nqx nqy] that by simp
  define nx2 ny2 where "nx2 = ?nx2" and "ny2 = ?ny2"
  show ?thesis unfolding dodecode_def Let_def nb prod.case nx2_def[symmetric] ny2_def[symmetric]
    using b[folded nx2_def ny2_def] p[folded nx2_def ny2_def]
    by (auto intro!: no_panic_bind[OF q] no_panic_bind[OF input_nybble_total] read_signs_total[THEN no_panic_mono])
qed

lemma qread_total: "no_panic (\<lambda>(bs, st'). bs = take n (drop (hs_pos st) (hs_bytes st)) \<and> hs_bytes st' = hs_bytes st \<and> hs_pos st' = hs_pos st + n) (qread st n)"
  by (simp add: qread_def)

text \<open>The sides a stream declares.\<close>

definition declared_sides :: "bytes \<Rightarrow> i32 \<times> i32" where
  "declared_sides c = (from_be (take 4 (drop 2 c)), from_be (take 4 (drop 6 c)))"

lemma decode_coeffs_total:
  assumes sides: "declared_sides c = (mx, my)" "sint mx \<noteq> 1" "sint my \<noteq> 1"
  shows "no_panic (\<lambda>((_, a), _). length a = len) (decode_coeffs (hstate_new c) len)"
proof -
  have s0: "hs_bytes (hstate_new c) = c" "hs_pos (hstate_new c) = 0" by (simp_all add: hstate_new_def)
  have two: "2 \<le> unat v" if "\<not> sint v \<le> 0" "sint v \<noteq> 1" for v :: i32
  proof (rule ccontr)
    assume "\<not> 2 \<le> unat v"
    then have "v = 0 \<or> v = 1" by (auto simp: word_unat_eq_iff)
    then show False using that by auto
  qed
  show ?thesis
    unfolding decode_coeffs_def readint_def readlonglong_def res_bind_assoc
    apply (rule no_panic_bind[OF qread_total], clarsimp simp: s0)+
    apply (rule no_panic_bind[OF dodecode_total])
    using sides two by (auto simp: declared_sides_def numeral_2_eq_2)
qed

lemma length_foldl_same: "(\<And>a k. length (f a k) = length a) \<Longrightarrow> length (foldl f a ks) = length a"
  by (induction ks arbitrary: a) simp_all

lemma length_unshuffled [simp]: "length (unshuffled w nx ny a) = length a"
proof -
  have h: "length (hunshuffle n n2 a off) = length a" for n n2 off and a :: "'a list" by (simp add: hunshuffle_def Let_def)
  show ?thesis by (simp add: unshuffled_def length_foldl_same h)
qed

lemma length_hsmooth [simp]: "length (hsmooth a nxtop nytop ny scale) = length a"
  by (simp add: hsmooth_def Let_def length_foldl_same smooth_x_def smooth_y_def smooth_c_def)

lemma length_hinv_loop: "length (hinv_loop k ny smooth scale hc sx sy c a) = length a"
  by (induction k ny smooth scale hc sx sy c a rule: hinv_loop.induct) (simp_all add: Let_def hinv_pass_def)

lemma length_hinv [simp]: "length (hinv a nx ny smooth scale) = length a"
  by (simp add: hinv_def Let_def length_hinv_loop)

lemma length_concat_ne: "length (concat (map (\<lambda>v. to_ne big k (f v)) a)) = length a * k"
  by (induction a) (simp_all add: to_ne_def)

lemma length_undigitize [simp]: "length (undigitize a scale) = length a"
  by (simp add: undigitize_def)

lemma length_digitize [simp]: "length (digitize a scale) = length a"
  by (simp add: digitize_def Let_def)

lemma length_shuffled [simp]: "length (shuffled w nx ny a) = length a"
proof -
  have h: "length (hshuffle n n2 a off) = length a" for n n2 off and a :: "'a list" by (simp add: hshuffle_def Let_def)
  show ?thesis by (simp add: shuffled_def length_foldl_same h)
qed

lemma length_htrans [simp]: "length (htrans a nx ny) = length a"
proof -
  have "length (htrans_loop k ny c nxtop nytop a) = length a" for k c nxtop nytop and a :: "'a word list"
    by (induction k ny c nxtop nytop a rule: htrans_loop.induct) (simp_all add: htrans_pass_def)
  then show ?thesis by (simp add: htrans_def)
qed

lemma decode_pixels_total:
  assumes "declared_sides c = (mx, my)" "sint mx \<noteq> 1" "sint my \<noteq> 1"
  shows "no_panic (\<lambda>a. length a = nx * ny) (decode_pixels c nx ny smooth)"
  unfolding decode_pixels_def by (rule no_panic_bind[OF decode_coeffs_total[OF assms]]) auto

subsection \<open>Rounding\<close>

lemma sint_small:
  "\<bar>n\<bar> < 2 ^ (LENGTH('a) - 1) \<Longrightarrow> sint (word_of_int n :: 'a::len word) = n"
  by (simp only: sint_sbintrunc') (intro signed_take_bit_int_eq_self; simp add: abs_less_iff)

lemma sint_add_small:
  fixes x y :: "'a::len word"
  shows "\<bar>sint x + sint y\<bar> < 2 ^ (LENGTH('a) - 1) \<Longrightarrow> sint (x + y) = sint x + sint y"
    "\<bar>sint x - sint y\<bar> < 2 ^ (LENGTH('a) - 1) \<Longrightarrow> sint (x - y) = sint x - sint y"
    "\<bar>sint x * sint y\<bar> < 2 ^ (LENGTH('a) - 1) \<Longrightarrow> sint (x * y) = sint x * sint y"
  using sint_small[of "sint x + sint y", where ?'a = 'a] sint_small[of "sint x - sint y", where ?'a = 'a] sint_small[of "sint x * sint y", where ?'a = 'a]
  by simp_all

lemma sint_sdiv_word: "0 < n \<Longrightarrow> \<bar>sint a\<bar> < 2 ^ (LENGTH('a) - 1) \<Longrightarrow> sint (sdiv_word a n :: 'a::len word) = sgn (sint a) * (\<bar>sint a\<bar> div n)"
proof -
  assume n: "0 < n" and a: "\<bar>sint a\<bar> < 2 ^ (LENGTH('a) - 1)"
  have q: "0 \<le> \<bar>sint a\<bar> div n" "\<bar>sint a\<bar> div n \<le> \<bar>sint a\<bar>" using n zdiv_mono2[of "\<bar>sint a\<bar>" 1 n] by (simp_all add: pos_imp_zdiv_nonneg_iff)
  have "\<bar>sgn (sint a) * (\<bar>sint a\<bar> div n)\<bar> \<le> \<bar>sint a\<bar> div n" using q(1) by (simp add: abs_mult sgn_if)
  then show ?thesis unfolding sdiv_word_def using a q by (intro sint_small) linarith
qed

text \<open>Division with the offset the code adds rounds to the nearest multiple, halves towards zero.\<close>

lemma round_div:
  fixes v s :: int
  assumes "2 \<le> s" "0 \<le> v"
  defines "d \<equiv> (s + 1) div 2 - 1"
  shows "2 * \<bar>(v + d) div s * s - v\<bar> \<le> s" "0 \<le> (v + d) div s" "(v + d) div s * s \<le> v + d" "0 \<le> d" "2 * d \<le> s"
proof -
  have d: "2 * d \<le> s - 1" "s - 2 \<le> 2 * d" unfolding d_def by presburger+
  have m: "0 \<le> (v + d) mod s" "(v + d) mod s < s" "(v + d) div s * s = v + d - (v + d) mod s" using assms(1) by (simp_all add: minus_mod_eq_div_mult)
  show "2 * \<bar>(v + d) div s * s - v\<bar> \<le> s" unfolding abs_if using d m by auto
  show "0 \<le> d" using d assms(1) by linarith
  then show "0 \<le> (v + d) div s" using assms by (simp add: pos_imp_zdiv_nonneg_iff)
  show "(v + d) div s * s \<le> v + d" "2 * d \<le> s" using d m by linarith+
qed

lemma digitize_value:
  fixes v :: "'a::len word"
  assumes s: "1 < sint (scale :: i32)" and b: "\<bar>sint v\<bar> + sint scale + 1 < 2 ^ (LENGTH('a) - 1)" and l: "32 \<le> LENGTH('a)"
  defines "w \<equiv> (scast scale :: 'a word)"
  defines "d \<equiv> sdiv_word (w + 1) 2 - 1"
  defines "r \<equiv> sdiv_word (if 0 <s v then v + d else v - d) (sint w)"
  shows "2 * \<bar>sint (r * w) - sint v\<bar> \<le> sint scale"
proof -
  let ?s = "sint scale"
  have w: "sint w = ?s" unfolding w_def using l by (simp add: sint_scast_up)
  have one: "sint (1 :: 'a word) = 1" using l by (simp add: signed_1)
  have w1: "sint (w + 1) = ?s + 1" using sint_add_small(1)[of w 1] b s unfolding w one by simp
  have h: "sint (sdiv_word (w + 1) 2) = (?s + 1) div 2" using sint_sdiv_word[of 2 "w + 1"] b s unfolding w1 by simp
  have d: "sint d = (?s + 1) div 2 - 1" unfolding d_def using sint_add_small(2)[of "sdiv_word (w + 1) 2" 1] b s unfolding h one by simp
  note R = round_div[of ?s "\<bar>sint v\<bar>", folded d]
  have R: "2 * \<bar>(\<bar>sint v\<bar> + sint d) div ?s * ?s - \<bar>sint v\<bar>\<bar> \<le> ?s" "0 \<le> (\<bar>sint v\<bar> + sint d) div ?s"
    "(\<bar>sint v\<bar> + sint d) div ?s * ?s \<le> \<bar>sint v\<bar> + sint d" "0 \<le> sint d" "2 * sint d \<le> ?s"
    using R s by simp_all
  define q where "q = (\<bar>sint v\<bar> + sint d) div ?s"
  have bd: "\<bar>sint v\<bar> + sint d < 2 ^ (LENGTH('a) - 1)" using R(4,5) b s by linarith
  define n where "n = (if 0 <s v then v + d else v - d)"
  define sg :: int where "sg = (if 0 < sint v then 1 else - 1)"
  have n: "sint n = sg * (\<bar>sint v\<bar> + sint d)"
    using sint_add_small(1)[of v d] sint_add_small(2)[of v d] bd R(4) by (auto simp: n_def sg_def word_sless_alt abs_if)
  have na: "\<bar>sint n\<bar> = \<bar>sint v\<bar> + sint d" using R(4) unfolding n by (simp add: abs_mult sg_def)
  have sq: "sgn (sint n) * q = sg * q"
  proof (cases "\<bar>sint v\<bar> + sint d = 0")
    case True
    then show ?thesis by (simp add: q_def)
  next
    case False
    then have "0 < \<bar>sint v\<bar> + sint d" using R(4) by linarith
    then show ?thesis unfolding n by (simp add: sg_def sgn_mult)
  qed
  have r: "sint r = sg * q" unfolding r_def n_def[symmetric] w
    using sint_sdiv_word[of ?s n] bd s sq unfolding na q_def by simp
  have qs: "0 \<le> q * ?s" "q * ?s < 2 ^ (LENGTH('a) - 1)" using R(2,3) bd s unfolding q_def by auto
  have "sint (r * w) = sg * (q * ?s)"
    using sint_add_small(3)[of r w] qs unfolding r w by (simp add: sg_def abs_mult)
  moreover have "sint v = sg * \<bar>sint v\<bar>" by (simp add: sg_def)
  ultimately have "\<bar>sint (r * w) - sint v\<bar> = \<bar>q * ?s - \<bar>sint v\<bar>\<bar>" by (simp add: sg_def split: if_splits)
  then show ?thesis using R(1) by (simp add: q_def)
qed

subsection \<open>Tiles of one row\<close>

lemma encode_one_row:
  assumes "length a = ny" "0 < ny"
  shows "encode_pixels a 1 ny scale = Inl Panic"
proof -
  let ?b = "digitize (htrans a 1 ny) scale"
  have l: "length ?b = ny" using assms by simp
  then have b: "length ?b = ny" "?b \<noteq> []" using assms(2) by (simp, metis less_irrefl list.size(3))
  have "doencode w t 1 ny nbs = Inl Panic" if "length t = ny" for w nbs and t :: "'a word list"
  proof -
    obtain nb0 nb1 nb2 where nb: "nbs = (nb0, nb1, nb2)" by (metis prod.exhaust)
    have "(ny + 1) div 2 \<le> ny" "ny < ny + (ny + 1) div 2" using assms(2) by linarith+
    then show ?thesis using that by (simp add: doencode_def encode_quadrant_def nb Let_def)
  qed
  then show ?thesis using b by (simp add: encode_pixels_def encode_coeffs_def Let_def)
qed

text \<open>A stream for a tile of 16 pixels that declares one row.\<close>

definition one_row_stream :: bytes where
  "one_row_stream = [0xDD, 0x99, 0, 0, 0, 1, 0, 0, 0, 16, 0, 0, 0, 0, 0, 0, 0, 0, 0, 0, 0, 0, 0, 0, 0]"

lemma one_row_head: "one_row_stream = stream_head 1 16 0 0 0 0 0 @ []"
  by code_simp

subsection \<open>Properties\<close>

text \<open>
  C10: H-compress is lossless for a scale of 0 or 1: for 8-bit tiles with sides from 2 to 2 ^ 19, 16-bit tiles
  with sides from 2 to 4096 and 32-bit tiles with sides from 2 to 2 ^ 28, decoding what \<open>encode_hcompress\<close> writes gives the pixels in host order,
  with smoothing asked for or not.
\<close>

theorem hcompress_roundtrip:
  assumes "bytepix \<in> {1, 2, 4}" and "length pix = nx * ny * bytepix" and "2 \<le> nx" and "2 \<le> ny" and "sint scale \<in> {0, 1}"
    and "max nx ny \<le> (if bytepix = 1 then 2 ^ 19 else if bytepix = 2 then 2 ^ 12 else 2 ^ 28)"
  shows "res_bind (encode_hcompress pix nx ny bytepix (int (8 * bytepix)) scale)
      (\<lambda>c. decode_hcompress big c nx ny bytepix (int (8 * bytepix)) smooth) = Inr (to_native big bytepix pix)"
  using assms by (intro hcompress.lossless) (simp add: hcompress_tile_ok_def)

theorem hcompress_roundtrip_witness:
  "res_bind (encode_hcompress [0, 1, 255, 254, 127, 255, 128, 0, 0, 9, 0, 8] 2 3 2 (int (8 * 2)) 0)
      (\<lambda>c. decode_hcompress False c 2 3 2 (int (8 * 2)) True) = Inr [1, 0, 254, 255, 255, 127, 0, 128, 9, 0, 8, 0]"
proof -
  have n: "to_native False 2 [0, 1, 255, 254, 127, 255, 128, 0, 0, 9, 0, 8 :: u8] = [1, 0, 254, 255, 255, 127, 0, 128, 9, 0, 8, 0]"
    by (simp add: to_native_eq rev_chunks.simps[of 2])
  show ?thesis unfolding n[symmetric] by (rule hcompress_roundtrip) simp_all
qed





text \<open>
  C21: the lossy part of H-compress is bounded: for a scale above 1 every coefficient comes back from \<open>digitize\<close> and
  \<open>undigitize\<close> within half of the scale of what it was, as long as adding the scale to it does not overflow.
\<close>

theorem digitize_within_half:
  fixes a :: "'a::len word list"
  assumes "1 < sint scale" and "32 \<le> LENGTH('a)" and "\<forall>v \<in> set a. \<bar>sint v\<bar> + sint scale + 1 < 2 ^ (LENGTH('a) - 1)"
  shows "length (undigitize (digitize a scale) scale) = length a \<and>
    (\<forall>i < length a. 2 * \<bar>sint (undigitize (digitize a scale) scale ! i) - sint (a ! i)\<bar> \<le> sint scale)"
proof (intro conjI allI impI)
  fix i assume i: "i < length a"
  have ns: "\<not> scale <=s 1" using assms(1) by (simp add: word_sle_eq)
  show "2 * \<bar>sint (undigitize (digitize a scale) scale ! i) - sint (a ! i)\<bar> \<le> sint scale"
    using digitize_value[OF assms(1) _ assms(2), of "a ! i"] assms(3) i ns by (simp add: undigitize_def digitize_def Let_def)
qed simp

theorem digitize_within_half_witness:
  "let a = [100 :: i32, - 37, 5]; b = undigitize (digitize a 10) 10
   in length b = 3 \<and> 2 * \<bar>sint (b ! 0) - 100\<bar> \<le> 10 \<and> 2 * \<bar>sint (b ! 1) + 37\<bar> \<le> 10 \<and> 2 * \<bar>sint (b ! 2) - 5\<bar> \<le> 10"
proof -
  have "length (undigitize (digitize [100 :: i32, - 37, 5] 10) 10) = length [100 :: i32, - 37, 5] \<and>
    (\<forall>i < length [100 :: i32, - 37, 5]. 2 * \<bar>sint (undigitize (digitize [100 :: i32, - 37, 5] 10) 10 ! i) - sint ([100 :: i32, - 37, 5] ! i)\<bar> \<le> sint (10 :: i32))"
    by (rule digitize_within_half) simp_all
  note w = this
  show ?thesis
    using w[THEN conjunct1] w[THEN conjunct2, rule_format, of 0] w[THEN conjunct2, rule_format, of 1] w[THEN conjunct2, rule_format, of 2]
    by (simp add: Let_def)
qed

end
