(* ===== verification/NdIndex.thy ===== *)
theory NdIndex
  imports Prelude
begin

text \<open>
  Row-major multi-dimensional indexing, as the image code does it on numpy-order shapes (slowest
  axis first): strides, the flat index of a coordinate, the coordinate of a flat index by repeated
  division from the last axis, and the odometer that steps a coordinate through a box. Sizes and
  indices are natural numbers; a hypothesis that a coordinate is inside its box is what keeps the
  code's \<open>u64\<close> arithmetic from wrapping.
\<close>

type_synonym shape = "nat list"
type_synonym coord = "nat list"

definition in_box :: "coord \<Rightarrow> shape \<Rightarrow> bool" where
  "in_box c shape \<longleftrightarrow> list_all2 (<) c shape"

fun ravel :: "shape \<Rightarrow> coord \<Rightarrow> nat" where
  "ravel (n # ns) (c # cs) = c * prod_list ns + ravel ns cs"
| "ravel _ _ = 0"

fun unravel :: "shape \<Rightarrow> nat \<Rightarrow> coord" where
  "unravel [] i = []"
| "unravel (n # ns) i = (i div prod_list ns) # unravel ns (i mod prod_list ns)"

text \<open>\<open>for axis in (0..d).rev() { coord[axis] = idx % n[axis]; idx /= n[axis] }\<close>, on the reversed list of axes.\<close>

fun unfold_rev :: "shape \<Rightarrow> nat \<Rightarrow> coord" where
  "unfold_rev [] idx = []"
| "unfold_rev (n # ns) idx = idx mod n # unfold_rev ns (idx div n)"

definition unfold_index :: "shape \<Rightarrow> nat \<Rightarrow> coord" where
  "unfold_index ns idx = rev (unfold_rev (rev ns) idx)"

text \<open>\<open>tile_idx = tile_idx * n + coord\<close> over the axes in order.\<close>

definition fold_index :: "shape \<Rightarrow> coord \<Rightarrow> nat" where
  "fold_index ns cs = foldl (\<lambda>a (n, c). a * n + c) 0 (zip ns cs)"

text \<open>Strides: \<open>stride[i] = unit * product of shape[i+1..]\<close>, filled from the last axis.\<close>

fun strides_rev :: "nat \<Rightarrow> shape \<Rightarrow> nat list" where
  "strides_rev s [] = []"
| "strides_rev s (n # ns) = s # strides_rev (s * n) ns"

definition strides :: "nat \<Rightarrow> shape \<Rightarrow> nat list" where
  "strides unit shape = rev (strides_rev unit (rev shape))"

definition dot :: "nat list \<Rightarrow> nat list \<Rightarrow> nat" where
  "dot xs ys = sum_list (map2 (*) xs ys)"

text \<open>The odometer: the last axis is stepped first; an axis that reaches its size is reset and carries.\<close>

fun step_rev :: "shape \<Rightarrow> coord \<Rightarrow> coord" where
  "step_rev (n # ns) (c # cs) = (if c + 1 < n then (c + 1) # cs else 0 # step_rev ns cs)"
| "step_rev _ cs = cs"

definition step_coord :: "shape \<Rightarrow> coord \<Rightarrow> coord" where
  "step_coord shape c = rev (step_rev (rev shape) (rev c))"

text \<open>The coordinates a loop of \<open>k\<close> rounds visits.\<close>

fun odometer :: "nat \<Rightarrow> shape \<Rightarrow> coord \<Rightarrow> coord list" where
  "odometer 0 shape c = []"
| "odometer (Suc k) shape c = c # odometer k shape (step_coord shape c)"

subsection \<open>Boxes\<close>

lemma in_box_Nil [simp]: "in_box [] s \<longleftrightarrow> s = []" "in_box c [] \<longleftrightarrow> c = []"
  by (simp_all add: in_box_def)

lemma in_box_Cons [simp]: "in_box (c # cs) (n # ns) \<longleftrightarrow> c < n \<and> in_box cs ns"
  by (simp add: in_box_def)

lemma in_box_length: "in_box c s \<Longrightarrow> length c = length s"
  by (simp add: in_box_def list_all2_lengthD)

lemma in_box_nth: "in_box c s \<longleftrightarrow> length c = length s \<and> (\<forall>i < length s. c ! i < s ! i)"
  by (auto simp: in_box_def list_all2_conv_all_nth)

lemma in_box_append: "length c1 = length s1 \<Longrightarrow> in_box (c1 @ c2) (s1 @ s2) \<longleftrightarrow> in_box c1 s1 \<and> in_box c2 s2"
  by (simp add: in_box_def list_all2_append)

lemma in_box_prod_pos: "in_box c s \<Longrightarrow> 0 < prod_list s"
  by (induction s arbitrary: c) (auto simp: in_box_def list_all2_Cons2)

subsection \<open>Flat index and coordinate\<close>

lemma ravel_less: "in_box c s \<Longrightarrow> ravel s c < prod_list s"
proof (induction s arbitrary: c)
  case (Cons n ns)
  then obtain k cs where c: "c = k # cs" "k < n" "in_box cs ns" by (auto simp: in_box_def list_all2_Cons2)
  have "k * prod_list ns + ravel ns cs < (k + 1) * prod_list ns" using Cons.IH[OF c(3)] by simp
  also have "\<dots> \<le> n * prod_list ns" using c(2) by (intro mult_right_mono) auto
  finally show ?case by (simp add: c(1))
qed simp

lemma unravel_ravel: "in_box c s \<Longrightarrow> unravel s (ravel s c) = c"
proof (induction s arbitrary: c)
  case (Cons n ns)
  then obtain k cs where c: "c = k # cs" "k < n" "in_box cs ns" by (auto simp: in_box_def list_all2_Cons2)
  have l: "ravel ns cs < prod_list ns" by (rule ravel_less[OF c(3)])
  then show ?case using Cons.IH[OF c(3)] c(1) by simp
qed simp

lemma unravel_length [simp]: "length (unravel s i) = length s"
  by (induction s arbitrary: i) auto

lemma unravel_in_box: "i < prod_list s \<Longrightarrow> in_box (unravel s i) s"
proof (induction s arbitrary: i)
  case (Cons n ns)
  then have p: "0 < prod_list ns" by (cases "prod_list ns = 0") auto
  have "i div prod_list ns < n" using Cons.prems by (simp add: less_mult_imp_div_less)
  moreover have "in_box (unravel ns (i mod prod_list ns)) ns" using p by (intro Cons.IH) simp
  ultimately show ?case by simp
qed simp

lemma ravel_unravel: "i < prod_list s \<Longrightarrow> ravel s (unravel s i) = i"
proof (induction s arbitrary: i)
  case (Cons n ns)
  then have p: "0 < prod_list ns" by (cases "prod_list ns = 0") auto
  then show ?case using Cons.IH[of "i mod prod_list ns"] by simp
qed simp

lemma ravel_inject: "in_box c s \<Longrightarrow> in_box c' s \<Longrightarrow> ravel s c = ravel s c' \<Longrightarrow> c = c'"
  by (metis unravel_ravel)

lemma ravel_snoc: "length c = length s \<Longrightarrow> ravel (s @ [n]) (c @ [k]) = ravel s c * n + k"
  by (induction s c rule: list_induct2') (auto simp: algebra_simps)

lemma ravel_append: "length c1 = length s1 \<Longrightarrow> ravel (s1 @ s2) (c1 @ c2) = ravel s1 c1 * prod_list s2 + ravel s2 c2"
  by (induction s1 c1 rule: list_induct2') (auto simp: algebra_simps)

lemma unravel_snoc: "i < prod_list s * n \<Longrightarrow> unravel (s @ [n]) i = unravel s (i div n) @ [i mod n]"
proof -
  assume i: "i < prod_list s * n"
  then have n: "0 < n" by (cases n) auto
  have d: "i div n < prod_list s" using i by (simp add: less_mult_imp_div_less)
  have b: "in_box (unravel s (i div n) @ [i mod n]) (s @ [n])"
    using unravel_in_box[OF d] n by (simp add: in_box_append)
  have "ravel (s @ [n]) (unravel s (i div n) @ [i mod n]) = i"
    using ravel_unravel[OF d] by (simp add: ravel_snoc)
  then show ?thesis using unravel_ravel[OF b] by simp
qed

lemma unfold_unravel: "i < prod_list s \<Longrightarrow> unfold_index s i = unravel s i"
proof (induction s arbitrary: i rule: rev_induct)
  case (snoc n s)
  then have "i div n < prod_list s" by (simp add: less_mult_imp_div_less)
  then show ?case using snoc by (simp add: unfold_index_def unravel_snoc)
qed (simp add: unfold_index_def)

lemma fold_ravel: "length c = length s \<Longrightarrow> fold_index s c = ravel s c"
proof (induction s arbitrary: c rule: rev_induct)
  case (snoc n s)
  then obtain cs k where "c = cs @ [k]" "length cs = length s" by (cases c rule: rev_cases) auto
  then show ?case using snoc.IH[of cs] by (simp add: fold_index_def ravel_snoc)
qed (simp add: fold_index_def)

lemma strides_rev_unit: "strides_rev (u * v) s = map ((*) u) (strides_rev v s)"
  by (induction s arbitrary: v) (simp_all add: mult.assoc)

lemma strides_snoc: "strides u (s @ [n]) = map ((*) n) (strides u s) @ [u]"
  unfolding strides_def using strides_rev_unit[of n u "rev s"] by (simp add: mult.commute rev_map)

lemma strides_length [simp]: "length (strides u s) = length s"
  by (induction s rule: rev_induct) (auto simp: strides_snoc, simp add: strides_def)

lemma dot_snoc: "length xs = length ys \<Longrightarrow> dot (xs @ [x]) (ys @ [y]) = dot xs ys + x * y"
  by (simp add: dot_def)

lemma dot_scale: "length xs = length ys \<Longrightarrow> dot xs (map ((*) n) ys) = n * dot xs ys"
  by (induction xs ys rule: list_induct2) (auto simp: dot_def algebra_simps)

lemma dot_add: "length xs = length ys \<Longrightarrow> length ys = length zs \<Longrightarrow> dot (map2 (+) xs ys) zs = dot xs zs + dot ys zs"
  by (induction xs ys zs rule: list_induct3) (auto simp: dot_def algebra_simps)

lemma dot_strides: "length c = length s \<Longrightarrow> dot c (strides u s) = u * ravel s c"
proof (induction s arbitrary: c rule: rev_induct)
  case (snoc n s)
  then obtain cs k where "c = cs @ [k]" "length cs = length s" by (cases c rule: rev_cases) auto
  then show ?case using snoc.IH[of cs] by (simp add: strides_snoc dot_snoc dot_scale ravel_snoc algebra_simps)
qed (simp add: dot_def)

lemma strides_append: "strides u (s1 @ s2) = strides (u * prod_list s2) s1 @ strides u s2"
proof (induction s2 arbitrary: u rule: rev_induct)
  case (snoc n s2)
  have "strides u ((s1 @ s2) @ [n]) = map ((*) n) (strides u (s1 @ s2)) @ [u]" by (rule strides_snoc)
  also have "\<dots> = map ((*) n) (strides (u * prod_list s2) s1) @ strides u (s2 @ [n])"
    using snoc.IH[of u] by (simp add: strides_snoc)
  also have "map ((*) n) (strides (u * prod_list s2) s1) = strides (u * prod_list (s2 @ [n])) s1"
    using strides_rev_unit[of n "u * prod_list s2" "rev s1"] by (simp add: strides_def rev_map ac_simps)
  finally show ?case by simp
qed (simp add: strides_def)

subsection \<open>The odometer visits every coordinate in order\<close>

lemma step_coord_unravel: "Suc i < prod_list s \<Longrightarrow> step_coord s (unravel s i) = unravel s (Suc i)"
proof (induction s arbitrary: i rule: rev_induct)
  case (snoc n s)
  then have i: "i < prod_list s * n" and si: "Suc i < prod_list s * n" by simp_all
  then have n: "0 < n" by (cases n) auto
  have u: "unravel (s @ [n]) i = unravel s (i div n) @ [i mod n]"
    "unravel (s @ [n]) (Suc i) = unravel s (Suc i div n) @ [Suc i mod n]"
    using unravel_snoc[OF i] unravel_snoc[OF si] by simp_all
  show ?case
  proof (cases "Suc (i mod n) < n")
    case True
    then have "Suc i mod n = Suc (i mod n)" "Suc i div n = i div n"
      by (simp_all add: mod_Suc div_Suc)
    then show ?thesis unfolding u using True by (simp add: step_coord_def)
  next
    case False
    then have e: "Suc (i mod n) = n" using n by (metis Suc_lessI mod_less_divisor)
    then have m: "Suc i mod n = 0" "Suc i div n = Suc (i div n)" by (simp_all add: mod_Suc div_Suc)
    have "Suc (i div n) < prod_list s" using si m(2) by (metis less_mult_imp_div_less)
    then have "step_coord s (unravel s (i div n)) = unravel s (Suc (i div n))" by (rule snoc.IH)
    then show ?thesis unfolding u m using False by (simp add: step_coord_def)
  qed
qed simp

lemma odometer_from: "i + k \<le> prod_list s \<Longrightarrow> odometer k s (unravel s i) = map (unravel s) [i..<i + k]"
proof (induction k arbitrary: i)
  case (Suc k)
  show ?case
  proof (cases k)
    case 0 then show ?thesis by simp
  next
    case (Suc k')
    then have "step_coord s (unravel s i) = unravel s (Suc i)" using Suc.prems by (intro step_coord_unravel) simp
    then show ?thesis using Suc.IH[of "Suc i"] Suc.prems by (simp add: upt_conv_Cons del: upt_Suc)
  qed
qed simp

lemma unravel_zero: "unravel s 0 = replicate (length s) 0"
  by (induction s) auto

lemma odometer_all: "odometer (prod_list s) s (replicate (length s) 0) = map (unravel s) [0..<prod_list s]"
  using odometer_from[of 0 "prod_list s" s] by (simp add: unravel_zero)

end
