(* ===== verification/FileStore.thy ===== *)
theory FileStore
  imports HeaderCards
begin

text \<open>
  The byte store behind a FITS file and the operations that move bytes in it (\<open>src/common.rs\<close>,
  \<open>rewrite_header_to_disk\<close> of \<open>src/header.rs\<close>). A file is its bytes, a cursor, the taint flag and the offset
  records of its HDUs in order. Every storage call can fail: the argument \<open>flt\<close> says for the
  \<open>k\<close>-th call of a session whether it does and, for a write, how many bytes were written before
  it did. File and layout locks are not modelled: each operation here holds them throughout.
\<close>

datatype io_error = IoFault | UnexpectedEof | DeltaExceedsOffset | ValueError string | IndexError int nat

record hdu_offsets =
  header_offset :: nat
  header_block_count :: nat
  data_offset :: nat

record file_state =
  fs_bytes :: bytes
  fs_pos :: nat
  fs_ops :: nat
  fs_tainted :: bool
  fs_layout :: "hdu_offsets list"

type_synonym faults = "nat \<Rightarrow> nat option"
type_synonym 'a io = "file_state \<Rightarrow> (io_error + 'a) \<times> file_state"

definition io_return :: "'a \<Rightarrow> 'a io" where
  "io_return x s = (Inr x, s)"

definition io_bind :: "'a io \<Rightarrow> ('a \<Rightarrow> 'b io) \<Rightarrow> 'b io" where
  "io_bind m f s = (case m s of (Inl e, s') \<Rightarrow> (Inl e, s') | (Inr x, s') \<Rightarrow> f x s')"

text \<open>\<open>map_err(|e| { tainted.store(true); ... })\<close>.\<close>

definition taint_err :: "'a io \<Rightarrow> 'a io" where
  "taint_err m s = (case m s of (Inl e, s') \<Rightarrow> (Inl e, s'\<lparr>fs_tainted := True\<rparr>) | r \<Rightarrow> r)"

subsection \<open>Storage\<close>

text \<open>
  Writing at a position past the end fills the gap with zeros (a sparse file, or the cursor over a
  vector); resizing cuts or fills with zeros and leaves the cursor alone.
\<close>

definition write_at :: "bytes \<Rightarrow> nat \<Rightarrow> bytes \<Rightarrow> bytes" where
  "write_at bs pos w =
     (if w = [] then bs else take pos (bs @ replicate (pos - length bs) 0) @ w @ drop (pos + length w) bs)"

definition resize :: "bytes \<Rightarrow> nat \<Rightarrow> bytes" where
  "resize bs n = take n bs @ replicate (n - length bs) 0"

definition st_fail :: "file_state \<Rightarrow> (io_error + 'a) \<times> file_state" where
  "st_fail s = (Inl IoFault, s\<lparr>fs_ops := Suc (fs_ops s)\<rparr>)"

definition st_seek :: "faults \<Rightarrow> nat \<Rightarrow> unit io" where
  "st_seek flt p s =
     (case flt (fs_ops s) of Some _ \<Rightarrow> st_fail s | None \<Rightarrow> (Inr (), s\<lparr>fs_pos := p, fs_ops := Suc (fs_ops s)\<rparr>))"

definition st_read_exact :: "faults \<Rightarrow> nat \<Rightarrow> bytes io" where
  "st_read_exact flt n s =
     (case flt (fs_ops s) of Some _ \<Rightarrow> st_fail s
      | None \<Rightarrow> if fs_pos s + n \<le> length (fs_bytes s)
          then (Inr (take n (drop (fs_pos s) (fs_bytes s))), s\<lparr>fs_pos := fs_pos s + n, fs_ops := Suc (fs_ops s)\<rparr>)
          else (Inl UnexpectedEof, s\<lparr>fs_ops := Suc (fs_ops s)\<rparr>))"

definition st_write_all :: "faults \<Rightarrow> bytes \<Rightarrow> unit io" where
  "st_write_all flt w s =
     (case flt (fs_ops s) of
        Some k \<Rightarrow> (Inl IoFault, s\<lparr>fs_bytes := write_at (fs_bytes s) (fs_pos s) (take k w), fs_ops := Suc (fs_ops s)\<rparr>)
      | None \<Rightarrow> (Inr (), s\<lparr>fs_bytes := write_at (fs_bytes s) (fs_pos s) w, fs_pos := fs_pos s + length w,
                          fs_ops := Suc (fs_ops s)\<rparr>))"

definition st_set_len :: "faults \<Rightarrow> nat \<Rightarrow> unit io" where
  "st_set_len flt n s =
     (case flt (fs_ops s) of Some _ \<Rightarrow> st_fail s
      | None \<Rightarrow> (Inr (), s\<lparr>fs_bytes := resize (fs_bytes s) n, fs_pos := fs_pos s, fs_ops := Suc (fs_ops s)\<rparr>))"

definition st_len :: "faults \<Rightarrow> nat io" where
  "st_len flt s =
     (case flt (fs_ops s) of Some _ \<Rightarrow> st_fail s | None \<Rightarrow> (Inr (length (fs_bytes s)), s\<lparr>fs_ops := Suc (fs_ops s)\<rparr>))"

definition st_flush :: "faults \<Rightarrow> unit io" where
  "st_flush flt s =
     (case flt (fs_ops s) of Some _ \<Rightarrow> st_fail s | None \<Rightarrow> (Inr (), s\<lparr>fs_ops := Suc (fs_ops s)\<rparr>))"

subsection \<open>Moving the tail of the file\<close>

definition MOVE_CHUNK :: nat where "MOVE_CHUNK = 1048576"

definition move_chunk :: "faults \<Rightarrow> nat \<Rightarrow> nat \<Rightarrow> nat \<Rightarrow> unit io" where
  "move_chunk flt src dst n =
     io_bind (taint_err (st_seek flt src)) (\<lambda>_.
     io_bind (taint_err (st_read_exact flt n)) (\<lambda>chunk.
     io_bind (taint_err (st_seek flt dst)) (\<lambda>_.
     taint_err (st_write_all flt chunk))))"

function shift_loop :: "faults \<Rightarrow> nat \<Rightarrow> nat \<Rightarrow> nat \<Rightarrow> unit io" where
  "shift_loop flt after_offset delta remaining =
     (if remaining = 0 then io_return ()
      else
        (let n = min remaining MOVE_CHUNK;
             src = after_offset + remaining - n;
             dst = src + delta
         in io_bind (move_chunk flt src dst n) (\<lambda>_. shift_loop flt after_offset delta (remaining - n))))"
  by auto
termination by (relation "measure (\<lambda>(_, _, _, r). r)") (auto simp: MOVE_CHUNK_def)

declare shift_loop.simps [simp del]

definition bump_offsets :: "nat \<Rightarrow> nat \<Rightarrow> hdu_offsets list \<Rightarrow> hdu_offsets list" where
  "bump_offsets after_offset delta hdus =
     map (\<lambda>h. if header_offset h \<ge> after_offset
              then h\<lparr>header_offset := header_offset h + delta, data_offset := data_offset h + delta\<rparr> else h) hdus"

definition shift_file_tail_and_update_offsets :: "faults \<Rightarrow> nat \<Rightarrow> nat \<Rightarrow> unit io" where
  "shift_file_tail_and_update_offsets flt after_offset delta =
     (if delta = 0 then io_return ()
      else
        io_bind (st_len flt) (\<lambda>original_len.
        let tail_len = original_len - after_offset;
            new_len = max (original_len + delta) (after_offset + delta)
        in io_bind (st_set_len flt new_len) (\<lambda>_.
           io_bind (if tail_len > 0 then io_bind (shift_loop flt after_offset delta tail_len) (\<lambda>_. taint_err (st_flush flt))
                    else io_return ()) (\<lambda>_ s.
           (Inr (), s\<lparr>fs_layout := bump_offsets after_offset delta (fs_layout s)\<rparr>)))))"

function shift_back_loop :: "faults \<Rightarrow> nat \<Rightarrow> nat \<Rightarrow> nat \<Rightarrow> nat \<Rightarrow> unit io" where
  "shift_back_loop flt old_after_offset delta tail_len moved =
     (if moved < tail_len then
        (let n = min (tail_len - moved) MOVE_CHUNK;
             src = old_after_offset + moved;
             dst = src - delta
         in io_bind (move_chunk flt src dst n) (\<lambda>_. shift_back_loop flt old_after_offset delta tail_len (moved + n)))
      else io_return ())"
  by auto
termination by (relation "measure (\<lambda>(_, _, _, t, m). t - m)") (auto simp: MOVE_CHUNK_def)

declare shift_back_loop.simps [simp del]

definition drop_offsets :: "nat \<Rightarrow> nat \<Rightarrow> hdu_offsets list \<Rightarrow> hdu_offsets list" where
  "drop_offsets old_after_offset delta hdus =
     map (\<lambda>h. if header_offset h \<ge> old_after_offset
              then h\<lparr>header_offset := header_offset h - delta, data_offset := data_offset h - delta\<rparr> else h) hdus"

definition shift_file_tail_backward_and_update_offsets :: "faults \<Rightarrow> nat \<Rightarrow> nat \<Rightarrow> unit io" where
  "shift_file_tail_backward_and_update_offsets flt old_after_offset delta =
     (if delta = 0 then io_return ()
      else if delta > old_after_offset then (\<lambda>s. (Inl DeltaExceedsOffset, s))
      else
        io_bind (st_len flt) (\<lambda>original_len.
        let tail_len = original_len - old_after_offset
        in io_bind (if tail_len > 0 then io_bind (shift_back_loop flt old_after_offset delta tail_len 0) (\<lambda>_. taint_err (st_flush flt))
                    else io_return ()) (\<lambda>_.
           io_bind (taint_err (st_set_len flt (original_len - delta))) (\<lambda>_ s.
           (Inr (), s\<lparr>fs_layout := drop_offsets old_after_offset delta (fs_layout s)\<rparr>)))))"

subsection \<open>Filling, growing and copying\<close>

function zero_loop :: "faults \<Rightarrow> nat \<Rightarrow> unit io" where
  "zero_loop flt remaining =
     (if remaining = 0 then io_return ()
      else
        (let n = min remaining MOVE_CHUNK
         in io_bind (taint_err (st_write_all flt (replicate n 0))) (\<lambda>_. zero_loop flt (remaining - n))))"
  by auto
termination by (relation "measure (\<lambda>(_, r). r)") (auto simp: MOVE_CHUNK_def)

declare zero_loop.simps [simp del]

definition zero_fill_range :: "faults \<Rightarrow> nat \<Rightarrow> nat \<Rightarrow> unit io" where
  "zero_fill_range flt start len =
     (if len = 0 then io_return ()
      else
        io_bind (taint_err (st_seek flt start)) (\<lambda>_.
        io_bind (zero_loop flt len) (\<lambda>_. taint_err (st_flush flt))))"

text \<open>The smallest header offset past \<open>data_offset\<close>, if there is one.\<close>

definition next_hdu_start :: "nat \<Rightarrow> hdu_offsets list \<Rightarrow> nat option" where
  "next_hdu_start data_off hdus =
     (let later = filter (\<lambda>off. off > data_off) (map header_offset hdus)
      in if later = [] then None else Some (foldl min (hd later) (tl later)))"

definition grow_file_to_at_least :: "faults \<Rightarrow> nat \<Rightarrow> nat \<Rightarrow> unit io" where
  "grow_file_to_at_least flt data_off min_bytes s =
     (let want_end = data_off + round_up_to_block min_bytes;
          next = next_hdu_start data_off (fs_layout s)
      in io_bind (st_len flt) (\<lambda>file_len.
           let effective_end = (case next of Some n \<Rightarrow> n | None \<Rightarrow> file_len)
           in if want_end \<le> effective_end then io_return ()
              else
                (let delta = want_end - effective_end
                 in case next of
                      None \<Rightarrow> taint_err (st_set_len flt want_end)
                    | Some _ \<Rightarrow> shift_file_tail_and_update_offsets flt effective_end delta)) s)"

text \<open>
  The chunk size is an argument of the copy; with a chunk size of 0 the code would not make
  progress, which the model turns into an error.
\<close>

function copy_loop :: "faults \<Rightarrow> nat \<Rightarrow> nat \<Rightarrow> nat \<Rightarrow> nat \<Rightarrow> nat \<Rightarrow> unit io" where
  "copy_loop flt src_off dst_off len chunk processed =
     (if processed < len then
        (if chunk = 0 then (\<lambda>s. (Inl IoFault, s))
         else
           (let n = min (len - processed) chunk
            in io_bind (st_seek flt (src_off + processed)) (\<lambda>_.
               io_bind (taint_err (st_read_exact flt n)) (\<lambda>buf.
               io_bind (st_seek flt (dst_off + processed)) (\<lambda>_.
               io_bind (taint_err (st_write_all flt buf)) (\<lambda>_.
               copy_loop flt src_off dst_off len chunk (processed + n)))))))
      else io_return ())"
  by auto
termination by (relation "measure (\<lambda>(_, _, _, l, _, p). l - p)") auto

declare copy_loop.simps [simp del]

definition stream_copy_in_file :: "faults \<Rightarrow> nat \<Rightarrow> nat \<Rightarrow> nat \<Rightarrow> nat \<Rightarrow> unit io" where
  "stream_copy_in_file flt src_off dst_off len chunk = copy_loop flt src_off dst_off len chunk 0"

subsection \<open>Rewriting a header\<close>

text \<open>\<open>i\<close> is the position of the HDU in the layout.\<close>

definition header_block_bytes :: "string list \<Rightarrow> nat \<Rightarrow> bytes" where
  "header_block_bytes cards target =
     (let out = concat (map card_bytes cards) in out @ replicate (target - length out) 32)"

definition rewrite_header_to_disk :: "faults \<Rightarrow> nat \<Rightarrow> string list \<Rightarrow> unit io" where
  "rewrite_header_to_disk flt i cards s =
     (let h = fs_layout s ! i;
          max_cards = header_block_count h * CARDS_PER_BLOCK;
          needed_blocks = div_ceil (length cards) CARDS_PER_BLOCK;
          delta_blocks = needed_blocks - header_block_count h;
          delta_bytes = delta_blocks * BLOCK_SIZE
      in io_bind (if length cards > max_cards
                  then io_bind (shift_file_tail_and_update_offsets flt (data_offset h) delta_bytes) (\<lambda>_ s.
                         (Inr needed_blocks,
                          s\<lparr>fs_layout := (fs_layout s)[i := (fs_layout s ! i)
                              \<lparr>header_block_count := header_block_count (fs_layout s ! i) + delta_blocks,
                               data_offset := data_offset (fs_layout s ! i) + delta_bytes\<rparr>]\<rparr>))
                  else io_return (header_block_count h)) (\<lambda>blocks.
         io_bind (st_seek flt (header_offset h)) (\<lambda>_.
         io_bind (taint_err (st_write_all flt (header_block_bytes cards (blocks * BLOCK_SIZE)))) (\<lambda>_.
         taint_err (st_flush flt)))) s)"

subsection \<open>Byte moves\<close>

definition memmove :: "bytes \<Rightarrow> nat \<Rightarrow> nat \<Rightarrow> nat \<Rightarrow> bytes" where
  "memmove bs src dst n = write_at bs dst (take n (drop src bs))"

lemma write_at_length [simp]: "pos + length w \<le> length bs \<Longrightarrow> length (write_at bs pos w) = length bs"
  by (simp add: write_at_def)

lemma write_at_nth:
  "pos + length w \<le> length bs \<Longrightarrow> i < length bs \<Longrightarrow>
   write_at bs pos w ! i = (if pos \<le> i \<and> i < pos + length w then w ! (i - pos) else bs ! i)"
  by (auto simp: write_at_def nth_append min_def)

lemma memmove_length [simp]: "src + n \<le> length bs \<Longrightarrow> dst + n \<le> length bs \<Longrightarrow> length (memmove bs src dst n) = length bs"
  by (simp add: memmove_def)

lemma memmove_nth:
  "src + n \<le> length bs \<Longrightarrow> dst + n \<le> length bs \<Longrightarrow> i < length bs \<Longrightarrow>
   memmove bs src dst n ! i = (if dst \<le> i \<and> i < dst + n then bs ! (src + (i - dst)) else bs ! i)"
  by (auto simp: memmove_def write_at_nth)

lemma memmove_backward:
  assumes "src + n + m \<le> length bs" "dst + n + m \<le> length bs" "src \<le> dst"
  shows "memmove (memmove bs (src + n) (dst + n) m) src dst n = memmove bs src dst (n + m)"
proof (rule nth_equalityI)
  show "length (memmove (memmove bs (src + n) (dst + n) m) src dst n) = length (memmove bs src dst (n + m))"
    using assms by simp
  fix i assume "i < length (memmove (memmove bs (src + n) (dst + n) m) src dst n)"
  then have "i < length bs" using assms by simp
  then show "memmove (memmove bs (src + n) (dst + n) m) src dst n ! i = memmove bs src dst (n + m) ! i"
    using assms by (auto simp: memmove_nth not_less intro!: arg_cong[where f = "(!) bs"])
qed

lemma memmove_forward:
  assumes "src + n + m \<le> length bs" "dst + n + m \<le> length bs" "dst \<le> src \<or> src + n + m \<le> dst"
  shows "memmove (memmove bs src dst n) (src + n) (dst + n) m = memmove bs src dst (n + m)"
proof (rule nth_equalityI)
  show "length (memmove (memmove bs src dst n) (src + n) (dst + n) m) = length (memmove bs src dst (n + m))"
    using assms by simp
  fix i assume "i < length (memmove (memmove bs src dst n) (src + n) (dst + n) m)"
  then have "i < length bs" using assms by simp
  then show "memmove (memmove bs src dst n) (src + n) (dst + n) m ! i = memmove bs src dst (n + m) ! i"
    using assms by (auto simp: memmove_nth not_less intro!: arg_cong[where f = "(!) bs"])
qed

subsection \<open>Runs without faults\<close>

definition no_faults :: faults where
  "no_faults k = None"

text \<open>\<open>runs m s bs\<close>: \<open>m\<close> succeeds from \<open>s\<close>, leaves the bytes \<open>bs\<close> and changes nothing else but the cursor and the call count.\<close>

definition runs :: "unit io \<Rightarrow> file_state \<Rightarrow> bytes \<Rightarrow> bool" where
  "runs m s bs \<longleftrightarrow> (\<exists>p k. m s = (Inr (), s\<lparr>fs_bytes := bs, fs_pos := p, fs_ops := k\<rparr>))"

lemmas storage_defs = st_seek_def st_read_exact_def st_write_all_def st_set_len_def st_len_def st_flush_def st_fail_def
  taint_err_def io_bind_def io_return_def

lemma runs_return: "fs_bytes s = bs \<Longrightarrow> runs (io_return ()) s bs"
  unfolding runs_def io_return_def by (rule exI[of _ "fs_pos s"], rule exI[of _ "fs_ops s"]) auto

lemma runs_bind:
  assumes "runs m s bs" "\<And>p k. runs (f ()) (s\<lparr>fs_bytes := bs, fs_pos := p, fs_ops := k\<rparr>) bs'"
  shows "runs (io_bind m f) s bs'"
proof -
  obtain p k where m: "m s = (Inr (), s\<lparr>fs_bytes := bs, fs_pos := p, fs_ops := k\<rparr>)" using assms(1) by (auto simp: runs_def)
  from assms(2)[where p = p and k = k] show ?thesis by (auto simp: runs_def io_bind_def m)
qed

lemma runs_move_chunk:
  "src + n \<le> length (fs_bytes s) \<Longrightarrow> runs (move_chunk no_faults src dst n) s (memmove (fs_bytes s) src dst n)"
  unfolding runs_def move_chunk_def by (intro exI) (simp add: storage_defs no_faults_def memmove_def)

lemma runs_flush: "fs_bytes s = bs \<Longrightarrow> runs (taint_err (st_flush no_faults)) s bs"
  unfolding runs_def by (rule exI[of _ "fs_pos s"], rule exI[of _ "Suc (fs_ops s)"]) (auto simp: storage_defs no_faults_def)

lemma chunk_pos: "0 < MOVE_CHUNK"
  by (simp add: MOVE_CHUNK_def)

lemma runs_shift_loop:
  "after + delta + r \<le> length (fs_bytes s) \<Longrightarrow>
   runs (shift_loop no_faults after delta r) s (memmove (fs_bytes s) after (after + delta) r)"
proof (induction r arbitrary: s rule: less_induct)
  case (less r)
  show ?case
  proof (cases "r = 0")
    case True
    then show ?thesis by (subst shift_loop.simps) (simp add: runs_return memmove_def write_at_def)
  next
    case False
    define n where "n = min r MOVE_CHUNK"
    have n: "0 < n" "n \<le> r" using False chunk_pos by (auto simp: n_def)
    let ?b = "memmove (fs_bytes s) (after + r - n) (after + r - n + delta) n"
    have "runs (io_bind (move_chunk no_faults (after + r - n) (after + r - n + delta) n)
        (\<lambda>_. shift_loop no_faults after delta (r - n))) s (memmove (fs_bytes s) after (after + delta) r)"
    proof (rule runs_bind[where bs = ?b])
      show "runs (move_chunk no_faults (after + r - n) (after + r - n + delta) n) s ?b"
        using less.prems n by (intro runs_move_chunk) simp
      fix p k
      have len: "length ?b = length (fs_bytes s)" using less.prems n by (intro memmove_length) simp_all
      have "memmove ?b after (after + delta) (r - n) = memmove (fs_bytes s) after (after + delta) r"
        using memmove_backward[of after "r - n" n "fs_bytes s" "after + delta"] less.prems n
        by (simp add: add.commute add.left_commute)
      then show "runs (shift_loop no_faults after delta (r - n)) (s\<lparr>fs_bytes := ?b, fs_pos := p, fs_ops := k\<rparr>)
          (memmove (fs_bytes s) after (after + delta) r)"
        using less.IH[of "r - n" "s\<lparr>fs_bytes := ?b, fs_pos := p, fs_ops := k\<rparr>"] n less.prems len by simp
    qed
    then show ?thesis using False by (subst shift_loop.simps) (simp add: Let_def n_def)
  qed
qed

lemma runs_shift_back_loop:
  "old + t \<le> length (fs_bytes s) \<Longrightarrow> m \<le> t \<Longrightarrow> delta \<le> old \<Longrightarrow>
   runs (shift_back_loop no_faults old delta t m) s (memmove (fs_bytes s) (old + m) (old - delta + m) (t - m))"
proof (induction "t - m" arbitrary: s m rule: less_induct)
  case less
  show ?case
  proof (cases "m < t")
    case False
    then show ?thesis by (subst shift_back_loop.simps) (simp add: runs_return memmove_def write_at_def)
  next
    case True
    define n where "n = min (t - m) MOVE_CHUNK"
    have n: "0 < n" "m + n \<le> t" using True chunk_pos by (auto simp: n_def)
    let ?b = "memmove (fs_bytes s) (old + m) (old + m - delta) n"
    have "runs (io_bind (move_chunk no_faults (old + m) (old + m - delta) n)
        (\<lambda>_. shift_back_loop no_faults old delta t (m + n))) s (memmove (fs_bytes s) (old + m) (old - delta + m) (t - m))"
    proof (rule runs_bind[where bs = ?b])
      show "runs (move_chunk no_faults (old + m) (old + m - delta) n) s ?b"
        using less.prems n by (intro runs_move_chunk) simp
      fix p k
      have len: "length ?b = length (fs_bytes s)" using less.prems n by (intro memmove_length) simp_all
      have "memmove ?b (old + m + n) (old - delta + m + n) (t - (m + n))
          = memmove (fs_bytes s) (old + m) (old - delta + m) (n + (t - (m + n)))"
        using memmove_forward[of "old + m" n "t - (m + n)" "fs_bytes s" "old - delta + m"] less.prems n by simp
      then show "runs (shift_back_loop no_faults old delta t (m + n)) (s\<lparr>fs_bytes := ?b, fs_pos := p, fs_ops := k\<rparr>)
          (memmove (fs_bytes s) (old + m) (old - delta + m) (t - m))"
        using less.hyps[of "m + n" "s\<lparr>fs_bytes := ?b, fs_pos := p, fs_ops := k\<rparr>"] n less.prems len by (simp add: add.assoc)
    qed
    then show ?thesis using True by (subst shift_back_loop.simps) (simp add: Let_def n_def)
  qed
qed

lemma runs_copy_loop:
  "src + len \<le> length (fs_bytes s) \<Longrightarrow> dst + len \<le> length (fs_bytes s) \<Longrightarrow> dst \<le> src \<or> src + len \<le> dst \<Longrightarrow>
   0 < chunk \<Longrightarrow> m \<le> len \<Longrightarrow>
   runs (copy_loop no_faults src dst len chunk m) s (memmove (fs_bytes s) (src + m) (dst + m) (len - m))"
proof (induction "len - m" arbitrary: s m rule: less_induct)
  case less
  show ?case
  proof (cases "m < len")
    case False
    then show ?thesis by (subst copy_loop.simps) (simp add: runs_return memmove_def write_at_def)
  next
    case True
    define n where "n = min (len - m) chunk"
    have n: "0 < n" "m + n \<le> len" using True less.prems(4) by (auto simp: n_def)
    let ?b = "memmove (fs_bytes s) (src + m) (dst + m) n"
    have len: "length ?b = length (fs_bytes s)" using less.prems n by (intro memmove_length) simp_all
    have "memmove ?b (src + m + n) (dst + m + n) (len - (m + n)) = memmove (fs_bytes s) (src + m) (dst + m) (n + (len - (m + n)))"
      using memmove_forward[of "src + m" n "len - (m + n)" "fs_bytes s" "dst + m"] less.prems n by auto
    then have "runs (copy_loop no_faults src dst len chunk (m + n)) (s\<lparr>fs_bytes := ?b, fs_pos := p, fs_ops := k\<rparr>)
        (memmove (fs_bytes s) (src + m) (dst + m) (len - m))" for p k
      using less.hyps[of "m + n" "s\<lparr>fs_bytes := ?b, fs_pos := p, fs_ops := k\<rparr>"] n less.prems len by (simp add: add.assoc)
    then have R: "\<exists>p' k'. copy_loop no_faults src dst len chunk (m + n) (s\<lparr>fs_bytes := ?b, fs_pos := p, fs_ops := k\<rparr>)
        = (Inr (), s\<lparr>fs_bytes := memmove (fs_bytes s) (src + m) (dst + m) (len - m), fs_pos := p', fs_ops := k'\<rparr>)" for p k
      by (simp add: runs_def)
    have e: "src + m + n \<le> length (fs_bytes s)" using less.prems n by simp
    show ?thesis
      using True less.prems(4) e R[where p = "dst + m + n" and k = "Suc (Suc (Suc (Suc (fs_ops s))))"]
      by (subst copy_loop.simps)
        (simp add: Let_def n_def[symmetric] runs_def storage_defs no_faults_def memmove_def min_absorb2)
  qed
qed


lemma runs_zero_loop:
  "fs_pos s + r \<le> length (fs_bytes s) \<Longrightarrow>
   \<exists>k. zero_loop no_faults r s
      = (Inr (), s\<lparr>fs_bytes := write_at (fs_bytes s) (fs_pos s) (replicate r 0), fs_pos := fs_pos s + r, fs_ops := k\<rparr>)"
proof (induction r arbitrary: s rule: less_induct)
  case (less r)
  show ?case
  proof (cases "r = 0")
    case True
    then show ?thesis by (subst zero_loop.simps) (auto simp: io_return_def write_at_def intro!: exI[of _ "fs_ops s"])
  next
    case False
    define n where "n = min r MOVE_CHUNK"
    have n: "0 < n" "n \<le> r" using False chunk_pos by (auto simp: n_def)
    let ?s = "s\<lparr>fs_bytes := write_at (fs_bytes s) (fs_pos s) (replicate n 0), fs_pos := fs_pos s + n, fs_ops := Suc (fs_ops s)\<rparr>"
    have "\<exists>k. zero_loop no_faults (r - n) ?s
      = (Inr (), ?s\<lparr>fs_bytes := write_at (fs_bytes ?s) (fs_pos ?s) (replicate (r - n) 0), fs_pos := fs_pos ?s + (r - n), fs_ops := k\<rparr>)"
      using less.prems n by (intro less.IH) simp_all
    moreover have "write_at (write_at (fs_bytes s) (fs_pos s) (replicate n 0)) (fs_pos s + n) (replicate (r - n) 0)
        = write_at (fs_bytes s) (fs_pos s) (replicate r 0)"
      using less.prems n by (intro nth_equalityI) (auto simp: write_at_nth)
    ultimately show ?thesis
      using False n by (subst zero_loop.simps) (simp add: Let_def n_def[symmetric] storage_defs no_faults_def)
  qed
qed

lemma zero_fill_ok:
  assumes "start + len \<le> length (fs_bytes s)"
  shows "runs (zero_fill_range no_faults start len) s (write_at (fs_bytes s) start (replicate len 0))"
proof (cases "len = 0")
  case True
  then show ?thesis by (simp add: zero_fill_range_def runs_return write_at_def)
next
  case False
  let ?s = "s\<lparr>fs_pos := start, fs_ops := Suc (fs_ops s)\<rparr>"
  obtain k where "zero_loop no_faults len ?s
      = (Inr (), ?s\<lparr>fs_bytes := write_at (fs_bytes s) start (replicate len 0), fs_pos := start + len, fs_ops := k\<rparr>)"
    using runs_zero_loop[of ?s len] assms by auto
  then show ?thesis
    using False unfolding runs_def zero_fill_range_def
    by (intro exI[of _ "start + len"] exI[of _ "Suc k"]) (simp add: io_bind_def taint_err_def st_seek_def st_flush_def no_faults_def)
qed

subsection \<open>Shifting the tail\<close>

lemma resize_grow: "length bs \<le> n \<Longrightarrow> resize bs n = bs @ replicate (n - length bs) 0"
  by (simp add: resize_def)

definition shifted :: "bytes \<Rightarrow> nat \<Rightarrow> nat \<Rightarrow> bytes" where
  "shifted bs after delta = memmove (bs @ replicate delta 0) after (after + delta) (length bs - after)"

lemma shifted_parts:
  assumes "after \<le> length bs"
  shows "length (shifted bs after delta) = length bs + delta"
    "take after (shifted bs after delta) = take after bs"
    "drop (after + delta) (shifted bs after delta) = drop after bs"
proof -
  show l: "length (shifted bs after delta) = length bs + delta" using assms by (simp add: shifted_def)
  have n: "shifted bs after delta ! i = (if after + delta \<le> i then bs ! (i - delta) else (bs @ replicate delta 0) ! i)"
    if "i < length bs + delta" for i
    using that assms unfolding shifted_def by (subst memmove_nth) (auto simp: nth_append)
  show "take after (shifted bs after delta) = take after bs"
    using assms l by (intro nth_equalityI) (auto simp: n nth_append)
  show "drop (after + delta) (shifted bs after delta) = drop after bs"
    using assms l by (intro nth_equalityI) (auto simp: n)
qed

lemma shift_ok:
  assumes "after \<le> length (fs_bytes s)" "0 < delta"
  shows "\<exists>p k. shift_file_tail_and_update_offsets no_faults after delta s
    = (Inr (), s\<lparr>fs_bytes := shifted (fs_bytes s) after delta, fs_pos := p, fs_ops := k, fs_layout := bump_offsets after delta (fs_layout s)\<rparr>)"
proof -
  let ?l = "length (fs_bytes s)"
  let ?s = "s\<lparr>fs_bytes := fs_bytes s @ replicate delta 0, fs_pos := fs_pos s, fs_ops := Suc (Suc (fs_ops s))\<rparr>"
  have r: "resize (fs_bytes s) (max (?l + delta) (after + delta)) = fs_bytes s @ replicate delta 0"
    using assms by (simp add: resize_grow max_def)
  show ?thesis
  proof (cases "?l - after = 0")
    case True
    then have "shifted (fs_bytes s) after delta = fs_bytes s @ replicate delta 0"
      by (simp add: shifted_def memmove_def write_at_def)
    then show ?thesis
      using True assms r unfolding shift_file_tail_and_update_offsets_def
      by (intro exI[of _ "fs_pos s"] exI[of _ "Suc (Suc (fs_ops s))"]) (auto simp: storage_defs no_faults_def Let_def)
  next
    case False
    have "runs (io_bind (shift_loop no_faults after delta (?l - after)) (\<lambda>_. taint_err (st_flush no_faults))) ?s
        (shifted (fs_bytes s) after delta)"
    proof (rule runs_bind)
      show "runs (shift_loop no_faults after delta (?l - after)) ?s (shifted (fs_bytes s) after delta)"
        using runs_shift_loop[of after delta "?l - after" ?s] assms by (simp add: shifted_def)
    qed (rule runs_flush, simp)
    then obtain p k where e: "io_bind (shift_loop no_faults after delta (?l - after)) (\<lambda>_. taint_err (st_flush no_faults)) ?s
        = (Inr (), ?s\<lparr>fs_bytes := shifted (fs_bytes s) after delta, fs_pos := p, fs_ops := k\<rparr>)"
      by (auto simp: runs_def)
    have "shift_file_tail_and_update_offsets no_faults after delta s =
      (Inr (), s\<lparr>fs_bytes := shifted (fs_bytes s) after delta, fs_pos := p, fs_ops := k, fs_layout := bump_offsets after delta (fs_layout s)\<rparr>)"
      using False assms e r unfolding shift_file_tail_and_update_offsets_def
      by (simp add: io_bind_def[of "st_len no_faults"] io_bind_def[of "st_set_len no_faults m" for m] st_len_def st_set_len_def
          no_faults_def Let_def io_bind_def[of "io_bind (shift_loop no_faults after delta (?l - after)) (\<lambda>_. taint_err (st_flush no_faults))"])
    then show ?thesis by blast
  qed
qed

lemma shift_back_ok:
  assumes "old \<le> length (fs_bytes s)" "0 < delta" "delta \<le> old"
  shows "\<exists>p k. shift_file_tail_backward_and_update_offsets no_faults old delta s
    = (Inr (), s\<lparr>fs_bytes := take (old - delta) (fs_bytes s) @ drop old (fs_bytes s), fs_pos := p, fs_ops := k,
                fs_layout := drop_offsets old delta (fs_layout s)\<rparr>)"
proof -
  let ?l = "length (fs_bytes s)" and ?t = "length (fs_bytes s) - old"
  let ?s = "s\<lparr>fs_ops := Suc (fs_ops s)\<rparr>"
  let ?m = "memmove (fs_bytes s) old (old - delta) ?t"
  have b: "resize ?m (?l - delta) = take (old - delta) (fs_bytes s) @ drop old (fs_bytes s)"
    using assms by (intro nth_equalityI) (auto simp: resize_def memmove_nth nth_append)
  have "runs (if ?t > 0 then io_bind (shift_back_loop no_faults old delta ?t 0) (\<lambda>_. taint_err (st_flush no_faults)) else io_return ()) ?s ?m"
  proof (cases "?t > 0")
    case True
    have "runs (io_bind (shift_back_loop no_faults old delta ?t 0) (\<lambda>_. taint_err (st_flush no_faults))) ?s ?m"
    proof (rule runs_bind)
      show "runs (shift_back_loop no_faults old delta ?t 0) ?s ?m"
        using runs_shift_back_loop[of old ?t ?s 0 delta] assms by simp
    qed (rule runs_flush, simp)
    then show ?thesis using True by simp
  next
    case False
    then show ?thesis by (simp add: runs_return memmove_def write_at_def)
  qed
  then obtain p k where e: "(if ?t > 0 then io_bind (shift_back_loop no_faults old delta ?t 0) (\<lambda>_. taint_err (st_flush no_faults)) else io_return ()) ?s
      = (Inr (), ?s\<lparr>fs_bytes := ?m, fs_pos := p, fs_ops := k\<rparr>)" by (auto simp: runs_def)
  have "shift_file_tail_backward_and_update_offsets no_faults old delta s
    = (Inr (), s\<lparr>fs_bytes := take (old - delta) (fs_bytes s) @ drop old (fs_bytes s), fs_pos := p, fs_ops := Suc k,
                fs_layout := drop_offsets old delta (fs_layout s)\<rparr>)"
    using assms e b unfolding shift_file_tail_backward_and_update_offsets_def
    by (simp add: io_bind_def st_len_def st_set_len_def taint_err_def no_faults_def Let_def)
  then show ?thesis by blast
qed


subsection \<open>Failures\<close>

lemma taint_err_fails: "taint_err m s = (Inl e, s') \<Longrightarrow> fs_tainted s'"
  by (auto simp: taint_err_def split: prod.splits sum.splits)

lemma io_bind_fails:
  "io_bind m f s = (Inl e, s') \<Longrightarrow> m s = (Inl e, s') \<or> (\<exists>x s1. m s = (Inr x, s1) \<and> f x s1 = (Inl e, s'))"
  by (auto simp: io_bind_def split: prod.splits sum.splits)

lemma move_chunk_fails: "move_chunk flt src dst n s = (Inl e, s') \<Longrightarrow> fs_tainted s'"
  unfolding move_chunk_def by (blast dest: io_bind_fails taint_err_fails)

lemma shift_loop_fails: "shift_loop flt after delta r s = (Inl e, s') \<Longrightarrow> fs_tainted s'"
proof (induction r arbitrary: s rule: less_induct)
  case (less r)
  show ?case
  proof (cases "r = 0")
    case True
    then show ?thesis using less.prems by (simp add: shift_loop.simps[of flt after delta 0] io_return_def)
  next
    case False
    then have "r - min r MOVE_CHUNK < r" using chunk_pos by simp
    then show ?thesis
      using less.prems less.IH False unfolding shift_loop.simps[of flt after delta r] Let_def
      by (auto dest!: io_bind_fails move_chunk_fails)
  qed
qed

lemma shift_back_loop_fails: "shift_back_loop flt old delta t m s = (Inl e, s') \<Longrightarrow> fs_tainted s'"
proof (induction "t - m" arbitrary: s m rule: less_induct)
  case less
  show ?case
  proof (cases "m < t")
    case False
    then show ?thesis using less.prems by (simp add: shift_back_loop.simps[of flt old delta t m] io_return_def)
  next
    case True
    then have "t - (m + min (t - m) MOVE_CHUNK) < t - m" using chunk_pos by simp
    then show ?thesis
      using less.prems less.hyps True unfolding shift_back_loop.simps[of flt old delta t m] Let_def
      by (auto dest!: io_bind_fails move_chunk_fails)
  qed
qed

lemma st_len_keeps: "st_len flt s = (r, s') \<Longrightarrow> fs_bytes s' = fs_bytes s \<and> fs_layout s' = fs_layout s"
  by (auto simp: st_len_def st_fail_def split: option.splits)

lemma st_set_len_fails: "st_set_len flt n s = (Inl e, s') \<Longrightarrow> fs_bytes s' = fs_bytes s \<and> fs_layout s' = fs_layout s"
  by (auto simp: st_set_len_def st_fail_def split: option.splits)

lemma shift_fails:
  "shift_file_tail_and_update_offsets flt after delta s = (Inl e, s') \<Longrightarrow>
   fs_tainted s' \<or> fs_bytes s' = fs_bytes s \<and> fs_layout s' = fs_layout s"
  unfolding shift_file_tail_and_update_offsets_def Let_def
  by (auto simp: io_return_def split: if_splits dest!: io_bind_fails st_set_len_fails
      dest: st_len_keeps shift_loop_fails taint_err_fails)

lemma shift_back_fails:
  "shift_file_tail_backward_and_update_offsets flt old delta s = (Inl e, s') \<Longrightarrow>
   fs_tainted s' \<or> fs_bytes s' = fs_bytes s \<and> fs_layout s' = fs_layout s"
  unfolding shift_file_tail_backward_and_update_offsets_def Let_def
  by (auto simp: io_return_def split: if_splits dest!: io_bind_fails
      dest: st_len_keeps shift_back_loop_fails taint_err_fails)

subsection \<open>The layout invariant\<close>

definition layout_ok :: "file_state \<Rightarrow> bool" where
  "layout_ok s \<longleftrightarrow>
     (\<forall>h \<in> set (fs_layout s). 0 < header_block_count h \<and>
        data_offset h = header_offset h + header_block_count h * BLOCK_SIZE \<and> data_offset h \<le> length (fs_bytes s)) \<and>
     sorted_wrt (\<lambda>a b. data_offset a \<le> header_offset b) (fs_layout s)"

text \<open>A computation that never shortens the file and leaves the layout alone, whatever fails.\<close>

definition keeps :: "'a io \<Rightarrow> bool" where
  "keeps m \<longleftrightarrow> (\<forall>s r s'. m s = (r, s') \<longrightarrow> length (fs_bytes s) \<le> length (fs_bytes s') \<and> fs_layout s' = fs_layout s)"

lemma write_at_grows: "length bs \<le> length (write_at bs pos w)"
  by (auto simp: write_at_def)

lemma keeps_storage [intro]:
  "keeps (st_seek flt p)" "keeps (st_read_exact flt n)" "keeps (st_write_all flt w)" "keeps (st_len flt)" "keeps (st_flush flt)"
  by (auto simp: keeps_def st_seek_def st_read_exact_def st_write_all_def st_len_def st_flush_def st_fail_def write_at_grows
      split: option.splits if_splits)

lemma keeps_return [intro]: "keeps (io_return x)"
  by (auto simp: keeps_def io_return_def)

lemma keeps_taint [intro]: "keeps m \<Longrightarrow> keeps (taint_err m)"
  by (auto simp: keeps_def taint_err_def split: prod.splits sum.splits)

lemma keeps_bind [intro]:
  assumes "keeps m" "\<And>x. keeps (f x)"
  shows "keeps (io_bind m f)"
  unfolding keeps_def
proof (intro allI impI)
  fix s r s' assume b: "io_bind m f s = (r, s')"
  obtain r1 s1 where m: "m s = (r1, s1)" by (cases "m s")
  have 1: "length (fs_bytes s) \<le> length (fs_bytes s1)" "fs_layout s1 = fs_layout s" using assms(1) m by (auto simp: keeps_def)
  show "length (fs_bytes s) \<le> length (fs_bytes s') \<and> fs_layout s' = fs_layout s"
  proof (cases r1)
    case (Inl e) then show ?thesis using b m 1 by (simp add: io_bind_def)
  next
    case (Inr x)
    then have "f x s1 = (r, s')" using b m by (simp add: io_bind_def)
    then show ?thesis using assms(2)[of x] 1 by (fastforce simp: keeps_def)
  qed
qed

lemma keeps_move_chunk [intro]: "keeps (move_chunk flt src dst n)"
  unfolding move_chunk_def by (intro keeps_bind keeps_taint keeps_storage)

lemma keeps_shift_loop [intro]: "keeps (shift_loop flt after delta r)"
proof (induction r rule: less_induct)
  case (less r)
  then show ?case
    using chunk_pos by (cases "r = 0") (subst shift_loop.simps; auto simp: Let_def intro!: keeps_bind)+
qed

lemma st_set_len_any:
  "st_set_len flt n s = (r, s') \<Longrightarrow> fs_layout s' = fs_layout s \<and>
   (fs_bytes s' = fs_bytes s \<and> r = Inl IoFault \<or> fs_bytes s' = resize (fs_bytes s) n \<and> r = Inr ())"
  by (auto simp: st_set_len_def st_fail_def split: option.splits)

lemma io_bind_cases:
  assumes "io_bind m f s = (r, s')"
  obtains e where "m s = (Inl e, s')" "r = Inl e" | x s1 where "m s = (Inr x, s1)" "f x s1 = (r, s')"
  using assms by (auto simp: io_bind_def split: prod.splits sum.splits)

lemma resize_length [simp]: "length (resize bs n) = n"
  by (simp add: resize_def)

lemma shift_any:
  assumes "shift_file_tail_and_update_offsets flt after delta s = (r, s')"
  shows "length (fs_bytes s) \<le> length (fs_bytes s') \<and>
    (fs_layout s' = fs_layout s \<and> (r = Inr () \<longrightarrow> delta = 0) \<or>
     r = Inr () \<and> fs_layout s' = bump_offsets after delta (fs_layout s) \<and> length (fs_bytes s) + delta \<le> length (fs_bytes s'))"
proof (cases "delta = 0")
  case True then show ?thesis using assms by (simp add: shift_file_tail_and_update_offsets_def io_return_def)
next
  case False
  let ?tail = "\<lambda>n. if n - after > 0 then io_bind (shift_loop flt after delta (n - after)) (\<lambda>_. taint_err (st_flush flt)) else io_return ()"
  have "keeps (?tail n)" for n by auto
  then have kt: "length (fs_bytes s1) \<le> length (fs_bytes s2) \<and> fs_layout s2 = fs_layout s1" if "?tail n s1 = (r', s2)" for n s1 r' s2
    using that unfolding keeps_def by blast
  have kl: "length (fs_bytes s) \<le> length (fs_bytes s1) \<and> fs_layout s1 = fs_layout s" if "st_len flt s = (r', s1)" for r' s1
    using that keeps_storage(4)[of flt] unfolding keeps_def by blast
  have ll: "n = length (fs_bytes s1)" if "st_len flt s = (Inr n, s1)" for n s1
    using that by (auto simp: st_len_def st_fail_def split: option.splits)
  from assms False show ?thesis
    unfolding shift_file_tail_and_update_offsets_def Let_def
    by (auto elim!: io_bind_cases dest!: st_set_len_any dest: kt kl ll) (use kt kl ll in fastforce)+
qed

definition clear_of :: "nat \<Rightarrow> hdu_offsets list \<Rightarrow> bool" where
  "clear_of after hdus \<longleftrightarrow> (\<forall>h \<in> set hdus. after \<le> header_offset h \<or> data_offset h \<le> after)"

lemma layout_ok_longer:
  "layout_ok s \<Longrightarrow> fs_layout s' = fs_layout s \<Longrightarrow> length (fs_bytes s) \<le> length (fs_bytes s') \<Longrightarrow> layout_ok s'"
  unfolding layout_ok_def by auto

lemma layout_ok_bump:
  assumes ok: "layout_ok s" and c: "clear_of after (fs_layout s)"
    and s': "fs_layout s' = bump_offsets after delta (fs_layout s)" "length (fs_bytes s) + delta \<le> length (fs_bytes s')"
  shows "layout_ok s'"
proof -
  have "sorted_wrt (\<lambda>a b. data_offset a \<le> header_offset b) (bump_offsets after delta (fs_layout s))"
    unfolding bump_offsets_def sorted_wrt_map
  proof (rule sorted_wrt_mono_rel[of "fs_layout s" "\<lambda>a b. data_offset a \<le> header_offset b"])
    fix a b assume m: "a \<in> set (fs_layout s)" "b \<in> set (fs_layout s)" and le: "data_offset a \<le> header_offset b"
    have "header_offset a \<le> data_offset a" using ok m(1) by (auto simp: layout_ok_def)
    then show "data_offset (if after \<le> header_offset a then a\<lparr>header_offset := header_offset a + delta, data_offset := data_offset a + delta\<rparr> else a)
        \<le> header_offset (if after \<le> header_offset b then b\<lparr>header_offset := header_offset b + delta, data_offset := data_offset b + delta\<rparr> else b)"
      using le by auto
  qed (use ok in \<open>simp add: layout_ok_def\<close>)
  moreover have "\<forall>h \<in> set (bump_offsets after delta (fs_layout s)). 0 < header_block_count h \<and>
      data_offset h = header_offset h + header_block_count h * BLOCK_SIZE \<and> data_offset h \<le> length (fs_bytes s')"
    using ok s'(2) unfolding bump_offsets_def layout_ok_def by force
  ultimately show ?thesis unfolding layout_ok_def s'(1) by blast
qed

lemma shift_layout_ok:
  assumes "layout_ok s" "clear_of after (fs_layout s)" "shift_file_tail_and_update_offsets flt after delta s = (r, s')"
  shows "layout_ok s'"
  using shift_any[OF assms(3)] layout_ok_longer[OF assms(1)] layout_ok_bump[OF assms(1,2)] by blast

lemma layout_nth:
  assumes "layout_ok s" "i < length (fs_layout s)" "j < length (fs_layout s)"
  shows "i < j \<Longrightarrow> data_offset (fs_layout s ! i) \<le> header_offset (fs_layout s ! j)"
    "0 < header_block_count (fs_layout s ! i)" "header_offset (fs_layout s ! i) < data_offset (fs_layout s ! i)"
    "data_offset (fs_layout s ! i) = header_offset (fs_layout s ! i) + header_block_count (fs_layout s ! i) * BLOCK_SIZE"
    "data_offset (fs_layout s ! i) \<le> length (fs_bytes s)"
proof -
  have m: "fs_layout s ! i \<in> set (fs_layout s)" using assms(2) by simp
  show "i < j \<Longrightarrow> data_offset (fs_layout s ! i) \<le> header_offset (fs_layout s ! j)"
    using assms by (auto simp: layout_ok_def sorted_wrt_iff_nth_less)
  show p: "0 < header_block_count (fs_layout s ! i)"
    "data_offset (fs_layout s ! i) = header_offset (fs_layout s ! i) + header_block_count (fs_layout s ! i) * BLOCK_SIZE"
    "data_offset (fs_layout s ! i) \<le> length (fs_bytes s)" using assms(1) m by (auto simp: layout_ok_def)
  show "header_offset (fs_layout s ! i) < data_offset (fs_layout s ! i)" using p by (simp add: BLOCK_SIZE_def)
qed

lemma clear_of_data:
  assumes ok: "layout_ok s" and i: "i < length (fs_layout s)"
  shows "clear_of (data_offset (fs_layout s ! i)) (fs_layout s)"
  unfolding clear_of_def
proof
  fix h assume "h \<in> set (fs_layout s)"
  then obtain j where j: "j < length (fs_layout s)" "h = fs_layout s ! j" by (auto simp: in_set_conv_nth)
  show "data_offset (fs_layout s ! i) \<le> header_offset h \<or> data_offset h \<le> data_offset (fs_layout s ! i)"
  proof (cases "i < j")
    case True then show ?thesis using layout_nth(1)[OF ok i j(1)] j(2) by blast
  next
    case False
    then have "j < i \<or> j = i" by linarith
    then show ?thesis using layout_nth(1)[OF ok j(1) i] layout_nth(3)[OF ok i i] j(2) by auto
  qed
qed

lemma clear_of_header:
  assumes ok: "layout_ok s" and i: "i < length (fs_layout s)"
  shows "clear_of (header_offset (fs_layout s ! i)) (fs_layout s)"
  unfolding clear_of_def
proof
  fix h assume "h \<in> set (fs_layout s)"
  then obtain j where j: "j < length (fs_layout s)" "h = fs_layout s ! j" by (auto simp: in_set_conv_nth)
  show "header_offset (fs_layout s ! i) \<le> header_offset h \<or> data_offset h \<le> header_offset (fs_layout s ! i)"
  proof (cases "j < i")
    case True then show ?thesis using layout_nth(1)[OF ok j(1) i] j(2) by blast
  next
    case False
    then have "i < j \<or> j = i" by linarith
    then show ?thesis using layout_nth(1)[OF ok i j(1)] layout_nth(3)[OF ok i i] j(2) by auto
  qed
qed

subsection \<open>Growing an HDU\<close>

lemma foldl_min_in: "foldl min x xs \<in> insert x (set xs)" for x :: nat
  by (induction xs arbitrary: x) (auto simp: min_def split: if_splits)

lemma foldl_min_le: "y \<in> insert x (set xs) \<Longrightarrow> foldl min x xs \<le> y" for x :: nat
proof -
  have "foldl min x xs \<le> x \<and> (\<forall>y \<in> set xs. foldl min x xs \<le> y)"
  proof (induction xs arbitrary: x)
    case (Cons a xs)
    then show ?case using Cons.IH[of "min x a"] by simp
  qed simp
  then show "y \<in> insert x (set xs) \<Longrightarrow> foldl min x xs \<le> y" by blast
qed

lemma next_hdu_start_Some:
  assumes "next_hdu_start d hdus = Some n"
  shows "d < n" "\<exists>i < length hdus. n = header_offset (hdus ! i)" "\<And>h. h \<in> set hdus \<Longrightarrow> d < header_offset h \<Longrightarrow> n \<le> header_offset h"
proof -
  let ?l = "filter (\<lambda>off. off > d) (map header_offset hdus)"
  have ne: "?l \<noteq> []" and n: "n = foldl min (hd ?l) (tl ?l)" using assms by (auto simp: next_hdu_start_def Let_def split: if_splits)
  have s: "insert (hd ?l) (set (tl ?l)) = set ?l" using ne by (metis list.collapse list.simps(15))
  have "n \<in> set ?l" using foldl_min_in[of "hd ?l" "tl ?l"] unfolding n s .
  then show "d < n" "\<exists>i < length hdus. n = header_offset (hdus ! i)" by (auto simp: in_set_conv_nth)
  show "n \<le> header_offset h" if "h \<in> set hdus" "d < header_offset h" for h
    unfolding n by (rule foldl_min_le, unfold s) (use that in auto)
qed

lemma next_hdu_start_None: "next_hdu_start d hdus = None \<Longrightarrow> h \<in> set hdus \<Longrightarrow> header_offset h \<le> d"
  by (auto simp: next_hdu_start_def Let_def filter_empty_conv split: if_splits)

lemma grow_layout_ok:
  assumes ok: "layout_ok s" and g: "grow_file_to_at_least flt d m s = (r, s')"
  shows "layout_ok s'"
proof -
  let ?w = "d + round_up_to_block m"
  define cont where "cont = (\<lambda>file_len. let effective_end = (case next_hdu_start d (fs_layout s) of Some n \<Rightarrow> n | None \<Rightarrow> file_len)
           in if ?w \<le> effective_end then io_return ()
              else case next_hdu_start d (fs_layout s) of
                      None \<Rightarrow> taint_err (st_set_len flt ?w)
                    | Some _ \<Rightarrow> shift_file_tail_and_update_offsets flt effective_end (?w - effective_end))"
  have "io_bind (st_len flt) cont s = (r, s')" using g unfolding grow_file_to_at_least_def cont_def Let_def .
  then show ?thesis
  proof (cases rule: io_bind_cases)
    case (1 e)
    then show ?thesis using st_len_keeps[of flt s "Inl e" s'] layout_ok_longer[OF ok] by auto
  next
    case (2 n s1)
    have n: "n = length (fs_bytes s)" "fs_bytes s1 = fs_bytes s" "fs_layout s1 = fs_layout s"
      using 2(1) st_len_keeps[OF 2(1)] by (auto simp: st_len_def st_fail_def split: option.splits)
    have ok1: "layout_ok s1" by (rule layout_ok_longer[OF ok]) (simp_all add: n)
    show ?thesis
    proof (cases "next_hdu_start d (fs_layout s)")
      case None
      have "(if ?w \<le> n then io_return () else taint_err (st_set_len flt ?w)) s1 = (r, s')"
        using 2(2) None unfolding cont_def Let_def by (cases "?w \<le> n") simp_all
      then show ?thesis
        using ok1 n(2,3) n(1)
        by (auto simp: io_return_def taint_err_def split: if_splits prod.splits sum.splits
            dest!: st_set_len_any intro: layout_ok_longer[OF ok1])
    next
      case (Some h)
      obtain i where i: "i < length (fs_layout s1)" "h = header_offset (fs_layout s1 ! i)"
        using next_hdu_start_Some(2)[OF Some] n(3) by auto
      have "(if ?w \<le> h then io_return () else shift_file_tail_and_update_offsets flt h (?w - h)) s1 = (r, s')"
        using 2(2) Some unfolding cont_def Let_def by (cases "?w \<le> h") simp_all
      then show ?thesis
        using ok1 shift_layout_ok[OF ok1 clear_of_header[OF ok1 i(1), folded i(2)]] by (auto simp: io_return_def split: if_splits)
    qed
  qed
qed


subsection \<open>Rewriting a header\<close>

lemma div_ceil_mult: "0 < b \<Longrightarrow> a \<le> div_ceil a b * b"
proof -
  assume b: "0 < b"
  have "a + b - 1 < ((a + b - 1) div b + 1) * b" using b by (simp add: dividend_less_div_times)
  then show ?thesis by (simp add: div_ceil_def)
qed

definition grown_layout :: "hdu_offsets list \<Rightarrow> nat \<Rightarrow> nat \<Rightarrow> hdu_offsets list" where
  "grown_layout hdus i blocks =
     (let hdus' = bump_offsets (data_offset (hdus ! i)) (blocks * BLOCK_SIZE) hdus
      in hdus'[i := (hdus' ! i)\<lparr>header_block_count := header_block_count (hdus' ! i) + blocks,
                               data_offset := data_offset (hdus' ! i) + blocks * BLOCK_SIZE\<rparr>])"

lemma bump_nth:
  "j < length hdus \<Longrightarrow> bump_offsets a d hdus ! j =
     (if a \<le> header_offset (hdus ! j) then (hdus ! j)\<lparr>header_offset := header_offset (hdus ! j) + d, data_offset := data_offset (hdus ! j) + d\<rparr>
      else hdus ! j)"
  by (simp add: bump_offsets_def)

lemma bump_zero: "bump_offsets a 0 hdus = hdus"
  unfolding bump_offsets_def by (rule map_idI) auto

lemma length_bump [simp]: "length (bump_offsets a d hdus) = length hdus"
  by (simp add: bump_offsets_def)

lemma grown_nth:
  assumes ok: "layout_ok s" and i: "i < length (fs_layout s)" and j: "j < length (fs_layout s)"
  shows "grown_layout (fs_layout s) i b ! j =
    (let h = fs_layout s ! j
     in if j < i then h
        else if j = i then h\<lparr>header_block_count := header_block_count h + b, data_offset := data_offset h + b * BLOCK_SIZE\<rparr>
        else h\<lparr>header_offset := header_offset h + b * BLOCK_SIZE, data_offset := data_offset h + b * BLOCK_SIZE\<rparr>)"
  using layout_nth(1)[OF ok i j] layout_nth(1,3)[OF ok j i] layout_nth(3)[OF ok i i] i j
  by (cases "i < j"; cases "j < i") (auto simp: grown_layout_def Let_def bump_nth nth_list_update)

lemma length_grown [simp]: "length (grown_layout hdus i b) = length hdus"
  by (simp add: grown_layout_def Let_def)

lemma grown_layout_ok:
  assumes ok: "layout_ok s" and i: "i < length (fs_layout s)"
    and s': "fs_layout s' = grown_layout (fs_layout s) i b" "length (fs_bytes s) + b * BLOCK_SIZE \<le> length (fs_bytes s')"
  shows "layout_ok s'"
proof -
  have "0 < header_block_count h \<and> data_offset h = header_offset h + header_block_count h * BLOCK_SIZE \<and> data_offset h \<le> length (fs_bytes s')"
    if hm: "h \<in> set (fs_layout s')" for h
  proof -
    obtain j where j: "j < length (fs_layout s)" "h = grown_layout (fs_layout s) i b ! j"
      using hm s'(1) by (auto simp: in_set_conv_nth)
    show ?thesis
      using layout_nth(2,4,5)[OF ok j(1) i] s'(2) unfolding j(2) grown_nth[OF ok i j(1)]
      by (auto simp: Let_def algebra_simps)
  qed
  moreover have "data_offset (grown_layout (fs_layout s) i b ! j) \<le> header_offset (grown_layout (fs_layout s) i b ! k)"
    if "j < k" "k < length (fs_layout s)" for j k
  proof -
    have j: "j < length (fs_layout s)" using that by simp
    show ?thesis
      using layout_nth(1)[OF ok j that(2) that(1)] that(1)
      unfolding grown_nth[OF ok i j] grown_nth[OF ok i that(2)] by (auto simp: Let_def)
  qed
  ultimately show ?thesis unfolding layout_ok_def sorted_wrt_iff_nth_less s'(1) length_grown by blast
qed

definition header_growth :: "nat \<Rightarrow> hdu_offsets \<Rightarrow> nat" where
  "header_growth n_cards h =
     (if n_cards > header_block_count h * CARDS_PER_BLOCK then div_ceil n_cards CARDS_PER_BLOCK - header_block_count h else 0)"

definition write_header :: "faults \<Rightarrow> nat \<Rightarrow> string list \<Rightarrow> nat \<Rightarrow> unit io" where
  "write_header flt off cards blocks =
     io_bind (st_seek flt off) (\<lambda>_.
     io_bind (taint_err (st_write_all flt (header_block_bytes cards (blocks * BLOCK_SIZE)))) (\<lambda>_.
     taint_err (st_flush flt)))"

lemma keeps_write_header: "keeps (write_header flt off cards blocks)"
  unfolding write_header_def by (intro keeps_bind keeps_taint keeps_storage)

lemma header_growth_pos:
  assumes "n_cards > header_block_count h * CARDS_PER_BLOCK"
  shows "0 < header_growth n_cards h" "header_block_count h + header_growth n_cards h = div_ceil n_cards CARDS_PER_BLOCK"
proof -
  have "n_cards \<le> div_ceil n_cards CARDS_PER_BLOCK * CARDS_PER_BLOCK" by (rule div_ceil_mult) (simp add: fits_sizes)
  then have "header_block_count h * CARDS_PER_BLOCK < div_ceil n_cards CARDS_PER_BLOCK * CARDS_PER_BLOCK" using assms by linarith
  then have "header_block_count h < div_ceil n_cards CARDS_PER_BLOCK" by simp
  then show "0 < header_growth n_cards h" "header_block_count h + header_growth n_cards h = div_ceil n_cards CARDS_PER_BLOCK"
    using assms by (simp_all add: header_growth_def)
qed

lemma rewrite_cases:
  assumes "rewrite_header_to_disk flt i cards s = (r, s')"
  defines "h \<equiv> fs_layout s ! i"
  obtains
    (fits) "length cards \<le> header_block_count h * CARDS_PER_BLOCK"
      "write_header flt (header_offset h) cards (header_block_count h) s = (r, s')"
  | (failed) e where "r = Inl e"
      "shift_file_tail_and_update_offsets flt (data_offset h) (header_growth (length cards) h * BLOCK_SIZE) s = (Inl e, s')"
  | (grown) s1 where "length cards > header_block_count h * CARDS_PER_BLOCK"
      "shift_file_tail_and_update_offsets flt (data_offset h) (header_growth (length cards) h * BLOCK_SIZE) s = (Inr (), s1)"
      "write_header flt (header_offset h) cards (header_block_count h + header_growth (length cards) h)
         (s1\<lparr>fs_layout := (fs_layout s1)[i := (fs_layout s1 ! i)
            \<lparr>header_block_count := header_block_count (fs_layout s1 ! i) + header_growth (length cards) h,
             data_offset := data_offset (fs_layout s1 ! i) + header_growth (length cards) h * BLOCK_SIZE\<rparr>]\<rparr>) = (r, s')"
proof (cases "length cards > header_block_count h * CARDS_PER_BLOCK")
  case False
  then show thesis using assms fits unfolding rewrite_header_to_disk_def h_def write_header_def
    by (simp add: Let_def io_bind_def[of "io_return _"] io_return_def not_less)
next
  case True
  obtain r1 s1 where sh: "shift_file_tail_and_update_offsets flt (data_offset h) (header_growth (length cards) h * BLOCK_SIZE) s = (r1, s1)"
    by (cases "shift_file_tail_and_update_offsets flt (data_offset h) (header_growth (length cards) h * BLOCK_SIZE) s")
  have g: "div_ceil (length cards) CARDS_PER_BLOCK - header_block_count h = header_growth (length cards) h"
    using True by (simp add: header_growth_def)
  show thesis
  proof (cases r1)
    case (Inl e)
    then show thesis
      using assms(1) True sh failed[of e] unfolding rewrite_header_to_disk_def
      by (simp add: Let_def h_def[symmetric] g io_bind_def)
  next
    case (Inr u)
    then show thesis
      using assms(1) True sh grown[of s1] header_growth_pos(2)[OF True] unfolding rewrite_header_to_disk_def
      by (simp add: Let_def h_def[symmetric] g io_bind_def[of "io_bind _ _"] write_header_def io_bind_def[of "shift_file_tail_and_update_offsets _ _ _"])
  qed
qed

lemma rewrite_layout_ok:
  assumes ok: "layout_ok s" and i: "i < length (fs_layout s)" and w: "rewrite_header_to_disk flt i cards s = (r, s')"
  shows "layout_ok s'"
  using w
proof (cases rule: rewrite_cases)
  case fits
  then show ?thesis using keeps_write_header layout_ok_longer[OF ok] unfolding keeps_def by blast
next
  case (failed e)
  then show ?thesis using shift_layout_ok[OF ok clear_of_data[OF ok i]] by blast
next
  case (grown s1)
  let ?b = "header_growth (length cards) (fs_layout s ! i)"
  let ?s = "s1\<lparr>fs_layout := (fs_layout s1)[i := (fs_layout s1 ! i)
            \<lparr>header_block_count := header_block_count (fs_layout s1 ! i) + ?b,
             data_offset := data_offset (fs_layout s1 ! i) + ?b * BLOCK_SIZE\<rparr>]\<rparr>"
  have "?b * BLOCK_SIZE \<noteq> 0" using header_growth_pos(1)[OF grown(1)] by (simp add: BLOCK_SIZE_def)
  then have "fs_layout s1 = bump_offsets (data_offset (fs_layout s ! i)) (?b * BLOCK_SIZE) (fs_layout s)"
    "length (fs_bytes s) + ?b * BLOCK_SIZE \<le> length (fs_bytes s1)"
    using shift_any[OF grown(2)] by auto
  then have "layout_ok ?s" by (intro grown_layout_ok[OF ok i, of _ ?b]) (simp_all add: grown_layout_def Let_def)
  then show ?thesis using grown(3) keeps_write_header layout_ok_longer unfolding keeps_def by blast
qed


lemma header_bytes_length:
  "length cards \<le> blocks * CARDS_PER_BLOCK \<Longrightarrow> length (header_block_bytes cards (blocks * BLOCK_SIZE)) = blocks * BLOCK_SIZE"
  by (simp add: header_block_bytes_def Let_def fits_sizes)

lemma write_header_ok:
  "\<exists>p k. write_header no_faults off cards blocks s
     = (Inr (), s\<lparr>fs_bytes := write_at (fs_bytes s) off (header_block_bytes cards (blocks * BLOCK_SIZE)), fs_pos := p, fs_ops := k\<rparr>)"
  unfolding write_header_def by (intro exI) (simp add: storage_defs no_faults_def)

lemma write_at_parts:
  assumes "pos + length w \<le> length bs"
  shows "take pos (write_at bs pos w) = take pos bs" "take (length w) (drop pos (write_at bs pos w)) = w"
    "drop (pos + length w) (write_at bs pos w) = drop (pos + length w) bs"
  using assms by (cases w; auto simp: write_at_def)+

subsection \<open>Steps of a file\<close>

text \<open>
  The operations that change the file while HDUs are open, each with any faults and any outcome:
  rewriting a header, growing a data section, and writing inside the file.
\<close>

inductive file_step :: "file_state \<Rightarrow> file_state \<Rightarrow> bool" where
  header_step: "i < length (fs_layout s) \<Longrightarrow> rewrite_header_to_disk flt i cards s = (r, s') \<Longrightarrow> file_step s s'"
| grow_step: "i < length (fs_layout s) \<Longrightarrow> grow_file_to_at_least flt (data_offset (fs_layout s ! i)) n s = (r, s') \<Longrightarrow> file_step s s'"
| write_step: "io_bind (st_seek flt p) (\<lambda>_. taint_err (st_write_all flt w)) s = (r, s') \<Longrightarrow> file_step s s'"

inductive_cases file_stepE: "file_step s s'"

lemma data_write_ok:
  assumes "layout_ok s" "io_bind (st_seek flt p) (\<lambda>_. taint_err (st_write_all flt w)) s = (r, s')"
  shows "layout_ok s'"
proof -
  have "keeps (io_bind (st_seek flt p) (\<lambda>_. taint_err (st_write_all flt w)))" by auto
  then show ?thesis using assms(2) layout_ok_longer[OF assms(1)] unfolding keeps_def by blast
qed

lemma file_step_layout_ok: "layout_ok s \<Longrightarrow> file_step s s' \<Longrightarrow> layout_ok s'"
  by (elim file_stepE) (blast intro: rewrite_layout_ok grow_layout_ok data_write_ok)+

subsection \<open>Properties\<close>

text \<open>
  C34: in every state reachable by header rewrites, growth and writes, with any I/O failures in
  between, the offset records are consistent: each HDU has at least one header block, its data
  starts right after its header blocks and inside the file, and the HDUs are in order without
  overlap. This is the invariant stated on \<open>HduOffsets\<close>.
\<close>

theorem layout_invariant:
  assumes "layout_ok s" "file_step\<^sup>*\<^sup>* s s'"
  shows "layout_ok s'"
  using assms(2) by (induction rule: rtranclp_induct) (use assms(1) file_step_layout_ok in blast)+

theorem layout_invariant_witness:
  "layout_ok (snd (io_bind (st_seek no_faults 2880) (\<lambda>_. taint_err (st_write_all no_faults [1, 2, 3]))
     \<lparr>fs_bytes = replicate 2880 32, fs_pos = 0, fs_ops = 0, fs_tainted = False,
      fs_layout = [\<lparr>header_offset = 0, header_block_count = 1, data_offset = 2880\<rparr>]\<rparr>))"
proof -
  let ?s = "\<lparr>fs_bytes = replicate 2880 32, fs_pos = 0, fs_ops = 0, fs_tainted = False,
      fs_layout = [\<lparr>header_offset = 0, header_block_count = 1, data_offset = 2880\<rparr>]\<rparr>"
  let ?m = "io_bind (st_seek no_faults 2880) (\<lambda>_. taint_err (st_write_all no_faults [1, 2, 3]))"
  have "file_step ?s (snd (?m ?s))" by (rule file_step.write_step[of no_faults 2880 "[1, 2, 3]" _ "fst (?m ?s)"]) simp
  then have "file_step\<^sup>*\<^sup>* ?s (snd (?m ?s))" by (rule r_into_rtranclp)
  moreover have "layout_ok ?s" by (simp add: layout_ok_def BLOCK_SIZE_def)
  ultimately show ?thesis using layout_invariant by blast
qed

text \<open>
  C35: shifting the tail of the file moves exactly that tail: everything before the insertion point
  stays, everything after it is found \<open>delta\<close> bytes later, in chunks copied from the back so that no
  byte is overwritten before it is read, and the offset records at or after the insertion point
  follow.
\<close>

theorem shift_tail_correct:
  assumes "after \<le> length (fs_bytes s)"
  shows "\<exists>s'. shift_file_tail_and_update_offsets no_faults after delta s = (Inr (), s') \<and>
    length (fs_bytes s') = length (fs_bytes s) + delta \<and>
    take after (fs_bytes s') = take after (fs_bytes s) \<and>
    drop (after + delta) (fs_bytes s') = drop after (fs_bytes s) \<and>
    fs_layout s' = bump_offsets after delta (fs_layout s) \<and> fs_tainted s' = fs_tainted s"
proof (cases "delta = 0")
  case True
  then show ?thesis by (simp add: shift_file_tail_and_update_offsets_def io_return_def bump_zero)
next
  case False
  then obtain p k where "shift_file_tail_and_update_offsets no_faults after delta s
    = (Inr (), s\<lparr>fs_bytes := shifted (fs_bytes s) after delta, fs_pos := p, fs_ops := k, fs_layout := bump_offsets after delta (fs_layout s)\<rparr>)"
    using shift_ok[OF assms] by blast
  then show ?thesis using shifted_parts[OF assms] by simp
qed

theorem shift_tail_correct_witness:
  "\<exists>s'. shift_file_tail_and_update_offsets no_faults 1 2 \<lparr>fs_bytes = [10, 20, 30], fs_pos = 0, fs_ops = 0, fs_tainted = False, fs_layout = []\<rparr>
     = (Inr (), s') \<and> drop 3 (fs_bytes s') = [20, 30]"
  using shift_tail_correct[of 1 "\<lparr>fs_bytes = [10, 20, 30], fs_pos = 0, fs_ops = 0, fs_tainted = False, fs_layout = []\<rparr>" 2]
  by (auto simp: numeral_3_eq_3)

text \<open>
  C36: shifting back undoes shifting forward: bytes and offset records are what they were.
\<close>

theorem shift_back_undoes_shift:
  assumes "after \<le> length (fs_bytes s)"
  shows "\<exists>s' s''. shift_file_tail_and_update_offsets no_faults after delta s = (Inr (), s') \<and>
    shift_file_tail_backward_and_update_offsets no_faults (after + delta) delta s' = (Inr (), s'') \<and>
    fs_bytes s'' = fs_bytes s \<and> fs_layout s'' = fs_layout s"
proof (cases "delta = 0")
  case True
  then show ?thesis
    by (simp add: shift_file_tail_and_update_offsets_def shift_file_tail_backward_and_update_offsets_def io_return_def)
next
  case False
  then have d: "0 < delta" by simp
  obtain p k where f: "shift_file_tail_and_update_offsets no_faults after delta s
    = (Inr (), s\<lparr>fs_bytes := shifted (fs_bytes s) after delta, fs_pos := p, fs_ops := k, fs_layout := bump_offsets after delta (fs_layout s)\<rparr>)"
    (is "_ = (_, ?s)") using shift_ok[OF assms d] by blast
  note P = shifted_parts[OF assms, of delta]
  have "take after (shifted (fs_bytes s) after delta) @ drop (after + delta) (shifted (fs_bytes s) after delta) = fs_bytes s"
    unfolding P by simp
  moreover have "drop_offsets (after + delta) delta (bump_offsets after delta (fs_layout s)) = fs_layout s"
    unfolding drop_offsets_def bump_offsets_def map_map o_def by (rule map_idI) auto
  ultimately show ?thesis
    using f shift_back_ok[of "after + delta" ?s delta] assms d P(1) by auto
qed

theorem shift_back_undoes_shift_witness:
  "\<exists>s' s''. shift_file_tail_and_update_offsets no_faults 1 2 \<lparr>fs_bytes = [10, 20, 30], fs_pos = 0, fs_ops = 0, fs_tainted = False, fs_layout = []\<rparr>
     = (Inr (), s') \<and> shift_file_tail_backward_and_update_offsets no_faults 3 2 s' = (Inr (), s'') \<and> fs_bytes s'' = [10, 20, 30]"
  using shift_back_undoes_shift[of 1 "\<lparr>fs_bytes = [10, 20, 30], fs_pos = 0, fs_ops = 0, fs_tainted = False, fs_layout = []\<rparr>" 2]
  by (auto simp: numeral_3_eq_3 numeral_2_eq_2)

text \<open>
  C37: whatever call fails and however much of a write got through, a shift in either direction that
  reports an error has either set the taint flag or left the bytes and the offsets exactly as they
  were.
\<close>

theorem shift_failure_taints:
  assumes "shift_file_tail_and_update_offsets flt off delta s = (Inl e, s') \<or>
           shift_file_tail_backward_and_update_offsets flt off delta s = (Inl e, s')"
    and "\<not> fs_tainted s'"
  shows "fs_bytes s' = fs_bytes s \<and> fs_layout s' = fs_layout s"
  using assms shift_fails[of flt off delta s e s'] shift_back_fails[of flt off delta s e s'] by blast

theorem shift_failure_taints_witness:
  "\<exists>s'. shift_file_tail_and_update_offsets (\<lambda>k. if k = 1 then Some 0 else None) 1 2
       \<lparr>fs_bytes = [10, 20, 30], fs_pos = 0, fs_ops = 0, fs_tainted = False, fs_layout = []\<rparr> = (Inl IoFault, s') \<and> fs_bytes s' = [10, 20, 30]"
proof -
  let ?s = "\<lparr>fs_bytes = [10, 20, 30 :: u8], fs_pos = 0, fs_ops = 0, fs_tainted = False, fs_layout = []\<rparr>"
  obtain s' where s': "shift_file_tail_and_update_offsets (\<lambda>k. if k = 1 then Some 0 else None) 1 2 ?s = (Inl IoFault, s')" "\<not> fs_tainted s'"
    by (simp add: shift_file_tail_and_update_offsets_def storage_defs Let_def)
  then show ?thesis using shift_failure_taints[OF disjI1[OF s'(1)] s'(2)] by simp
qed

text \<open>
  C38: rewriting a header, with room or without, leaves exactly the new cards in the header blocks,
  with enough blocks for them, keeps everything before the header, and keeps the data section and
  all later HDUs, at an offset the record now holds.
\<close>

theorem rewrite_header_correct:
  assumes ok: "layout_ok s" and i: "i < length (fs_layout s)"
  shows "\<exists>s'. rewrite_header_to_disk no_faults i cards s = (Inr (), s') \<and>
    (let h = fs_layout s ! i; h' = fs_layout s' ! i; n = header_block_count h' * BLOCK_SIZE
     in header_offset h' = header_offset h \<and> length cards \<le> header_block_count h' * CARDS_PER_BLOCK \<and>
        take (header_offset h) (fs_bytes s') = take (header_offset h) (fs_bytes s) \<and>
        take n (drop (header_offset h) (fs_bytes s')) = header_block_bytes cards n \<and>
        drop (data_offset h') (fs_bytes s') = drop (data_offset h) (fs_bytes s))"
proof -
  let ?h = "fs_layout s ! i" and ?b = "header_growth (length cards) (fs_layout s ! i)"
  let ?n = "(header_block_count ?h + ?b) * BLOCK_SIZE"
  obtain r s' where w: "rewrite_header_to_disk no_faults i cards s = (r, s')" by (cases "rewrite_header_to_disk no_faults i cards s")
  note L = layout_nth[OF ok i i]
  have le: "data_offset ?h \<le> length (fs_bytes s)" "header_offset ?h \<le> data_offset ?h" using L(3,5) by simp_all
  have fit: "length cards \<le> (header_block_count ?h + ?b) * CARDS_PER_BLOCK"
  proof (cases "length cards > header_block_count ?h * CARDS_PER_BLOCK")
    case True
    then show ?thesis using header_growth_pos(2)[OF True] div_ceil_mult[of CARDS_PER_BLOCK "length cards"] by (simp add: fits_sizes)
  qed (simp add: header_growth_def)
  note len = header_bytes_length[OF fit]
  have "\<exists>s1. fs_bytes s1 = shifted (fs_bytes s) (data_offset ?h) (?b * BLOCK_SIZE) \<and>
      fs_layout s1 = grown_layout (fs_layout s) i ?b \<and>
      write_header no_faults (header_offset ?h) cards (header_block_count ?h + ?b) s1 = (r, s')"
    using w
  proof (cases rule: rewrite_cases)
    case fits
    then have "?b = 0" by (simp add: header_growth_def)
    moreover have "grown_layout (fs_layout s) i 0 = fs_layout s" by (simp add: grown_layout_def bump_zero)
    moreover have "shifted (fs_bytes s) (data_offset ?h) 0 = fs_bytes s"
      by (rule nth_equalityI) (auto simp: shifted_def memmove_nth le(1))
    ultimately show ?thesis using fits(2) by auto
  next
    case (failed e)
    then show ?thesis
      using shift_ok[OF le(1), of "?b * BLOCK_SIZE"] by (cases "?b * BLOCK_SIZE = 0")
        (auto simp: shift_file_tail_and_update_offsets_def io_return_def)
  next
    case (grown s1)
    have "0 < ?b * BLOCK_SIZE" using header_growth_pos(1)[OF grown(1)] by (simp add: BLOCK_SIZE_def)
    then have "fs_bytes s1 = shifted (fs_bytes s) (data_offset ?h) (?b * BLOCK_SIZE)"
      "fs_layout s1 = bump_offsets (data_offset ?h) (?b * BLOCK_SIZE) (fs_layout s)"
      using shift_ok[OF le(1), of "?b * BLOCK_SIZE"] grown(2) by auto
    then show ?thesis using grown(3) by (intro exI conjI) (auto simp: grown_layout_def Let_def)
  qed
  then obtain s1 where s1: "fs_bytes s1 = shifted (fs_bytes s) (data_offset ?h) (?b * BLOCK_SIZE)"
    "fs_layout s1 = grown_layout (fs_layout s) i ?b"
    "write_header no_faults (header_offset ?h) cards (header_block_count ?h + ?b) s1 = (r, s')" by blast
  let ?w = "header_block_bytes cards ?n"
  have s': "r = Inr ()" "fs_bytes s' = write_at (fs_bytes s1) (header_offset ?h) ?w" "fs_layout s' = fs_layout s1"
    using write_header_ok[of "header_offset ?h" cards "header_block_count ?h + ?b" s1] s1(3) by auto
  have d: "header_offset ?h + length ?w = data_offset ?h + ?b * BLOCK_SIZE" unfolding len using L(4) by (simp add: algebra_simps)
  note P = shifted_parts[OF le(1), of "?b * BLOCK_SIZE"]
  have "header_offset ?h + length ?w \<le> length (fs_bytes s1)" using d P(1) le s1(1) by simp
  note W = write_at_parts[OF this]
  have h': "fs_layout s' ! i = ?h\<lparr>header_block_count := header_block_count ?h + ?b, data_offset := data_offset ?h + ?b * BLOCK_SIZE\<rparr>"
    unfolding s' s1 grown_nth[OF ok i i] by (simp add: Let_def)
  have "take (header_offset ?h) (fs_bytes s1) = take (header_offset ?h) (fs_bytes s)"
    using arg_cong[OF P(2), of "take (header_offset ?h)"] le(2) s1(1) by (simp add: min_def)
  moreover have "drop (data_offset ?h + ?b * BLOCK_SIZE) (fs_bytes s') = drop (data_offset ?h) (fs_bytes s)"
    using W(3) P(3) unfolding s' d s1(1) by simp
  ultimately show ?thesis
    using w s'(1,2) W(1,2) fit len by (intro exI[of _ s']) (simp add: h' Let_def)
qed


theorem rewrite_header_correct_witness:
  "\<exists>s'. rewrite_header_to_disk no_faults 0 (replicate 37 ''END'')
      \<lparr>fs_bytes = replicate 2880 32 @ [7], fs_pos = 0, fs_ops = 0, fs_tainted = False,
       fs_layout = [\<lparr>header_offset = 0, header_block_count = 1, data_offset = 2880\<rparr>]\<rparr> = (Inr (), s') \<and>
    drop (data_offset (fs_layout s' ! 0)) (fs_bytes s') = [7]"
proof -
  let ?s = "\<lparr>fs_bytes = replicate 2880 32 @ [7 :: u8], fs_pos = 0, fs_ops = 0, fs_tainted = False,
       fs_layout = [\<lparr>header_offset = 0, header_block_count = 1, data_offset = 2880\<rparr>]\<rparr>"
  have "layout_ok ?s" "0 < length (fs_layout ?s)" by (simp_all add: layout_ok_def BLOCK_SIZE_def)
  from rewrite_header_correct[OF this, of "replicate 37 ''END''"] show ?thesis
    by (auto simp: Let_def)
qed



text \<open>
  C40: copying inside the file in chunks of any size moves the bytes as one block when the
  destination does not lie inside the source after its start (it is at or before the source, or
  past its end), which are the two patterns the comment on \<open>stream_copy_in_file\<close> allows.
\<close>

theorem stream_copy_moves_block:
  assumes "src + len \<le> length (fs_bytes s)" "dst + len \<le> length (fs_bytes s)" "dst \<le> src \<or> src + len \<le> dst" "0 < chunk"
  shows "\<exists>s'. stream_copy_in_file no_faults src dst len chunk s = (Inr (), s') \<and>
    take len (drop dst (fs_bytes s')) = take len (drop src (fs_bytes s)) \<and>
    take dst (fs_bytes s') = take dst (fs_bytes s) \<and> drop (dst + len) (fs_bytes s') = drop (dst + len) (fs_bytes s) \<and>
    fs_tainted s' = fs_tainted s"
proof -
  have "length (take len (drop src (fs_bytes s))) = len" using assms(1) by simp
  then have W: "take dst (memmove (fs_bytes s) src dst len) = take dst (fs_bytes s)"
    "take len (drop dst (memmove (fs_bytes s) src dst len)) = take len (drop src (fs_bytes s))"
    "drop (dst + len) (memmove (fs_bytes s) src dst len) = drop (dst + len) (fs_bytes s)"
    using write_at_parts[of dst "take len (drop src (fs_bytes s))" "fs_bytes s"] assms(2) by (simp_all add: memmove_def)
  have "runs (stream_copy_in_file no_faults src dst len chunk) s (memmove (fs_bytes s) src dst len)"
    using runs_copy_loop[of src len s dst chunk 0] assms by (simp add: stream_copy_in_file_def)
  then show ?thesis using W by (auto simp: runs_def)
qed

theorem stream_copy_moves_block_witness:
  "\<exists>s'. stream_copy_in_file no_faults 2 0 2 1 \<lparr>fs_bytes = [1, 2, 3, 4], fs_pos = 0, fs_ops = 0, fs_tainted = False, fs_layout = []\<rparr>
     = (Inr (), s') \<and> take 2 (fs_bytes s') = [3, 4]"
  using stream_copy_moves_block[of 2 2 "\<lparr>fs_bytes = [1, 2, 3, 4], fs_pos = 0, fs_ops = 0, fs_tainted = False, fs_layout = []\<rparr>" 0 1]
  by auto

text \<open>
  A seek that fails between two chunks of such a copy is reported without setting the taint
  flag although bytes have already moved.
\<close>

theorem stream_copy_seek_untainted:
  "\<exists>s'. stream_copy_in_file (\<lambda>k. if k = 4 then Some 0 else None) 2 0 2 1
       \<lparr>fs_bytes = [1, 2, 3, 4], fs_pos = 0, fs_ops = 0, fs_tainted = False, fs_layout = []\<rparr> = (Inl IoFault, s') \<and>
     \<not> fs_tainted s' \<and> fs_bytes s' = [3, 2, 3, 4]"
  by (simp add: stream_copy_in_file_def copy_loop.simps storage_defs write_at_def)

end
