(* ===== verification/ImageSlices.thy ===== *)
theory ImageSlices
  imports NdIndex FileStore Pixels
begin

text \<open>
  Reading and writing boxes of an uncompressed image (\<open>src/hdu_image.rs\<close>): the index key, the
  division of a box into contiguous strips, and the loops that read or write one strip per step of
  an odometer. The pixel buffers are byte lists; the conversion of numpy types and the scaling by
  BSCALE and BZERO around these loops are not modelled, and the number of bytes per pixel is the
  one of the bit depth.
\<close>

subsection \<open>Index keys\<close>

record axis_slice =
  sl_start :: nat
  sl_step :: nat
  sl_count :: nat
  sl_is_int :: bool

text \<open>The items of a Python index: a slice with its three optional parts, an integer, an ellipsis, or something else.\<close>

datatype key_item = KSlice "int option" "int option" "int option" | KInt int | KEllipsis | KOther

text \<open>
  What \<open>slice.indices(dim)\<close> gives for a positive step: bounds clipped to the axis, negative ones
  counted from its end, and the number of selected positions.
\<close>

definition clip_bound :: "nat \<Rightarrow> int \<Rightarrow> int" where
  "clip_bound dim v = (if v < 0 then max 0 (v + int dim) else min v (int dim))"

definition slice_indices :: "nat \<Rightarrow> int option \<Rightarrow> int option \<Rightarrow> int \<Rightarrow> nat \<times> nat" where
  "slice_indices dim start stop step =
     (let a = clip_bound dim (case start of None \<Rightarrow> 0 | Some v \<Rightarrow> v);
          b = clip_bound dim (case stop of None \<Rightarrow> int dim | Some v \<Rightarrow> v)
      in (nat a, if a < b then nat ((b - a - 1) div step + 1) else 0))"

definition full_axis_slice :: "nat \<Rightarrow> axis_slice" where
  "full_axis_slice dim = \<lparr>sl_start = 0, sl_step = 1, sl_count = dim, sl_is_int = False\<rparr>"

definition parse_axis_indexer :: "key_item \<Rightarrow> nat \<Rightarrow> io_error + axis_slice" where
  "parse_axis_indexer item dim =
     (case item of
        KSlice start stop step \<Rightarrow>
          (let st = (case step of None \<Rightarrow> 1 | Some v \<Rightarrow> v)
           in if st \<le> 0 then Inl (ValueError ''negative or zero step is not supported'')
              else (let (a, n) = slice_indices dim start stop st
                    in Inr \<lparr>sl_start = a, sl_step = nat st, sl_count = n, sl_is_int = False\<rparr>))
      | KInt i \<Rightarrow>
          (let normalized = (if i < 0 then int dim + i else i)
           in if normalized < 0 \<or> normalized \<ge> int dim then Inl (IndexError i dim)
              else Inr \<lparr>sl_start = nat normalized, sl_step = 1, sl_count = 1, sl_is_int = True\<rparr>)
      | _ \<Rightarrow> Inl (ValueError ''unsupported index type''))"

definition is_ellipsis :: "key_item \<Rightarrow> bool" where
  "is_ellipsis item = (case item of KEllipsis \<Rightarrow> True | _ \<Rightarrow> False)"

text \<open>The walk over the items: \<open>dims\<close> are the axes not yet used, \<open>fill\<close> the axes an ellipsis stands for.\<close>

fun index_axes :: "key_item list \<Rightarrow> nat \<Rightarrow> shape \<Rightarrow> io_error + axis_slice list" where
  "index_axes [] fill dims = Inr (map full_axis_slice dims)"
| "index_axes (item # items) fill dims =
     (if is_ellipsis item
      then res_bind (index_axes items fill (drop fill dims)) (\<lambda>out. Inr (map full_axis_slice (take fill dims) @ out))
      else case dims of
             [] \<Rightarrow> Inl (ValueError ''index out of range'')
           | d # ds \<Rightarrow> res_bind (parse_axis_indexer item d) (\<lambda>s. res_bind (index_axes items fill ds) (\<lambda>out. Inr (s # out))))"

definition normalize_slice_key :: "key_item list \<Rightarrow> shape \<Rightarrow> io_error + axis_slice list" where
  "normalize_slice_key items hdu_shape =
     (let n_ellipsis = length (filter is_ellipsis items);
          n_explicit = length items - (if n_ellipsis > 0 then 1 else 0)
      in if n_ellipsis > 1 then Inl (ValueError ''an index can only have a single ellipsis'')
         else if n_explicit > length hdu_shape then Inl (ValueError ''too many indices for array'')
         else index_axes items (length hdu_shape - n_explicit) hdu_shape)"

subsection \<open>Strips\<close>

definition row_major_strides :: "shape \<Rightarrow> nat list" where
  "row_major_strides shape = strides 1 shape"

text \<open>The loops run from the last axis; their arguments are the axes in that order.\<close>

fun read_strip_loop :: "(nat \<times> axis_slice) list \<Rightarrow> nat \<Rightarrow> nat \<times> nat" where
  "read_strip_loop [] strip_pixels = (0, strip_pixels)"
| "read_strip_loop ((dim, s) # axes) strip_pixels =
     (if sl_step s \<noteq> 1 then (Suc (length axes), strip_pixels)
      else
        (let strip = strip_pixels * sl_count s
         in if sl_start s \<noteq> 0 \<or> sl_count s \<noteq> dim then (length axes, strip) else read_strip_loop axes strip))"

definition compute_read_strip_layout :: "shape \<Rightarrow> axis_slice list \<Rightarrow> nat \<times> nat" where
  "compute_read_strip_layout hdu_shape slices = read_strip_loop (rev (zip hdu_shape slices)) 1"

fun write_strip_loop :: "(nat \<times> nat \<times> nat) list \<Rightarrow> nat \<Rightarrow> nat \<times> nat" where
  "write_strip_loop [] strip_pixels = (0, strip_pixels)"
| "write_strip_loop ((dim, data_dim, start) # axes) strip_pixels =
     (let strip = strip_pixels * data_dim
      in if start \<noteq> 0 \<or> data_dim \<noteq> dim then (length axes, strip) else write_strip_loop axes strip)"

definition compute_strip_layout :: "shape \<Rightarrow> shape \<Rightarrow> coord \<Rightarrow> nat \<times> nat" where
  "compute_strip_layout hdu_shape data_shape start = write_strip_loop (rev (zip hdu_shape (zip data_shape start))) 1"

definition bytes_per_pixel :: "int \<Rightarrow> nat" where
  "bytes_per_pixel bitpix = nat (\<bar>bitpix\<bar> div 8)"

subsection \<open>Reading\<close>

definition strip_source :: "shape \<Rightarrow> axis_slice list \<Rightarrow> nat \<Rightarrow> coord \<Rightarrow> nat" where
  "strip_source hdu_shape slices outer_axes iter_idx =
     (let hdu_strides = row_major_strides hdu_shape;
          inner_start = dot (map sl_start (drop outer_axes slices)) (drop outer_axes hdu_strides)
      in inner_start + dot (map2 (\<lambda>s i. sl_start s + i * sl_step s) (take outer_axes slices) iter_idx) (take outer_axes hdu_strides))"

fun read_strips :: "faults \<Rightarrow> nat \<Rightarrow> nat list \<Rightarrow> bytes io" where
  "read_strips flt strip_bytes [] = io_return []"
| "read_strips flt strip_bytes (pos # ps) =
     io_bind (st_seek flt pos) (\<lambda>_.
     io_bind (st_read_exact flt strip_bytes) (\<lambda>strip.
     io_bind (read_strips flt strip_bytes ps) (\<lambda>rest. io_return (strip @ rest))))"

definition read_image_slice :: "faults \<Rightarrow> bool \<Rightarrow> int \<Rightarrow> shape \<Rightarrow> nat \<Rightarrow> axis_slice list \<Rightarrow> bytes io" where
  "read_image_slice flt big bitpix hdu_shape data_off slices =
     (if hdu_shape = [] then (\<lambda>s. (Inl (ValueError ''HDU has NAXIS=0 (no data section)''), s))
      else if length slices \<noteq> length hdu_shape then (\<lambda>s. (Inl (ValueError ''internal error''), s))
      else if bitpix \<notin> {8, 16, 32, 64, - 32, - 64} then (\<lambda>s. (Inl (ValueError ''unsupported BITPIX''), s))
      else if prod_list (map sl_count slices) = 0 then io_return []
      else
        (let bpp = bytes_per_pixel bitpix;
             (outer_axes, strip_pixels) = compute_read_strip_layout hdu_shape slices;
             outer_counts = map sl_count (take outer_axes slices);
             coords = odometer (prod_list outer_counts) outer_counts (replicate outer_axes 0)
         in io_bind (read_strips flt (strip_pixels * bpp)
                (map (\<lambda>c. data_off + strip_source hdu_shape slices outer_axes c * bpp) coords)) (\<lambda>buf.
              io_return (to_native big bpp buf))))"

subsection \<open>Writing\<close>

text \<open>One strip: written as it is, or byte-swapped through a scratch buffer of at most 1 MiB.\<close>

definition MAX_CHUNK_BYTES :: nat where "MAX_CHUNK_BYTES = 1048576"

function swap_write :: "faults \<Rightarrow> nat \<Rightarrow> nat \<Rightarrow> bytes \<Rightarrow> unit io" where
  "swap_write flt bpp scratch_len src =
     (if src = [] \<or> scratch_len = 0 then io_return ()
      else
        (let n = min (length src) scratch_len
         in io_bind (st_write_all flt (to_native False bpp (take n src))) (\<lambda>_. swap_write flt bpp scratch_len (drop n src))))"
  by auto
termination by (relation "measure (\<lambda>(_, _, _, src). length src)") auto

declare swap_write.simps [simp del]

definition write_strip :: "faults \<Rightarrow> bool \<Rightarrow> nat \<Rightarrow> nat \<Rightarrow> bytes \<Rightarrow> unit io" where
  "write_strip flt needs_swap bpp pos src =
     io_bind (st_seek flt pos) (\<lambda>_.
     if needs_swap then swap_write flt bpp (min (length src) MAX_CHUNK_BYTES) src else st_write_all flt src)"

fun write_strips :: "faults \<Rightarrow> bool \<Rightarrow> nat \<Rightarrow> (nat \<times> bytes) list \<Rightarrow> unit io" where
  "write_strips flt needs_swap bpp [] = io_return ()"
| "write_strips flt needs_swap bpp ((pos, src) # strips) =
     io_bind (write_strip flt needs_swap bpp pos src) (\<lambda>_. write_strips flt needs_swap bpp strips)"

definition check_start :: "nat \<Rightarrow> int list option \<Rightarrow> io_error + coord" where
  "check_start naxis start =
     (case start of
        None \<Rightarrow> Inr (replicate naxis 0)
      | Some s \<Rightarrow> if length s \<noteq> naxis then Inl (ValueError ''start has the wrong number of components'')
                 else if \<exists>v \<in> set s. v < 0 then Inl (ValueError ''start must be >= 0'')
                 else Inr (map nat s))"

definition write_image_data ::
  "faults \<Rightarrow> bool \<Rightarrow> int \<Rightarrow> shape \<Rightarrow> nat \<Rightarrow> bytes \<Rightarrow> shape \<Rightarrow> int list option \<Rightarrow> unit io" where
  "write_image_data flt little bitpix hdu_shape data_off data data_shape start =
     (if hdu_shape = [] then (\<lambda>s. (Inl (ValueError ''HDU has NAXIS=0 (no data section)''), s))
      else if bitpix \<notin> {8, 16, 32, 64, - 32, - 64} then (\<lambda>s. (Inl (ValueError ''unsupported BITPIX''), s))
      else if length data_shape \<noteq> length hdu_shape then (\<lambda>s. (Inl (ValueError ''data has the wrong number of axes''), s))
      else
        (case check_start (length hdu_shape) start of
           Inl e \<Rightarrow> (\<lambda>s. (Inl e, s))
         | Inr start_vec \<Rightarrow>
             if list_ex (\<lambda>(st, (n, dim)). st + n > dim) (zip start_vec (zip data_shape hdu_shape))
             then (\<lambda>s. (Inl (ValueError ''start + data shape exceeds HDU dim''), s))
             else if prod_list data_shape = 0 then io_return ()
             else
               (let bpp = bytes_per_pixel bitpix;
                    (outer_axes, strip_pixels) = compute_strip_layout hdu_shape data_shape start_vec;
                    strip_bytes = strip_pixels * bpp;
                    hdu_strides = row_major_strides hdu_shape;
                    src_strides = row_major_strides data_shape;
                    base_pixel = dot start_vec hdu_strides;
                    outer_shape = take outer_axes data_shape;
                    coords = odometer (prod_list outer_shape) outer_shape (replicate outer_axes 0)
                in if length data \<noteq> prod_list data_shape * bpp
                   then (\<lambda>s. (Inl (ValueError ''buffer length disagrees with data shape''), s))
                   else io_bind (write_strips flt (little \<and> bpp \<noteq> 1) bpp
                     (map (\<lambda>idx. (data_off + (base_pixel + dot idx (take outer_axes hdu_strides)) * bpp,
                                  take strip_bytes (drop (dot idx (take outer_axes src_strides) * bpp) data))) coords)) (\<lambda>_.
                     st_flush flt))))"

subsection \<open>Strips of a box\<close>

definition sel :: "axis_slice list \<Rightarrow> coord \<Rightarrow> coord" where
  "sel slices c = map2 (\<lambda>s i. sl_start s + i * sl_step s) slices c"

definition slices_ok :: "shape \<Rightarrow> axis_slice list \<Rightarrow> bool" where
  "slices_ok shape slices \<longleftrightarrow>
     list_all2 (\<lambda>dim s. 0 < sl_step s \<and> (sl_count s = 0 \<or> sl_start s + (sl_count s - 1) * sl_step s < dim)) shape slices"

fun inner_ok :: "(nat \<times> axis_slice) list \<Rightarrow> bool" where
  "inner_ok [] = True"
| "inner_ok ((dim, s) # axes) \<longleftrightarrow>
     sl_step s = 1 \<and> (\<forall>(d, t) \<in> set axes. sl_step t = 1 \<and> sl_start t = 0 \<and> sl_count t = d)"

lemma inner_ok_snoc:
  "inner_ok axes \<Longrightarrow> sl_step s = 1 \<Longrightarrow> sl_start s = 0 \<Longrightarrow> sl_count s = dim \<Longrightarrow> inner_ok (axes @ [(dim, s)])"
  by (cases axes) auto

lemma read_strip_loop_spec:
  "read_strip_loop (rev zs) p = (out, sp) \<Longrightarrow>
   out \<le> length zs \<and> sp = p * prod_list (map (sl_count \<circ> snd) (drop out zs)) \<and> inner_ok (drop out zs)"
proof (induction zs arbitrary: p rule: rev_induct)
  case (snoc z zs)
  obtain dim s where z: "z = (dim, s)" by (cases z)
  consider "sl_step s \<noteq> 1" | "sl_step s = 1" "sl_start s \<noteq> 0 \<or> sl_count s \<noteq> dim"
    | "sl_step s = 1" "sl_start s = 0" "sl_count s = dim" by blast
  then show ?case
  proof cases
    case 3
    then have "read_strip_loop (rev zs) (p * dim) = (out, sp)" using snoc.prems by (simp add: z)
    from snoc.IH[OF this] show ?thesis using 3 inner_ok_snoc[of "drop out zs" s dim] by (simp add: z)
  qed (use snoc.prems in \<open>auto simp: z Let_def\<close>)
qed simp

lemma sel_append: "length c1 = length s1 \<Longrightarrow> sel (s1 @ s2) (c1 @ c2) = sel s1 c1 @ sel s2 c2"
  by (simp add: sel_def)

lemma length_sel [simp]: "length (sel slices c) = min (length slices) (length c)"
  by (simp add: sel_def)

lemma ravel_zero: "ravel s (replicate n 0) = 0"
proof (induction s arbitrary: n)
  case (Cons a s) then show ?case by (cases n) auto
qed simp

lemma full_axes:
  assumes "\<forall>(d, t) \<in> set axes. sl_step t = 1 \<and> sl_start t = 0 \<and> sl_count t = d"
  shows "map (sl_count \<circ> snd) axes = map fst axes" "length c = length axes \<Longrightarrow> sel (map snd axes) c = c"
    "map (sl_start \<circ> snd) axes = replicate (length axes) 0"
proof -
  show "map (sl_count \<circ> snd) axes = map fst axes" "map (sl_start \<circ> snd) axes = replicate (length axes) 0"
    using assms by (induction axes) auto
  show "length c = length axes \<Longrightarrow> sel (map snd axes) c = c"
    using assms by (induction axes arbitrary: c) (auto simp: sel_def length_Suc_conv)
qed

lemma inner_contiguous:
  assumes "inner_ok axes" "j < prod_list (map (sl_count \<circ> snd) axes)"
  shows "ravel (map fst axes) (sel (map snd axes) (unravel (map (sl_count \<circ> snd) axes) j))
    = ravel (map fst axes) (map (sl_start \<circ> snd) axes) + j"
proof (cases axes)
  case (Cons z rest)
  obtain dim s where z: "z = (dim, s)" by (cases z)
  have full: "\<forall>(d, t) \<in> set rest. sl_step t = 1 \<and> sl_start t = 0 \<and> sl_count t = d" and st: "sl_step s = 1"
    using assms(1) Cons z by simp_all
  note F = full_axes[OF full]
  let ?P = "prod_list (map fst rest)"
  have "0 < ?P" using assms(2) unfolding Cons list.map F(1) by (cases "?P = 0") auto
  then have "ravel (map fst rest) (unravel (map fst rest) (j mod ?P)) = j mod ?P" by (intro ravel_unravel) simp
  moreover have "ravel (map fst rest) (replicate (length rest) 0) = 0" by (rule ravel_zero)
  ultimately show ?thesis
    using F(2)[of "unravel (map fst rest) (j mod ?P)"] st unfolding Cons list.map F(1,3) z
    by (simp add: sel_def algebra_simps)
qed (use assms in \<open>simp add: sel_def\<close>)

lemma unravel_append:
  assumes "k < prod_list (s1 @ s2)"
  shows "unravel (s1 @ s2) k = unravel s1 (k div prod_list s2) @ unravel s2 (k mod prod_list s2)"
proof -
  have p: "0 < prod_list s2" using assms by (cases "prod_list s2 = 0") auto
  have d: "k div prod_list s2 < prod_list s1" using assms by (simp add: less_mult_imp_div_less)
  have m: "k mod prod_list s2 < prod_list s2" using p by simp
  let ?c = "unravel s1 (k div prod_list s2) @ unravel s2 (k mod prod_list s2)"
  have "in_box ?c (s1 @ s2)" using unravel_in_box[OF d] unravel_in_box[OF m] by (simp add: in_box_append)
  moreover have "ravel (s1 @ s2) ?c = k" using ravel_unravel[OF d] ravel_unravel[OF m] by (simp add: ravel_append)
  ultimately show ?thesis using unravel_ravel by metis
qed

lemma dot_append: "length xs = length us \<Longrightarrow> dot (xs @ ys) (us @ vs) = dot xs us + dot ys vs"
  by (simp add: dot_def)

lemma strip_source_ravel:
  assumes "out \<le> length shape" "length slices = length shape" "length c = out"
  shows "strip_source shape slices out c = ravel shape (sel (take out slices) c @ map sl_start (drop out slices))"
proof -
  let ?st = "strides 1 shape"
  have "strip_source shape slices out c = dot (sel (take out slices) c @ map sl_start (drop out slices)) (take out ?st @ drop out ?st)"
    using assms by (subst dot_append) (simp_all add: strip_source_def row_major_strides_def Let_def sel_def)
  also have "\<dots> = 1 * ravel shape (sel (take out slices) c @ map sl_start (drop out slices))"
    using assms by (subst append_take_drop_id, intro dot_strides) simp
  finally show ?thesis by simp
qed

text \<open>The source pixel of output pixel \<open>k\<close>, computed one pixel at a time.\<close>

definition source_pixel :: "shape \<Rightarrow> axis_slice list \<Rightarrow> nat \<Rightarrow> nat" where
  "source_pixel shape slices k = ravel shape (sel slices (unravel (map sl_count slices) k))"

lemma source_in_strip:
  assumes l: "length slices = length shape" and lay: "compute_read_strip_layout shape slices = (out, sp)"
    and k: "k < prod_list (map sl_count slices)"
  shows "source_pixel shape slices k
    = strip_source shape slices out (unravel (map sl_count (take out slices)) (k div sp)) + k mod sp"
proof -
  let ?zs = "zip shape slices"
  have S: "out \<le> length ?zs" "sp = prod_list (map (sl_count \<circ> snd) (drop out ?zs))" "inner_ok (drop out ?zs)"
    using read_strip_loop_spec[of ?zs 1 out sp] lay by (simp_all add: compute_read_strip_layout_def)
  have fs: "map fst (drop out ?zs) = drop out shape" "map snd (drop out ?zs) = drop out slices"
    using l by (simp_all add: drop_map[symmetric] map_fst_zip map_snd_zip flip: drop_map)
  have mc: "map (sl_count \<circ> snd) (drop out ?zs) = map sl_count (drop out slices)"
    "map (sl_start \<circ> snd) (drop out ?zs) = map sl_start (drop out slices)"
    unfolding fs(2)[symmetric] by simp_all
  let ?o = "unravel (map sl_count (take out slices)) (k div sp)" and ?i = "unravel (map sl_count (drop out slices)) (k mod sp)"
  have cs: "map sl_count slices = map sl_count (take out slices) @ map sl_count (drop out slices)"
    by (metis append_take_drop_id map_append)
  have sp: "sp = prod_list (map sl_count (drop out slices))" using S(2) mc by simp
  have "unravel (map sl_count slices) k = ?o @ ?i"
    using unravel_append[of k "map sl_count (take out slices)" "map sl_count (drop out slices)"] k unfolding cs sp by blast
  moreover have "sel slices (?o @ ?i) = sel (take out slices) ?o @ sel (drop out slices) ?i"
    using sel_append[of ?o "take out slices" "drop out slices" ?i] by simp
  moreover have "0 < sp" using k cs sp by (cases "sp = 0") auto
  then have "ravel (drop out shape) (sel (drop out slices) ?i) = ravel (drop out shape) (map sl_start (drop out slices)) + k mod sp"
    using inner_contiguous[OF S(3), of "k mod sp"] unfolding fs mc sp by simp
  moreover have "ravel shape (xs @ ys) = ravel (take out shape) xs * prod_list (drop out shape) + ravel (drop out shape) ys"
    if "length xs = out" for xs ys
    using ravel_append[of xs "take out shape" "drop out shape" ys] that S(1) l by simp
  ultimately show ?thesis
    using S(1) l by (simp add: source_pixel_def strip_source_ravel)
qed

lemma sel_in_box:
  assumes "slices_ok shape slices" "in_box c (map sl_count slices)"
  shows "in_box (sel slices c) shape"
  using assms unfolding slices_ok_def in_box_def sel_def
proof (induction shape slices arbitrary: c rule: list_all2_induct)
  case (Cons dim ds s ss)
  then obtain i cs where c: "c = i # cs" "i < sl_count s" by (auto simp: list_all2_Cons2)
  have le: "i * sl_step s \<le> (sl_count s - 1) * sl_step s" using c(2) by (intro mult_right_mono) simp_all
  have "sl_start s + (sl_count s - 1) * sl_step s < dim" using Cons.hyps(1) c(2) by auto
  with le have "sl_start s + i * sl_step s < dim" by linarith
  then show ?case using Cons c by simp
qed simp

lemma source_pixel_less:
  "slices_ok shape slices \<Longrightarrow> k < prod_list (map sl_count slices) \<Longrightarrow> source_pixel shape slices k < prod_list shape"
  unfolding source_pixel_def by (intro ravel_less sel_in_box unravel_in_box)


subsection \<open>Reading equals the pixelwise reference\<close>

definition pixel :: "nat \<Rightarrow> bytes \<Rightarrow> nat \<Rightarrow> nat \<Rightarrow> bytes" where
  "pixel bpp bs off k = take bpp (drop (off + k * bpp) bs)"

definition read_reference :: "nat \<Rightarrow> bytes \<Rightarrow> nat \<Rightarrow> shape \<Rightarrow> axis_slice list \<Rightarrow> bytes" where
  "read_reference bpp bs off shape slices =
     concat (map (\<lambda>k. pixel bpp bs off (source_pixel shape slices k)) [0..<prod_list (map sl_count slices)])"

lemma concat_blocks:
  "concat (map f [0..<a * b]) = concat (map (\<lambda>i. concat (map (\<lambda>j. f (i * b + j)) [0..<b])) [0..<a])"
proof (induction a)
  case (Suc a)
  have e: "[a * b..<a * b + b] = map (\<lambda>j. a * b + j) [0..<b]" using map_add_upt[of "a * b" b] by (simp add: add.commute)
  have "concat (map f [a * b..<a * b + b]) = concat (map (\<lambda>j. f (a * b + j)) [0..<b])" unfolding e by (simp add: o_def)
  then show ?case using Suc upt_add_eq_append[of 0 "a * b" b] by (simp add: add.commute)
qed simp

lemma take_drop_pixels:
  "off + p * bpp + n * bpp \<le> length bs \<Longrightarrow>
   take (n * bpp) (drop (off + p * bpp) bs) = concat (map (\<lambda>j. pixel bpp bs off (p + j)) [0..<n])"
proof (induction n)
  case (Suc n)
  have "take (Suc n * bpp) (drop (off + p * bpp) bs)
      = take (n * bpp) (drop (off + p * bpp) bs) @ take bpp (drop (n * bpp) (drop (off + p * bpp) bs))"
    using take_add[of "n * bpp" bpp "drop (off + p * bpp) bs"] by (simp add: add.commute)
  then show ?case using Suc by (simp add: pixel_def algebra_simps)
qed simp

lemma no_faults_at: "no_faults (fs_ops s) = None" "no_faults (Suc k) = None"
  by (simp_all add: no_faults_def)

lemma read_strips_ok:
  "\<forall>p \<in> set ps. p + n \<le> length (fs_bytes s) \<Longrightarrow>
   \<exists>q k. read_strips no_faults n ps s = (Inr (concat (map (\<lambda>p. take n (drop p (fs_bytes s))) ps)), s\<lparr>fs_pos := q, fs_ops := k\<rparr>)"
proof (induction ps arbitrary: s)
  case Nil
  show ?case by (rule exI[of _ "fs_pos s"], rule exI[of _ "fs_ops s"]) (simp add: io_return_def)
next
  case (Cons p ps)
  let ?s = "s\<lparr>fs_pos := p + n, fs_ops := Suc (Suc (fs_ops s))\<rparr>"
  obtain q k where "read_strips no_faults n ps ?s = (Inr (concat (map (\<lambda>p. take n (drop p (fs_bytes s))) ps)), ?s\<lparr>fs_pos := q, fs_ops := k\<rparr>)"
    using Cons.IH[of ?s] Cons.prems by auto
  then have "read_strips no_faults n (p # ps) s
      = (Inr (concat (map (\<lambda>p. take n (drop p (fs_bytes s))) (p # ps))), s\<lparr>fs_pos := q, fs_ops := k\<rparr>)"
    using Cons.prems by (simp add: storage_defs no_faults_at)
  then show ?case by blast
qed

text \<open>What the layout says of the strips: \<open>strip_at\<close> is the first pixel of strip \<open>i\<close>.\<close>

definition strip_at :: "shape \<Rightarrow> axis_slice list \<Rightarrow> nat \<Rightarrow> nat \<Rightarrow> nat" where
  "strip_at shape slices out i = strip_source shape slices out (unravel (map sl_count (take out slices)) i)"

lemma strip_layout:
  assumes l: "length slices = length shape" and lay: "compute_read_strip_layout shape slices = (out, sp)"
  shows "out \<le> length shape" "sp = prod_list (map sl_count (drop out slices))"
    "prod_list (map sl_count slices) = prod_list (map sl_count (take out slices)) * sp"
proof -
  have "out \<le> length (zip shape slices) \<and> sp = prod_list (map (sl_count \<circ> snd) (drop out (zip shape slices)))"
    using read_strip_loop_spec[of "zip shape slices" 1 out sp] lay by (simp add: compute_read_strip_layout_def)
  moreover have "map snd (drop out (zip shape slices)) = drop out slices" using l by (simp flip: drop_map)
  then have "map (sl_count \<circ> snd) (drop out (zip shape slices)) = map sl_count (drop out slices)"
    by (metis list.map_comp)
  ultimately show "out \<le> length shape" and sp: "sp = prod_list (map sl_count (drop out slices))" using l by simp_all
  show "prod_list (map sl_count slices) = prod_list (map sl_count (take out slices)) * sp"
    unfolding sp by (metis append_take_drop_id map_append prod_list.append)
qed

lemma strip_index_less:
  fixes i j sp :: nat
  assumes "i < a" "j < sp"
  shows "i * sp + j < a * sp"
proof -
  have "i * sp + j < Suc i * sp" using assms(2) by simp
  also have "\<dots> \<le> a * sp" using assms(1) by (intro mult_right_mono) auto
  finally show ?thesis .
qed

lemma strip_pixel:
  assumes l: "length slices = length shape" and lay: "compute_read_strip_layout shape slices = (out, sp)"
    and i: "i < prod_list (map sl_count (take out slices))" and j: "j < sp"
  shows "source_pixel shape slices (i * sp + j) = strip_at shape slices out i + j"
  using source_in_strip[OF l lay, of "i * sp + j"] strip_index_less[OF i j] strip_layout(3)[OF l lay] j
  by (simp add: strip_at_def)

lemma strip_fits:
  assumes sl: "slices_ok shape slices" and lay: "compute_read_strip_layout shape slices = (out, sp)"
    and i: "i < prod_list (map sl_count (take out slices))" and sp: "0 < sp"
  shows "strip_at shape slices out i + sp \<le> prod_list shape"
proof -
  have l: "length slices = length shape" using sl by (simp add: slices_ok_def list_all2_lengthD)
  have "source_pixel shape slices (i * sp + (sp - 1)) < prod_list shape"
    using strip_index_less[OF i, of "sp - 1" sp] strip_layout(3)[OF l lay] sp by (intro source_pixel_less[OF sl]) simp
  then show ?thesis using strip_pixel[OF l lay i, of "sp - 1"] sp by simp
qed

lemma strip_bytes_fit:
  fixes off bpp p n :: nat
  shows "p + n \<le> m \<Longrightarrow> off + m * bpp \<le> len \<Longrightarrow> off + p * bpp + n * bpp \<le> len"
proof -
  assume a: "p + n \<le> m" "off + m * bpp \<le> len"
  have "(p + n) * bpp \<le> m * bpp" using a(1) by (rule mult_right_mono) simp
  then show ?thesis using a(2) by (simp add: algebra_simps)
qed

lemma read_image_slice_ok:
  assumes ne: "shape \<noteq> []" and bp: "bitpix \<in> {8, 16, 32, 64, - 32, - 64}" and sl: "slices_ok shape slices"
    and room: "data_off + prod_list shape * bytes_per_pixel bitpix \<le> length (fs_bytes s)"
  shows "\<exists>q k. read_image_slice no_faults big bitpix shape data_off slices s
    = (Inr (to_native big (bytes_per_pixel bitpix) (read_reference (bytes_per_pixel bitpix) (fs_bytes s) data_off shape slices)),
       s\<lparr>fs_pos := q, fs_ops := k\<rparr>)"
proof -
  let ?bpp = "bytes_per_pixel bitpix" and ?n = "prod_list (map sl_count slices)" and ?bs = "fs_bytes s"
  have l: "length slices = length shape" using sl by (simp add: slices_ok_def list_all2_lengthD)
  show ?thesis
  proof (cases "?n = 0")
    case True
    then have "read_reference ?bpp ?bs data_off shape slices = []" by (simp add: read_reference_def)
    moreover have "to_native big ?bpp [] = []" using bp by (auto simp: to_native_eq bytes_per_pixel_def)
    ultimately have "read_image_slice no_faults big bitpix shape data_off slices s
        = (Inr (to_native big ?bpp (read_reference ?bpp ?bs data_off shape slices)), s\<lparr>fs_pos := fs_pos s, fs_ops := fs_ops s\<rparr>)"
      using True ne l bp by (simp add: read_image_slice_def io_return_def)
    then show ?thesis by blast
  next
    case False
    obtain out sp where lay: "compute_read_strip_layout shape slices = (out, sp)" by fastforce
    let ?oc = "map sl_count (take out slices)"
    note S = strip_layout[OF l lay]
    have sp0: "0 < sp" using False S(3) by (cases "sp = 0") auto
    have fit: "data_off + strip_at shape slices out i * ?bpp + sp * ?bpp \<le> length ?bs" if "i < prod_list ?oc" for i
      using strip_bytes_fit[OF strip_fits[OF sl lay that sp0] room] .
    let ?ps = "map (\<lambda>c. data_off + strip_source shape slices out c * ?bpp) (map (unravel ?oc) [0..<prod_list ?oc])"
    have "\<forall>p \<in> set ?ps. p + sp * ?bpp \<le> length ?bs" using fit by (auto simp: strip_at_def)
    from read_strips_ok[OF this] obtain q kk where R: "read_strips no_faults (sp * ?bpp) ?ps s
        = (Inr (concat (map (\<lambda>p. take (sp * ?bpp) (drop p ?bs)) ?ps)), s\<lparr>fs_pos := q, fs_ops := kk\<rparr>)" by blast
    have "concat (map (\<lambda>p. take (sp * ?bpp) (drop p ?bs)) ?ps)
        = concat (map (\<lambda>i. concat (map (\<lambda>j. pixel ?bpp ?bs data_off (strip_at shape slices out i + j)) [0..<sp])) [0..<prod_list ?oc])"
      using fit by (auto simp: strip_at_def[symmetric] take_drop_pixels intro!: arg_cong[where f = concat])
    also have "\<dots> = read_reference ?bpp ?bs data_off shape slices"
      unfolding read_reference_def S(3) concat_blocks
      by (rule arg_cong[where f = concat]) (auto simp: strip_pixel[OF l lay] intro!: arg_cong[where f = concat])
    finally have E: "concat (map (\<lambda>p. take (sp * ?bpp) (drop p ?bs)) ?ps) = read_reference ?bpp ?bs data_off shape slices" .
    have od: "odometer (prod_list ?oc) ?oc (replicate out 0) = map (unravel ?oc) [0..<prod_list ?oc]"
      using odometer_all[of ?oc] S(1) l by simp
    have "read_image_slice no_faults big bitpix shape data_off slices s
        = (Inr (to_native big ?bpp (read_reference ?bpp ?bs data_off shape slices)), s\<lparr>fs_pos := q, fs_ops := kk\<rparr>)"
      using ne l bp False R unfolding E
      by (simp add: read_image_slice_def lay Let_def od io_bind_def io_return_def del: map_map)
    then show ?thesis by blast
  qed
qed

subsection \<open>Index keys select inside the image\<close>

lemma slice_indices_bound:
  assumes "0 < step" "slice_indices dim start stop step = (a, n)" "n \<noteq> 0"
  shows "int a + (int n - 1) * step < int dim"
proof -
  define lo where "lo = clip_bound dim (case start of None \<Rightarrow> 0 | Some v \<Rightarrow> v)"
  define hi where "hi = clip_bound dim (case stop of None \<Rightarrow> int dim | Some v \<Rightarrow> v)"
  have lo: "0 \<le> lo" and hi: "hi \<le> int dim" by (auto simp: lo_def hi_def clip_bound_def)
  have a: "a = nat lo" and n: "lo < hi" "n = nat ((hi - lo - 1) div step + 1)"
    using assms(2,3) by (auto simp: slice_indices_def Let_def lo_def hi_def split: if_splits)
  have "0 \<le> (hi - lo - 1) div step" using n(1) assms(1) by (simp add: pos_imp_zdiv_nonneg_iff)
  moreover have "(hi - lo - 1) div step * step \<le> hi - lo - 1" using assms(1) by (metis minus_mod_eq_div_mult[symmetric] diff_le_eq le_add_same_cancel1 pos_mod_sign)
  ultimately show ?thesis using lo hi by (simp add: a n(2))
qed

lemma parse_axis_indexer_ok:
  "parse_axis_indexer item dim = Inr s \<Longrightarrow>
   0 < sl_step s \<and> (sl_count s = 0 \<or> sl_start s + (sl_count s - 1) * sl_step s < dim)"
proof (cases item)
  case (KSlice start stop step)
  assume p: "parse_axis_indexer item dim = Inr s"
  define st where "st = (case step of None \<Rightarrow> 1 | Some v \<Rightarrow> v)"
  obtain a n where an: "slice_indices dim start stop st = (a, n)" by fastforce
  have st: "0 < st" and s: "s = \<lparr>sl_start = a, sl_step = nat st, sl_count = n, sl_is_int = False\<rparr>"
    using p an unfolding KSlice by (auto simp: parse_axis_indexer_def st_def[symmetric] split: if_splits)
  show ?thesis
  proof (cases "n = 0")
    case False
    have "int (a + (n - 1) * nat st) < int dim"
      using slice_indices_bound[OF st an False] st False by (simp add: of_nat_diff)
    then have "a + (n - 1) * nat st < dim" by (simp only: of_nat_less_iff)
    then show ?thesis using st s by simp
  qed (use st s in simp)
qed (auto simp: parse_axis_indexer_def Let_def split: if_splits)

lemma full_slices_ok: "slices_ok dims (map full_axis_slice dims)"
  by (auto simp: slices_ok_def full_axis_slice_def list_all2_conv_all_nth)

lemma slices_ok_append: "slices_ok a s \<Longrightarrow> slices_ok b t \<Longrightarrow> slices_ok (a @ b) (s @ t)"
  by (simp add: slices_ok_def list_all2_appendI)

lemma index_axes_ok: "index_axes items fill dims = Inr slices \<Longrightarrow> slices_ok dims slices"
proof (induction items fill dims arbitrary: slices rule: index_axes.induct)
  case (1 fill dims)
  then show ?case using full_slices_ok by auto
next
  case (2 item items fill dims)
  show ?case
  proof (cases "is_ellipsis item")
    case True
    then obtain out where o: "index_axes items fill (drop fill dims) = Inr out"
      "slices = map full_axis_slice (take fill dims) @ out" using "2.prems" by (auto simp: res_bind_Inr_iff)
    show ?thesis using slices_ok_append[OF full_slices_ok 2(1)[OF True o(1)], of "take fill dims"] o(2) by simp
  next
    case False
    then obtain d ds s out where o: "dims = d # ds" "parse_axis_indexer item d = Inr s" "index_axes items fill ds = Inr out"
      "slices = s # out" using "2.prems" by (auto simp: res_bind_Inr_iff split: list.splits)
    show ?thesis using 2(2)[OF False o(1,3)] parse_axis_indexer_ok[OF o(2)] unfolding o by (simp add: slices_ok_def)
  qed
qed

lemma normalize_slice_key_ok: "normalize_slice_key items shape = Inr slices \<Longrightarrow> slices_ok shape slices"
  by (auto simp: normalize_slice_key_def Let_def split: if_splits intro: index_axes_ok)

subsection \<open>Writing a box\<close>

definition box_slices :: "coord \<Rightarrow> shape \<Rightarrow> axis_slice list" where
  "box_slices start data_shape = map2 (\<lambda>st n. \<lparr>sl_start = st, sl_step = 1, sl_count = n, sl_is_int = False\<rparr>) start data_shape"

lemma write_strip_loop_read:
  "write_strip_loop (map (\<lambda>(dim, s). (dim, sl_count s, sl_start s)) axes) p = read_strip_loop axes p"
  if "\<forall>(dim, s) \<in> set axes. sl_step s = 1"
  using that by (induction axes arbitrary: p) (auto simp: Let_def)

lemma box_slices_simps:
  assumes "length start = length data_shape"
  shows "map sl_count (box_slices start data_shape) = data_shape" "map sl_start (box_slices start data_shape) = start"
    "length (box_slices start data_shape) = length data_shape"
  using assms by (induction start data_shape rule: list_induct2) (simp_all add: box_slices_def)

lemma write_layout_read:
  assumes "length data_shape = length shape" "length start = length shape"
  shows "compute_strip_layout shape data_shape start = compute_read_strip_layout shape (box_slices start data_shape)"
proof -
  let ?bx = "zip shape (box_slices start data_shape)"
  have "map (\<lambda>(dim, s). (dim, sl_count s, sl_start s)) ?bx = zip shape (zip data_shape start)"
    using assms by (auto simp: box_slices_def intro!: nth_equalityI)
  moreover have "\<forall>(dim, s) \<in> set (rev ?bx). sl_step s = 1" by (auto simp: box_slices_def dest!: set_zip_rightD)
  ultimately show ?thesis
    using write_strip_loop_read[of "rev ?bx" 1] by (simp add: compute_strip_layout_def compute_read_strip_layout_def flip: rev_map)
qed

lemma box_slices_ok:
  assumes "length data_shape = length shape" "length start = length shape"
    "\<not> list_ex (\<lambda>(st, (n, dim)). st + n > dim) (zip start (zip data_shape shape))"
  shows "slices_ok shape (box_slices start data_shape)"
  unfolding slices_ok_def list_all2_conv_all_nth
proof (intro conjI allI impI)
  fix i assume i: "i < length shape"
  then have "(start ! i, data_shape ! i, shape ! i) \<in> set (zip start (zip data_shape shape))"
    using assms(1,2) by (auto simp: in_set_zip intro!: exI[of _ i])
  then have "start ! i + data_shape ! i \<le> shape ! i" using assms(3) by (auto simp: list_ex_iff)
  then show "sl_count (box_slices start data_shape ! i) = 0
      \<or> sl_start (box_slices start data_shape ! i) + (sl_count (box_slices start data_shape ! i) - 1) * sl_step (box_slices start data_shape ! i) < shape ! i"
    using i assms by (auto simp: box_slices_def)
qed (use assms in \<open>auto simp: box_slices_def\<close>)

lemma write_at_append:
  assumes "p + length a + length b \<le> length bs"
  shows "write_at (write_at bs p a) (p + length a) b = write_at bs p (a @ b)"
  using assms by (intro nth_equalityI) (auto simp: write_at_nth nth_append)

lemma swap_write_ok:
  assumes b: "bpp \<in> {1, 2, 4, 8}" and m: "m mod bpp = 0" "0 < m" and l: "length src mod bpp = 0"
    "fs_pos s + length src \<le> length (fs_bytes s)"
  shows "\<exists>k. swap_write no_faults bpp m src s = (Inr (), s\<lparr>fs_bytes := write_at (fs_bytes s) (fs_pos s) (rev_chunks bpp src),
    fs_pos := fs_pos s + length src, fs_ops := k\<rparr>)"
  using l
proof (induction "length src" arbitrary: src s rule: less_induct)
  case less
  show ?case
  proof (cases "src = []")
    case True
    have "swap_write no_faults bpp m src s = (Inr (), s\<lparr>fs_bytes := write_at (fs_bytes s) (fs_pos s) (rev_chunks bpp src),
      fs_pos := fs_pos s + length src, fs_ops := fs_ops s\<rparr>)"
      by (subst swap_write.simps) (simp add: True io_return_def write_at_def)
    then show ?thesis by blast
  next
    case False
    let ?n = "min (length src) m"
    let ?w = "rev_chunks bpp (take ?n src)"
    have n: "?n mod bpp = 0" "0 < ?n" using less.prems m False by (auto simp: min_def)
    let ?s = "s\<lparr>fs_bytes := write_at (fs_bytes s) (fs_pos s) ?w, fs_pos := fs_pos s + length ?w, fs_ops := Suc (fs_ops s)\<rparr>"
    have "length (drop ?n src) < length src" "length (drop ?n src) mod bpp = 0"
      "fs_pos ?s + length (drop ?n src) \<le> length (fs_bytes ?s)"
      using n less.prems False by (auto simp: mod_eq_0_iff_dvd intro!: dvd_diff_nat)
    from less.hyps[OF this] obtain k where k: "swap_write no_faults bpp m (drop ?n src) ?s
      = (Inr (), ?s\<lparr>fs_bytes := write_at (fs_bytes ?s) (fs_pos ?s) (rev_chunks bpp (drop ?n src)),
          fs_pos := fs_pos ?s + length (drop ?n src), fs_ops := k\<rparr>)" by blast
    have "rev_chunks bpp src = ?w @ rev_chunks bpp (drop ?n src)"
      using rev_chunks_append[of "take ?n src" bpp "drop ?n src"] n by (simp add: min_absorb2)
    then have W: "write_at (fs_bytes ?s) (fs_pos ?s) (rev_chunks bpp (drop ?n src)) = write_at (fs_bytes s) (fs_pos s) (rev_chunks bpp src)"
      using write_at_append[of "fs_pos s" ?w "rev_chunks bpp (drop ?n src)" "fs_bytes s"] less.prems(2) by simp
    have "swap_write no_faults bpp m src s = swap_write no_faults bpp m (drop ?n src) ?s"
      using False m(2) by (subst swap_write.simps) (simp add: Let_def io_bind_def st_write_all_def no_faults_at to_native_eq[OF b])
    also have "\<dots> = (Inr (), s\<lparr>fs_bytes := write_at (fs_bytes s) (fs_pos s) (rev_chunks bpp src), fs_pos := fs_pos s + length src, fs_ops := k\<rparr>)"
      unfolding k W by (simp add: min_def)
    finally show ?thesis by blast
  qed
qed

lemma rev_chunks_take_drop:
  assumes "b \<in> {1, 2, 4, 8::nat}" "m + n \<le> length xs" "m mod b = 0" "n mod b = 0"
  shows "rev_chunks b (take n (drop m xs)) = take n (drop m (rev_chunks b xs))"
proof -
  have "xs = take m xs @ take n (drop m xs) @ drop (m + n) xs" by (metis append_take_drop_id drop_drop add.commute)
  then have "rev_chunks b xs = rev_chunks b (take m xs @ take n (drop m xs) @ drop (m + n) xs)" by simp
  also have "\<dots> = rev_chunks b (take m xs) @ rev_chunks b (take n (drop m xs)) @ rev_chunks b (drop (m + n) xs)"
    using assms by (simp add: rev_chunks_append)
  finally show ?thesis using assms by simp
qed

definition stored_bytes :: "bool \<Rightarrow> nat \<Rightarrow> bytes \<Rightarrow> bytes" where
  "stored_bytes needs_swap bpp w = (if needs_swap then rev_chunks bpp w else w)"

lemma length_stored_bytes [simp]: "length (stored_bytes sw bpp w) = length w"
  by (simp add: stored_bytes_def)

definition apply_writes :: "(nat \<times> bytes) list \<Rightarrow> bytes \<Rightarrow> bytes" where
  "apply_writes ws bs = foldl (\<lambda>bs (p, w). write_at bs p w) bs ws"

lemma write_strip_ok:
  assumes "bpp \<in> {1, 2, 4, 8}" "pos + length src \<le> length (fs_bytes s)" "length src mod bpp = 0" "src \<noteq> []"
  shows "\<exists>q k. write_strip no_faults sw bpp pos src s
    = (Inr (), s\<lparr>fs_bytes := write_at (fs_bytes s) pos (stored_bytes sw bpp src), fs_pos := q, fs_ops := k\<rparr>)"
proof (cases sw)
  case True
  let ?m = "min (length src) MAX_CHUNK_BYTES" and ?s = "s\<lparr>fs_pos := pos, fs_ops := Suc (fs_ops s)\<rparr>"
  have "?m mod bpp = 0" "0 < ?m" using assms(1,3,4) by (auto simp: min_def MAX_CHUNK_BYTES_def)
  from swap_write_ok[OF assms(1) this assms(3), of ?s] assms(2) obtain k where
    "swap_write no_faults bpp ?m src ?s = (Inr (), ?s\<lparr>fs_bytes := write_at (fs_bytes ?s) (fs_pos ?s) (rev_chunks bpp src),
      fs_pos := fs_pos ?s + length src, fs_ops := k\<rparr>)" by auto
  then have "write_strip no_faults sw bpp pos src s
    = (Inr (), s\<lparr>fs_bytes := write_at (fs_bytes s) pos (stored_bytes sw bpp src), fs_pos := pos + length src, fs_ops := k\<rparr>)"
    using True by (simp add: write_strip_def storage_defs no_faults_at stored_bytes_def)
  then show ?thesis by blast
next
  case False
  then have "write_strip no_faults sw bpp pos src s
    = (Inr (), s\<lparr>fs_bytes := write_at (fs_bytes s) pos (stored_bytes sw bpp src), fs_pos := pos + length src, fs_ops := Suc (Suc (fs_ops s))\<rparr>)"
    by (simp add: write_strip_def storage_defs no_faults_at stored_bytes_def)
  then show ?thesis by blast
qed

lemma write_strips_ok:
  assumes b: "bpp \<in> {1, 2, 4, 8}"
  shows "\<forall>(p, w) \<in> set ws. p + length w \<le> length (fs_bytes s) \<and> length w mod bpp = 0 \<and> w \<noteq> [] \<Longrightarrow>
   \<exists>q k. write_strips no_faults sw bpp ws s
     = (Inr (), s\<lparr>fs_bytes := apply_writes (map (\<lambda>(p, w). (p, stored_bytes sw bpp w)) ws) (fs_bytes s), fs_pos := q, fs_ops := k\<rparr>)"
proof (induction ws arbitrary: s)
  case Nil
  have "write_strips no_faults sw bpp [] s = (Inr (), s\<lparr>fs_bytes := fs_bytes s, fs_pos := fs_pos s, fs_ops := fs_ops s\<rparr>)"
    by (simp add: io_return_def)
  then show ?case unfolding apply_writes_def list.map foldl.simps by blast
next
  case (Cons z ws)
  obtain p w where z: "z = (p, w)" by (cases z)
  have "p + length w \<le> length (fs_bytes s)" "length w mod bpp = 0" "w \<noteq> []" using Cons.prems z by auto
  from write_strip_ok[OF b this, of sw] obtain q k where 1: "write_strip no_faults sw bpp p w s
    = (Inr (), s\<lparr>fs_bytes := write_at (fs_bytes s) p (stored_bytes sw bpp w), fs_pos := q, fs_ops := k\<rparr>)" by blast
  let ?s = "s\<lparr>fs_bytes := write_at (fs_bytes s) p (stored_bytes sw bpp w), fs_pos := q, fs_ops := k\<rparr>"
  have "\<forall>(p, w) \<in> set ws. p + length w \<le> length (fs_bytes ?s) \<and> length w mod bpp = 0 \<and> w \<noteq> []" using Cons.prems z by auto
  from Cons.IH[OF this] obtain q' k' where 2: "write_strips no_faults sw bpp ws ?s
    = (Inr (), ?s\<lparr>fs_bytes := apply_writes (map (\<lambda>(p, w). (p, stored_bytes sw bpp w)) ws) (fs_bytes ?s), fs_pos := q', fs_ops := k'\<rparr>)" by blast
  have "write_strips no_faults sw bpp (z # ws) s
     = (Inr (), s\<lparr>fs_bytes := apply_writes (map (\<lambda>(p, w). (p, stored_bytes sw bpp w)) (z # ws)) (fs_bytes s), fs_pos := q', fs_ops := k'\<rparr>)"
    using 1 2 by (simp add: z io_bind_def apply_writes_def)
  then show ?case by blast
qed

lemma apply_writes_nth:
  assumes "\<forall>(p, w) \<in> set ws. p + length w \<le> length bs \<and> (\<forall>j < length w. w ! j = F (p + j))"
  shows "length (apply_writes ws bs) = length bs \<and> (\<forall>a < length bs. apply_writes ws bs ! a
    = (if \<exists>(p, w) \<in> set ws. p \<le> a \<and> a < p + length w then F a else bs ! a))"
  using assms
proof (induction ws arbitrary: bs)
  case (Cons z ws)
  obtain p w where z: "z = (p, w)" by (cases z)
  have w: "p + length w \<le> length bs" "\<forall>j < length w. w ! j = F (p + j)" using Cons.prems z by auto
  have "apply_writes (z # ws) bs = apply_writes ws (write_at bs p w)" by (simp add: apply_writes_def z)
  moreover have "\<forall>a < length bs. write_at bs p w ! a = (if p \<le> a \<and> a < p + length w then F a else bs ! a)"
    using w by (auto simp: write_at_nth)
  moreover have "length (write_at bs p w) = length bs" using w(1) by simp
  moreover have "\<forall>(p, w) \<in> set ws. p + length w \<le> length (write_at bs p w) \<and> (\<forall>j < length w. w ! j = F (p + j))"
    using Cons.prems w(1) by auto
  ultimately show ?case using Cons.IH[of "write_at bs p w"] Cons.prems w(1) by (auto simp: z)
qed (simp add: apply_writes_def)

text \<open>The data pixel that a pixel of the box holds.\<close>

definition box_pixel :: "shape \<Rightarrow> coord \<Rightarrow> shape \<Rightarrow> nat \<Rightarrow> nat" where
  "box_pixel shape start data_shape p = ravel data_shape (map2 (-) (unravel shape p) start)"

lemma box_pixel_source:
  assumes l: "length data_shape = length shape" "length start = length shape"
    and ok: "slices_ok shape (box_slices start data_shape)" and k: "k < prod_list data_shape"
  shows "box_pixel shape start data_shape (source_pixel shape (box_slices start data_shape) k) = k"
proof -
  let ?bx = "box_slices start data_shape" and ?c = "unravel data_shape k"
  have c: "map sl_count ?bx = data_shape" using box_slices_simps l by simp
  have "in_box (sel ?bx ?c) shape" by (rule sel_in_box[OF ok]) (simp add: c unravel_in_box[OF k])
  moreover have "map2 (-) (sel ?bx ?c) start = ?c"
    using l by (auto simp: sel_def box_slices_def intro!: nth_equalityI)
  ultimately show ?thesis by (simp add: box_pixel_def source_pixel_def c unravel_ravel ravel_unravel[OF k])
qed

definition box_written :: "nat \<Rightarrow> nat \<Rightarrow> shape \<Rightarrow> axis_slice list \<Rightarrow> bytes \<Rightarrow> bytes \<Rightarrow> bytes \<Rightarrow> bool" where
  "box_written bpp off shape slices stored bs bs' \<longleftrightarrow>
     length bs' = length bs \<and>
     (\<forall>k < prod_list (map sl_count slices).
        pixel bpp bs' off (source_pixel shape slices k) = pixel bpp stored 0 k) \<and>
     (\<forall>a < length bs. (\<forall>k < prod_list (map sl_count slices).
        \<not> (off + source_pixel shape slices k * bpp \<le> a \<and> a < off + source_pixel shape slices k * bpp + bpp)) \<longrightarrow> bs' ! a = bs ! a)"

lemma pixel_nth: "j < bpp \<Longrightarrow> off + k * bpp + bpp \<le> length bs \<Longrightarrow> pixel bpp bs off k ! j = bs ! (off + k * bpp + j)"
  by (simp add: pixel_def)

lemma length_pixel: "off + k * bpp + bpp \<le> length bs \<Longrightarrow> length (pixel bpp bs off k) = bpp"
  by (simp add: pixel_def)

lemma mult_div_less: "(m::nat) < n * b \<Longrightarrow> m div b < n"
  by (rule less_mult_imp_div_less)

lemma pixel_room:
  fixes off k n bpp :: nat
  shows "k < n \<Longrightarrow> off + n * bpp \<le> len \<Longrightarrow> off + k * bpp + bpp \<le> len"
  using strip_bytes_fit[of k 1 n off bpp len] by simp

lemma byte_in_pixels:
  fixes off p bpp n a :: nat
  assumes "0 < bpp"
  shows "off + p * bpp \<le> a \<and> a < off + p * bpp + n * bpp \<longleftrightarrow> (\<exists>j < n. off + (p + j) * bpp \<le> a \<and> a < off + (p + j) * bpp + bpp)"
    (is "?l = ?r")
proof
  assume l: ?l
  define m where "m = a - (off + p * bpp)"
  have a: "a = off + p * bpp + m" "m < n * bpp" unfolding m_def using l by linarith+
  have "m = m div bpp * bpp + m mod bpp" "m mod bpp < bpp" using assms by simp_all
  then have "m div bpp * bpp \<le> m" "m < m div bpp * bpp + bpp" by linarith+
  then show ?r using mult_div_less[OF a(2)] a(1) by (intro exI[of _ "m div bpp"]) (simp add: add_mult_distrib)
next
  assume ?r
  then obtain j where j: "j < n" "off + (p + j) * bpp \<le> a" "a < off + (p + j) * bpp + bpp" by blast
  have "j * bpp + bpp \<le> n * bpp" using mult_right_mono[of "Suc j" n bpp] j(1) by simp
  then show ?l using j(2,3) by (simp add: add_mult_distrib)
qed

lemma ex_blocks: "(\<exists>k < n * sp. P k) \<longleftrightarrow> (\<exists>i < n. \<exists>j < sp. P (i * sp + j))" for n sp :: nat
proof
  assume "\<exists>k < n * sp. P k"
  then obtain k where k: "k < n * sp" "P k" by blast
  then have "0 < sp" by (cases sp) auto
  then show "\<exists>i < n. \<exists>j < sp. P (i * sp + j)"
    using k mult_div_less[OF k(1)] by (intro exI[of _ "k div sp"] conjI exI[of _ "k mod sp"]) auto
qed (use strip_index_less in blast)

lemma box_strips_written:
  fixes start data_shape shape stored off bpp out sp bs
  defines "bx \<equiv> box_slices start data_shape"
  defines "ws \<equiv> map (\<lambda>i. (off + strip_at shape bx out i * bpp, take (sp * bpp) (drop (i * sp * bpp) stored))) [0..<prod_list (take out data_shape)]"
  assumes l: "length data_shape = length shape" "length start = length shape" and ok: "slices_ok shape bx"
    and lay: "compute_read_strip_layout shape bx = (out, sp)" and b: "0 < bpp" and sp: "0 < sp"
    and st: "length stored = prod_list data_shape * bpp" and room: "off + prod_list shape * bpp \<le> length bs"
  shows "box_written bpp off shape bx stored bs (apply_writes ws bs)"
proof -
  define F where "F a = stored ! (box_pixel shape start data_shape ((a - off) div bpp) * bpp + (a - off) mod bpp)" for a
  let ?N = "prod_list (take out data_shape)" and ?n = "prod_list data_shape"
  have lb: "length bx = length shape" and c: "map sl_count bx = data_shape" and ct: "map sl_count (take out bx) = take out data_shape"
    using box_slices_simps[of start data_shape] l by (simp_all add: bx_def take_map[symmetric])
  note S = strip_layout[OF lb lay]
  have n: "?n = ?N * sp" using S(3) c ct by simp
  have fits: "strip_at shape bx out i + sp \<le> prod_list shape" if "i < ?N" for i
    using strip_fits[OF ok lay _ sp] that ct by simp
  have src: "i * sp * bpp + sp * bpp \<le> length stored" if "i < ?N" for i
    using strip_bytes_fit[of "i * sp" sp ?n 0 bpp "length stored"] that mult_right_mono[of "Suc i" ?N sp] st n by simp
  have sF: "stored ! (k * bpp + m) = F (off + source_pixel shape bx k * bpp + m)" if "k < ?n" "m < bpp" for k m
    using box_pixel_source[OF l] ok that b by (simp add: F_def bx_def)
  have wl: "length (take (sp * bpp) (drop (i * sp * bpp) stored)) = sp * bpp" if "i < ?N" for i using src[OF that] by simp
  have wF: "stored ! (i * sp * bpp + j) = F (off + strip_at shape bx out i * bpp + j)" if i: "i < ?N" and j: "j < sp * bpp" for i j
  proof -
    have d: "j div bpp < sp" using j by (rule mult_div_less)
    have k: "i * sp + j div bpp < ?n" unfolding n by (rule strip_index_less[OF i d])
    have "stored ! ((i * sp + j div bpp) * bpp + j mod bpp) = F (off + (strip_at shape bx out i + j div bpp) * bpp + j mod bpp)"
      using sF[OF k, of "j mod bpp"] b strip_pixel[OF lb lay _ d, of i] i ct by simp
    moreover have "(i * sp + j div bpp) * bpp + j mod bpp = i * sp * bpp + j"
      "off + (strip_at shape bx out i + j div bpp) * bpp + j mod bpp = off + strip_at shape bx out i * bpp + j"
      by (simp_all add: add_mult_distrib)
    ultimately show ?thesis by simp
  qed
  have W: "\<forall>(p, w) \<in> set ws. p + length w \<le> length bs \<and> (\<forall>j < length w. w ! j = F (p + j))"
  proof -
    have "off + strip_at shape bx out i * bpp + min (length stored - i * sp * bpp) (sp * bpp) \<le> length bs" if "i < ?N" for i
      using strip_bytes_fit[OF fits[OF that] room] by linarith
    then show ?thesis using wF src by (auto simp: ws_def)
  qed
  note A = apply_writes_nth[OF W]
  have cov: "(\<exists>(p, w) \<in> set ws. p \<le> a \<and> a < p + length w) \<longleftrightarrow>
    (\<exists>k < ?n. off + source_pixel shape bx k * bpp \<le> a \<and> a < off + source_pixel shape bx k * bpp + bpp)" for a
  proof -
    have "(\<exists>(p, w) \<in> set ws. p \<le> a \<and> a < p + length w)
      \<longleftrightarrow> (\<exists>i < ?N. off + strip_at shape bx out i * bpp \<le> a \<and> a < off + strip_at shape bx out i * bpp + sp * bpp)"
      using wl by (auto simp: ws_def)
    also have "\<dots> \<longleftrightarrow> (\<exists>i < ?N. \<exists>j < sp. off + source_pixel shape bx (i * sp + j) * bpp \<le> a
        \<and> a < off + source_pixel shape bx (i * sp + j) * bpp + bpp)"
      unfolding byte_in_pixels[OF b] using strip_pixel[OF lb lay] ct by (metis (no_types, lifting))
    finally show ?thesis unfolding n ex_blocks .
  qed
  show ?thesis
    unfolding box_written_def c
  proof (intro conjI allI impI)
    fix k assume k: "k < ?n"
    have k1: "off + source_pixel shape bx k * bpp + bpp \<le> length bs"
      using pixel_room[OF source_pixel_less[OF ok] room] k c by simp
    have k2: "0 + k * bpp + bpp \<le> length stored" using pixel_room[OF k, of 0] st by simp
    show "pixel bpp (apply_writes ws bs) off (source_pixel shape bx k) = pixel bpp stored 0 k"
    proof (rule nth_equalityI)
      fix j assume "j < length (pixel bpp (apply_writes ws bs) off (source_pixel shape bx k))"
      then have j: "j < bpp" using A k1 by (simp add: length_pixel)
      let ?a = "off + source_pixel shape bx k * bpp + j"
      have "apply_writes ws bs ! ?a = F ?a" using A cov[of ?a] k j k1 by auto
      then show "pixel bpp (apply_writes ws bs) off (source_pixel shape bx k) ! j = pixel bpp stored 0 k ! j"
        using sF[OF k j] j k1 k2 A by (simp add: pixel_nth)
    qed (use A k1 k2 in \<open>simp add: length_pixel\<close>)
  next
    fix a assume "a < length bs" and "\<forall>k < ?n. \<not> (off + source_pixel shape bx k * bpp \<le> a \<and> a < off + source_pixel shape bx k * bpp + bpp)"
    then show "apply_writes ws bs ! a = bs ! a" using A cov[of a] by auto
  qed (use A in simp)
qed

lemma bytes_per_pixel_cases: "bitpix \<in> {8, 16, 32, 64, - 32, - 64} \<Longrightarrow> bytes_per_pixel bitpix \<in> {1, 2, 4, 8}"
  by (auto simp: bytes_per_pixel_def)

lemma write_position:
  assumes "length data_shape = length shape" "length start = length shape" "out \<le> length shape" "length idx = out"
  shows "dot start (row_major_strides shape) + dot idx (take out (row_major_strides shape))
    = strip_source shape (box_slices start data_shape) out idx"
proof -
  let ?st = "strides 1 shape" and ?bx = "box_slices start data_shape"
  have "dot start ?st = dot (take out start @ drop out start) (take out ?st @ drop out ?st)" by simp
  also have "\<dots> = dot (take out start) (take out ?st) + dot (drop out start) (drop out ?st)"
    using assms by (intro dot_append) simp
  finally have 1: "dot start ?st = dot (take out start) (take out ?st) + dot (drop out start) (drop out ?st)" .
  have 2: "map2 (\<lambda>s i. sl_start s + i * sl_step s) (take out ?bx) idx = map2 (+) (take out start) idx"
    using assms by (auto simp: box_slices_def intro!: nth_equalityI)
  have 3: "map sl_start (drop out ?bx) = drop out start"
    using box_slices_simps(2)[of start data_shape] assms by (simp flip: drop_map)
  show ?thesis
    using 1 dot_add[of "take out start" idx "take out ?st"] assms
    by (simp add: strip_source_def row_major_strides_def Let_def 2 3)
qed

lemma write_source:
  assumes "out \<le> length data_shape" "i < prod_list (take out data_shape)"
  shows "dot (unravel (take out data_shape) i) (take out (row_major_strides data_shape)) = i * prod_list (drop out data_shape)"
proof -
  have "strides 1 data_shape = strides (prod_list (drop out data_shape)) (take out data_shape) @ strides 1 (drop out data_shape)"
    using strides_append[of 1 "take out data_shape" "drop out data_shape"] by simp
  then have "take out (row_major_strides data_shape) = strides (prod_list (drop out data_shape)) (take out data_shape)"
    using assms by (simp add: row_major_strides_def)
  then show ?thesis using assms by (simp add: dot_strides ravel_unravel)
qed

lemma write_image_data_ok:
  fixes bitpix data_off shape data data_shape start start_vec s little
  defines "bpp \<equiv> bytes_per_pixel bitpix" and "bx \<equiv> box_slices start_vec data_shape"
  assumes ne: "shape \<noteq> []" and bp: "bitpix \<in> {8, 16, 32, 64, - 32, - 64}" and l: "length data_shape = length shape"
    and cs: "check_start (length shape) start = Inr start_vec"
    and inside: "\<not> list_ex (\<lambda>(st, (n, dim)). st + n > dim) (zip start_vec (zip data_shape shape))"
    and len: "length data = prod_list data_shape * bpp"
    and room: "data_off + prod_list shape * bpp \<le> length (fs_bytes s)"
  shows "\<exists>bs' q k. write_image_data no_faults little bitpix shape data_off data data_shape start s
      = (Inr (), s\<lparr>fs_bytes := bs', fs_pos := q, fs_ops := k\<rparr>)
    \<and> box_written bpp data_off shape bx (stored_bytes (little \<and> bpp \<noteq> 1) bpp data) (fs_bytes s) bs'"
proof (cases "prod_list data_shape = 0")
  case True
  have ls: "length start_vec = length shape" using cs by (auto simp: check_start_def split: option.splits if_splits)
  have "write_image_data no_faults little bitpix shape data_off data data_shape start s
      = (Inr (), s\<lparr>fs_bytes := fs_bytes s, fs_pos := fs_pos s, fs_ops := fs_ops s\<rparr>)"
    using ne bp l cs inside True by (simp add: write_image_data_def io_return_def)
  moreover have "box_written bpp data_off shape bx (stored_bytes (little \<and> bpp \<noteq> 1) bpp data) (fs_bytes s) (fs_bytes s)"
    using box_slices_simps[of start_vec data_shape] l ls True by (simp add: box_written_def bx_def)
  ultimately show ?thesis by blast
next
  case False
  let ?sw = "little \<and> bpp \<noteq> 1"
  have b: "bpp \<in> {1, 2, 4, 8}" unfolding bpp_def by (rule bytes_per_pixel_cases[OF bp])
  have ls: "length start_vec = length shape" using cs by (auto simp: check_start_def split: option.splits if_splits)
  have ok: "slices_ok shape bx" unfolding bx_def by (rule box_slices_ok[OF l ls inside])
  have lb: "length bx = length shape" and c: "map sl_count bx = data_shape" and ct: "map sl_count (take out bx) = take out data_shape" for out
    using box_slices_simps[of start_vec data_shape] l ls by (simp_all add: bx_def take_map[symmetric])
  obtain out sp where lay: "compute_read_strip_layout shape bx = (out, sp)" by fastforce
  note S = strip_layout[OF lb lay]
  have n: "prod_list data_shape = prod_list (take out data_shape) * sp" using S(3) c ct by simp
  have sp: "0 < sp" using False n by (cases "sp = 0") auto
  have spd: "sp = prod_list (drop out data_shape)" using S(2) c by (simp flip: drop_map)
  let ?N = "prod_list (take out data_shape)"
  define ws where "ws = map (\<lambda>i. (data_off + strip_at shape bx out i * bpp, take (sp * bpp) (drop (i * sp * bpp) data))) [0..<?N]"
  have src: "i * sp * bpp + sp * bpp \<le> length data" if "i < ?N" for i
    using strip_bytes_fit[of "i * sp" sp "prod_list data_shape" 0 bpp "length data"] that mult_right_mono[of "Suc i" ?N sp] len n by simp
  have "data_off + strip_at shape bx out i * bpp + sp * bpp \<le> length (fs_bytes s)" if "i < ?N" for i
    using strip_bytes_fit[OF strip_fits[OF ok lay _ sp] room] that ct by simp
  moreover have "length (take (sp * bpp) (drop (i * sp * bpp) data)) = sp * bpp" if "i < ?N" for i using src[OF that] by simp
  moreover have "0 < sp * bpp" using sp b by auto
  ultimately have "\<forall>(p, w) \<in> set ws. p + length w \<le> length (fs_bytes s) \<and> length w mod bpp = 0 \<and> w \<noteq> []"
    unfolding ws_def by (auto simp del: length_take length_drop simp flip: length_greater_0_conv)
  from write_strips_ok[OF b this, of ?sw] obtain q k where W: "write_strips no_faults ?sw bpp ws s
    = (Inr (), s\<lparr>fs_bytes := apply_writes (map (\<lambda>(p, w). (p, stored_bytes ?sw bpp w)) ws) (fs_bytes s), fs_pos := q, fs_ops := k\<rparr>)" by blast
  have "map (\<lambda>(p, w). (p, stored_bytes ?sw bpp w)) ws
    = map (\<lambda>i. (data_off + strip_at shape bx out i * bpp, take (sp * bpp) (drop (i * sp * bpp) (stored_bytes ?sw bpp data)))) [0..<?N]"
    using src b by (auto simp: ws_def stored_bytes_def rev_chunks_take_drop)
  then have B: "box_written bpp data_off shape bx (stored_bytes ?sw bpp data) (fs_bytes s)
      (apply_writes (map (\<lambda>(p, w). (p, stored_bytes ?sw bpp w)) ws) (fs_bytes s))"
    using box_strips_written[OF l ls ok[unfolded bx_def] lay[unfolded bx_def] _ sp _ room, of "stored_bytes ?sw bpp data"] b len
    by (auto simp: bx_def)
  have od: "odometer ?N (take out data_shape) (replicate out 0) = map (unravel (take out data_shape)) [0..<?N]"
    using odometer_all[of "take out data_shape"] S(1) l by simp
  have "map (\<lambda>idx. (data_off + (dot start_vec (row_major_strides shape) + dot idx (take out (row_major_strides shape))) * bpp,
      take (sp * bpp) (drop (dot idx (take out (row_major_strides data_shape)) * bpp) data))) (map (unravel (take out data_shape)) [0..<?N]) = ws"
    using write_position[OF l ls S(1)] write_source[of out data_shape] S(1) l ct spd
    by (auto simp: ws_def strip_at_def bx_def)
  then have "write_image_data no_faults little bitpix shape data_off data data_shape start s
      = (Inr (), s\<lparr>fs_bytes := apply_writes (map (\<lambda>(p, w). (p, stored_bytes ?sw bpp w)) ws) (fs_bytes s), fs_pos := q, fs_ops := Suc k\<rparr>)"
    using ne bp l cs inside False W len
    by (simp add: write_image_data_def write_layout_read[OF l ls] bx_def[symmetric] lay bpp_def[symmetric] od Let_def io_bind_def
        st_flush_def no_faults_def del: map_map)
  then show ?thesis using B by blast
qed

lemma reads_back:
  assumes "box_written bpp off shape slices stored bs bs'" "length stored = prod_list (map sl_count slices) * bpp"
  shows "read_reference bpp bs' off shape slices = stored"
proof -
  let ?n = "prod_list (map sl_count slices)"
  have "read_reference bpp bs' off shape slices = concat (map (\<lambda>j. pixel bpp stored 0 (0 + j)) [0..<?n])"
    using assms(1) by (auto simp: read_reference_def box_written_def intro!: arg_cong[where f = concat])
  also have "\<dots> = take (?n * bpp) (drop (0 + 0 * bpp) stored)"
    by (rule take_drop_pixels[symmetric]) (simp add: assms(2))
  finally show ?thesis using assms(2) by simp
qed

lemma native_stored:
  "bpp \<in> {1, 2, 4, 8} \<Longrightarrow> to_native big bpp (stored_bytes (\<not> big \<and> bpp \<noteq> 1) bpp data) = data"
  by (auto simp: to_native_eq stored_bytes_def rev_chunks_involution)

text \<open>
  C31: Reading an index of an image gives, for every output pixel in row-major order, the bytes of
  the one image pixel the index selects, converted to the host's byte order; the strips the code
  reads are an implementation detail. The key is any one the code accepts, and the file holds the
  whole data section.
\<close>

theorem read_slice_equals_reference:
  assumes "normalize_slice_key items shape = Inr slices" "shape \<noteq> []" "bitpix \<in> {8, 16, 32, 64, - 32, - 64}"
    "data_off + prod_list shape * bytes_per_pixel bitpix \<le> length (fs_bytes s)"
  shows "fst (read_image_slice no_faults big bitpix shape data_off slices s)
    = Inr (to_native big (bytes_per_pixel bitpix) (read_reference (bytes_per_pixel bitpix) (fs_bytes s) data_off shape slices))"
  using read_image_slice_ok[OF assms(2,3) normalize_slice_key_ok[OF assms(1)] assms(4), of big] by auto

definition example_image :: file_state where
  "example_image = \<lparr>fs_bytes = [9, 0, 1, 0, 2, 0, 3, 0, 4, 0, 5, 0, 6], fs_pos = 0, fs_ops = 0, fs_tainted = False, fs_layout = []\<rparr>"

theorem read_slice_equals_reference_witness:
  "fst (read_image_slice no_faults False 16 [2, 3] 1
     [\<lparr>sl_start = 1, sl_step = 1, sl_count = 1, sl_is_int = True\<rparr>, \<lparr>sl_start = 0, sl_step = 2, sl_count = 2, sl_is_int = False\<rparr>] example_image)
   = Inr [4, 0, 6, 0]"
proof -
  let ?sl = "[\<lparr>sl_start = 1, sl_step = 1, sl_count = 1, sl_is_int = True\<rparr>, \<lparr>sl_start = 0, sl_step = 2, sl_count = 2, sl_is_int = False\<rparr>]"
  have k: "normalize_slice_key [KInt (- 1), KSlice None None (Some 2)] [2, 3] = Inr ?sl" by code_simp
  have r: "to_native False (bytes_per_pixel 16) (read_reference (bytes_per_pixel 16) (fs_bytes example_image) 1 [2, 3] ?sl) = [4, 0, 6, 0]" by code_simp
  have f: "1 + prod_list [2, 3] * bytes_per_pixel 16 \<le> length (fs_bytes example_image)" by code_simp
  show ?thesis using read_slice_equals_reference[OF k _ _ f, of False] unfolding r by simp
qed

text \<open>
  C32: Writing a block of pixels into an image changes exactly the pixels of the block: each holds
  the bytes of its data pixel, big-endian, every other byte of the file is kept, and the length of
  the file too. The block may be anywhere inside the image; its strips are written in pieces of at
  most 1 MiB when the bytes have to be swapped.
\<close>

theorem write_box_exact:
  assumes "shape \<noteq> []" "bitpix \<in> {8, 16, 32, 64, - 32, - 64}" "length data_shape = length shape"
    "check_start (length shape) start = Inr start_vec"
    "\<not> list_ex (\<lambda>(st, (n, dim)). st + n > dim) (zip start_vec (zip data_shape shape))"
    "length data = prod_list data_shape * bytes_per_pixel bitpix"
    "data_off + prod_list shape * bytes_per_pixel bitpix \<le> length (fs_bytes s)"
    "write_image_data no_faults little bitpix shape data_off data data_shape start s = (r, s')"
  shows "r = Inr () \<and> box_written (bytes_per_pixel bitpix) data_off shape (box_slices start_vec data_shape)
    (stored_bytes (little \<and> bytes_per_pixel bitpix \<noteq> 1) (bytes_per_pixel bitpix) data) (fs_bytes s) (fs_bytes s')"
  using write_image_data_ok[OF assms(1-7), of little] assms(8) by auto

theorem write_box_exact_witness:
  "\<exists>s'. write_image_data no_faults True 16 [2, 3] 1 [7, 0, 8, 0] [2, 1] (Some [0, 1]) example_image = (Inr (), s')
   \<and> box_written 2 1 [2, 3] (box_slices [0, 1] [2, 1]) [0, 7, 0, 8] (fs_bytes example_image) (fs_bytes s')"
proof -
  obtain r s' where w: "write_image_data no_faults True 16 [2, 3] 1 [7, 0, 8, 0] [2, 1] (Some [0, 1]) example_image = (r, s')" by fastforce
  have b: "bytes_per_pixel 16 = 2" by code_simp
  have c: "check_start (length [2::nat, 3]) (Some [0, 1]) = Inr [0, 1]" by code_simp
  have f: "1 + prod_list [2, 3] * bytes_per_pixel 16 \<le> length (fs_bytes example_image)" by code_simp
  have st: "stored_bytes (True \<and> (2::nat) \<noteq> 1) 2 [7, 0, 8, 0] = [0, 7, 0, 8]" by code_simp
  show ?thesis
    using write_box_exact[OF _ _ _ c _ _ f w] w unfolding b st by (simp add: b)
qed

text \<open>
  C33: A block written in the host's byte order and read back through the same box of the image
  gives the same bytes.
\<close>

theorem write_then_read_box:
  assumes "shape \<noteq> []" "bitpix \<in> {8, 16, 32, 64, - 32, - 64}" "length data_shape = length shape"
    "check_start (length shape) start = Inr start_vec"
    "\<not> list_ex (\<lambda>(st, (n, dim)). st + n > dim) (zip start_vec (zip data_shape shape))"
    "length data = prod_list data_shape * bytes_per_pixel bitpix"
    "data_off + prod_list shape * bytes_per_pixel bitpix \<le> length (fs_bytes s)"
  shows "fst (io_bind (write_image_data no_faults (\<not> big) bitpix shape data_off data data_shape start)
    (\<lambda>_. read_image_slice no_faults big bitpix shape data_off (box_slices start_vec data_shape)) s) = Inr data"
proof -
  let ?bpp = "bytes_per_pixel bitpix" and ?bx = "box_slices start_vec data_shape"
  have ls: "length start_vec = length shape" using assms(4) by (auto simp: check_start_def split: option.splits if_splits)
  obtain bs' q k where W: "write_image_data no_faults (\<not> big) bitpix shape data_off data data_shape start s
      = (Inr (), s\<lparr>fs_bytes := bs', fs_pos := q, fs_ops := k\<rparr>)"
    "box_written ?bpp data_off shape ?bx (stored_bytes (\<not> big \<and> ?bpp \<noteq> 1) ?bpp data) (fs_bytes s) bs'"
    using write_image_data_ok[OF assms] by blast
  have "read_reference ?bpp bs' data_off shape ?bx = stored_bytes (\<not> big \<and> ?bpp \<noteq> 1) ?bpp data"
    using reads_back[OF W(2)] box_slices_simps(1)[of start_vec data_shape] assms(3,6) ls by simp
  moreover have "data_off + prod_list shape * ?bpp \<le> length (fs_bytes (s\<lparr>fs_bytes := bs', fs_pos := q, fs_ops := k\<rparr>))"
    using W(2) assms(7) by (simp add: box_written_def)
  note read_image_slice_ok[OF assms(1,2) box_slices_ok[OF assms(3) ls assms(5)] this, of big]
  ultimately show ?thesis
    using native_stored[OF bytes_per_pixel_cases[OF assms(2)], of big data] W(1) by (fastforce simp: io_bind_def)
qed

theorem write_then_read_box_witness:
  "fst (io_bind (write_image_data no_faults (\<not> False) 16 [2, 3] 1 [7, 0, 8, 0] [2, 1] (Some [0, 1]))
    (\<lambda>_. read_image_slice no_faults False 16 [2, 3] 1 (box_slices [0, 1] [2, 1])) example_image) = Inr [7, 0, 8, 0]"
proof -
  have c: "check_start (length [2::nat, 3]) (Some [0, 1]) = Inr [0, 1]" by code_simp
  have f: "1 + prod_list [2, 3] * bytes_per_pixel 16 \<le> length (fs_bytes example_image)" by code_simp
  have b: "bytes_per_pixel 16 = 2" by code_simp
  show ?thesis by (rule write_then_read_box[OF _ _ _ c _ _ f]) (simp_all add: b)
qed

end
