(* ===== verification/CompressionConfig.thy ===== *)
theory CompressionConfig
  imports HeaderCards
begin

text \<open>
  Compression configurations (\<open>src/zimage/compression_config.rs\<close>): the validated per-algorithm
  records, the enum over them, the names they go by and the header parameters they write, and
  the algorithm names of \<open>src/zimage/mod.rs\<close>.
\<close>

datatype config_error =
    TileShapeEmpty
  | TileNotPositive nat int
  | BadHeapFormat string
  | LevelOutOfRange u32
  | BlocksizeNotPositive int
  | BlocksizeTooLarge int
  | HcompressNot2D nat
  | ScaleNegative int
  | ScaleTooLarge int
  | UnknownMethod string
  | UnknownAlgorithm string

subsection \<open>Algorithms\<close>

datatype compression_algorithm = AlgRice1 | AlgGzip1 | AlgGzip2 | AlgHcompress1 | AlgPlio1

definition parse_algorithm :: "string \<Rightarrow> config_error + compression_algorithm" where
  "parse_algorithm zcmptype =
     (let s = trim zcmptype
      in if s \<in> {''RICE_1'', ''RICE_ONE''} then Inr AlgRice1
         else if s \<in> {''GZIP_1'', ''GZIP''} then Inr AlgGzip1
         else if s = ''GZIP_2'' then Inr AlgGzip2
         else if s \<in> {''HCOMPRESS_1'', ''HCOMPRESS''} then Inr AlgHcompress1
         else if s = ''PLIO_1'' then Inr AlgPlio1
         else Inl (UnknownAlgorithm s))"

subsection \<open>Validation\<close>

fun validate_tiles :: "nat \<Rightarrow> int list \<Rightarrow> config_error + u64 list" where
  "validate_tiles i [] = Inr []"
| "validate_tiles i (x # xs) =
     (if x \<le> 0 then Inl (TileNotPositive i x)
      else res_bind (validate_tiles (Suc i) xs) (\<lambda>out. Inr (of_int x # out)))"

definition validate_tile_shape :: "int list option \<Rightarrow> config_error + u64 list option" where
  "validate_tile_shape tile_shape =
     (case tile_shape of
        None \<Rightarrow> Inr None
      | Some v \<Rightarrow> if v = [] then Inl TileShapeEmpty else res_bind (validate_tiles 0 v) (\<lambda>out. Inr (Some out)))"

definition validate_heap_format :: "string \<Rightarrow> config_error + char" where
  "validate_heap_format s =
     (if s \<in> {''P'', ''p''} then Inr CHR ''P''
      else if s \<in> {''Q'', ''q''} then Inr CHR ''Q'' else Inl (BadHeapFormat s))"

definition validate_gzip_level :: "u32 option \<Rightarrow> config_error + u32 option" where
  "validate_gzip_level level =
     (case level of None \<Rightarrow> Inr None | Some v \<Rightarrow> if v \<le> 9 then Inr (Some v) else Inl (LevelOutOfRange v))"

subsection \<open>Configurations\<close>

record Gzip1 =
  g1_tile_shape :: "u64 list option"
  g1_heap_format :: char
  g1_level :: "u32 option"

record Gzip2 =
  g2_tile_shape :: "u64 list option"
  g2_heap_format :: char
  g2_level :: "u32 option"

record Rice1 =
  r_tile_shape :: "u64 list option"
  r_heap_format :: char
  r_blocksize :: u32

record Hcompress1 =
  h_tile_shape :: "u64 list option"
  h_heap_format :: char
  h_scale :: i32
  h_smooth :: bool

record Plio1 =
  p_tile_shape :: "u64 list option"
  p_heap_format :: char

definition gzip1_new :: "int list option \<Rightarrow> string \<Rightarrow> u32 option \<Rightarrow> config_error + Gzip1" where
  "gzip1_new tile_shape heap_format level =
     res_bind (validate_tile_shape tile_shape) (\<lambda>ts.
     res_bind (validate_heap_format heap_format) (\<lambda>hf.
     res_bind (validate_gzip_level level) (\<lambda>lv.
     Inr \<lparr>g1_tile_shape = ts, g1_heap_format = hf, g1_level = lv\<rparr>)))"

definition gzip2_new :: "int list option \<Rightarrow> string \<Rightarrow> u32 option \<Rightarrow> config_error + Gzip2" where
  "gzip2_new tile_shape heap_format level =
     res_bind (validate_tile_shape tile_shape) (\<lambda>ts.
     res_bind (validate_heap_format heap_format) (\<lambda>hf.
     res_bind (validate_gzip_level level) (\<lambda>lv.
     Inr \<lparr>g2_tile_shape = ts, g2_heap_format = hf, g2_level = lv\<rparr>)))"

definition plio1_new :: "int list option \<Rightarrow> string \<Rightarrow> config_error + Plio1" where
  "plio1_new tile_shape heap_format =
     res_bind (validate_tile_shape tile_shape) (\<lambda>ts.
     res_bind (validate_heap_format heap_format) (\<lambda>hf.
     Inr \<lparr>p_tile_shape = ts, p_heap_format = hf\<rparr>))"

definition hcompress1_new :: "int list option \<Rightarrow> string \<Rightarrow> int \<Rightarrow> bool \<Rightarrow> config_error + Hcompress1" where
  "hcompress1_new tile_shape heap_format scale smooth =
     res_bind (validate_tile_shape tile_shape) (\<lambda>ts.
     res_bind (case ts of Some t \<Rightarrow> if length t \<noteq> 2 then Inl (HcompressNot2D (length t)) else Inr () | None \<Rightarrow> Inr ()) (\<lambda>_.
     res_bind (validate_heap_format heap_format) (\<lambda>hf.
     if scale < 0 then Inl (ScaleNegative scale)
     else if scale > 2147483647 then Inl (ScaleTooLarge scale)
     else Inr \<lparr>h_tile_shape = ts, h_heap_format = hf, h_scale = of_int scale, h_smooth = smooth\<rparr>)))"

definition rice1_new :: "int list option \<Rightarrow> string \<Rightarrow> int \<Rightarrow> config_error + Rice1" where
  "rice1_new tile_shape heap_format blocksize =
     res_bind (validate_tile_shape tile_shape) (\<lambda>ts.
     res_bind (validate_heap_format heap_format) (\<lambda>hf.
     if blocksize \<le> 0 then Inl (BlocksizeNotPositive blocksize)
     else if blocksize > 4294967295 then Inl (BlocksizeTooLarge blocksize)
     else Inr \<lparr>r_tile_shape = ts, r_heap_format = hf, r_blocksize = of_int blocksize\<rparr>))"

datatype compression_config =
    CGzip1 Gzip1
  | CGzip2 Gzip2
  | CRice1 Rice1
  | CHcompress1 Hcompress1
  | CPlio1 Plio1

definition config_from_str :: "string \<Rightarrow> config_error + compression_config" where
  "config_from_str name =
     (let u = upper (trim name)
      in if u \<in> {''GZIP'', ''GZIP_1''} then Inr (CGzip1 \<lparr>g1_tile_shape = None, g1_heap_format = CHR ''P'', g1_level = None\<rparr>)
         else if u = ''GZIP_2'' then Inr (CGzip2 \<lparr>g2_tile_shape = None, g2_heap_format = CHR ''P'', g2_level = None\<rparr>)
         else if u \<in> {''RICE'', ''RICE_1'', ''RICE_ONE''} then
           Inr (CRice1 \<lparr>r_tile_shape = None, r_heap_format = CHR ''P'', r_blocksize = 32\<rparr>)
         else if u \<in> {''HCOMPRESS'', ''HCOMPRESS_1''} then
           Inr (CHcompress1 \<lparr>h_tile_shape = None, h_heap_format = CHR ''P'', h_scale = 0, h_smooth = False\<rparr>)
         else if u \<in> {''PLIO'', ''PLIO_1''} then Inr (CPlio1 \<lparr>p_tile_shape = None, p_heap_format = CHR ''P''\<rparr>)
         else Inl (UnknownAlgorithm name))"

fun config_tile_shape :: "compression_config \<Rightarrow> u64 list option" where
  "config_tile_shape (CGzip1 g) = g1_tile_shape g"
| "config_tile_shape (CGzip2 g) = g2_tile_shape g"
| "config_tile_shape (CRice1 r) = r_tile_shape r"
| "config_tile_shape (CHcompress1 h) = h_tile_shape h"
| "config_tile_shape (CPlio1 p) = p_tile_shape p"

fun config_heap_format :: "compression_config \<Rightarrow> char" where
  "config_heap_format (CGzip1 g) = g1_heap_format g"
| "config_heap_format (CGzip2 g) = g2_heap_format g"
| "config_heap_format (CRice1 r) = r_heap_format r"
| "config_heap_format (CHcompress1 h) = h_heap_format h"
| "config_heap_format (CPlio1 p) = p_heap_format p"

fun zcmptype :: "compression_config \<Rightarrow> string" where
  "zcmptype (CGzip1 _) = ''GZIP_1''"
| "zcmptype (CGzip2 _) = ''GZIP_2''"
| "zcmptype (CRice1 _) = ''RICE_1''"
| "zcmptype (CHcompress1 _) = ''HCOMPRESS_1''"
| "zcmptype (CPlio1 _) = ''PLIO_1''"

text \<open>\<open>bitpix / 8\<close> truncates towards zero; it is only used for bit depths that are multiples of 8.\<close>

fun extra_z_cards :: "compression_config \<Rightarrow> int \<Rightarrow> (string \<times> int) list" where
  "extra_z_cards (CRice1 r) bitpix = [(''BLOCKSIZE'', uint (r_blocksize r)), (''BYTEPIX'', sgn bitpix * (\<bar>bitpix\<bar> div 8))]"
| "extra_z_cards (CHcompress1 h) bitpix = [(''SCALE'', sint (h_scale h)), (''SMOOTH'', if h_smooth h then 1 else 0)]"
| "extra_z_cards _ bitpix = []"

fun config_gzip_level :: "compression_config \<Rightarrow> u32 option" where
  "config_gzip_level (CGzip1 g) = g1_level g"
| "config_gzip_level (CGzip2 g) = g2_level g"
| "config_gzip_level _ = None"

fun with_resolved_tile_shape :: "compression_config \<Rightarrow> u64 list \<Rightarrow> compression_config" where
  "with_resolved_tile_shape (CGzip1 g) ts = CGzip1 (g\<lparr>g1_tile_shape := Some ts\<rparr>)"
| "with_resolved_tile_shape (CGzip2 g) ts = CGzip2 (g\<lparr>g2_tile_shape := Some ts\<rparr>)"
| "with_resolved_tile_shape (CRice1 r) ts = CRice1 (r\<lparr>r_tile_shape := Some ts\<rparr>)"
| "with_resolved_tile_shape (CHcompress1 h) ts = CHcompress1 (h\<lparr>h_tile_shape := Some ts\<rparr>)"
| "with_resolved_tile_shape (CPlio1 p) ts = CPlio1 (p\<lparr>p_tile_shape := Some ts\<rparr>)"

subsection \<open>Quantisation methods\<close>

datatype quantize_method = NoDither | SubtractiveDither1 | SubtractiveDither2

text \<open>\<open>to_ascii_lowercase\<close>.\<close>

definition lower_char :: "char \<Rightarrow> char" where
  "lower_char c =
     (if 65 \<le> (of_char c :: nat) \<and> (of_char c :: nat) \<le> 90 then char_of (of_char c + 32 :: nat) else c)"

definition quantize_parse :: "string \<Rightarrow> config_error + quantize_method" where
  "quantize_parse s =
     (let l = map lower_char (trim s)
      in if l \<in> {''no_dither'', ''nodither''} then Inr NoDither
         else if l \<in> {''dither1'', ''dither_1'', ''subtractive_dither_1''} then Inr SubtractiveDither1
         else if l \<in> {''dither2'', ''dither_2'', ''subtractive_dither_2''} then Inr SubtractiveDither2
         else Inl (UnknownMethod l))"

fun zquantiz :: "quantize_method \<Rightarrow> string" where
  "zquantiz NoDither = ''NO_DITHER''"
| "zquantiz SubtractiveDither1 = ''SUBTRACTIVE_DITHER_1''"
| "zquantiz SubtractiveDither2 = ''SUBTRACTIVE_DITHER_2''"

fun short_name :: "quantize_method \<Rightarrow> string" where
  "short_name NoDither = ''no_dither''"
| "short_name SubtractiveDither1 = ''dither1''"
| "short_name SubtractiveDither2 = ''dither2''"

text \<open>The reader's name table (\<open>parse_dither_method\<close> of \<open>src/zimage/quantize.rs\<close>); the reader's enum has the same members.\<close>

definition parse_dither_method :: "string option \<Rightarrow> config_error + quantize_method option" where
  "parse_dither_method z =
     (case map_option trim z of
        None \<Rightarrow> Inr (Some NoDither)
      | Some s \<Rightarrow>
          if s = ''NONE'' then Inr None
          else if s = ''NO_DITHER'' then Inr (Some NoDither)
          else if s = ''SUBTRACTIVE_DITHER_1'' then Inr (Some SubtractiveDither1)
          else if s = ''SUBTRACTIVE_DITHER_2'' then Inr (Some SubtractiveDither2)
          else Inl (UnknownMethod s))"

subsection \<open>Well-formed configurations\<close>

definition config_ok :: "compression_config \<Rightarrow> bool" where
  "config_ok cfg \<longleftrightarrow>
     config_heap_format cfg \<in> {CHR ''P'', CHR ''Q''} \<and>
     (case config_tile_shape cfg of None \<Rightarrow> True | Some ts \<Rightarrow> ts \<noteq> [] \<and> 0 \<notin> set ts) \<and>
     (case config_gzip_level cfg of None \<Rightarrow> True | Some l \<Rightarrow> l \<le> 9) \<and>
     (case cfg of CRice1 r \<Rightarrow> 0 < r_blocksize r
      | CHcompress1 h \<Rightarrow> 0 \<le> sint (h_scale h) \<and> (case h_tile_shape h of None \<Rightarrow> True | Some ts \<Rightarrow> length ts = 2)
      | _ \<Rightarrow> True)"

definition algorithm_of :: "compression_config \<Rightarrow> compression_algorithm" where
  "algorithm_of cfg =
     (case cfg of CGzip1 _ \<Rightarrow> AlgGzip1 | CGzip2 _ \<Rightarrow> AlgGzip2 | CRice1 _ \<Rightarrow> AlgRice1
      | CHcompress1 _ \<Rightarrow> AlgHcompress1 | CPlio1 _ \<Rightarrow> AlgPlio1)"

lemma validate_tiles_ok:
  "validate_tiles i xs = Inr ts \<Longrightarrow> (\<forall>x \<in> set xs. x < 2 ^ 63) \<Longrightarrow> length ts = length xs \<and> 0 \<notin> set ts \<and> map uint ts = xs"
proof (induction i xs arbitrary: ts rule: validate_tiles.induct)
  case (2 i x xs)
  then obtain out where o: "0 < x" "validate_tiles (Suc i) xs = Inr out" "ts = of_int x # out"
    by (auto simp: res_bind_Inr_iff split: if_splits)
  have "x < 2 ^ 64" using 2(3) by simp
  then have "uint (of_int x :: u64) = x" using o(1) by (simp add: uint_word_of_int)
  moreover from this have "(of_int x :: u64) \<noteq> 0" using o(1) by auto
  ultimately show ?case using 2(1)[OF _ o(2)] 2(3) o by auto
qed simp

lemma validate_heap_format_ok: "validate_heap_format s = Inr c \<Longrightarrow> c \<in> {CHR ''P'', CHR ''Q''}"
  by (auto simp: validate_heap_format_def split: if_splits)

lemma validate_tile_shape_ok:
  assumes "validate_tile_shape v = Inr ts" "case v of None \<Rightarrow> True | Some xs \<Rightarrow> \<forall>x \<in> set xs. x < 2 ^ 63"
  shows "case ts of None \<Rightarrow> True | Some t \<Rightarrow> t \<noteq> [] \<and> 0 \<notin> set t"
proof (cases v)
  case (Some xs)
  then obtain out where "xs \<noteq> []" "validate_tiles 0 xs = Inr out" "ts = Some out"
    using assms(1) by (auto simp: validate_tile_shape_def res_bind_Inr_iff split: if_splits)
  then show ?thesis using validate_tiles_ok[of 0 xs out] assms(2) Some by auto
qed (use assms(1) in \<open>simp add: validate_tile_shape_def\<close>)

lemma validate_gzip_level_ok:
  "validate_gzip_level l = Inr l' \<Longrightarrow> case l' of None \<Rightarrow> True | Some v \<Rightarrow> v \<le> 9"
  by (auto simp: validate_gzip_level_def split: option.splits if_splits)

lemma sint_of_scale: "0 \<le> s \<Longrightarrow> s \<le> 2147483647 \<Longrightarrow> sint (of_int s :: i32) = s"
  by (simp add: signed_of_int signed_take_bit_int_eq_self)

lemma of_int_blocksize: "0 < b \<Longrightarrow> b \<le> 4294967295 \<Longrightarrow> (0 :: u32) < of_int b"
  by (simp add: word_less_def uint_word_of_int)

lemma trim_literal [simp]:
  "trim ''RICE_1'' = ''RICE_1''" "trim ''GZIP_1'' = ''GZIP_1''" "trim ''GZIP_2'' = ''GZIP_2''"
  "trim ''HCOMPRESS_1'' = ''HCOMPRESS_1''" "trim ''PLIO_1'' = ''PLIO_1''"
  "trim ''NO_DITHER'' = ''NO_DITHER''" "trim ''SUBTRACTIVE_DITHER_1'' = ''SUBTRACTIVE_DITHER_1''"
  "trim ''SUBTRACTIVE_DITHER_2'' = ''SUBTRACTIVE_DITHER_2''" "trim ''no_dither'' = ''no_dither''"
  "trim ''dither1'' = ''dither1''" "trim ''dither2'' = ''dither2''"
  by (simp_all add: trim_def trim_end_def trim_start_def is_ws_def)

lemma lower_chars:
  "lower_char CHR ''N'' = CHR ''n''"
  "lower_char CHR ''O'' = CHR ''o''"
  "lower_char CHR ''D'' = CHR ''d''"
  "lower_char CHR ''I'' = CHR ''i''"
  "lower_char CHR ''T'' = CHR ''t''"
  "lower_char CHR ''H'' = CHR ''h''"
  "lower_char CHR ''E'' = CHR ''e''"
  "lower_char CHR ''R'' = CHR ''r''"
  "lower_char CHR ''S'' = CHR ''s''"
  "lower_char CHR ''U'' = CHR ''u''"
  "lower_char CHR ''B'' = CHR ''b''"
  "lower_char CHR ''A'' = CHR ''a''"
  "lower_char CHR ''C'' = CHR ''c''"
  "lower_char CHR ''V'' = CHR ''v''"
  "lower_char CHR ''_'' = CHR ''_''"
  "lower_char CHR ''1'' = CHR ''1''"
  "lower_char CHR ''2'' = CHR ''2''"
  "lower_char CHR ''n'' = CHR ''n''"
  "lower_char CHR ''o'' = CHR ''o''"
  "lower_char CHR ''d'' = CHR ''d''"
  "lower_char CHR ''i'' = CHR ''i''"
  "lower_char CHR ''t'' = CHR ''t''"
  "lower_char CHR ''h'' = CHR ''h''"
  "lower_char CHR ''e'' = CHR ''e''"
  "lower_char CHR ''r'' = CHR ''r''"
  by (simp_all add: lower_char_def char_of_def bit_0)

lemma quantize_names: "quantize_parse (zquantiz m) = Inr m" "quantize_parse (short_name m) = Inr m"
  by (cases m; simp add: quantize_parse_def lower_chars)+

lemma config_parts:
  assumes "validate_tile_shape ts = Inr t" "validate_heap_format hf = Inr c" "validate_gzip_level lv = Inr l"
    and "case ts of None \<Rightarrow> True | Some xs \<Rightarrow> \<forall>x \<in> set xs. x < 2 ^ 63"
  shows "c \<in> {CHR ''P'', CHR ''Q''}" "case t of None \<Rightarrow> True | Some ts \<Rightarrow> ts \<noteq> [] \<and> 0 \<notin> set ts"
    "case l of None \<Rightarrow> True | Some l \<Rightarrow> l \<le> 9"
  using validate_tile_shape_ok[OF assms(1,4)] validate_heap_format_ok[OF assms(2)] validate_gzip_level_ok[OF assms(3)]
  by blast+

subsection \<open>Properties\<close>

text \<open>
  C27: every configuration a constructor accepts is well-formed: the heap format is P or Q, tile
  sizes are positive and present, a gzip level is at most 9, a Rice block is not empty, an
  HCOMPRESS scale is not negative and its tile is two-dimensional. Anything else is an error.
\<close>

theorem constructors_well_formed:
  assumes "case ts of None \<Rightarrow> True | Some xs \<Rightarrow> \<forall>x \<in> set xs. x < 2 ^ 63"
  shows "(\<forall>g. gzip1_new ts hf lv = Inr g \<longrightarrow> config_ok (CGzip1 g)) \<and>
    (\<forall>g. gzip2_new ts hf lv = Inr g \<longrightarrow> config_ok (CGzip2 g)) \<and>
    (\<forall>p. plio1_new ts hf = Inr p \<longrightarrow> config_ok (CPlio1 p)) \<and>
    (\<forall>h. hcompress1_new ts hf scale smooth = Inr h \<longrightarrow> config_ok (CHcompress1 h)) \<and>
    (\<forall>r. rice1_new ts hf blocksize = Inr r \<longrightarrow> config_ok (CRice1 r))"
proof (intro conjI allI impI)
  note P = config_parts[OF _ _ _ assms]
  have none: "validate_gzip_level None = Inr None" by (simp add: validate_gzip_level_def)
  show "config_ok (CGzip1 g)" if "gzip1_new ts hf lv = Inr g" for g
  proof -
    from that obtain t c l where v: "validate_tile_shape ts = Inr t" "validate_heap_format hf = Inr c" "validate_gzip_level lv = Inr l"
      and g: "g = \<lparr>g1_tile_shape = t, g1_heap_format = c, g1_level = l\<rparr>"
      by (auto simp: gzip1_new_def res_bind_Inr_iff)
    show ?thesis using P[OF v] by (simp add: g config_ok_def)
  qed
  show "config_ok (CGzip2 g)" if "gzip2_new ts hf lv = Inr g" for g
  proof -
    from that obtain t c l where v: "validate_tile_shape ts = Inr t" "validate_heap_format hf = Inr c" "validate_gzip_level lv = Inr l"
      and g: "g = \<lparr>g2_tile_shape = t, g2_heap_format = c, g2_level = l\<rparr>"
      by (auto simp: gzip2_new_def res_bind_Inr_iff)
    show ?thesis using P[OF v] by (simp add: g config_ok_def)
  qed
  show "config_ok (CPlio1 p)" if "plio1_new ts hf = Inr p" for p
  proof -
    from that obtain t c where v: "validate_tile_shape ts = Inr t" "validate_heap_format hf = Inr c"
      and p: "p = \<lparr>p_tile_shape = t, p_heap_format = c\<rparr>"
      by (auto simp: plio1_new_def res_bind_Inr_iff)
    show ?thesis using P[OF v none] by (simp add: p config_ok_def)
  qed
  show "config_ok (CHcompress1 h)" if "hcompress1_new ts hf scale smooth = Inr h" for h
  proof -
    from that obtain t c where v: "validate_tile_shape ts = Inr t" "validate_heap_format hf = Inr c"
      and h: "h = \<lparr>h_tile_shape = t, h_heap_format = c, h_scale = of_int scale, h_smooth = smooth\<rparr>"
        "0 \<le> scale" "scale \<le> 2147483647" "case t of None \<Rightarrow> True | Some ts \<Rightarrow> length ts = 2"
      by (auto simp: hcompress1_new_def res_bind_Inr_iff split: if_splits option.splits)
    show ?thesis using P[OF v none] h(2-4) by (simp add: h(1) config_ok_def sint_of_scale)
  qed
  show "config_ok (CRice1 r)" if "rice1_new ts hf blocksize = Inr r" for r
  proof -
    from that obtain t c where v: "validate_tile_shape ts = Inr t" "validate_heap_format hf = Inr c"
      and r: "r = \<lparr>r_tile_shape = t, r_heap_format = c, r_blocksize = of_int blocksize\<rparr>"
        "0 < blocksize" "blocksize \<le> 4294967295"
      by (auto simp: rice1_new_def res_bind_Inr_iff split: if_splits)
    show ?thesis using P[OF v none] of_int_blocksize[OF r(2,3)] by (simp add: r(1) config_ok_def)
  qed
qed

theorem constructors_well_formed_witness:
  "rice1_new (Some [10, 20]) ''q'' 64 = Inr \<lparr>r_tile_shape = Some [10, 20], r_heap_format = CHR ''Q'', r_blocksize = 64\<rparr> \<and>
   config_ok (CRice1 \<lparr>r_tile_shape = Some [10, 20], r_heap_format = CHR ''Q'', r_blocksize = 64\<rparr>)"
proof -
  have "rice1_new (Some [10, 20]) ''q'' 64 = Inr \<lparr>r_tile_shape = Some [10, 20], r_heap_format = CHR ''Q'', r_blocksize = 64\<rparr>"
    by (simp add: rice1_new_def validate_tile_shape_def validate_heap_format_def)
  then show ?thesis
    using constructors_well_formed[of "Some [10, 20]" "''q''" None 0 False 64] by simp
qed

text \<open>
  the names agree in every direction. The ZCMPTYPE a configuration writes is read back as its
  algorithm and, given as a configuration name, as the same algorithm's default configuration;
  the ZQUANTIZ of a dither method is read back as that method by the reader and by the
  constructor, which also accepts the short name.
\<close>

theorem names_read_back:
  "parse_algorithm (zcmptype cfg) = Inr (algorithm_of cfg) \<and>
   (\<exists>d. config_from_str (zcmptype cfg) = Inr d \<and> algorithm_of d = algorithm_of cfg \<and> config_ok d \<and> config_tile_shape d = None) \<and>
   parse_dither_method (Some (zquantiz m)) = Inr (Some m) \<and>
   quantize_parse (zquantiz m) = Inr m \<and> quantize_parse (short_name m) = Inr m"
  using quantize_names[of m]
  by (cases cfg; cases m)
     (simp_all add: parse_algorithm_def algorithm_of_def config_from_str_def Let_def upper_def upper_char_def
       config_ok_def parse_dither_method_def)

end
