(* ===== verification/ZImageHeader.thy ===== *)
theory ZImageHeader
  imports CompressionConfig
begin

text \<open>
  The header of a tile-compressed image: the cards \<open>create_compressed_image_hdu_impl\<close> writes
  (\<open>src/fits.rs\<close>) and the metadata the reader derives from them
  (\<open>src/hdu_image_compressed/meta.rs\<close>). Unsigned 64-bit sizes are \<open>u64\<close> words and wrap as
  release builds do. The image scaling keywords BSCALE and BZERO are floating-point on reading
  and are left out of the metadata record.
\<close>

datatype zimage_error =
    MissingKeyword string
  | UnsupportedBitpix int
  | NoImageAxes
  | BadConfig config_error
  | RowCountMismatch u64 u64
  | NoFields
  | MissingTform nat
  | BadTformRepeat string
  | TformMissingType string
  | TformUnsupported char
  | NoCompressedData
  | QuantNotFloat int
  | UnsupportedDtype string
  | BadDimension nat int
  | QuantizeOnInteger
  | PlioFloat | Plio64 | PlioUnsigned | Rice64 | HcompressDims nat | Hcompress64
  | UnquantizedNeedsGzip string
  | TileShapeDims nat nat
  | AxisTooSmall nat u64 | TileTooSmall nat u64 | LastTileTooSmall nat u64 u64
  | BlankOnFloat
  | BlankOutOfRange int int

text \<open>\<open>as i32\<close> and \<open>as u64\<close> of an \<open>i64\<close>.\<close>

definition as_i32 :: "int \<Rightarrow> int" where
  "as_i32 v = sint (of_int v :: i32)"

definition as_u64 :: "int \<Rightarrow> u64" where
  "as_u64 v = of_int v"

definition numbered :: "string \<Rightarrow> nat \<Rightarrow> string" where
  "numbered s n = s @ dec_digits n"

subsection \<open>Image and tile shapes\<close>

definition parse_compressed_image_shape :: "string list \<Rightarrow> zimage_error + int \<times> u64 list" where
  "parse_compressed_image_shape header =
     (case parse_keyword header ''ZBITPIX'' of
        None \<Rightarrow> Inl (MissingKeyword ''ZBITPIX'')
      | Some z \<Rightarrow>
          (let znaxis = nat (max 0 (case parse_keyword header ''ZNAXIS'' of None \<Rightarrow> 0 | Some v \<Rightarrow> v));
               shape = map (\<lambda>i. as_u64 (max 0 (case parse_keyword header (numbered ''ZNAXIS'' i) of None \<Rightarrow> 0 | Some v \<Rightarrow> v)))
                         [1..<Suc znaxis]
           in Inr (as_i32 z, rev shape)))"

definition parse_tile_shape :: "string list \<Rightarrow> u64 list \<Rightarrow> u64 list" where
  "parse_tile_shape header image_shape =
     (let n = length image_shape;
          fits_order = map (\<lambda>i.
             let default = (if i = 1 then image_shape ! (n - 1) else 1)
             in case parse_keyword header (numbered ''ZTILE'' i) of Some x \<Rightarrow> as_u64 (max 0 x) | None \<Rightarrow> default)
           [1..<Suc n]
      in rev fits_order)"

definition saturating_mul :: "u64 \<Rightarrow> u64 \<Rightarrow> u64" where
  "saturating_mul a b = (if unat a * unat b < 2 ^ 64 then a * b else - 1)"

definition word_div_ceil :: "u64 \<Rightarrow> u64 \<Rightarrow> u64" where
  "word_div_ceil a b = of_nat (div_ceil (unat a) (unat b))"

fun n_tiles_loop :: "u64 \<Rightarrow> (u64 \<times> u64) list \<Rightarrow> u64" where
  "n_tiles_loop acc [] = acc"
| "n_tiles_loop acc ((img, tile) # rest) =
     (if img = 0 \<or> tile = 0 then 0
      else n_tiles_loop (saturating_mul acc (word_div_ceil img tile)) rest)"

definition compute_n_tiles :: "u64 list \<Rightarrow> u64 list \<Rightarrow> u64" where
  "compute_n_tiles image_shape tile_shape =
     (if image_shape = [] then 0 else n_tiles_loop 1 (zip image_shape tile_shape))"

subsection \<open>Column layout\<close>

definition digits_prefix :: "string \<Rightarrow> string" where
  "digits_prefix s = takeWhile is_digit s"

definition parse_u64 :: "string \<Rightarrow> u64 option" where
  "parse_u64 s =
     (case parse_digits s of None \<Rightarrow> None | Some n \<Rightarrow> if n < 2 ^ 64 then Some (of_nat n) else None)"

definition tform_byte_width :: "string \<Rightarrow> zimage_error + u64" where
  "tform_byte_width tform =
     (let trimmed = trim tform; ds = digits_prefix trimmed; rest = dropWhile is_digit trimmed
      in case (if ds = [] then Some 1 else parse_u64 ds) of
           None \<Rightarrow> Inl (BadTformRepeat tform)
         | Some rep \<Rightarrow>
             (case rest of
                [] \<Rightarrow> Inl (TformMissingType tform)
              | t # _ \<Rightarrow>
                  if t \<in> set ''LAB'' then Inr rep
                  else if t = CHR ''I'' then Inr (rep * 2)
                  else if t \<in> set ''JE'' then Inr (rep * 4)
                  else if t \<in> set ''KDC'' then Inr (rep * 8)
                  else if t = CHR ''M'' then Inr (rep * 16)
                  else if t = CHR ''X'' then Inr (word_div_ceil rep 8)
                  else if t = CHR ''P'' then Inr (rep * 8)
                  else if t = CHR ''Q'' then Inr (rep * 16)
                  else Inl (TformUnsupported t)))"

definition tform_vla_inner_byte_width :: "string \<Rightarrow> u64 option" where
  "tform_vla_inner_byte_width tform =
     (case dropWhile is_digit (trim tform) of
        outer # inner # _ \<Rightarrow>
          if outer \<noteq> CHR ''P'' \<and> outer \<noteq> CHR ''Q'' then None
          else if inner \<in> set ''LAB'' then Some 1
          else if inner = CHR ''I'' then Some 2
          else if inner \<in> set ''JE'' then Some 4
          else if inner \<in> set ''KDC'' then Some 8
          else if inner = CHR ''M'' then Some 16
          else None
      | _ \<Rightarrow> None)"

definition tform_is_q_descriptor :: "string \<Rightarrow> bool" where
  "tform_is_q_descriptor tform =
     (case dropWhile is_digit (trim tform) of t # _ \<Rightarrow> t = CHR ''Q'' | [] \<Rightarrow> False)"

record zimage_column_info =
  byte_offset_in_row :: u64
  is_q :: bool
  inner_byte_width :: u64

record zimage_data_columns =
  primary :: zimage_column_info
  gzip_fallback :: "zimage_column_info option"
  uncompressed_fallback :: "zimage_column_info option"
  zscale_offset_in_row :: "u64 option"
  zzero_offset_in_row :: "u64 option"

text \<open>The state of the column loop: the columns found so far and the running offset.\<close>

record column_scan =
  cs_primary :: "zimage_column_info option"
  cs_gzip :: "zimage_column_info option"
  cs_uncompressed :: "zimage_column_info option"
  cs_zscale :: "u64 option"
  cs_zzero :: "u64 option"
  cs_offset :: u64

definition scan_column :: "string \<Rightarrow> string \<Rightarrow> column_scan \<Rightarrow> zimage_error + column_scan" where
  "scan_column ttype tform s =
     res_bind (tform_byte_width tform) (\<lambda>width.
     let offset = cs_offset s;
         info = \<lparr>byte_offset_in_row = offset, is_q = tform_is_q_descriptor tform,
                 inner_byte_width = (case tform_vla_inner_byte_width tform of Some w \<Rightarrow> w | None \<Rightarrow> 1)\<rparr>;
         t = trim ttype;
         s1 = (if t = ''COMPRESSED_DATA'' then s\<lparr>cs_primary := Some info\<rparr>
               else if t = ''GZIP_COMPRESSED_DATA'' then s\<lparr>cs_gzip := Some info\<rparr>
               else if t = ''UNCOMPRESSED_DATA'' then s\<lparr>cs_uncompressed := Some info\<rparr>
               else if t = ''ZSCALE'' then s\<lparr>cs_zscale := Some offset\<rparr>
               else if t = ''ZZERO'' then s\<lparr>cs_zzero := Some offset\<rparr>
               else s)
     in Inr (s1\<lparr>cs_offset := offset + width\<rparr>))"

fun scan_columns :: "string list \<Rightarrow> nat list \<Rightarrow> column_scan \<Rightarrow> zimage_error + column_scan" where
  "scan_columns header [] s = Inr s"
| "scan_columns header (i # is) s =
     (let ttype = (case parse_string_keyword header (numbered ''TTYPE'' i) of Some t \<Rightarrow> t | None \<Rightarrow> [])
      in case parse_string_keyword header (numbered ''TFORM'' i) of
           None \<Rightarrow> Inl (MissingTform i)
         | Some tform \<Rightarrow> res_bind (scan_column ttype tform s) (scan_columns header is))"

definition find_data_columns :: "string list \<Rightarrow> zimage_error + zimage_data_columns" where
  "find_data_columns header =
     (let tfields = nat (max 0 (case parse_keyword header ''TFIELDS'' of None \<Rightarrow> 0 | Some v \<Rightarrow> v))
      in if tfields = 0 then Inl NoFields
         else res_bind (scan_columns header [1..<Suc tfields]
                \<lparr>cs_primary = None, cs_gzip = None, cs_uncompressed = None, cs_zscale = None, cs_zzero = None, cs_offset = 0\<rparr>)
           (\<lambda>s. case cs_primary s of
                  None \<Rightarrow> Inl NoCompressedData
                | Some p \<Rightarrow> Inr \<lparr>primary = p, gzip_fallback = cs_gzip s, uncompressed_fallback = cs_uncompressed s,
                                zscale_offset_in_row = cs_zscale s, zzero_offset_in_row = cs_zzero s\<rparr>))"

subsection \<open>Compression parameters\<close>

text \<open>
  The ZNAMEn/ZVALn pairs up to the first gap. The code counts up without a bound; a keyword is
  at most eight characters, so no card matches ZNAMEn for n of four digits and the walk ends by
  n = 1000 at the latest (lemma \<open>zname_limit\<close>).
\<close>

definition z_pairs :: "string list \<Rightarrow> (string \<times> int option) list" where
  "z_pairs header =
     map (\<lambda>n. (trim (the (parse_string_keyword header (numbered ''ZNAME'' n))), parse_keyword header (numbered ''ZVAL'' n)))
       (takeWhile (\<lambda>n. parse_string_keyword header (numbered ''ZNAME'' n) \<noteq> None) [1..<1000])"

definition as_u32 :: "int \<Rightarrow> u32" where
  "as_u32 v = of_int v"

definition rice_param :: "u32 option \<times> u32 option \<Rightarrow> string \<times> int option \<Rightarrow> u32 option \<times> u32 option" where
  "rice_param acc p =
     (case p of
        (name, Some val) \<Rightarrow>
          if name = ''BLOCKSIZE'' \<and> val > 0 then (Some (as_u32 val), snd acc)
          else if name = ''BYTEPIX'' \<and> val > 0 then (fst acc, Some (as_u32 val))
          else acc
      | _ \<Rightarrow> acc)"

definition parse_rice_params :: "string list \<Rightarrow> u32 option \<times> u32 option" where
  "parse_rice_params header = foldl rice_param (None, None) (z_pairs header)"

definition eq_ignore_ascii_case :: "string \<Rightarrow> string \<Rightarrow> bool" where
  "eq_ignore_ascii_case a b \<longleftrightarrow> map lower_char a = map lower_char b"

fun first_param :: "string \<Rightarrow> (string \<times> int option) list \<Rightarrow> int option" where
  "first_param key [] = None"
| "first_param key ((name, v) # ps) =
     (if eq_ignore_ascii_case name key then (case v of Some x \<Rightarrow> Some x | None \<Rightarrow> first_param key ps)
      else first_param key ps)"

definition parse_hcompress_scale :: "string list \<Rightarrow> int" where
  "parse_hcompress_scale header = (case first_param ''SCALE'' (z_pairs header) of Some v \<Rightarrow> as_i32 v | None \<Rightarrow> 0)"

definition parse_hcompress_smooth :: "string list \<Rightarrow> bool" where
  "parse_hcompress_smooth header = (case first_param ''SMOOTH'' (z_pairs header) of Some v \<Rightarrow> v \<noteq> 0 | None \<Rightarrow> False)"

subsection \<open>Metadata\<close>

record zimage_quant_context =
  qc_method :: quantize_method
  qc_zdither0 :: int
  qc_zscale_offset :: u64
  qc_zzero_offset :: u64
  qc_output_zbitpix :: int

definition build_quant_context :: "string list \<Rightarrow> zimage_data_columns \<Rightarrow> zimage_error + zimage_quant_context option" where
  "build_quant_context cards cols =
     (case parse_dither_method (parse_string_keyword cards ''ZQUANTIZ'') of
        Inl e \<Rightarrow> Inl (BadConfig e)
      | Inr method_opt \<Rightarrow>
          (case (method_opt, zscale_offset_in_row cols, zzero_offset_in_row cols) of
             (Some m, Some zs, Some zz) \<Rightarrow>
               (let z = (case parse_keyword cards ''ZDITHER0'' of None \<Rightarrow> 0 | Some v \<Rightarrow> v);
                    zdither0 = (if z \<le> 0 then 1 else z)
                in case parse_keyword cards ''ZBITPIX'' of
                     None \<Rightarrow> Inl (MissingKeyword ''ZBITPIX'')
                   | Some b \<Rightarrow>
                       if as_i32 b \<noteq> - 32 \<and> as_i32 b \<noteq> - 64 then Inl (QuantNotFloat (as_i32 b))
                       else Inr (Some \<lparr>qc_method = m, qc_zdither0 = zdither0, qc_zscale_offset = zs,
                                       qc_zzero_offset = zz, qc_output_zbitpix = as_i32 b\<rparr>))
           | _ \<Rightarrow> Inr None))"

record compressed_image_meta =
  m_zbitpix :: int
  m_image_shape :: "u64 list"
  m_tile_shape :: "u64 list"
  m_n_tiles :: u64
  m_algorithm :: compression_algorithm
  m_blocksize :: u32
  m_bytepix :: u32
  m_smooth :: bool
  m_naxis1 :: u64
  m_theap :: u64
  m_cols :: zimage_data_columns
  m_quant :: "zimage_quant_context option"
  m_zblank :: "int option"

definition default_bytepix :: "int \<Rightarrow> zimage_error + u32" where
  "default_bytepix zbitpix =
     (let stored = (if zbitpix < 0 then 32 else zbitpix)
      in if stored = 8 then Inr 1 else if stored = 16 then Inr 2 else if stored = 32 then Inr 4
         else if stored = 64 then Inr 8 else Inl (UnsupportedBitpix zbitpix))"

definition require :: "string list \<Rightarrow> string \<Rightarrow> zimage_error + int" where
  "require cards key = (case parse_keyword cards key of None \<Rightarrow> Inl (MissingKeyword key) | Some v \<Rightarrow> Inr v)"

definition require_algorithm :: "string list \<Rightarrow> zimage_error + compression_algorithm" where
  "require_algorithm cards =
     (case parse_string_keyword cards ''ZCMPTYPE'' of
        None \<Rightarrow> Inl (MissingKeyword ''ZCMPTYPE'')
      | Some z \<Rightarrow> (case parse_algorithm z of Inl e \<Rightarrow> Inl (BadConfig e) | Inr a \<Rightarrow> Inr a))"

definition parse_compressed_image_meta :: "string list \<Rightarrow> zimage_error + compressed_image_meta" where
  "parse_compressed_image_meta cards =
     res_bind (require_algorithm cards) (\<lambda>algorithm.
     res_bind (parse_compressed_image_shape cards) (\<lambda>(zbitpix, image_shape).
     if image_shape = [] then Inl NoImageAxes
     else res_bind (default_bytepix zbitpix) (\<lambda>dbp.
     let (bs, bp) = parse_rice_params cards;
         blocksize = (case bs of Some b \<Rightarrow> b | None \<Rightarrow> 32);
         bytepix = (case bp of Some b \<Rightarrow> b | None \<Rightarrow> dbp);
         smooth = parse_hcompress_smooth cards
     in res_bind (require cards ''NAXIS1'') (\<lambda>n1.
        res_bind (require cards ''NAXIS2'') (\<lambda>n2.
        let naxis1 = as_u64 n1; naxis2 = as_u64 n2;
            theap = (case parse_keyword cards ''THEAP'' of Some x \<Rightarrow> as_u64 (max 0 x) | None \<Rightarrow> naxis1 * naxis2)
        in res_bind (find_data_columns cards) (\<lambda>cols.
           res_bind (if zbitpix < 0 then build_quant_context cards cols else Inr None) (\<lambda>quant.
           let tile_shape = parse_tile_shape cards image_shape;
               n_tiles = compute_n_tiles image_shape tile_shape
           in if n_tiles \<noteq> naxis2 then Inl (RowCountMismatch naxis2 n_tiles)
              else Inr \<lparr>m_zbitpix = zbitpix, m_image_shape = image_shape, m_tile_shape = tile_shape,
                        m_n_tiles = n_tiles, m_algorithm = algorithm, m_blocksize = blocksize,
                        m_bytepix = bytepix, m_smooth = smooth, m_naxis1 = naxis1, m_theap = theap,
                        m_cols = cols, m_quant = quant, m_zblank = parse_keyword cards ''ZBLANK''\<rparr>)))))))"

definition build_compression_config :: "string list \<Rightarrow> zimage_error + compression_config" where
  "build_compression_config cards =
     res_bind (require_algorithm cards) (\<lambda>algorithm.
     res_bind (parse_compressed_image_shape cards) (\<lambda>(_, image_shape).
     let ts = Some (parse_tile_shape cards image_shape);
         hf = (case parse_string_keyword cards ''TFORM1'' of
                 Some t \<Rightarrow> if starts_with ''1Q'' (trim t) \<or> starts_with ''Q'' (trim t) then CHR ''Q'' else CHR ''P''
               | None \<Rightarrow> CHR ''P'')
     in case algorithm of
          AlgGzip1 \<Rightarrow> Inr (CGzip1 \<lparr>g1_tile_shape = ts, g1_heap_format = hf, g1_level = None\<rparr>)
        | AlgGzip2 \<Rightarrow> Inr (CGzip2 \<lparr>g2_tile_shape = ts, g2_heap_format = hf, g2_level = None\<rparr>)
        | AlgRice1 \<Rightarrow> Inr (CRice1 \<lparr>r_tile_shape = ts, r_heap_format = hf,
                        r_blocksize = (case fst (parse_rice_params cards) of Some b \<Rightarrow> b | None \<Rightarrow> 32)\<rparr>)
        | AlgHcompress1 \<Rightarrow> Inr (CHcompress1 \<lparr>h_tile_shape = ts, h_heap_format = hf,
                        h_scale = of_int (parse_hcompress_scale cards), h_smooth = parse_hcompress_smooth cards\<rparr>)
        | AlgPlio1 \<Rightarrow> Inr (CPlio1 \<lparr>p_tile_shape = ts, p_heap_format = hf\<rparr>)))"

end
