(* ===== verification/TileGeometry.thy ===== *)
theory TileGeometry
  imports ImageSlices ZImageHeader
begin

text \<open>
  The tiles of a compressed image (\<open>src/hdu_image_compressed/read.rs\<close>): which box of the image a
  tile holds, which tiles an index overlaps, and the assembly of the output from decoded tiles, for
  the whole image and for an index, by the strided copy of the fast path or the numpy assignment of
  the general one. Where the bytes of a tile come from is an argument of the loops, a fetch
  operation that may change a state (the file and the tile cache) and may fail.
\<close>

datatype tile_error =
    TilePanic
  | NoImage
  | BadTileBuffer
  | BadKey io_error
  | FetchIo io_error
  | FetchCodec codec_error
  | NoTileData nat
  | PayloadLength nat nat nat
  | FileTainted
  | CacheStuck
  | HeaderError zimage_error
  | WrongShape
  | WrongTileBytes nat
  | NotWholeElements nat nat
  | DescriptorOverflow nat nat
  | QuantizerMissing

type_synonym ('s, 'a) tio = "'s \<Rightarrow> (tile_error + 'a) \<times> 's"

definition tio_return :: "'a \<Rightarrow> ('s, 'a) tio" where
  "tio_return x s = (Inr x, s)"

definition tio_lift :: "tile_error + 'a \<Rightarrow> ('s, 'a) tio" where
  "tio_lift r s = (r, s)"

definition tio_bind :: "('s, 'a) tio \<Rightarrow> ('a \<Rightarrow> ('s, 'b) tio) \<Rightarrow> ('s, 'b) tio" where
  "tio_bind m f s = (case m s of (Inl e, s') \<Rightarrow> (Inl e, s') | (Inr x, s') \<Rightarrow> f x s')"

type_synonym 's fetch = "nat \<Rightarrow> shape \<Rightarrow> ('s, bytes) tio"

subsection \<open>Tiles\<close>

definition MAX_NAXIS :: nat where "MAX_NAXIS = 8"

definition tile_counts :: "shape \<Rightarrow> shape \<Rightarrow> shape" where
  "tile_counts dims tile = map2 div_ceil dims tile"

definition tile_origin :: "coord \<Rightarrow> shape \<Rightarrow> coord" where
  "tile_origin tile_coord tile = map2 (*) tile_coord tile"

definition tile_extent :: "coord \<Rightarrow> shape \<Rightarrow> shape \<Rightarrow> shape" where
  "tile_extent origin dims tile = map (\<lambda>(o1, t, n). min (o1 + t) n - o1) (zip origin (zip tile dims))"

definition tile_origin_and_shape :: "nat \<Rightarrow> shape \<Rightarrow> shape \<Rightarrow> tile_error + coord \<times> shape" where
  "tile_origin_and_shape tile_idx dims tile =
     (if length dims > MAX_NAXIS then Inl TilePanic
      else let origin = tile_origin (unfold_index (tile_counts dims tile) tile_idx) tile
           in Inr (origin, tile_extent origin dims tile))"

subsection \<open>The tiles an index overlaps\<close>

record overlapping_tile_range =
  n_along :: "nat list"
  tc_first :: "nat list"
  tc_extent :: "nat list"
  otr_total :: nat

definition otr_new :: "shape \<Rightarrow> shape \<Rightarrow> axis_slice list \<Rightarrow> overlapping_tile_range" where
  "otr_new dims tile slices =
     (let counts = map2 div_ceil dims tile;
          firsts = map2 (\<lambda>s t. sl_start s div t) slices tile;
          lasts = map (\<lambda>(s, t, n). min ((sl_start s + sl_count s - 1) div t) (n - 1)) (zip slices (zip tile counts));
          extents = map2 (\<lambda>l f. l - f + 1) lasts firsts
      in \<lparr>n_along = counts, tc_first = firsts, tc_extent = extents, otr_total = prod_list extents\<rparr>)"

definition otr_unfold :: "overlapping_tile_range \<Rightarrow> nat \<Rightarrow> coord \<times> nat" where
  "otr_unfold r iter_idx =
     (let tile_coord = map2 (+) (tc_first r) (unfold_index (tc_extent r) iter_idx)
      in (tile_coord, fold_index (n_along r) tile_coord))"

subsection \<open>Copying boxes\<close>

definition copy_row :: "bytes \<Rightarrow> nat \<Rightarrow> bytes \<Rightarrow> nat \<Rightarrow> nat \<Rightarrow> tile_error + bytes" where
  "copy_row dst dst_off src src_off n =
     (if dst_off + n > length dst \<or> src_off + n > length src then Inl TilePanic
      else Inr (write_at dst dst_off (take n (drop src_off src))))"

fun copy_rows :: "bytes \<Rightarrow> bytes \<Rightarrow> nat \<Rightarrow> (nat \<times> nat) list \<Rightarrow> tile_error + bytes" where
  "copy_rows dst src n [] = Inr dst"
| "copy_rows dst src n ((dst_off, src_off) # rows) =
     res_bind (copy_row dst dst_off src src_off n) (\<lambda>dst. copy_rows dst src n rows)"

definition strided_copy ::
  "bytes \<Rightarrow> shape \<Rightarrow> coord \<Rightarrow> bytes \<Rightarrow> shape \<Rightarrow> coord \<Rightarrow> shape \<Rightarrow> nat \<Rightarrow> tile_error + bytes" where
  "strided_copy dst dst_shape dst_start src src_shape src_start copy_shape itemsize =
     (let d = length dst_shape;
          row_bytes = last copy_shape * itemsize;
          dst_byte_strides = strides itemsize dst_shape;
          src_byte_strides = strides itemsize src_shape;
          base_dst_off = dot dst_start dst_byte_strides;
          base_src_off = dot src_start src_byte_strides
      in if d = 0 then Inl TilePanic
         else if d = 1 then copy_row dst base_dst_off src base_src_off row_bytes
         else
           (let outer = butlast copy_shape;
                coords = odometer (prod_list outer) outer (replicate (d - 1) 0)
            in copy_rows dst src row_bytes
                 (map (\<lambda>c. (base_dst_off + dot c (butlast dst_byte_strides),
                            base_src_off + dot c (butlast src_byte_strides))) coords)))"

text \<open>
  Basic indexing of numpy: \<open>out[i] = tile[j]\<close> for two index tuples. An axis of \<open>tile\<close> indexed by an
  integer has no counterpart in \<open>out\<close>; the positions of the others are paired in order.
\<close>

datatype indexer = IxInt nat | IxSlice nat nat nat

fun index_positions :: "indexer \<Rightarrow> nat \<Rightarrow> nat list" where
  "index_positions (IxInt i) dim = [i]"
| "index_positions (IxSlice start stop step) dim =
     (let (a, n) = slice_indices dim (Some (int start)) (Some (int stop)) (int step) in map (\<lambda>k. a + k * step) [0..<n])"

fun assign_coords :: "(nat list option \<times> nat list) list \<Rightarrow> (coord \<times> coord) list" where
  "assign_coords [] = [([], [])]"
| "assign_coords ((None, src) # axes) = concat (map (\<lambda>y. map (\<lambda>(d, t). (d, y # t)) (assign_coords axes)) src)"
| "assign_coords ((Some dst, src) # axes) =
     concat (map (\<lambda>(x, y). map (\<lambda>(d, t). (x # d, y # t)) (assign_coords axes)) (zip dst src))"

definition assign_pixels ::
  "nat \<Rightarrow> bytes \<Rightarrow> shape \<Rightarrow> bytes \<Rightarrow> shape \<Rightarrow> (nat list option \<times> nat list) list \<Rightarrow> bytes" where
  "assign_pixels itemsize dst dst_shape src src_shape axes =
     apply_writes (map (\<lambda>(d, t). (ravel dst_shape d * itemsize, take itemsize (drop (ravel src_shape t * itemsize) src)))
       (assign_coords axes)) dst"

subsection \<open>The whole image\<close>

text \<open>\<open>np.frombuffer\<close> and \<open>reshape\<close> need exactly the bytes of the tile.\<close>

definition place_tile_bytes_into_output ::
  "nat \<Rightarrow> bytes \<Rightarrow> shape \<Rightarrow> bytes \<Rightarrow> shape \<Rightarrow> coord \<Rightarrow> tile_error + bytes" where
  "place_tile_bytes_into_output itemsize out dims tile_bytes actual_shape origin =
     (if length tile_bytes \<noteq> prod_list actual_shape * itemsize then Inl BadTileBuffer
      else Inr (assign_pixels itemsize out dims tile_bytes actual_shape
        (map (\<lambda>(o1, s, n). (Some (index_positions (IxSlice o1 (o1 + s) 1) n), [0..<s])) (zip origin (zip actual_shape dims)))))"

fun read_tiles :: "'s fetch \<Rightarrow> nat \<Rightarrow> shape \<Rightarrow> shape \<Rightarrow> nat list \<Rightarrow> bytes \<Rightarrow> ('s, bytes) tio" where
  "read_tiles fetch itemsize dims tile [] out = tio_return out"
| "read_tiles fetch itemsize dims tile (tile_idx # idxs) out =
     tio_bind (tio_lift (tile_origin_and_shape tile_idx dims tile)) (\<lambda>(origin, actual_shape).
     tio_bind (fetch tile_idx actual_shape) (\<lambda>tile_bytes.
     tio_bind (tio_lift (place_tile_bytes_into_output itemsize out dims tile_bytes actual_shape origin))
       (read_tiles fetch itemsize dims tile idxs)))"

definition read_compressed_image_data :: "'s fetch \<Rightarrow> nat \<Rightarrow> shape \<Rightarrow> shape \<Rightarrow> nat \<Rightarrow> ('s, bytes) tio" where
  "read_compressed_image_data fetch itemsize dims tile n_tiles =
     (if dims = [] then tio_lift (Inl NoImage)
      else read_tiles fetch itemsize dims tile [0..<n_tiles] (replicate (prod_list dims * itemsize) 0))"

subsection \<open>An index of the image\<close>

record axis_overlap =
  tile_indexer :: indexer
  output_indexer :: "indexer option"

definition axis_overlap_of :: "nat \<Rightarrow> nat \<Rightarrow> axis_slice \<Rightarrow> axis_overlap option" where
  "axis_overlap_of origin tile_size axis =
     (let tile_end = origin + tile_size
      in if sl_is_int axis then
           (if sl_start axis \<ge> origin \<and> sl_start axis < tile_end
            then Some \<lparr>tile_indexer = IxInt (sl_start axis - origin), output_indexer = None\<rparr> else None)
         else if sl_start axis \<ge> tile_end then None
         else if sl_start axis + (sl_count axis - 1) * sl_step axis < origin then None
         else
           (let k_first = (if sl_start axis \<ge> origin then 0 else div_ceil (origin - sl_start axis) (sl_step axis))
            in if k_first \<ge> sl_count axis then None
               else
                 (let k_last = min ((tile_end - 1 - sl_start axis) div sl_step axis) (sl_count axis - 1)
                  in if k_last < k_first then None
                     else
                       (let image_first = sl_start axis + k_first * sl_step axis;
                            image_last = sl_start axis + k_last * sl_step axis
                        in Some \<lparr>tile_indexer = IxSlice (image_first - origin) (image_last - origin + 1) (sl_step axis),
                                 output_indexer = Some (IxSlice k_first (k_last + 1) 1)\<rparr>))))"

definition output_shape :: "axis_slice list \<Rightarrow> shape" where
  "output_shape slices = map sl_count (filter (\<lambda>s. \<not> sl_is_int s) slices)"

text \<open>The general path: every tile is tried, and one that overlaps on every axis is assigned.\<close>

definition tile_overlaps :: "coord \<Rightarrow> shape \<Rightarrow> axis_slice list \<Rightarrow> axis_overlap option list" where
  "tile_overlaps origin actual_shape slices =
     map (\<lambda>(o1, n, s). axis_overlap_of o1 n s) (zip origin (zip actual_shape slices))"

definition overlap_axes :: "axis_overlap list \<Rightarrow> shape \<Rightarrow> axis_slice list \<Rightarrow> (nat list option \<times> nat list) list" where
  "overlap_axes ovs actual_shape slices =
     map (\<lambda>(ov, n, s). (map_option (\<lambda>ix. index_positions ix (sl_count s)) (output_indexer ov), index_positions (tile_indexer ov) n))
       (zip ovs (zip actual_shape slices))"

fun slice_tiles :: "'s fetch \<Rightarrow> nat \<Rightarrow> shape \<Rightarrow> shape \<Rightarrow> axis_slice list \<Rightarrow> nat list \<Rightarrow> bytes \<Rightarrow> ('s, bytes) tio" where
  "slice_tiles fetch itemsize dims tile slices [] out = tio_return out"
| "slice_tiles fetch itemsize dims tile slices (tile_idx # idxs) out =
     tio_bind (tio_lift (tile_origin_and_shape tile_idx dims tile)) (\<lambda>(origin, actual_shape).
     case those (tile_overlaps origin actual_shape slices) of
       None \<Rightarrow> slice_tiles fetch itemsize dims tile slices idxs out
     | Some ovs \<Rightarrow>
         tio_bind (fetch tile_idx actual_shape) (\<lambda>tile_bytes.
         if length tile_bytes \<noteq> prod_list actual_shape * itemsize then tio_lift (Inl BadTileBuffer)
         else slice_tiles fetch itemsize dims tile slices idxs
           (assign_pixels itemsize out (output_shape slices) tile_bytes actual_shape (overlap_axes ovs actual_shape slices))))"

text \<open>The fast path: the boxes of one tile, and the walk over the overlapping tiles.\<close>

definition fast_boxes :: "shape \<Rightarrow> shape \<Rightarrow> axis_slice list \<Rightarrow> coord \<Rightarrow> shape \<times> coord \<times> coord \<times> shape" where
  "fast_boxes dims tile slices tile_coord =
     (let origin = map2 (*) tile_coord tile;
          tile_end = map (\<lambda>(o1, t, n). min (o1 + t) n) (zip origin (zip tile dims));
          overlap_start = map2 (\<lambda>s o1. max (sl_start s) o1) slices origin;
          overlap_end = map2 (\<lambda>s e. min (sl_start s + sl_count s) e) slices tile_end
      in (map2 (-) tile_end origin, map2 (-) overlap_start origin, map2 (\<lambda>v s. v - sl_start s) overlap_start slices,
          map2 (-) overlap_end overlap_start))"

fun fast_tiles ::
  "'s fetch \<Rightarrow> nat \<Rightarrow> shape \<Rightarrow> shape \<Rightarrow> axis_slice list \<Rightarrow> overlapping_tile_range \<Rightarrow> nat list \<Rightarrow> bytes \<Rightarrow> ('s, bytes) tio" where
  "fast_tiles fetch itemsize dims tile slices rng [] out = tio_return out"
| "fast_tiles fetch itemsize dims tile slices rng (iter_idx # iters) out =
     (let (tile_coord, tile_idx) = otr_unfold rng iter_idx;
          (actual_shape, tile_start, out_start, copy_shape) = fast_boxes dims tile slices tile_coord
      in tio_bind (fetch tile_idx actual_shape) (\<lambda>tile_bytes.
         tio_bind (tio_lift (strided_copy out (output_shape slices) out_start tile_bytes actual_shape tile_start copy_shape itemsize))
           (fast_tiles fetch itemsize dims tile slices rng iters)))"

text \<open>\<open>out\<close> is the uninitialised buffer \<open>np.empty\<close> returns, of the length of the output.\<close>

definition slice_compressed_image ::
  "'s fetch \<Rightarrow> nat \<Rightarrow> shape \<Rightarrow> shape \<Rightarrow> nat \<Rightarrow> key_item list \<Rightarrow> (axis_slice list \<Rightarrow> bytes) \<Rightarrow> ('s, bytes) tio" where
  "slice_compressed_image fetch itemsize dims tile n_tiles key np_empty =
     (case normalize_slice_key key dims of
        Inl e \<Rightarrow> tio_lift (Inl (BadKey e))
      | Inr slices \<Rightarrow>
          (let out = np_empty slices;
               any_empty = list_ex (\<lambda>s. sl_count s = 0) slices;
               fast_path = (\<not> any_empty \<and> list_all (\<lambda>s. \<not> sl_is_int s \<and> sl_step s = 1) slices)
           in if fast_path then
                (if length dims > MAX_NAXIS then tio_lift (Inl TilePanic)
                 else let rng = otr_new dims tile slices
                      in fast_tiles fetch itemsize dims tile slices rng [0..<otr_total rng] out)
              else if any_empty then tio_return out
              else slice_tiles fetch itemsize dims tile slices [0..<n_tiles] out))"

subsection \<open>Every pixel lies in one tile\<close>

definition tiled :: "shape \<Rightarrow> shape \<Rightarrow> bool" where
  "tiled dims tile \<longleftrightarrow> length tile = length dims \<and> (\<forall>t \<in> set tile. 0 < t)"

definition n_tiles_of :: "shape \<Rightarrow> shape \<Rightarrow> nat" where
  "n_tiles_of dims tile = prod_list (tile_counts dims tile)"

definition origin_at :: "shape \<Rightarrow> shape \<Rightarrow> nat \<Rightarrow> coord" where
  "origin_at dims tile i = tile_origin (unravel (tile_counts dims tile) i) tile"

definition extent_at :: "shape \<Rightarrow> shape \<Rightarrow> nat \<Rightarrow> shape" where
  "extent_at dims tile i = tile_extent (origin_at dims tile i) dims tile"

lemma div_less_div_ceil: "p < n \<Longrightarrow> 0 < t \<Longrightarrow> p div t < div_ceil n t" for p n t :: nat
proof -
  assume a: "p < n" "0 < t"
  have "n \<le> div_ceil n t * t" by (rule div_ceil_mult[OF a(2)])
  then have "p < div_ceil n t * t" using a(1) by simp
  then show ?thesis by (rule less_mult_imp_div_less)
qed

lemma less_div_ceil: "k < div_ceil n t \<Longrightarrow> 0 < t \<Longrightarrow> k * t < n" for k n t :: nat
proof -
  assume a: "k < div_ceil n t" "0 < t"
  have "(k + 1) * t \<le> div_ceil n t * t" using a(1) by (intro mult_right_mono) auto
  also have "\<dots> \<le> n + t - 1" by (simp add: div_ceil_def)
  finally show ?thesis using a(2) by simp
qed

lemma tile_counts_length [simp]: "tiled dims tile \<Longrightarrow> length (tile_counts dims tile) = length dims"
  by (simp add: tile_counts_def tiled_def)

lemma tiled_nth: "tiled dims tile \<Longrightarrow> i < length dims \<Longrightarrow> 0 < tile ! i"
  by (simp add: tiled_def)

lemma origin_at_nth:
  "tiled dims tile \<Longrightarrow> j < length dims \<Longrightarrow> origin_at dims tile i ! j = unravel (tile_counts dims tile) i ! j * tile ! j"
  by (simp add: origin_at_def tile_origin_def tiled_def tile_counts_def)

lemma extent_at_nth:
  "tiled dims tile \<Longrightarrow> j < length dims \<Longrightarrow>
   extent_at dims tile i ! j = min (origin_at dims tile i ! j + tile ! j) (dims ! j) - origin_at dims tile i ! j"
  by (simp add: extent_at_def tile_extent_def origin_at_def tile_origin_def tiled_def tile_counts_def)

lemma at_length [simp]:
  "tiled dims tile \<Longrightarrow> length (origin_at dims tile i) = length dims"
  "tiled dims tile \<Longrightarrow> length (extent_at dims tile i) = length dims"
  by (simp_all add: extent_at_def tile_extent_def origin_at_def tile_origin_def tiled_def tile_counts_def)

lemma unravel_counts_nth:
  assumes "tiled dims tile" "i < n_tiles_of dims tile" "j < length dims"
  shows "unravel (tile_counts dims tile) i ! j < div_ceil (dims ! j) (tile ! j)"
proof -
  have "in_box (unravel (tile_counts dims tile) i) (tile_counts dims tile)"
    using assms(2) by (simp add: n_tiles_of_def unravel_in_box)
  then show ?thesis using assms by (simp add: in_box_nth tile_counts_def tiled_def)
qed

lemma tile_index_at:
  assumes "tiled dims tile" "i < n_tiles_of dims tile" "length dims \<le> MAX_NAXIS"
  shows "tile_origin_and_shape i dims tile = Inr (origin_at dims tile i, extent_at dims tile i)"
  using assms by (simp add: tile_origin_and_shape_def Let_def origin_at_def extent_at_def n_tiles_of_def unfold_unravel)

text \<open>The tile of a pixel and its place in the tile.\<close>

definition tile_of_pixel :: "shape \<Rightarrow> shape \<Rightarrow> coord \<Rightarrow> nat" where
  "tile_of_pixel dims tile c = ravel (tile_counts dims tile) (map2 (div) c tile)"

definition in_tile :: "shape \<Rightarrow> shape \<Rightarrow> nat \<Rightarrow> coord \<Rightarrow> bool" where
  "in_tile dims tile i c \<longleftrightarrow> (\<exists>q. in_box q (extent_at dims tile i) \<and> c = map2 (+) (origin_at dims tile i) q)"

lemma tile_coord_in_box:
  "tiled dims tile \<Longrightarrow> in_box c dims \<Longrightarrow> in_box (map2 (div) c tile) (tile_counts dims tile)"
  by (auto simp: in_box_nth tile_counts_def tiled_def div_less_div_ceil)

lemma tile_of_pixel_coord:
  assumes "tiled dims tile" "in_box c dims"
  shows "tile_of_pixel dims tile c < n_tiles_of dims tile"
    "unravel (tile_counts dims tile) (tile_of_pixel dims tile c) = map2 (div) c tile"
  using tile_coord_in_box[OF assms] by (simp_all add: tile_of_pixel_def n_tiles_of_def ravel_less unravel_ravel)

lemma in_own_tile:
  assumes t: "tiled dims tile" and c: "in_box c dims"
  shows "in_box (map2 (mod) c tile) (extent_at dims tile (tile_of_pixel dims tile c))"
    "c = map2 (+) (origin_at dims tile (tile_of_pixel dims tile c)) (map2 (mod) c tile)"
proof -
  have l: "length c = length dims" "length tile = length dims" using t c by (simp_all add: in_box_nth tiled_def)
  have n: "c ! j mod tile ! j < min (c ! j div tile ! j * tile ! j + tile ! j) (dims ! j) - c ! j div tile ! j * tile ! j" if "j < length dims" for j
  proof -
    have "c ! j < dims ! j" "c ! j mod tile ! j < tile ! j" using c that tiled_nth[OF t] by (simp_all add: in_box_nth)
    moreover have "c ! j = c ! j div tile ! j * tile ! j + c ! j mod tile ! j" by (rule div_mult_mod_eq[symmetric])
    ultimately show ?thesis by linarith
  qed
  have o: "origin_at dims tile (tile_of_pixel dims tile c) ! j = c ! j div tile ! j * tile ! j" if "j < length dims" for j
    using origin_at_nth[OF t that] tile_of_pixel_coord(2)[OF t c] l that by simp
  show "in_box (map2 (mod) c tile) (extent_at dims tile (tile_of_pixel dims tile c))"
    using l n o t by (auto simp: in_box_nth extent_at_nth)
  show "c = map2 (+) (origin_at dims tile (tile_of_pixel dims tile c)) (map2 (mod) c tile)"
  proof (rule nth_equalityI)
    fix j assume "j < length c"
    then have "map2 (+) (origin_at dims tile (tile_of_pixel dims tile c)) (map2 (mod) c tile) ! j
        = c ! j div tile ! j * tile ! j + c ! j mod tile ! j"
      using l o t by simp
    then show "c ! j = map2 (+) (origin_at dims tile (tile_of_pixel dims tile c)) (map2 (mod) c tile) ! j"
      by (simp only: div_mult_mod_eq)
  qed (use l t in simp)
qed

lemma tile_pixel_image:
  assumes t: "tiled dims tile" and i: "i < n_tiles_of dims tile" and q: "in_box q (extent_at dims tile i)"
  shows "in_box (map2 (+) (origin_at dims tile i) q) dims" "tile_of_pixel dims tile (map2 (+) (origin_at dims tile i) q) = i"
proof -
  let ?c = "map2 (+) (origin_at dims tile i) q"
  have l: "length q = length dims" "length tile = length dims" using t q by (simp_all add: in_box_nth tiled_def)
  have b: "?c ! j < dims ! j \<and> ?c ! j div tile ! j = unravel (tile_counts dims tile) i ! j" if j: "j < length dims" for j
  proof -
    have "q ! j < extent_at dims tile i ! j" using q t j by (simp add: in_box_nth)
    then have "?c ! j < dims ! j" "q ! j < tile ! j" using l j t by (auto simp: extent_at_nth[OF t j])
    moreover have "?c ! j = unravel (tile_counts dims tile) i ! j * tile ! j + q ! j" using l j t by (simp add: origin_at_nth)
    ultimately show ?thesis by simp
  qed
  show "in_box ?c dims" using b l t by (simp add: in_box_nth)
  have "map2 (div) ?c tile = unravel (tile_counts dims tile) i"
    using b l t by (intro nth_equalityI) (auto simp: tile_counts_def)
  then show "tile_of_pixel dims tile ?c = i" using i by (simp add: tile_of_pixel_def n_tiles_of_def ravel_unravel)
qed

lemma in_tile_iff:
  assumes "tiled dims tile" "in_box c dims" "i < n_tiles_of dims tile"
  shows "in_tile dims tile i c \<longleftrightarrow> i = tile_of_pixel dims tile c"
  using in_own_tile[OF assms(1,2)] tile_pixel_image[OF assms(1,3)] by (auto simp: in_tile_def)

subsection \<open>Writes that agree with a target\<close>

definition good_writes :: "(nat \<Rightarrow> 8 word) \<Rightarrow> nat \<Rightarrow> (nat \<times> bytes) list \<Rightarrow> bool" where
  "good_writes F n ws \<longleftrightarrow> (\<forall>(p, w) \<in> set ws. p + length w \<le> n \<and> (\<forall>j < length w. w ! j = F (p + j)))"

definition covered :: "(nat \<times> bytes) list \<Rightarrow> nat \<Rightarrow> bool" where
  "covered ws a \<longleftrightarrow> (\<exists>(p, w) \<in> set ws. p \<le> a \<and> a < p + length w)"

lemma good_writes_simps [simp]:
  "good_writes F n []"
  "good_writes F n (ws @ vs) \<longleftrightarrow> good_writes F n ws \<and> good_writes F n vs"
  "good_writes F n ((p, w) # ws) \<longleftrightarrow> p + length w \<le> n \<and> (\<forall>j < length w. w ! j = F (p + j)) \<and> good_writes F n ws"
  by (auto simp: good_writes_def)

lemma covered_simps [simp]:
  "\<not> covered [] a" "covered (ws @ vs) a \<longleftrightarrow> covered ws a \<or> covered vs a"
  "covered ((p, w) # ws) a \<longleftrightarrow> p \<le> a \<and> a < p + length w \<or> covered ws a"
  by (auto simp: covered_def)

lemma apply_writes_simps [simp]:
  "apply_writes [] bs = bs" "apply_writes ((p, w) # ws) bs = apply_writes ws (write_at bs p w)"
  "apply_writes (ws @ vs) bs = apply_writes vs (apply_writes ws bs)"
  by (simp_all add: apply_writes_def)

lemma length_good_writes [simp]: "good_writes F (length bs) ws \<Longrightarrow> length (apply_writes ws bs) = length bs"
  using apply_writes_nth[of ws bs F] by (simp add: good_writes_def)

lemma filled:
  assumes "good_writes F (length bs) ws" "\<forall>a < length bs. covered ws a"
  shows "apply_writes ws bs = map F [0..<length bs]"
  using apply_writes_nth[of ws bs F] assms by (intro nth_equalityI) (auto simp: good_writes_def covered_def)

subsection \<open>Bytes of pixels\<close>

definition target :: "nat \<Rightarrow> bytes \<Rightarrow> shape \<Rightarrow> axis_slice list \<Rightarrow> nat \<Rightarrow> 8 word" where
  "target k img dims slices a = img ! (source_pixel dims slices (a div k) * k + a mod k)"

lemma target_nth: "b < k \<Longrightarrow> target k img dims slices (p * k + b) = img ! (source_pixel dims slices p * k + b)"
  by (simp add: target_def)

lemma target_coord:
  "b < k \<Longrightarrow> in_box c (map sl_count slices) \<Longrightarrow>
   target k img dims slices (ravel (map sl_count slices) c * k + b) = img ! (ravel dims (sel slices c) * k + b)"
  by (simp add: target_nth source_pixel_def unravel_ravel)

lemma length_concat_pixels: "(\<And>p. p < n \<Longrightarrow> length (f p) = k) \<Longrightarrow> length (concat (map f [0..<n])) = n * k"
  by (induction n) simp_all

lemma concat_same_nth:
  "(\<And>p. p < n \<Longrightarrow> length (f p) = k) \<Longrightarrow> a < n * k \<Longrightarrow> concat (map f [0..<n]) ! a = f (a div k) ! (a mod k)"
proof (induction n)
  case (Suc n)
  have l: "length (concat (map f [0..<n])) = n * k" using Suc.prems(1) by (intro length_concat_pixels) simp
  show ?case
  proof (cases "a < n * k")
    case True
    then show ?thesis using Suc l by (simp add: nth_append)
  next
    case False
    then have "a div k = n" using Suc.prems(2) by (intro div_nat_eqI) (auto simp: algebra_simps)
    moreover have "a mod k = a - n * k" using calculation by (metis minus_div_mult_eq_mod)
    ultimately show ?thesis using False l by (simp add: nth_append)
  qed
qed simp

lemma reference_target:
  assumes sl: "slices_ok dims slices" and len: "length img = prod_list dims * k"
  shows "read_reference k img 0 dims slices = map (target k img dims slices) [0..<prod_list (map sl_count slices) * k]"
proof -
  let ?n = "prod_list (map sl_count slices)"
  have px: "0 + source_pixel dims slices p * k + k \<le> length img" if "p < ?n" for p
    using pixel_room[OF source_pixel_less[OF sl that], of 0 k "length img"] len by simp
  have l: "length (pixel k img 0 (source_pixel dims slices p)) = k" if "p < ?n" for p
    using length_pixel[OF px[OF that]] .
  have lr: "length (read_reference k img 0 dims slices) = ?n * k"
    using length_concat_pixels[OF l] by (simp add: read_reference_def)
  show ?thesis
  proof (rule nth_equalityI)
    show "length (read_reference k img 0 dims slices) = length (map (target k img dims slices) [0..<?n * k])"
      using lr by simp
  next
    fix a assume "a < length (read_reference k img 0 dims slices)"
    then have a: "a < ?n * k" using lr by simp
    then have "0 < k" by (cases k) auto
    have d: "a div k < ?n" using a by (rule less_mult_imp_div_less)
    have "read_reference k img 0 dims slices ! a = pixel k img 0 (source_pixel dims slices (a div k)) ! (a mod k)"
      using concat_same_nth[of ?n "\<lambda>p. pixel k img 0 (source_pixel dims slices p)" k a] l a by (simp add: read_reference_def)
    also have "\<dots> = target k img dims slices a" using pixel_nth[OF _ px[OF d], of "a mod k"] \<open>0 < k\<close> by (simp add: target_def)
    finally show "read_reference k img 0 dims slices ! a = map (target k img dims slices) [0..<?n * k] ! a" using a by simp
  qed
qed

text \<open>The bytes a tile of the image holds.\<close>

definition tile_pixels :: "nat \<Rightarrow> bytes \<Rightarrow> shape \<Rightarrow> shape \<Rightarrow> nat \<Rightarrow> bytes" where
  "tile_pixels k img dims tile i = read_reference k img 0 dims (box_slices (origin_at dims tile i) (extent_at dims tile i))"

lemma tile_box_ok: "tiled dims tile \<Longrightarrow> slices_ok dims (box_slices (origin_at dims tile i) (extent_at dims tile i))"
  by (auto simp: slices_ok_def list_all2_conv_all_nth box_slices_def extent_at_nth)

lemma tile_pixels_length:
  assumes "tiled dims tile" "length img = prod_list dims * k"
  shows "length (tile_pixels k img dims tile i) = prod_list (extent_at dims tile i) * k"
  using reference_target[OF tile_box_ok[OF assms(1)] assms(2)] assms(1)
  by (simp add: tile_pixels_def box_slices_simps)

lemma tile_pixels_nth:
  assumes t: "tiled dims tile" and len: "length img = prod_list dims * k" and q: "in_box q (extent_at dims tile i)" and b: "b < k"
  shows "tile_pixels k img dims tile i ! (ravel (extent_at dims tile i) q * k + b)
    = img ! (ravel dims (map2 (+) (origin_at dims tile i) q) * k + b)"
proof -
  let ?e = "extent_at dims tile i" and ?bx = "box_slices (origin_at dims tile i) (extent_at dims tile i)"
  have c: "map sl_count ?bx = ?e" using t by (simp add: box_slices_simps)
  have "ravel ?e q * k + b < prod_list ?e * k" using strip_index_less[OF ravel_less[OF q] b] .
  then have "tile_pixels k img dims tile i ! (ravel ?e q * k + b) = target k img dims ?bx (ravel ?e q * k + b)"
    using reference_target[OF tile_box_ok[OF t] len, of i] by (simp add: tile_pixels_def c)
  also have "\<dots> = img ! (ravel dims (sel ?bx q) * k + b)" using target_coord[OF b, of q ?bx] q c by simp
  also have "sel ?bx q = map2 (+) (origin_at dims tile i) q"
    using t in_box_length[OF q] by (auto simp: sel_def box_slices_def intro!: nth_equalityI)
  finally show ?thesis .
qed

subsection \<open>The strided copy\<close>

lemma row_index:
  assumes "length st = length sh" "length c = length sh - 1" "sh \<noteq> []"
  shows "ravel sh (map2 (+) st (c @ [j])) = ravel sh (map2 (+) st (c @ [0])) + j"
proof -
  obtain sh' n where sh: "sh = sh' @ [n]" using assms(3) by (cases sh rule: rev_cases) auto
  obtain st' m where st: "st = st' @ [m]" using assms(1,3) by (cases st rule: rev_cases) auto
  have l: "length st' = length sh'" "length c = length sh'" using assms sh st by auto
  show ?thesis using l by (simp add: sh st ravel_snoc)
qed

lemma row_offset:
  assumes "length st = length sh" "length c = length sh - 1" "sh \<noteq> []"
  shows "dot st (strides k sh) + dot c (butlast (strides k sh)) = ravel sh (map2 (+) st (c @ [0])) * k"
proof -
  obtain us u where us: "strides k sh = us @ [u]" "length us = length sh - 1"
    using assms(3) strides_length[of k sh] by (cases "strides k sh" rule: rev_cases) auto
  have "dot (c @ [0]) (strides k sh) = dot c us" using us assms(2) by (simp add: dot_snoc)
  moreover have "dot (map2 (+) st (c @ [0])) (strides k sh) = dot st (strides k sh) + dot (c @ [0]) (strides k sh)"
    using assms by (intro dot_add) (cases sh, auto)
  moreover have "dot (map2 (+) st (c @ [0])) (strides k sh) = k * ravel sh (map2 (+) st (c @ [0]))"
    using assms by (intro dot_strides) (cases sh, auto)
  ultimately show ?thesis using us by simp
qed

lemma copy_rows_ok:
  "\<forall>(d, s) \<in> set rows. d + n \<le> length dst \<and> s + n \<le> length src \<Longrightarrow>
   copy_rows dst src n rows = Inr (apply_writes (map (\<lambda>(d, s). (d, take n (drop s src))) rows) dst)"
  by (induction rows arbitrary: dst) (auto simp: copy_row_def)

definition row_at :: "nat \<Rightarrow> shape \<Rightarrow> coord \<Rightarrow> coord \<Rightarrow> nat" where
  "row_at k sh st c = ravel sh (map2 (+) st (c @ [0])) * k"

lemma strided_copy_rows:
  assumes "dst_shape \<noteq> []" "length dst_start = length dst_shape" "length src_shape = length dst_shape"
    "length src_start = length dst_shape" "length copy_shape = length dst_shape"
  shows "strided_copy dst dst_shape dst_start src src_shape src_start copy_shape k
    = copy_rows dst src (last copy_shape * k) (map (\<lambda>c. (row_at k dst_shape dst_start c, row_at k src_shape src_start c))
        (map (unravel (butlast copy_shape)) [0..<prod_list (butlast copy_shape)]))"
proof (cases "length dst_shape = 1")
  case True
  then have b: "butlast copy_shape = []" using assms(5) by (cases copy_shape) auto
  have sne: "src_shape \<noteq> []" using assms(1,3) by auto
  have s: "row_at k dst_shape dst_start [] = dot dst_start (strides k dst_shape)" "row_at k src_shape src_start [] = dot src_start (strides k src_shape)"
    using row_offset[of dst_start dst_shape "[]" k] row_offset[of src_start src_shape "[]" k] assms True sne
    by (simp_all add: row_at_def, simp_all add: dot_def)
  have "res_bind r Inr = r" for r :: "tile_error + bytes" by (cases r) simp_all
  then show ?thesis unfolding b using True s by (simp add: strided_copy_def)
next
  case False
  have o: "odometer (prod_list (butlast copy_shape)) (butlast copy_shape) (replicate (length dst_shape - Suc 0) 0)
    = map (unravel (butlast copy_shape)) [0..<prod_list (butlast copy_shape)]"
    using odometer_all[of "butlast copy_shape"] assms by simp
  have "src_shape \<noteq> []" using assms by auto
  then have "dot dst_start (strides k dst_shape) + dot c (butlast (strides k dst_shape)) = row_at k dst_shape dst_start c
      \<and> dot src_start (strides k src_shape) + dot c (butlast (strides k src_shape)) = row_at k src_shape src_start c"
    if "length c = length dst_shape - 1" for c
    using row_offset[of dst_start dst_shape c k] row_offset[of src_start src_shape c k] assms that by (simp add: row_at_def)
  moreover have "length (unravel (butlast copy_shape) i) = length dst_shape - 1" for i using assms by simp
  ultimately have E: "map (\<lambda>c. (dot dst_start (strides k dst_shape) + dot c (butlast (strides k dst_shape)),
        dot src_start (strides k src_shape) + dot c (butlast (strides k src_shape))))
      (map (unravel (butlast copy_shape)) [0..<prod_list (butlast copy_shape)])
    = map (\<lambda>c. (row_at k dst_shape dst_start c, row_at k src_shape src_start c))
        (map (unravel (butlast copy_shape)) [0..<prod_list (butlast copy_shape)])"
    by (intro map_cong refl) auto
  show ?thesis
    using False assms(1) by (simp add: strided_copy_def Let_def o E del: map_map map_eq_conv)
qed

text \<open>
  A copy whose pixels agree with a target is a list of writes that agree with it, and they cover
  the pixels of the box.
\<close>

lemma strided_copy_writes:
  assumes ne: "dst_shape \<noteq> []" and l: "length dst_start = length dst_shape" "length src_shape = length dst_shape"
    "length src_start = length dst_shape" "length copy_shape = length dst_shape"
    and k: "0 < k" and dl: "length dst = prod_list dst_shape * k" and sl: "length src = prod_list src_shape * k"
    and box: "\<And>c. in_box c copy_shape \<Longrightarrow> in_box (map2 (+) dst_start c) dst_shape \<and> in_box (map2 (+) src_start c) src_shape"
    and tgt: "\<And>c b. in_box c copy_shape \<Longrightarrow> b < k \<Longrightarrow>
      src ! (ravel src_shape (map2 (+) src_start c) * k + b) = F (ravel dst_shape (map2 (+) dst_start c) * k + b)"
    and pos: "0 < last copy_shape"
  shows "\<exists>ws. strided_copy dst dst_shape dst_start src src_shape src_start copy_shape k = Inr (apply_writes ws dst)
    \<and> good_writes F (length dst) ws
    \<and> (\<forall>c b. in_box c copy_shape \<longrightarrow> b < k \<longrightarrow> covered ws (ravel dst_shape (map2 (+) dst_start c) * k + b))"
proof -
  let ?o = "butlast copy_shape" and ?r = "last copy_shape"
  have cs: "copy_shape = ?o @ [?r]" using ne l(4) by (cases copy_shape rule: rev_cases) auto
  have lo: "length ?o = length dst_shape - 1" using l(4) by simp
  have sne: "src_shape \<noteq> []" using ne l(2) by auto
  define cs' where "cs' = map (unravel ?o) [0..<prod_list ?o]"
  have inc: "in_box (c @ [j]) copy_shape" if "c \<in> set cs'" "j < ?r" for c j
    using that cs in_box_append[of c ?o "[j]" "[?r]"] by (auto simp: cs'_def unravel_in_box)
  have lc: "length c = length dst_shape - 1" if "c \<in> set cs'" for c using that lo by (auto simp: cs'_def)
  have dr: "ravel dst_shape (map2 (+) dst_start (c @ [j])) * k + b = row_at k dst_shape dst_start c + (j * k + b)"
    "ravel src_shape (map2 (+) src_start (c @ [j])) * k + b = row_at k src_shape src_start c + (j * k + b)"
    if "c \<in> set cs'" for c j b
    using row_index[of dst_start dst_shape c j] row_index[of src_start src_shape c j] lc[OF that] ne sne l
    by (simp_all add: row_at_def add_mult_distrib)
  have fits: "row_at k dst_shape dst_start c + ?r * k \<le> length dst \<and> row_at k src_shape src_start c + ?r * k \<le> length src"
    if c: "c \<in> set cs'" for c
  proof -
    have i: "in_box (c @ [?r - 1]) copy_shape" using inc[OF c, of "?r - 1"] pos by simp
    have e: "(?r - 1) * k + (k - 1) = ?r * k - 1" "0 < ?r * k" using pos k by (cases ?r, auto)
    have "row_at k dst_shape dst_start c + (?r * k - 1) < length dst \<and> row_at k src_shape src_start c + (?r * k - 1) < length src"
      using strip_index_less[OF ravel_less[OF conjunct1[OF box[OF i]]], of "k - 1" k]
        strip_index_less[OF ravel_less[OF conjunct2[OF box[OF i]]], of "k - 1" k] dr[OF c, of "?r - 1" "k - 1"] k unfolding dl sl e(1) by simp
    then show ?thesis using e(2) by linarith
  qed
  define ws where "ws = map (\<lambda>c. (row_at k dst_shape dst_start c, take (?r * k) (drop (row_at k src_shape src_start c) src))) cs'"
  have len: "length (take (?r * k) (drop (row_at k src_shape src_start c) src)) = ?r * k" if "c \<in> set cs'" for c
    using fits[OF that] by (auto simp: min_def)
  have eq: "strided_copy dst dst_shape dst_start src src_shape src_start copy_shape k = Inr (apply_writes ws dst)"
    unfolding strided_copy_rows[OF ne l] cs'_def[symmetric] using fits
    by (subst copy_rows_ok) (auto simp: ws_def o_def)
  have "src ! (row_at k src_shape src_start c + j) = F (row_at k dst_shape dst_start c + j)" if c: "c \<in> set cs'" and j: "j < ?r * k" for c j
    using tgt[OF inc[OF c less_mult_imp_div_less[OF j]], of "j mod k"] k unfolding dr[OF c] by simp
  then have good: "good_writes F (length dst) ws"
    using fits len add_leD1[OF conjunct2[OF fits]] by (auto simp: ws_def good_writes_def)
  have "covered ws (ravel dst_shape (map2 (+) dst_start c) * k + b)" if c: "in_box c copy_shape" and b: "b < k" for c b
  proof -
    obtain c' j where c': "c = c' @ [j]" "length c' = length ?o" using in_box_length[OF c] cs by (cases c rule: rev_cases) auto
    have b': "in_box c' ?o" "j < ?r" using c in_box_append[OF c'(2), of "[j]" "[?r]"] cs c'(1) by auto
    have m: "c' \<in> set cs'" unfolding cs'_def using b'(1) unravel_ravel[OF b'(1)] ravel_less[OF b'(1)] by (auto intro!: image_eqI[of _ _ "ravel ?o c'"])
    have "j * k + b < ?r * k" by (rule strip_index_less[OF b'(2) b])
    then show ?thesis unfolding c'(1) dr(1)[OF m] covered_def using m len[OF m] by (auto simp: ws_def intro!: bexI[of _ c'])
  qed
  then show ?thesis using eq good by blast
qed

subsection \<open>Assignments\<close>

lemma assign_pixels_writes:
  assumes k: "0 < k" and dl: "length dst = prod_list dst_shape * k" and sl: "length src = prod_list src_shape * k"
    and ok: "\<And>d t. (d, t) \<in> set (assign_coords axes) \<Longrightarrow> in_box d dst_shape \<and> in_box t src_shape
      \<and> (\<forall>b < k. src ! (ravel src_shape t * k + b) = F (ravel dst_shape d * k + b))"
  shows "\<exists>ws. assign_pixels k dst dst_shape src src_shape axes = apply_writes ws dst \<and> good_writes F (length dst) ws
    \<and> (\<forall>d t b. (d, t) \<in> set (assign_coords axes) \<longrightarrow> b < k \<longrightarrow> covered ws (ravel dst_shape d * k + b))"
proof -
  define ws where "ws = map (\<lambda>(d, t). (ravel dst_shape d * k, take k (drop (ravel src_shape t * k) src))) (assign_coords axes)"
  have room: "ravel dst_shape d * k + k \<le> length dst \<and> ravel src_shape t * k + k \<le> length src"
    if "(d, t) \<in> set (assign_coords axes)" for d t
    using pixel_room[OF ravel_less, of d dst_shape 0 k "length dst"] pixel_room[OF ravel_less, of t src_shape 0 k "length src"] ok[OF that] dl sl
    by simp
  have len: "length (take k (drop (ravel src_shape t * k) src)) = k" if "(d, t) \<in> set (assign_coords axes)" for d t
    using room[OF that] by (auto simp: min_def)
  have "good_writes F (length dst) ws" using room ok len by (fastforce simp: ws_def good_writes_def)
  moreover have "covered ws (ravel dst_shape d * k + b)" if "(d, t) \<in> set (assign_coords axes)" "b < k" for d t b
    using that len[OF that(1)] by (force simp: ws_def covered_def)
  ultimately show ?thesis by (intro exI[of _ ws]) (simp add: assign_pixels_def ws_def)
qed

subsection \<open>Overlaps along one axis\<close>

lemma clip_nat: "m \<le> n \<Longrightarrow> clip_bound n (int m) = int m"
  by (simp add: clip_bound_def)

lemma index_positions_range:
  assumes "0 < st" "a + j * st < n"
  shows "index_positions (IxSlice a (a + j * st + 1) st) n = map (\<lambda>i. a + i * st) [0..<j + 1]"
proof -
  have c: "clip_bound n (int a) = int a" "clip_bound n (int (a + j * st + 1)) = int (a + j * st + 1)"
    using assms(2) by (intro clip_nat, simp)+
  have lt: "int a < int (a + j * st + 1)" by (simp only: of_nat_less_iff)
  have "int (a + j * st + 1) - int a - 1 = int j * int st" by simp
  then have q: "(int (a + j * st + 1) - int a - 1) div int st + 1 = int (j + 1)" using assms(1) by simp
  show ?thesis
    unfolding index_positions.simps slice_indices_def option.case c Let_def if_P[OF lt] q nat_int prod.case by simp
qed

definition overlap_steps :: "nat \<Rightarrow> nat \<Rightarrow> axis_slice \<Rightarrow> nat set" where
  "overlap_steps origin n s = {k. k < sl_count s \<and> origin \<le> sl_start s + k * sl_step s \<and> sl_start s + k * sl_step s < origin + n}"

definition axis_ok :: "axis_slice \<Rightarrow> bool" where
  "axis_ok s \<longleftrightarrow> 0 < sl_step s \<and> 0 < sl_count s \<and> (sl_is_int s \<longrightarrow> sl_count s = 1)"

fun axis_pairs :: "nat list option \<times> nat list \<Rightarrow> (nat option \<times> nat) list" where
  "axis_pairs (None, src) = map (\<lambda>y. (None, y)) src"
| "axis_pairs (Some dst, src) = map (\<lambda>(x, y). (Some x, y)) (zip dst src)"

definition out_step :: "axis_slice \<Rightarrow> nat \<Rightarrow> nat option" where
  "out_step s k = (if sl_is_int s then None else Some k)"

lemma div_ceil_le: "0 < b \<Longrightarrow> div_ceil a b \<le> k \<longleftrightarrow> a \<le> k * b" for a b k :: nat
proof
  assume b: "0 < b" and "div_ceil a b \<le> k"
  then have "div_ceil a b * b \<le> k * b" by (intro mult_right_mono) auto
  then show "a \<le> k * b" using div_ceil_mult[OF b, of a] by linarith
next
  assume b: "0 < b" and "a \<le> k * b"
  then have "a + b - 1 < (k + 1) * b" by simp
  then have "(a + b - 1) div b < k + 1" by (rule less_mult_imp_div_less)
  then show "div_ceil a b \<le> k" by (simp add: div_ceil_def)
qed

text \<open>The first and last step of a slice inside a tile, as the code computes them.\<close>

definition first_step :: "nat \<Rightarrow> axis_slice \<Rightarrow> nat" where
  "first_step origin s = (if sl_start s \<ge> origin then 0 else div_ceil (origin - sl_start s) (sl_step s))"

definition last_step :: "nat \<Rightarrow> nat \<Rightarrow> axis_slice \<Rightarrow> nat" where
  "last_step origin n s = min ((origin + n - 1 - sl_start s) div sl_step s) (sl_count s - 1)"

lemma first_step_le: "0 < sl_step s \<Longrightarrow> first_step origin s \<le> k \<longleftrightarrow> origin \<le> sl_start s + k * sl_step s"
  by (auto simp: first_step_def div_ceil_le)

lemma le_last_step:
  "0 < sl_step s \<Longrightarrow> 0 < sl_count s \<Longrightarrow> sl_start s < origin + n \<Longrightarrow>
   k \<le> last_step origin n s \<longleftrightarrow> k < sl_count s \<and> sl_start s + k * sl_step s < origin + n"
  by (auto simp: last_step_def less_eq_div_iff_mult_less_eq)

lemma overlap_steps_range:
  "axis_ok s \<Longrightarrow> sl_start s < origin + n \<Longrightarrow> overlap_steps origin n s = {first_step origin s..last_step origin n s}"
  using first_step_le[of s origin] le_last_step[of s origin n]
  unfolding overlap_steps_def axis_ok_def set_eq_iff mem_Collect_eq atLeastAtMost_iff by blast

lemma overlap_int:
  "sl_is_int s \<Longrightarrow> axis_ok s \<Longrightarrow>
   overlap_steps origin n s = (if sl_start s \<ge> origin \<and> sl_start s < origin + n then {0} else {})"
  by (auto simp: overlap_steps_def axis_ok_def)

lemma axis_overlap_slice:
  assumes ni: "\<not> sl_is_int s" and ok: "axis_ok s"
  shows "axis_overlap_of origin n s =
    (if sl_start s < origin + n \<and> first_step origin s \<le> last_step origin n s
     then Some \<lparr>tile_indexer = IxSlice (sl_start s + first_step origin s * sl_step s - origin)
                  (sl_start s + last_step origin n s * sl_step s - origin + 1) (sl_step s),
                output_indexer = Some (IxSlice (first_step origin s) (last_step origin n s + 1) 1)\<rparr>
     else None)"
proof (cases "sl_start s < origin + n")
  case True
  let ?f = "first_step origin s" and ?l = "last_step origin n s"
  have p: "0 < sl_step s" "0 < sl_count s" using ok by (simp_all add: axis_ok_def)
  have lc: "?l < sl_count s" using p(2) by (simp add: last_step_def)
  have early: "sl_start s + (sl_count s - 1) * sl_step s < origin \<Longrightarrow> \<not> ?f \<le> ?l"
    using first_step_le[OF p(1), of origin "sl_count s - 1"] lc p(2) by linarith
  show ?thesis
    using True ni early lc
    unfolding axis_overlap_of_def Let_def first_step_def[symmetric] last_step_def[symmetric] by auto
qed (use ni in \<open>simp add: axis_overlap_of_def\<close>)

lemma axis_overlap_none:
  assumes ok: "axis_ok s"
  shows "axis_overlap_of origin n s = None \<longleftrightarrow> overlap_steps origin n s = {}"
proof (cases "sl_is_int s")
  case True
  then show ?thesis using overlap_int[OF True ok, of origin n] by (simp add: axis_overlap_of_def)
next
  case False
  show ?thesis
  proof (cases "sl_start s < origin + n")
    case True
    then show ?thesis using axis_overlap_slice[OF False ok, of origin n] overlap_steps_range[OF ok True] by auto
  next
    case f: False
    have "overlap_steps origin n s = {}" using f by (auto simp: overlap_steps_def)
    then show ?thesis using axis_overlap_slice[OF False ok, of origin n] f by simp
  qed
qed

lemma axis_overlap_some:
  assumes ok: "axis_ok s" and ov: "axis_overlap_of origin n s = Some ov"
  shows "set (axis_pairs (map_option (\<lambda>ix. index_positions ix (sl_count s)) (output_indexer ov), index_positions (tile_indexer ov) n))
    = {(out_step s k, sl_start s + k * sl_step s - origin) |k. k \<in> overlap_steps origin n s}"
proof (cases "sl_is_int s")
  case True
  have S: "sl_start s \<ge> origin \<and> sl_start s < origin + n" and o: "ov = \<lparr>tile_indexer = IxInt (sl_start s - origin), output_indexer = None\<rparr>"
    using ov True by (simp_all add: axis_overlap_of_def Let_def split: if_splits)
  have "overlap_steps origin n s = {0}" using overlap_int[OF True ok, of origin n] S by simp
  then show ?thesis using True by (simp add: o out_step_def)
next
  case False
  let ?f = "first_step origin s" and ?l = "last_step origin n s" and ?st = "sl_step s"
  have p: "0 < ?st" "0 < sl_count s" using ok by (simp_all add: axis_ok_def)
  have S: "sl_start s < origin + n" "?f \<le> ?l" and o: "ov = \<lparr>tile_indexer = IxSlice (sl_start s + ?f * ?st - origin) (sl_start s + ?l * ?st - origin + 1) ?st,
      output_indexer = Some (IxSlice ?f (?l + 1) 1)\<rparr>"
    using ov axis_overlap_slice[OF False ok, of origin n] by (auto split: if_splits)
  define j where "j = ?l - ?f"
  have l: "?l = ?f + j" using S(2) by (simp add: j_def)
  have f1: "origin \<le> sl_start s + ?f * ?st" using first_step_le[OF p(1), of origin ?f] by simp
  have l1: "?l < sl_count s" "sl_start s + ?l * ?st < origin + n" using le_last_step[OF p S(1), of ?l] by simp_all
  have e: "sl_start s + ?l * ?st - origin + 1 = (sl_start s + ?f * ?st - origin) + j * ?st + 1"
    using f1 by (simp add: l add_mult_distrib)
  have t: "index_positions (tile_indexer ov) n = map (\<lambda>i. sl_start s + ?f * ?st - origin + i * ?st) [0..<j + 1]"
    unfolding o axis_overlap.simps e using l1(2) f1 by (intro index_positions_range[OF p(1)]) (simp add: l add_mult_distrib)
  have d: "index_positions (IxSlice ?f (?f + j * 1 + 1) 1) (sl_count s) = map (\<lambda>i. ?f + i * 1) [0..<j + 1]"
    using l1(1) by (intro index_positions_range) (simp_all add: l)
  have "set (axis_pairs (map_option (\<lambda>ix. index_positions ix (sl_count s)) (output_indexer ov), index_positions (tile_indexer ov) n))
      = (\<lambda>i. (Some (?f + i), sl_start s + ?f * ?st - origin + i * ?st)) ` {0..<j + 1}"
    using d unfolding t unfolding o by (simp add: l zip_map_map zip_same_conv_map image_image del: upt_Suc)
  also have "\<dots> = {(out_step s k, sl_start s + k * ?st - origin) |k. k \<in> {?f..?l}}" (is "?A = ?B")
  proof
    show "?A \<subseteq> ?B"
    proof clarify
      fix i assume "i \<in> {0..<j + 1}"
      then show "\<exists>k. (Some (?f + i), sl_start s + ?f * ?st - origin + i * ?st) = (out_step s k, sl_start s + k * ?st - origin) \<and> k \<in> {?f..?l}"
        using f1 False by (intro exI[of _ "?f + i"]) (simp add: out_step_def l add_mult_distrib)
    qed
    show "?B \<subseteq> ?A"
    proof clarify
      fix k assume "k \<in> {?f..?l}"
      then obtain i where "k = ?f + i" "i < j + 1" by (auto simp: l dest: le_Suc_ex)
      then show "(out_step s k, sl_start s + k * ?st - origin) \<in> ?A"
        using f1 False by (intro image_eqI[of _ _ i]) (simp_all add: out_step_def add_mult_distrib)
    qed
  qed
  finally show ?thesis using overlap_steps_range[OF ok S(1)] by simp
qed

subsection \<open>Pairs of an assignment\<close>

lemma set_assign_coords_Cons:
  "set (assign_coords (a # axes)) =
    {(case x of None \<Rightarrow> d | Some v \<Rightarrow> v # d, y # t) |x y d t. (x, y) \<in> set (axis_pairs a) \<and> (d, t) \<in> set (assign_coords axes)}"
proof (cases a)
  case (Pair m src)
  show ?thesis
  proof (cases m)
    case None
    show ?thesis unfolding Pair None by (force simp: image_iff split: prod.splits)
  next
    case (Some dst)
    show ?thesis unfolding Pair Some by (auto, force+)
  qed
qed

definition steps_in :: "coord \<Rightarrow> shape \<Rightarrow> axis_slice list \<Rightarrow> coord \<Rightarrow> bool" where
  "steps_in origin ext slices c \<longleftrightarrow> list_all2 (\<lambda>k (o1, n, s). k \<in> overlap_steps o1 n s) c (zip origin (zip ext slices))"

fun out_coord :: "axis_slice list \<Rightarrow> coord \<Rightarrow> coord" where
  "out_coord (s # ss) (k # ks) = (if sl_is_int s then out_coord ss ks else k # out_coord ss ks)"
| "out_coord _ _ = []"

lemma steps_in_simps [simp]:
  "steps_in [] [] [] c \<longleftrightarrow> c = []"
  "steps_in (o1 # os) (n # ns) (s # ss) c \<longleftrightarrow> (\<exists>k ks. c = k # ks \<and> k \<in> overlap_steps o1 n s \<and> steps_in os ns ss ks)"
  by (auto simp: steps_in_def list_all2_Cons2)

lemma those_Cons_eq: "those (x # xs) = (case x of None \<Rightarrow> None | Some a \<Rightarrow> (case those xs of None \<Rightarrow> None | Some as \<Rightarrow> Some (a # as)))"
  by (simp add: map_option_case split: option.split)

lemma overlap_pairs:
  assumes "length origin = length ext" "length ext = length slices" "\<forall>s \<in> set slices. axis_ok s"
    "those (tile_overlaps origin ext slices) = Some ovs"
  shows "set (assign_coords (overlap_axes ovs ext slices)) =
    {(out_coord slices c, map2 (-) (sel slices c) origin) |c. steps_in origin ext slices c}"
  using assms
proof (induction origin ext slices arbitrary: ovs rule: list_induct3)
  case Nil
  then show ?case by (simp add: tile_overlaps_def overlap_axes_def sel_def)
next
  case (Cons o1 os n ns s ss)
  obtain ov ovs' where ov: "axis_overlap_of o1 n s = Some ov" "those (tile_overlaps os ns ss) = Some ovs'" "ovs = ov # ovs'"
    using Cons.prems(2) by (auto simp: tile_overlaps_def those_Cons_eq split: option.splits)
  have s: "axis_ok s" using Cons.prems(1) by simp
  have IH: "set (assign_coords (overlap_axes ovs' ns ss)) = {(out_coord ss c, map2 (-) (sel ss c) os) |c. steps_in os ns ss c}"
    using Cons.IH[OF _ ov(2)] Cons.prems(1) by simp
  have a: "overlap_axes ovs (n # ns) (s # ss)
    = (map_option (\<lambda>ix. index_positions ix (sl_count s)) (output_indexer ov), index_positions (tile_indexer ov) n) # overlap_axes ovs' ns ss"
    by (simp add: overlap_axes_def ov(3))
  show ?case
    unfolding a set_assign_coords_Cons IH axis_overlap_some[OF s ov(1)]
    by (auto simp: out_step_def sel_def split: if_splits) (force+)?
qed

lemma no_overlap:
  assumes "length origin = length ext" "length ext = length slices" "\<forall>s \<in> set slices. axis_ok s"
    "those (tile_overlaps origin ext slices) = None"
  shows "\<not> steps_in origin ext slices c"
  using assms
proof (induction origin ext slices arbitrary: c rule: list_induct3)
  case (Cons o1 os n ns s ss)
  then show ?case
    using axis_overlap_none[of s o1 n] by (fastforce simp: tile_overlaps_def those_Cons_eq split: option.splits)
qed (simp add: tile_overlaps_def)

lemma out_coord_ravel:
  assumes "\<forall>s \<in> set slices. axis_ok s" "in_box c (map sl_count slices)"
  shows "ravel (output_shape slices) (out_coord slices c) = ravel (map sl_count slices) c \<and> in_box (out_coord slices c) (output_shape slices)
    \<and> prod_list (output_shape slices) = prod_list (map sl_count slices)"
  using assms
proof (induction slices arbitrary: c)
  case Nil then show ?case by (simp add: output_shape_def)
next
  case (Cons s ss)
  then obtain k ks where c: "c = k # ks" "k < sl_count s" "in_box ks (map sl_count ss)" by (auto simp: in_box_def list_all2_Cons2)
  then show ?case using Cons.IH[of ks] Cons.prems(1) by (auto simp: output_shape_def axis_ok_def)
qed

lemma steps_in_nth:
  assumes "length origin = length slices" "length ext = length slices"
  shows "steps_in origin ext slices c \<longleftrightarrow> length c = length slices \<and> (\<forall>j < length slices. c ! j \<in> overlap_steps (origin ! j) (ext ! j) (slices ! j))"
  using assms by (auto simp: steps_in_def list_all2_conv_all_nth)

lemma steps_in_tile:
  assumes l: "length origin = length slices" "length ext = length slices" and s: "steps_in origin ext slices c"
  shows "in_box c (map sl_count slices)" "in_box (map2 (-) (sel slices c) origin) ext"
    "map2 (+) origin (map2 (-) (sel slices c) origin) = sel slices c"
proof -
  have c: "length c = length slices" "\<And>j. j < length slices \<Longrightarrow> c ! j < sl_count (slices ! j)
      \<and> origin ! j \<le> sel slices c ! j \<and> sel slices c ! j < origin ! j + ext ! j"
    using s unfolding steps_in_nth[OF l] by (auto simp: overlap_steps_def sel_def)
  show "in_box c (map sl_count slices)" "in_box (map2 (-) (sel slices c) origin) ext"
    using c l by (auto simp: in_box_nth less_diff_conv2 add.commute)
  show "map2 (+) origin (map2 (-) (sel slices c) origin) = sel slices c"
    using c l by (auto intro!: nth_equalityI)
qed

lemma tile_steps_in:
  assumes l: "length origin = length slices" "length ext = length slices" and c: "in_box c (map sl_count slices)"
    and q: "in_box q ext" "sel slices c = map2 (+) origin q"
  shows "steps_in origin ext slices c"
proof -
  have "sel slices c ! j = origin ! j + q ! j \<and> q ! j < ext ! j" if "j < length slices" for j
    using q l that by (simp add: in_box_nth)
  then show ?thesis using c l unfolding steps_in_nth[OF l] by (auto simp: overlap_steps_def in_box_nth sel_def)
qed

text \<open>Placing a whole tile pairs each of its pixels with the image pixel it holds.\<close>

lemma place_pairs:
  assumes "length origin = length ext" "length ext = length dims" "\<forall>j < length dims. 0 < ext ! j \<and> origin ! j + ext ! j \<le> dims ! j"
  shows "set (assign_coords (map (\<lambda>(o1, s, n). (Some (index_positions (IxSlice o1 (o1 + s) 1) n), [0..<s])) (zip origin (zip ext dims))))
    = {(map2 (+) origin q, q) |q. in_box q ext}"
  using assms
proof (induction origin ext dims rule: list_induct3)
  case (Cons o1 os e es n ns)
  have e: "0 < e" "o1 + e \<le> n" using Cons.prems by auto
  have P: "index_positions (IxSlice o1 (o1 + e) 1) n = map (\<lambda>i. o1 + i * 1) [0..<e]"
    using index_positions_range[of 1 o1 "e - 1" n] e by simp
  have IH: "set (assign_coords (map (\<lambda>(o1, s, n). (Some (index_positions (IxSlice o1 (o1 + s) 1) n), [0..<s])) (zip os (zip es ns))))
    = {(map2 (+) os q, q) |q. in_box q es}" 
  proof (rule Cons.IH)
    show "\<forall>j < length ns. 0 < es ! j \<and> os ! j + es ! j \<le> ns ! j"
    proof (intro allI impI)
      fix j assume "j < length ns"
      then show "0 < es ! j \<and> os ! j + es ! j \<le> ns ! j" using Cons.prems[rule_format, of "Suc j"] by simp
    qed
  qed
  show ?case
    unfolding zip_Cons_Cons list.map prod.case set_assign_coords_Cons IH P
    by (auto simp: zip_map1 zip_same_conv_map in_box_def list_all2_Cons2) (force+)?
qed simp

subsection \<open>The tiles partition the image\<close>

text \<open>
  C30: Every pixel of an image of at most eight axes lies in exactly one of its tiles: one tile
  index below the number of tiles gives an origin and a shape whose box holds the pixel. The tiles
  at the edges are cut to the image.
\<close>

theorem tiles_partition_image:
  assumes "length tile = length dims" "\<forall>t \<in> set tile. 0 < t" "length dims \<le> MAX_NAXIS" "in_box c dims"
  shows "\<exists>!i. i < prod_list (tile_counts dims tile) \<and>
    (\<exists>org ext q. tile_origin_and_shape i dims tile = Inr (org, ext) \<and> in_box q ext \<and> c = map2 (+) org q)"
proof -
  have t: "tiled dims tile" using assms(1,2) by (simp add: tiled_def)
  have "i < n_tiles_of dims tile \<and> (\<exists>org ext q. tile_origin_and_shape i dims tile = Inr (org, ext) \<and> in_box q ext \<and> c = map2 (+) org q)
      \<longleftrightarrow> i = tile_of_pixel dims tile c" for i
    using tile_index_at[OF t _ assms(3), of i] in_tile_iff[OF t assms(4), of i] tile_of_pixel_coord(1)[OF t assms(4)]
    by (auto simp: in_tile_def)
  then show ?thesis by (auto simp: n_tiles_of_def)
qed

theorem tiles_partition_image_witness:
  "\<exists>!i. i < prod_list (tile_counts [5, 7] [2, 3]) \<and>
    (\<exists>org ext q. tile_origin_and_shape i [5, 7] [2, 3] = Inr (org, ext) \<and> in_box q ext \<and> [4, 6] = map2 (+) org q)"
  by (rule tiles_partition_image) (simp_all add: MAX_NAXIS_def)

end
