(* ===== verification/TileReading.thy ===== *)
theory TileReading
  imports TileGeometry
begin

text \<open>
  Reading a compressed image through its tiles (\<open>src/hdu_image_compressed/read.rs\<close>): the loops of
  \<open>TileGeometry\<close> over any source of tiles that returns the bytes of the boxes of one image. The
  whole image comes out as it is, and an index of it as the pixelwise reference of \<open>ImageSlices\<close>
  gives, by the fast path and by the general one.
\<close>

subsection \<open>Reading through a source of tiles\<close>

text \<open>
  What the readers need of the fetch operation: for a state in \<open>inv\<close> it returns the bytes of the
  tile's box of the image and a state in \<open>inv\<close>.
\<close>

definition geometry :: "nat \<Rightarrow> bytes \<Rightarrow> shape \<Rightarrow> shape \<Rightarrow> bool" where
  "geometry k img dims tile \<longleftrightarrow> 0 < k \<and> dims \<noteq> [] \<and> length dims \<le> MAX_NAXIS \<and> tiled dims tile \<and> length img = prod_list dims * k"

lemma extent_pos:
  assumes "tiled dims tile" "i < n_tiles_of dims tile" "j < length dims"
  shows "0 < extent_at dims tile i ! j \<and> origin_at dims tile i ! j + extent_at dims tile i ! j \<le> dims ! j"
proof -
  have "origin_at dims tile i ! j < dims ! j"
    using less_div_ceil[OF unravel_counts_nth[OF assms] tiled_nth[OF assms(1,3)]] origin_at_nth[OF assms(1,3)] by simp
  then show ?thesis using extent_at_nth[OF assms(1,3)] tiled_nth[OF assms(1,3)] by auto
qed

definition all_ok :: "axis_slice list \<Rightarrow> bool" where
  "all_ok slices \<longleftrightarrow> (\<forall>s \<in> set slices. axis_ok s)"

lemma steps_in_out:
  assumes g: "geometry k img dims tile" and i: "i < n_tiles_of dims tile" and ok: "all_ok slices" and l: "length slices = length dims"
    and st: "steps_in (origin_at dims tile i) (extent_at dims tile i) slices c" and b: "b < k"
  shows "tile_pixels k img dims tile i ! (ravel (extent_at dims tile i) (map2 (-) (sel slices c) (origin_at dims tile i)) * k + b)
    = target k img dims slices (ravel (output_shape slices) (out_coord slices c) * k + b)"
proof -
  have t: "tiled dims tile" and len: "length img = prod_list dims * k" using g by (simp_all add: geometry_def)
  have ll: "length (origin_at dims tile i) = length slices" "length (extent_at dims tile i) = length slices" using t l by simp_all
  note S = steps_in_tile[OF ll st]
  have "tile_pixels k img dims tile i ! (ravel (extent_at dims tile i) (map2 (-) (sel slices c) (origin_at dims tile i)) * k + b)
      = img ! (ravel dims (sel slices c) * k + b)"
    using tile_pixels_nth[OF t len S(2) b] S(3) by simp
  then show ?thesis using target_coord[OF b S(1)] out_coord_ravel[of slices c] ok S(1) by (simp add: all_ok_def)
qed

locale tile_source =
  fixes fetch :: "'s fetch" and inv :: "'s \<Rightarrow> bool" and k :: nat and img :: bytes and dims tile :: shape
  assumes fetched: "inv s \<Longrightarrow> i < n_tiles_of dims tile \<Longrightarrow>
    \<exists>s'. fetch i (extent_at dims tile i) s = (Inr (tile_pixels k img dims tile i), s') \<and> inv s'"
begin

lemma read_tiles_ok:
  assumes g: "geometry k img dims tile"
  shows "inv s \<Longrightarrow> set idxs \<subseteq> {..<n_tiles_of dims tile} \<Longrightarrow> length out = prod_list dims * k \<Longrightarrow>
   \<exists>s' ws. read_tiles fetch k dims tile idxs out s = (Inr (apply_writes ws out), s') \<and> inv s'
     \<and> good_writes (\<lambda>a. img ! a) (length out) ws
     \<and> (\<forall>i \<in> set idxs. \<forall>q b. in_box q (extent_at dims tile i) \<longrightarrow> b < k \<longrightarrow>
          covered ws (ravel dims (map2 (+) (origin_at dims tile i) q) * k + b))"
proof (induction idxs arbitrary: s out)
  case Nil
  then show ?case by (intro exI[of _ s] exI[of _ "[]"]) (simp add: tio_return_def)
next
  case (Cons i idxs)
  have G: "0 < k" "tiled dims tile" "length img = prod_list dims * k" "length dims \<le> MAX_NAXIS" using g by (simp_all add: geometry_def)
  have i: "i < n_tiles_of dims tile" using Cons.prems(2) by simp
  let ?o = "origin_at dims tile i" and ?e = "extent_at dims tile i" and ?t = "tile_pixels k img dims tile i"
  let ?ax = "map (\<lambda>(o1, s, n). (Some (index_positions (IxSlice o1 (o1 + s) 1) n), [0..<s])) (zip ?o (zip ?e dims))"
  obtain s1 where f: "fetch i ?e s = (Inr ?t, s1)" "inv s1" using fetched[OF Cons.prems(1) i] by blast
  have tl: "length ?t = prod_list ?e * k" by (rule tile_pixels_length[OF G(2,3)])
  have pairs: "set (assign_coords ?ax) = {(map2 (+) ?o q, q) |q. in_box q ?e}"
    using place_pairs[of ?o ?e dims] extent_pos[OF G(2) i] G(2) by simp
  have "in_box d dims \<and> in_box t ?e \<and> (\<forall>b < k. ?t ! (ravel ?e t * k + b) = img ! (ravel dims d * k + b))"
    if "(d, t) \<in> set (assign_coords ?ax)" for d t
    using that tile_pixel_image(1)[OF G(2) i] tile_pixels_nth[OF G(2,3)] unfolding pairs by auto
  from assign_pixels_writes[OF G(1) Cons.prems(3) tl this] obtain ws where ws:
    "assign_pixels k out dims ?t ?e ?ax = apply_writes ws out" "good_writes (\<lambda>a. img ! a) (length out) ws"
    "\<And>d t b. (d, t) \<in> set (assign_coords ?ax) \<Longrightarrow> b < k \<Longrightarrow> covered ws (ravel dims d * k + b)" by blast
  have lo: "length (apply_writes ws out) = prod_list dims * k" using ws(2) Cons.prems(3) by simp
  have sub: "set idxs \<subseteq> {..<n_tiles_of dims tile}" using Cons.prems(2) by simp
  from Cons.IH[OF f(2) sub lo] obtain s' vs where vs:
    "read_tiles fetch k dims tile idxs (apply_writes ws out) s1 = (Inr (apply_writes vs (apply_writes ws out)), s')" "inv s'"
    "good_writes (\<lambda>a. img ! a) (length (apply_writes ws out)) vs"
    "\<forall>i \<in> set idxs. \<forall>q b. in_box q (extent_at dims tile i) \<longrightarrow> b < k \<longrightarrow>
          covered vs (ravel dims (map2 (+) (origin_at dims tile i) q) * k + b)" by blast
  have "place_tile_bytes_into_output k out dims ?t ?e ?o = Inr (apply_writes ws out)"
    unfolding place_tile_bytes_into_output_def ws(1) using tl by (simp only: simp_thms if_False)
  then have "read_tiles fetch k dims tile (i # idxs) out s = (Inr (apply_writes (ws @ vs) out), s')"
    using f vs(1) by (simp add: tile_index_at[OF G(2) i G(4)] tio_bind_def tio_lift_def)
  moreover have "good_writes (\<lambda>a. img ! a) (length out) (ws @ vs)" using ws(2) vs(3) lo Cons.prems(3) by simp
  moreover have "covered ws (ravel dims (map2 (+) ?o q) * k + b)" if "in_box q ?e" "b < k" for q b
    using ws(3)[OF _ that(2), of "map2 (+) ?o q" q] that(1) pairs by blast
  ultimately show ?case using vs(2,4) by (intro exI[of _ s'] exI[of _ "ws @ vs"]) auto
qed

lemma read_image_ok:
  assumes g: "geometry k img dims tile" and s: "inv s"
  shows "\<exists>s'. read_compressed_image_data fetch k dims tile (n_tiles_of dims tile) s = (Inr img, s') \<and> inv s'"
proof -
  have G: "0 < k" "tiled dims tile" "length img = prod_list dims * k" "dims \<noteq> []" using g by (simp_all add: geometry_def)
  let ?out = "replicate (prod_list dims * k) (0 :: 8 word)"
  obtain s' ws where R: "read_tiles fetch k dims tile [0..<n_tiles_of dims tile] ?out s = (Inr (apply_writes ws ?out), s')" "inv s'"
    "good_writes (\<lambda>a. img ! a) (length ?out) ws"
    "\<forall>i \<in> set [0..<n_tiles_of dims tile]. \<forall>q b. in_box q (extent_at dims tile i) \<longrightarrow> b < k \<longrightarrow>
        covered ws (ravel dims (map2 (+) (origin_at dims tile i) q) * k + b)"
    using read_tiles_ok[OF g s _ length_replicate, of "[0..<n_tiles_of dims tile]"] by (metis atLeast_upt order_refl)
  have "covered ws a" if a: "a < length ?out" for a
  proof -
    let ?c = "unravel dims (a div k)"
    have d: "a div k < prod_list dims" using a by (simp add: less_mult_imp_div_less)
    note c = unravel_in_box[OF d]
    have "covered ws (ravel dims ?c * k + a mod k)"
      using R(4) tile_of_pixel_coord(1)[OF G(2) c] in_own_tile[OF G(2) c] G(1) by (metis atLeastLessThan_iff mod_less_divisor set_upt zero_le)
    then show ?thesis using ravel_unravel[OF d] by simp
  qed
  then have "apply_writes ws ?out = map (\<lambda>a. img ! a) [0..<length ?out]" using filled[OF R(3)] by blast
  also have "\<dots> = img" using G(3) map_nth[of img] by simp
  finally show ?thesis using R G(4) by (simp add: read_compressed_image_data_def)
qed

lemma slice_tiles_ok:
  assumes g: "geometry k img dims tile" and ok: "all_ok slices" and l: "length slices = length dims"
  shows "inv s \<Longrightarrow> set idxs \<subseteq> {..<n_tiles_of dims tile} \<Longrightarrow> length out = prod_list (output_shape slices) * k \<Longrightarrow>
   \<exists>s' ws. slice_tiles fetch k dims tile slices idxs out s = (Inr (apply_writes ws out), s') \<and> inv s'
     \<and> good_writes (target k img dims slices) (length out) ws
     \<and> (\<forall>i \<in> set idxs. \<forall>c b. steps_in (origin_at dims tile i) (extent_at dims tile i) slices c \<longrightarrow> b < k \<longrightarrow>
          covered ws (ravel (output_shape slices) (out_coord slices c) * k + b))"
proof (induction idxs arbitrary: s out)
  case Nil
  then show ?case by (intro exI[of _ s] exI[of _ "[]"]) (simp add: tio_return_def)
next
  case (Cons i idxs)
  have G: "0 < k" "tiled dims tile" "length img = prod_list dims * k" "length dims \<le> MAX_NAXIS" using g by (simp_all add: geometry_def)
  have i: "i < n_tiles_of dims tile" using Cons.prems(2) by simp
  have sub: "set idxs \<subseteq> {..<n_tiles_of dims tile}" using Cons.prems(2) by simp
  let ?o = "origin_at dims tile i" and ?e = "extent_at dims tile i" and ?t = "tile_pixels k img dims tile i" and ?os = "output_shape slices"
  have ll: "length ?o = length ?e" "length ?e = length slices" "length ?o = length slices" using G(2) l by simp_all
  have okS: "\<forall>s \<in> set slices. axis_ok s" using ok by (simp add: all_ok_def)
  show ?case
  proof (cases "those (tile_overlaps ?o ?e slices)")
    case None
    note no = no_overlap[OF ll(1,2) okS None]
    from Cons.IH[OF Cons.prems(1) sub Cons.prems(3)] no show ?thesis
      by (simp add: tile_index_at[OF G(2) i G(4)] tio_bind_def tio_lift_def None)
  next
    case (Some ovs)
    let ?ax = "overlap_axes ovs ?e slices"
    note pairs = overlap_pairs[OF ll(1,2) okS Some]
    obtain s1 where f: "fetch i ?e s = (Inr ?t, s1)" "inv s1" using fetched[OF Cons.prems(1) i] by blast
    have tl: "length ?t = prod_list ?e * k" by (rule tile_pixels_length[OF G(2,3)])
    have "in_box d ?os \<and> in_box t ?e \<and> (\<forall>b < k. ?t ! (ravel ?e t * k + b) = target k img dims slices (ravel ?os d * k + b))"
      if dt: "(d, t) \<in> set (assign_coords ?ax)" for d t
    proof -
      obtain c where c: "d = out_coord slices c" "t = map2 (-) (sel slices c) ?o" "steps_in ?o ?e slices c" using dt pairs by blast
      show ?thesis
        using steps_in_tile[OF ll(3,2) c(3)] out_coord_ravel[OF okS] steps_in_out[OF g i ok l c(3)] unfolding c(1,2) by blast
    qed
    from assign_pixels_writes[OF G(1) Cons.prems(3) tl this] obtain ws where ws:
      "assign_pixels k out ?os ?t ?e ?ax = apply_writes ws out" "good_writes (target k img dims slices) (length out) ws"
      "\<And>d t b. (d, t) \<in> set (assign_coords ?ax) \<Longrightarrow> b < k \<Longrightarrow> covered ws (ravel ?os d * k + b)" by blast
    have lo: "length (apply_writes ws out) = prod_list ?os * k" using ws(2) Cons.prems(3) by simp
    from Cons.IH[OF f(2) sub lo] obtain s' vs where vs:
      "slice_tiles fetch k dims tile slices idxs (apply_writes ws out) s1 = (Inr (apply_writes vs (apply_writes ws out)), s')" "inv s'"
      "good_writes (target k img dims slices) (length (apply_writes ws out)) vs"
      "\<forall>i \<in> set idxs. \<forall>c b. steps_in (origin_at dims tile i) (extent_at dims tile i) slices c \<longrightarrow> b < k \<longrightarrow>
          covered vs (ravel ?os (out_coord slices c) * k + b)" by blast
    have "slice_tiles fetch k dims tile slices (i # idxs) out s = (Inr (apply_writes (ws @ vs) out), s')"
      using f vs(1) tl by (simp add: tile_index_at[OF G(2) i G(4)] tio_bind_def tio_lift_def ws(1) Some)
    moreover have "good_writes (target k img dims slices) (length out) (ws @ vs)" using ws(2) vs(3) lo Cons.prems(3) by simp
    moreover have "covered ws (ravel ?os (out_coord slices c) * k + b)" if "steps_in ?o ?e slices c" "b < k" for c b
      using ws(3)[OF _ that(2)] that(1) pairs by blast
    ultimately show ?thesis using vs(2,4) by (intro exI[of _ s'] exI[of _ "ws @ vs"]) auto
  qed
qed

end

subsection \<open>The fast path\<close>

definition unit_steps :: "axis_slice list \<Rightarrow> bool" where
  "unit_steps slices \<longleftrightarrow> (\<forall>s \<in> set slices. \<not> sl_is_int s \<and> sl_step s = 1 \<and> 0 < sl_count s)"

definition box_geometry :: "shape \<Rightarrow> shape \<Rightarrow> axis_slice list \<Rightarrow> bool" where
  "box_geometry dims tile slices \<longleftrightarrow> tiled dims tile \<and> slices_ok dims slices \<and> unit_steps slices"

lemma unit_out:
  assumes "unit_steps slices"
  shows "output_shape slices = map sl_count slices" "length c = length slices \<Longrightarrow> out_coord slices c = c"
proof -
  show "output_shape slices = map sl_count slices" using assms by (simp add: output_shape_def unit_steps_def)
  show "length c = length slices \<Longrightarrow> out_coord slices c = c"
    using assms by (induction slices c rule: out_coord.induct) (auto simp: unit_steps_def)
qed

lemma box_length: "box_geometry dims tile slices \<Longrightarrow> length slices = length dims \<and> length tile = length dims"
  by (auto simp: box_geometry_def tiled_def slices_ok_def dest: list_all2_lengthD)

lemma box_axis:
  assumes b: "box_geometry dims tile slices" and j: "j < length dims"
  shows "sl_step (slices ! j) = 1 \<and> 0 < sl_count (slices ! j) \<and> sl_start (slices ! j) + sl_count (slices ! j) \<le> dims ! j \<and> 0 < tile ! j"
proof -
  have "slices ! j \<in> set slices" using j box_length[OF b] by simp
  then have 1: "sl_step (slices ! j) = 1" "0 < sl_count (slices ! j)" using b by (auto simp: unit_steps_def box_geometry_def)
  have "sl_start (slices ! j) + (sl_count (slices ! j) - 1) * 1 < dims ! j"
    using b j 1 by (auto simp: slices_ok_def list_all2_conv_all_nth box_geometry_def)
  then show ?thesis using 1 b j by (simp add: tiled_def box_geometry_def)
qed

text \<open>The tile coordinates whose box meets the box of the index.\<close>

definition first_tile_of :: "shape \<Rightarrow> axis_slice list \<Rightarrow> coord" where
  "first_tile_of tile slices = map2 (\<lambda>s t. sl_start s div t) slices tile"

definition tile_range :: "shape \<Rightarrow> axis_slice list \<Rightarrow> shape" where
  "tile_range tile slices = map2 (\<lambda>s t. (sl_start s + sl_count s - 1) div t - sl_start s div t + 1) slices tile"

definition overlapping :: "shape \<Rightarrow> axis_slice list \<Rightarrow> coord \<Rightarrow> bool" where
  "overlapping tile slices tc \<longleftrightarrow> length tc = length slices \<and>
     (\<forall>j < length slices. sl_start (slices ! j) div tile ! j \<le> tc ! j
        \<and> tc ! j \<le> (sl_start (slices ! j) + sl_count (slices ! j) - 1) div tile ! j)"

lemma otr_new_range:
  assumes b: "box_geometry dims tile slices"
  shows "otr_new dims tile slices = \<lparr>n_along = tile_counts dims tile, tc_first = first_tile_of tile slices,
    tc_extent = tile_range tile slices, otr_total = prod_list (tile_range tile slices)\<rparr>"
proof -
  have "map2 (\<lambda>l f. l - f + 1) (map (\<lambda>(s, t, n). min ((sl_start s + sl_count s - 1) div t) (n - 1)) (zip slices (zip tile (tile_counts dims tile))))
      (first_tile_of tile slices) = tile_range tile slices"
  proof (rule nth_equalityI)
    fix j assume "j < length (map2 (\<lambda>l f. l - f + 1) (map (\<lambda>(s, t, n). min ((sl_start s + sl_count s - 1) div t) (n - 1))
        (zip slices (zip tile (tile_counts dims tile)))) (first_tile_of tile slices))"
    then have j: "j < length dims" using box_length[OF b] by (simp add: first_tile_of_def tile_counts_def)
    note A = box_axis[OF b j]
    have "(sl_start (slices ! j) + sl_count (slices ! j) - 1) div tile ! j < div_ceil (dims ! j) (tile ! j)"
      using A by (intro div_less_div_ceil) auto
    then have "min ((sl_start (slices ! j) + sl_count (slices ! j) - 1) div tile ! j) (div_ceil (dims ! j) (tile ! j) - 1)
        = (sl_start (slices ! j) + sl_count (slices ! j) - 1) div tile ! j" by simp
    then show "map2 (\<lambda>l f. l - f + 1) (map (\<lambda>(s, t, n). min ((sl_start s + sl_count s - 1) div t) (n - 1))
        (zip slices (zip tile (tile_counts dims tile)))) (first_tile_of tile slices) ! j = tile_range tile slices ! j"
      using j box_length[OF b] by (simp add: first_tile_of_def tile_counts_def tile_range_def)
  qed (use box_length[OF b] in \<open>simp add: first_tile_of_def tile_counts_def tile_range_def\<close>)
  then show ?thesis by (simp add: otr_new_def Let_def tile_counts_def first_tile_of_def)
qed

lemma overlapping_range:
  assumes b: "box_geometry dims tile slices"
  shows "overlapping tile slices tc \<longleftrightarrow> (\<exists>c. in_box c (tile_range tile slices) \<and> tc = map2 (+) (first_tile_of tile slices) c)"
proof
  assume o: "overlapping tile slices tc"
  let ?c = "map2 (-) tc (first_tile_of tile slices)"
  have l: "length tc = length dims" using o box_length[OF b] by (simp add: overlapping_def)
  have "in_box ?c (tile_range tile slices)"
    using o l box_length[OF b] by (auto simp: in_box_nth tile_range_def first_tile_of_def overlapping_def less_Suc_eq_le diff_le_mono)
  moreover have "tc = map2 (+) (first_tile_of tile slices) ?c"
    using o l box_length[OF b] by (auto simp: first_tile_of_def overlapping_def intro!: nth_equalityI)
  ultimately show "\<exists>c. in_box c (tile_range tile slices) \<and> tc = map2 (+) (first_tile_of tile slices) c" by blast
next
  assume "\<exists>c. in_box c (tile_range tile slices) \<and> tc = map2 (+) (first_tile_of tile slices) c"
  then obtain c where c: "in_box c (tile_range tile slices)" "tc = map2 (+) (first_tile_of tile slices) c" by blast
  have "sl_start (slices ! j) div tile ! j \<le> (sl_start (slices ! j) + sl_count (slices ! j) - 1) div tile ! j" if "j < length dims" for j
    using box_axis[OF b that] by (intro div_le_mono) linarith
  then show "overlapping tile slices tc"
    using c box_length[OF b] by (fastforce simp: overlapping_def in_box_nth tile_range_def first_tile_of_def)
qed

lemma overlapping_counts:
  assumes b: "box_geometry dims tile slices" and o: "overlapping tile slices tc"
  shows "in_box tc (tile_counts dims tile)"
proof -
  have "tc ! j < div_ceil (dims ! j) (tile ! j)" if j: "j < length dims" for j
  proof -
    have "(sl_start (slices ! j) + sl_count (slices ! j) - 1) div tile ! j < div_ceil (dims ! j) (tile ! j)"
      using box_axis[OF b j] by (intro div_less_div_ceil) auto
    moreover have "tc ! j \<le> (sl_start (slices ! j) + sl_count (slices ! j) - 1) div tile ! j"
      using o j box_length[OF b] by (simp add: overlapping_def)
    ultimately show ?thesis by linarith
  qed
  then show ?thesis using o box_length[OF b] by (simp add: in_box_nth tile_counts_def overlapping_def)
qed

lemma otr_unfold_tile:
  assumes b: "box_geometry dims tile slices" and i: "i < otr_total (otr_new dims tile slices)"
  shows "\<exists>tc. overlapping tile slices tc \<and> otr_unfold (otr_new dims tile slices) i = (tc, ravel (tile_counts dims tile) tc)"
proof -
  have i': "i < prod_list (tile_range tile slices)" using i by (simp add: otr_new_range[OF b])
  let ?tc = "map2 (+) (first_tile_of tile slices) (unravel (tile_range tile slices) i)"
  have o: "overlapping tile slices ?tc" using overlapping_range[OF b] unravel_in_box[OF i'] by blast
  have "length ?tc = length (tile_counts dims tile)" using in_box_length[OF overlapping_counts[OF b o]] .
  then have "otr_unfold (otr_new dims tile slices) i = (?tc, ravel (tile_counts dims tile) ?tc)"
    by (simp add: otr_unfold_def otr_new_range[OF b] unfold_unravel[OF i'] fold_ravel Let_def)
  then show ?thesis using o by blast
qed

lemma otr_unfold_onto:
  assumes b: "box_geometry dims tile slices" and o: "overlapping tile slices tc"
  shows "\<exists>i < otr_total (otr_new dims tile slices). otr_unfold (otr_new dims tile slices) i = (tc, ravel (tile_counts dims tile) tc)"
proof -
  obtain c where c: "in_box c (tile_range tile slices)" "tc = map2 (+) (first_tile_of tile slices) c"
    using o overlapping_range[OF b] by blast
  have i: "ravel (tile_range tile slices) c < prod_list (tile_range tile slices)" by (rule ravel_less[OF c(1)])
  have "length tc = length (tile_counts dims tile)" using in_box_length[OF overlapping_counts[OF b o]] .
  then have "otr_unfold (otr_new dims tile slices) (ravel (tile_range tile slices) c) = (tc, ravel (tile_counts dims tile) tc)"
    by (simp add: otr_unfold_def otr_new_range[OF b] unfold_unravel[OF i] unravel_ravel[OF c(1)] c(2)[symmetric] fold_ravel Let_def)
  then show ?thesis using i by (intro exI[of _ "ravel (tile_range tile slices) c"]) (simp add: otr_new_range[OF b])
qed

text \<open>The box of one tile: where it starts in the tile and in the output, and its shape.\<close>

definition box_start :: "shape \<Rightarrow> axis_slice list \<Rightarrow> coord \<Rightarrow> coord" where
  "box_start tile slices tc = map2 (\<lambda>s o1. max (sl_start s) o1) slices (map2 (*) tc tile)"

lemma fast_boxes_tile:
  assumes b: "box_geometry dims tile slices" and o: "overlapping tile slices tc"
  shows "fast_boxes dims tile slices tc = (extent_at dims tile (ravel (tile_counts dims tile) tc),
      map2 (-) (box_start tile slices tc) (origin_at dims tile (ravel (tile_counts dims tile) tc)),
      map2 (\<lambda>v s. v - sl_start s) (box_start tile slices tc) slices,
      map2 (-) (map2 (\<lambda>s e. min (sl_start s + sl_count s) e) slices
          (map (\<lambda>(o1, t, n). min (o1 + t) n) (zip (map2 (*) tc tile) (zip tile dims)))) (box_start tile slices tc))"
proof -
  note c = overlapping_counts[OF b o]
  have e: "tile_extent (map2 (*) tc tile) dims tile = map2 (-) (map (\<lambda>(o1, t, n). min (o1 + t) n) (zip (map2 (*) tc tile) (zip tile dims))) (map2 (*) tc tile)"
    using o box_length[OF b] by (intro nth_equalityI) (simp_all add: tile_extent_def overlapping_def)
  show ?thesis
    by (simp add: fast_boxes_def Let_def extent_at_def origin_at_def tile_origin_def unravel_ravel[OF c] e box_start_def)
qed

lemma overlap_axis:
  fixes s n c t :: nat
  assumes "0 < t" "0 < n" "s div t \<le> c" "c \<le> (s + n - 1) div t" "s + n \<le> d"
  shows "c * t < s + n" "s < c * t + t" "max s (c * t) < min (s + n) (min (c * t + t) d)"
proof -
  have "c * t \<le> (s + n - 1) div t * t" using assms(4) by (rule mult_right_mono) simp
  also have "\<dots> \<le> s + n - 1" by simp
  finally show 1: "c * t < s + n" using assms(2) by simp
  have "s = s div t * t + s mod t" "s mod t < t" using assms(1) by simp_all
  moreover have "s div t * t \<le> c * t" using assms(3) by (rule mult_right_mono) simp
  ultimately show 2: "s < c * t + t" by linarith
  show "max s (c * t) < min (s + n) (min (c * t + t) d)" using 1 2 assms by auto
qed

lemma box_arith:
  fixes M W E s n c :: nat
  assumes "s \<le> M" "og \<le> M" "W \<le> s + n" "W \<le> E"
  shows "c < W - M \<Longrightarrow> M - s + c < n \<and> M - og + c < E - og \<and> og + (M - og + c) = s + (M - s + c)"
    "s + x = og + q \<Longrightarrow> M = max s og \<Longrightarrow> W = min (s + n) E \<Longrightarrow> q < E - og \<Longrightarrow> x < n \<Longrightarrow> M - s \<le> x \<and> x - (M - s) < W - M"
  using assms by (linarith, linarith)

text \<open>What a coordinate of the box is in the output, in the tile and in the image.\<close>

lemma fast_box_coords:
  assumes b: "box_geometry dims tile slices" and o: "overlapping tile slices tc"
    and f: "fast_boxes dims tile slices tc = (ext, tstart, ostart, cshape)"
  defines "i \<equiv> ravel (tile_counts dims tile) tc"
  shows "length tstart = length dims" "length ostart = length dims" "length cshape = length dims" "\<forall>n \<in> set cshape. 0 < n"
    "ext = extent_at dims tile i"
    "in_box c cshape \<Longrightarrow> in_box (map2 (+) ostart c) (map sl_count slices)"
    "in_box c cshape \<Longrightarrow> in_box (map2 (+) tstart c) ext"
    "in_box c cshape \<Longrightarrow> map2 (+) (origin_at dims tile i) (map2 (+) tstart c) = sel slices (map2 (+) ostart c)"
    "in_box c' (map sl_count slices) \<Longrightarrow> in_box q ext \<Longrightarrow> sel slices c' = map2 (+) (origin_at dims tile i) q \<Longrightarrow>
      \<exists>c. in_box c cshape \<and> c' = map2 (+) ostart c"
proof -
  have t: "tiled dims tile" using b by (simp add: box_geometry_def)
  note L = box_length[OF b]
  define bs where "bs = box_start tile slices tc"
  define tend where "tend = map (\<lambda>(o1, t, n). min (o1 + t) n) (zip (map2 (*) tc tile) (zip tile dims))"
  have F: "ext = extent_at dims tile i" "tstart = map2 (-) bs (origin_at dims tile i)" "ostart = map2 (\<lambda>v s. v - sl_start s) bs slices"
    "cshape = map2 (-) (map2 (\<lambda>s e. min (sl_start s + sl_count s) e) slices tend) bs"
    using f unfolding fast_boxes_tile[OF b o] i_def[symmetric] bs_def tend_def by simp_all
  have ltc: "length tc = length dims" using o L by (simp add: overlapping_def)
  have lo: "length (origin_at dims tile i) = length dims" using t by simp
  have lb: "length bs = length dims" "length tend = length dims" using L ltc by (simp_all add: bs_def tend_def box_start_def)
  have nb: "bs ! j = max (sl_start (slices ! j)) (tc ! j * tile ! j) \<and> tend ! j = min (tc ! j * tile ! j + tile ! j) (dims ! j)"
    if "j < length dims" for j using that L ltc by (simp add: bs_def tend_def box_start_def)
  have og: "origin_at dims tile i ! j = tc ! j * tile ! j" if "j < length dims" for j
    using origin_at_nth[OF t that] unravel_ravel[OF overlapping_counts[OF b o]] by (simp add: i_def)
  let ?s = "\<lambda>j. sl_start (slices ! j)" and ?n = "\<lambda>j. sl_count (slices ! j)" and ?o = "\<lambda>j. tc ! j * tile ! j"
  have ov: "?o j < ?s j + ?n j \<and> ?s j < ?o j + tile ! j \<and> max (?s j) (?o j) < min (?s j + ?n j) (min (?o j + tile ! j) (dims ! j))"
    if j: "j < length dims" for j
    using overlap_axis[of "tile ! j" "?n j" "?s j" "tc ! j" "dims ! j"] box_axis[OF b j] o j L by (auto simp: overlapping_def)
  have n: "tstart ! j = max (?s j) (?o j) - ?o j \<and> ostart ! j = max (?s j) (?o j) - ?s j
      \<and> cshape ! j = min (?s j + ?n j) (min (?o j + tile ! j) (dims ! j)) - max (?s j) (?o j)
      \<and> ext ! j = min (?o j + tile ! j) (dims ! j) - ?o j" if j: "j < length dims" for j
    unfolding F using nb[OF j] j L lb og[OF j] extent_at_nth[OF t j] lo by simp
  show lt: "length tstart = length dims" and los: "length ostart = length dims" and lc: "length cshape = length dims"
    and e: "ext = extent_at dims tile i" using F L lb lo by simp_all
  show "\<forall>n \<in> set cshape. 0 < n" using n ov lc by (auto simp: in_set_conv_nth)
  have le: "length ext = length dims" using e t by simp
  have P: "ostart ! j + c ! j < ?n j \<and> tstart ! j + c ! j < ext ! j \<and> ?o j + (tstart ! j + c ! j) = ?s j + (ostart ! j + c ! j)"
    if "in_box c cshape" "j < length dims" for c j
  proof -
    have "c ! j < cshape ! j" using that lc by (simp add: in_box_nth)
    then show ?thesis
      using n[OF that(2)] box_arith(1)[OF max.cobounded1 max.cobounded2 min.cobounded1 min.cobounded2, of "c ! j" "?s j" "?n j"
        "min (?o j + tile ! j) (dims ! j)" "?o j"] by simp
  qed
  show "in_box c cshape \<Longrightarrow> in_box (map2 (+) ostart c) (map sl_count slices)"
    using P[of c] lc los L by (simp add: in_box_nth)
  show "in_box c cshape \<Longrightarrow> in_box (map2 (+) tstart c) ext"
    using P[of c] lc lt le by (simp add: in_box_nth)
  show "in_box c cshape \<Longrightarrow> map2 (+) (origin_at dims tile i) (map2 (+) tstart c) = sel slices (map2 (+) ostart c)"
    using P[of c] lc lt los lo L og box_axis[OF b] by (intro nth_equalityI) (simp_all add: in_box_length sel_def)
  show "\<exists>c. in_box c cshape \<and> c' = map2 (+) ostart c"
    if c': "in_box c' (map sl_count slices)" and q: "in_box q ext" and e: "sel slices c' = map2 (+) (origin_at dims tile i) q"
  proof -
    have lc': "length c' = length dims" using in_box_length[OF c'] L by simp
    have K: "?s j + c' ! j = ?o j + q ! j \<and> q ! j < ext ! j \<and> c' ! j < ?n j" if "j < length dims" for j
    proof -
      have "sel slices c' ! j = ?s j + c' ! j" using that lc' L box_axis[OF b that] by (simp add: sel_def)
      moreover have "map2 (+) (origin_at dims tile i) q ! j = ?o j + q ! j" using that og lo in_box_length[OF q] le by simp
      ultimately show ?thesis using e c' q that L le by (simp add: in_box_nth)
    qed
    then have B: "ostart ! j \<le> c' ! j \<and> c' ! j - ostart ! j < cshape ! j" if "j < length dims" for j
      using n[OF that] box_arith(2)[OF max.cobounded1 max.cobounded2 min.cobounded1 min.cobounded2 _ refl refl, of "?s j" "c' ! j" "?o j" "q ! j"
        "min (?o j + tile ! j) (dims ! j)" "?n j"] K[OF that] by simp
    have "in_box (map2 (-) c' ostart) cshape" using B lc' los lc by (simp add: in_box_nth)
    moreover have "c' = map2 (+) ostart (map2 (-) c' ostart)" using B lc' los by (intro nth_equalityI) simp_all
    ultimately show ?thesis by blast
  qed
qed

subsection \<open>Indexing equals the reference\<close>

lemma parse_axis_int_one: "parse_axis_indexer item dim = Inr s \<Longrightarrow> sl_is_int s \<Longrightarrow> sl_count s = 1"
  by (cases item) (auto simp: parse_axis_indexer_def Let_def split: if_splits prod.splits)

lemma index_axes_int_one: "index_axes items fill dims = Inr slices \<Longrightarrow> \<forall>s \<in> set slices. sl_is_int s \<longrightarrow> sl_count s = 1"
proof (induction items fill dims arbitrary: slices rule: index_axes.induct)
  case (1 fill dims)
  then show ?case by (auto simp: full_axis_slice_def)
next
  case (2 item items fill dims)
  then show ?case
    by (auto simp: res_bind_Inr_iff full_axis_slice_def split: if_splits list.splits dest: parse_axis_int_one[simplified])
qed

lemma normalize_int_one:
  assumes "normalize_slice_key key dims = Inr slices" "s \<in> set slices" "sl_is_int s"
  shows "sl_count s = 1"
proof -
  have "index_axes key (length dims - (length key - (if 0 < length (filter is_ellipsis key) then 1 else 0))) dims = Inr slices"
    using assms(1) by (simp add: normalize_slice_key_def Let_def split: if_splits)
  then show ?thesis using index_axes_int_one assms(2,3) by blast
qed

lemma normalize_axis_ok:
  assumes n: "normalize_slice_key key dims = Inr slices" and ne: "\<not> list_ex (\<lambda>s. sl_count s = 0) slices"
  shows "all_ok slices"
proof -
  have "\<forall>s \<in> set slices. 0 < sl_step s"
    using normalize_slice_key_ok[OF n] by (auto simp: slices_ok_def list_all2_conv_all_nth in_set_conv_nth)
  then show ?thesis using normalize_int_one[OF n] ne by (auto simp: all_ok_def axis_ok_def list_ex_iff)
qed

context tile_source
begin

lemma fast_tiles_ok:
  assumes g: "geometry k img dims tile" and b: "box_geometry dims tile slices"
  shows "inv s \<Longrightarrow> set iters \<subseteq> {..<otr_total (otr_new dims tile slices)} \<Longrightarrow> length out = prod_list (map sl_count slices) * k \<Longrightarrow>
   \<exists>s' ws. fast_tiles fetch k dims tile slices (otr_new dims tile slices) iters out s = (Inr (apply_writes ws out), s') \<and> inv s'
     \<and> good_writes (target k img dims slices) (length out) ws
     \<and> (\<forall>it \<in> set iters. \<forall>c q b. in_box c (map sl_count slices) \<longrightarrow>
          in_box q (extent_at dims tile (snd (otr_unfold (otr_new dims tile slices) it))) \<longrightarrow>
          sel slices c = map2 (+) (origin_at dims tile (snd (otr_unfold (otr_new dims tile slices) it))) q \<longrightarrow> b < k \<longrightarrow>
          covered ws (ravel (map sl_count slices) c * k + b))"
proof (induction iters arbitrary: s out)
  case Nil
  then show ?case by (intro exI[of _ s] exI[of _ "[]"]) (simp add: tio_return_def)
next
  case (Cons it iters)
  let ?r = "otr_new dims tile slices" and ?cs = "map sl_count slices" and ?F = "target k img dims slices"
  have G: "0 < k" "tiled dims tile" "length img = prod_list dims * k" "dims \<noteq> []" using g by (simp_all add: geometry_def)
  have u: "unit_steps slices" using b by (simp add: box_geometry_def)
  have ldim: "length slices = length dims" using box_length[OF b] by simp
  have it: "it < otr_total ?r" and sub: "set iters \<subseteq> {..<otr_total ?r}" using Cons.prems(2) by auto
  obtain tc where tc: "overlapping tile slices tc" "otr_unfold ?r it = (tc, ravel (tile_counts dims tile) tc)"
    using otr_unfold_tile[OF b it] by blast
  define i where "i = ravel (tile_counts dims tile) tc"
  have i: "i < n_tiles_of dims tile" unfolding i_def n_tiles_of_def by (rule ravel_less[OF overlapping_counts[OF b tc(1)]])
  let ?t = "tile_pixels k img dims tile i"
  obtain ext tstart ostart cshape where f: "fast_boxes dims tile slices tc = (ext, tstart, ostart, cshape)" by (metis surj_pair)
  note B = fast_box_coords[OF b tc(1) f, folded i_def]
  have e: "length ext = length dims" "length ?t = prod_list ext * k" using B(5) G(2) tile_pixels_length[OF G(2,3)] by simp_all
  obtain s1 where fe: "fetch i ext s = (Inr ?t, s1)" "inv s1" using fetched[OF Cons.prems(1) i] B(5) by blast
  have box: "in_box (map2 (+) ostart c) ?cs \<and> in_box (map2 (+) tstart c) ext" if "in_box c cshape" for c using B(6,7)[OF that] by blast
  have tgt: "?t ! (ravel ext (map2 (+) tstart c) * k + d) = ?F (ravel ?cs (map2 (+) ostart c) * k + d)" if "in_box c cshape" "d < k" for c d
    using tile_pixels_nth[OF G(2,3) B(7)[OF that(1), unfolded B(5)] that(2)] target_coord[OF that(2) B(6)[OF that(1)]] B(8)[OF that(1)] B(5) by simp
  have pos: "0 < last cshape" using B(3,4) G(4) by (cases cshape rule: rev_cases) auto
  have "?cs \<noteq> []" using ldim G(4) by auto
  from strided_copy_writes[OF this, of ostart ext tstart cshape k out ?t ?F] obtain ws where ws:
    "strided_copy out ?cs ostart ?t ext tstart cshape k = Inr (apply_writes ws out)" "good_writes ?F (length out) ws"
    "\<And>c d. in_box c cshape \<Longrightarrow> d < k \<Longrightarrow> covered ws (ravel ?cs (map2 (+) ostart c) * k + d)"
    using B(1-3) e Cons.prems(3) G(1) ldim box tgt pos by auto
  have lo: "length (apply_writes ws out) = prod_list ?cs * k" using ws(2) Cons.prems(3) by simp
  from Cons.IH[OF fe(2) sub lo] obtain s' vs where vs:
    "fast_tiles fetch k dims tile slices ?r iters (apply_writes ws out) s1 = (Inr (apply_writes vs (apply_writes ws out)), s')" "inv s'"
    "good_writes ?F (length (apply_writes ws out)) vs"
    "\<forall>it \<in> set iters. \<forall>c q b. in_box c ?cs \<longrightarrow> in_box q (extent_at dims tile (snd (otr_unfold ?r it))) \<longrightarrow>
          sel slices c = map2 (+) (origin_at dims tile (snd (otr_unfold ?r it))) q \<longrightarrow> b < k \<longrightarrow> covered vs (ravel ?cs c * k + b)" by blast
  have "fast_tiles fetch k dims tile slices ?r (it # iters) out s = (Inr (apply_writes (ws @ vs) out), s')"
    using fe vs(1) by (simp add: tc(2) f i_def[symmetric] tio_bind_def tio_lift_def unit_out(1)[OF u] ws(1))
  moreover have "good_writes ?F (length out) (ws @ vs)" using ws(2) vs(3) lo Cons.prems(3) by simp
  moreover have "covered ws (ravel ?cs c * k + d)"
    if "in_box c ?cs" "in_box q (extent_at dims tile i)" "sel slices c = map2 (+) (origin_at dims tile i) q" "d < k" for c q d
    using B(9)[OF that(1) _ that(3)] that(2) ws(3)[OF _ that(4)] B(5) by blast
  ultimately show ?case
    using vs(2,4) by (intro exI[of _ s'] exI[of _ "ws @ vs"]) (auto simp: tc(2) i_def)
qed

lemma fast_slice_ok:
  assumes g: "geometry k img dims tile" and b: "box_geometry dims tile slices" and s: "inv s"
    and out: "length out = prod_list (map sl_count slices) * k"
  shows "\<exists>s'. fast_tiles fetch k dims tile slices (otr_new dims tile slices) [0..<otr_total (otr_new dims tile slices)] out s
    = (Inr (read_reference k img 0 dims slices), s') \<and> inv s'"
proof -
  let ?r = "otr_new dims tile slices" and ?cs = "map sl_count slices" and ?F = "target k img dims slices"
  have G: "0 < k" "tiled dims tile" "length img = prod_list dims * k" using g by (simp_all add: geometry_def)
  have sl: "slices_ok dims slices" using b by (simp add: box_geometry_def)
  have sub: "set [0..<otr_total ?r] \<subseteq> {..<otr_total ?r}" by auto
  from fast_tiles_ok[OF g b s sub out] obtain s' ws where R:
    "fast_tiles fetch k dims tile slices ?r [0..<otr_total ?r] out s = (Inr (apply_writes ws out), s')" "inv s'"
    "good_writes ?F (length out) ws"
    "\<And>it c q d. it < otr_total ?r \<Longrightarrow> in_box c ?cs \<Longrightarrow> in_box q (extent_at dims tile (snd (otr_unfold ?r it))) \<Longrightarrow>
        sel slices c = map2 (+) (origin_at dims tile (snd (otr_unfold ?r it))) q \<Longrightarrow> d < k \<Longrightarrow> covered ws (ravel ?cs c * k + d)"
    by (auto simp del: map_map)
  have "covered ws a" if a: "a < length out" for a
  proof -
    let ?c = "unravel ?cs (a div k)"
    have d: "a div k < prod_list ?cs" using a out by (simp add: less_mult_imp_div_less)
    note c = unravel_in_box[OF d]
    have p: "in_box (sel slices ?c) dims" by (rule sel_in_box[OF sl c])
    let ?tc = "map2 (div) (sel slices ?c) tile"
    have "sl_start (slices ! j) div tile ! j \<le> ?tc ! j \<and> ?tc ! j \<le> (sl_start (slices ! j) + sl_count (slices ! j) - 1) div tile ! j"
      if j: "j < length slices" for j
    proof -
      have "?c ! j < sl_count (slices ! j)" using c j by (simp add: in_box_nth)
      then show ?thesis using j box_axis[OF b, of j] box_length[OF b] by (auto simp: sel_def intro!: div_le_mono)
    qed
    then have "overlapping tile slices ?tc" using box_length[OF b] by (simp add: overlapping_def)
    then obtain it where it: "it < otr_total ?r" "otr_unfold ?r it = (?tc, ravel (tile_counts dims tile) ?tc)" using otr_unfold_onto[OF b] by blast
    then have "snd (otr_unfold ?r it) = tile_of_pixel dims tile (sel slices ?c)" by (simp add: tile_of_pixel_def)
    then have "covered ws (ravel ?cs ?c * k + a mod k)"
      using R(4)[OF it(1) c] in_own_tile[OF G(2) p] G(1) by (metis mod_less_divisor)
    then show ?thesis using ravel_unravel[OF d] by simp
  qed
  then have "apply_writes ws out = map ?F [0..<length out]" using filled[OF R(3)] by blast
  then show ?thesis using R(1,2) reference_target[OF sl G(3)] out by simp
qed

lemma general_slice_ok:
  assumes g: "geometry k img dims tile" and sl: "slices_ok dims slices" and ok: "all_ok slices" and s: "inv s"
    and out: "length out = prod_list (output_shape slices) * k"
  shows "\<exists>s'. slice_tiles fetch k dims tile slices [0..<n_tiles_of dims tile] out s = (Inr (read_reference k img 0 dims slices), s') \<and> inv s'"
proof -
  let ?cs = "map sl_count slices" and ?F = "target k img dims slices" and ?os = "output_shape slices"
  have G: "0 < k" "tiled dims tile" "length img = prod_list dims * k" using g by (simp_all add: geometry_def)
  have l: "length slices = length dims" using sl by (auto simp: slices_ok_def dest: list_all2_lengthD)
  have okS: "\<forall>s \<in> set slices. axis_ok s" using ok by (simp add: all_ok_def)
  have sub: "set [0..<n_tiles_of dims tile] \<subseteq> {..<n_tiles_of dims tile}" by auto
  from slice_tiles_ok[OF g ok l s sub out] obtain s' ws where R:
    "slice_tiles fetch k dims tile slices [0..<n_tiles_of dims tile] out s = (Inr (apply_writes ws out), s')" "inv s'"
    "good_writes ?F (length out) ws"
    "\<And>i c d. i < n_tiles_of dims tile \<Longrightarrow> steps_in (origin_at dims tile i) (extent_at dims tile i) slices c \<Longrightarrow> d < k \<Longrightarrow>
        covered ws (ravel ?os (out_coord slices c) * k + d)" by auto
  have po: "prod_list ?os = prod_list ?cs"
  proof (cases "prod_list ?cs = 0")
    case True
    then show ?thesis using okS by (auto simp: axis_ok_def prod_list_zero_iff)
  next
    case False
    then have "in_box (unravel ?cs 0) ?cs" by (intro unravel_in_box) simp
    then show ?thesis using out_coord_ravel[OF okS] by blast
  qed
  have "covered ws a" if a: "a < length out" for a
  proof -
    let ?c = "unravel ?cs (a div k)"
    have d: "a div k < prod_list ?cs" using a out po by (simp add: less_mult_imp_div_less)
    note c = unravel_in_box[OF d]
    have p: "in_box (sel slices ?c) dims" by (rule sel_in_box[OF sl c])
    let ?i = "tile_of_pixel dims tile (sel slices ?c)"
    have "steps_in (origin_at dims tile ?i) (extent_at dims tile ?i) slices ?c"
      using tile_steps_in[OF _ _ c in_own_tile[OF G(2) p]] G(2) l by simp
    then have "covered ws (ravel ?os (out_coord slices ?c) * k + a mod k)"
      using R(4)[OF tile_of_pixel_coord(1)[OF G(2) p]] G(1) by simp
    then show ?thesis using out_coord_ravel[OF okS c] ravel_unravel[OF d] by simp
  qed
  then have "apply_writes ws out = map ?F [0..<length out]" using filled[OF R(3)] by blast
  then show ?thesis using R(1,2) reference_target[OF sl G(3)] out po by simp
qed

lemma slice_image_ok:
  assumes g: "geometry k img dims tile" and n: "normalize_slice_key key dims = Inr slices" and s: "inv s"
    and out: "length (np_empty slices) = prod_list (output_shape slices) * k"
  shows "\<exists>s'. slice_compressed_image fetch k dims tile (n_tiles_of dims tile) key np_empty s
    = (Inr (read_reference k img 0 dims slices), s') \<and> inv s'"
proof -
  note sl = normalize_slice_key_ok[OF n]
  show ?thesis
  proof (cases "list_ex (\<lambda>s. sl_count s = 0) slices")
    case True
    then obtain sx where sx: "sx \<in> set slices" "sl_count sx = 0" by (auto simp: list_ex_iff)
    then have z: "prod_list (map sl_count slices) = 0" by (force simp: prod_list_zero_iff)
    have "\<not> sl_is_int sx" using normalize_int_one[OF n sx(1)] sx(2) by auto
    then have "prod_list (output_shape slices) = 0" using sx by (force simp: prod_list_zero_iff output_shape_def)
    then have "np_empty slices = []" using out by simp
    moreover have "read_reference k img 0 dims slices = []" using z by (simp add: read_reference_def)
    ultimately have "slice_compressed_image fetch k dims tile (n_tiles_of dims tile) key np_empty s = (Inr (read_reference k img 0 dims slices), s)"
      using n True by (simp add: slice_compressed_image_def Let_def tio_return_def)
    then show ?thesis using s by blast
  next
    case False
    note ok = normalize_axis_ok[OF n False]
    show ?thesis
    proof (cases "list_all (\<lambda>s. \<not> sl_is_int s \<and> sl_step s = 1) slices")
      case True
      then have u: "unit_steps slices" using ok by (auto simp: unit_steps_def all_ok_def axis_ok_def list_all_iff)
      then have b: "box_geometry dims tile slices" using g sl by (simp add: box_geometry_def geometry_def)
      have "length (np_empty slices) = prod_list (map sl_count slices) * k" using out unit_out(1)[OF u] by simp
      from fast_slice_ok[OF g b s this] show ?thesis
        using n False True g by (simp add: slice_compressed_image_def Let_def geometry_def not_less[symmetric])
    next
      case nf: False
      from general_slice_ok[OF g sl ok s out] show ?thesis
        using n False nf by (simp add: slice_compressed_image_def Let_def)
    qed
  qed
qed

end

end
