(* ===== verification/TileDispatch.thy ===== *)
theory TileDispatch
  imports Gzip Rice Plio HcompressRoundtrip CompressionConfig
begin

text \<open>
  The dispatch on the compression algorithm (\<open>src/zimage/mod.rs\<close>), and the contract of the codecs lifted to it.
\<close>

record algorithm_params =
  tile_shape_numpy :: "nat list"
  ap_smooth :: bool

record algorithm_encode_params =
  ep_blocksize :: nat
  ep_tile_shape :: "nat list"
  ep_scale :: i32
  ep_gzip_level :: "nat option"

definition decode_tile_to_bytes ::
  "gz_lib \<Rightarrow> bool \<Rightarrow> compression_algorithm \<Rightarrow> bytes \<Rightarrow> nat \<Rightarrow> nat \<Rightarrow> nat \<Rightarrow> int \<Rightarrow> algorithm_params
    \<Rightarrow> codec_error + bytes" where
  "decode_tile_to_bytes gz big algorithm compressed n_pixels bytepix blocksize zbitpix params =
     (case algorithm of
        AlgRice1 \<Rightarrow> decode_rice big compressed n_pixels bytepix blocksize zbitpix
      | AlgGzip1 \<Rightarrow> decode_gzip1 gz big compressed n_pixels bytepix
      | AlgGzip2 \<Rightarrow> decode_gzip2 gz big compressed n_pixels bytepix
      | AlgHcompress1 \<Rightarrow>
          if length (tile_shape_numpy params) \<noteq> 2 then Inl (TileNot2D (length (tile_shape_numpy params)))
          else decode_hcompress big compressed (tile_shape_numpy params ! 0) (tile_shape_numpy params ! 1) bytepix zbitpix (ap_smooth params)
      | AlgPlio1 \<Rightarrow> decode_plio big compressed n_pixels bytepix zbitpix)"

definition encode_tile_from_bytes ::
  "gz_lib \<Rightarrow> compression_algorithm \<Rightarrow> bytes \<Rightarrow> nat \<Rightarrow> nat \<Rightarrow> int \<Rightarrow> algorithm_encode_params
    \<Rightarrow> codec_error + bytes" where
  "encode_tile_from_bytes gz algorithm pixel_bytes_be bytepix n_pixels zbitpix params =
     (case algorithm of
        AlgGzip1 \<Rightarrow> encode_gzip1 gz pixel_bytes_be (ep_gzip_level params)
      | AlgGzip2 \<Rightarrow> encode_gzip2 gz pixel_bytes_be bytepix (ep_gzip_level params)
      | AlgRice1 \<Rightarrow> encode_rice pixel_bytes_be n_pixels bytepix (ep_blocksize params)
      | AlgHcompress1 \<Rightarrow>
          if length (ep_tile_shape params) \<noteq> 2 then Inl (TileNot2D (length (ep_tile_shape params)))
          else encode_hcompress pixel_bytes_be (ep_tile_shape params ! 0) (ep_tile_shape params ! 1) bytepix zbitpix (ep_scale params)
      | AlgPlio1 \<Rightarrow> encode_plio pixel_bytes_be n_pixels bytepix zbitpix)"

text \<open>The tiles that come back unchanged.\<close>

definition tile_lossless ::
  "compression_algorithm \<Rightarrow> nat option \<Rightarrow> i32 \<Rightarrow> nat list \<Rightarrow> nat \<Rightarrow> nat \<Rightarrow> nat \<Rightarrow> int \<Rightarrow> bytes \<Rightarrow> bool" where
  "tile_lossless algorithm level sc shape n bytepix blocksize zbitpix pix =
     (case algorithm of
        AlgRice1 \<Rightarrow> rice_tile_ok n bytepix blocksize pix \<and> zbitpix = int (8 * bytepix)
      | AlgPlio1 \<Rightarrow> plio_tile_ok n bytepix zbitpix pix
      | AlgHcompress1 \<Rightarrow> (case shape of [nx, ny] \<Rightarrow> n = nx * ny \<and> hcompress_tile_ok nx ny bytepix zbitpix sc pix | _ \<Rightarrow> False)
      | _ \<Rightarrow> (case level of None \<Rightarrow> True | Some v \<Rightarrow> v \<le> 9) \<and> bytepix \<in> {1, 2, 4, 8} \<and> length pix = n * bytepix \<and> n * bytepix < 2 ^ 64)"

lemma tile_lossless_hcompress:
  "tile_lossless AlgHcompress1 level sc shape n bytepix blocksize zbitpix pix \<longleftrightarrow>
    length shape = 2 \<and> n = shape ! 0 * shape ! 1 \<and> hcompress_tile_ok (shape ! 0) (shape ! 1) bytepix zbitpix sc pix"
  by (auto simp: tile_lossless_def length_Suc_conv numeral_2_eq_2 split: list.splits)

lemma tile_lossless_length: "tile_lossless algorithm level sc shape n bytepix blocksize zbitpix pix \<Longrightarrow> length pix = n * bytepix"
  by (cases algorithm) (auto simp: tile_lossless_hcompress, auto simp: tile_lossless_def rice_tile_ok_def plio_tile_ok_def hcompress_tile_ok_def)

sublocale gzip_lib < dispatch: tile_codec
  "\<lambda>pix. encode_tile_from_bytes gz algorithm pix bytepix n zbitpix
     \<lparr>ep_blocksize = blocksize, ep_tile_shape = shape, ep_scale = sc, ep_gzip_level = level\<rparr>"
  "\<lambda>c. decode_tile_to_bytes gz big algorithm c n bytepix blocksize zbitpix \<lparr>tile_shape_numpy = shape, ap_smooth = sm\<rparr>"
  "to_native big bytepix" "tile_lossless algorithm level sc shape n bytepix blocksize zbitpix"
  for algorithm bytepix n zbitpix blocksize shape sc level big sm
proof unfold_locales
  fix pix assume ok: "tile_lossless algorithm level sc shape n bytepix blocksize zbitpix pix"
  then show "res_bind (encode_tile_from_bytes gz algorithm pix bytepix n zbitpix
       \<lparr>ep_blocksize = blocksize, ep_tile_shape = shape, ep_scale = sc, ep_gzip_level = level\<rparr>)
     (\<lambda>c. decode_tile_to_bytes gz big algorithm c n bytepix blocksize zbitpix \<lparr>tile_shape_numpy = shape, ap_smooth = sm\<rparr>)
    = Inr (to_native big bytepix pix)"
    using rice.lossless[of n bytepix blocksize pix big] plio.lossless[of n bytepix zbitpix pix big]
      gzip1.lossless[of level bytepix pix n big] gzip2.lossless[of level bytepix pix n big]
      hcompress.lossless[of "shape ! 0" "shape ! 1" bytepix zbitpix sc pix big sm]
    by (cases algorithm)
      (auto simp: tile_lossless_hcompress, auto simp: level_ok_def tile_lossless_def encode_tile_from_bytes_def decode_tile_to_bytes_def)
next
  fix pix pix' assume "tile_lossless algorithm level sc shape n bytepix blocksize zbitpix pix" "tile_lossless algorithm level sc shape n bytepix blocksize zbitpix pix'"
    "to_native big bytepix pix = to_native big bytepix pix'"
  then show "pix = pix'"
    using rice.native_inject[of n bytepix blocksize pix pix' big] plio.native_inject[of n bytepix zbitpix pix pix' big]
      gzip1.native_inject[of level bytepix pix n pix' big] hcompress.native_inject[of "shape ! 0" "shape ! 1" bytepix zbitpix sc pix pix' big]
    by (cases algorithm) (auto simp: tile_lossless_hcompress, auto simp: level_ok_def tile_lossless_def)
qed

end
