(* ===== verification/TilePayload.thy ===== *)
theory TilePayload
  imports TileReading TileCache TileDispatch
begin

text \<open>
  Fetching one tile of a compressed image (\<open>src/hdu_image_compressed/read.rs\<close>): its descriptors in
  the row of the table, its bytes in the heap, the choice of the column, the decoding and the cache.
  Offsets are \<open>u64\<close> and wrap as release builds do. The quantiser of float images
  (\<open>src/zimage/quantize.rs\<close>, floating-point arithmetic) is not modelled: its two directions are
  fields of the environment and work on the \<open>i32\<close> bytes and the eight bytes of ZSCALE and ZZERO.
\<close>

subsection \<open>Descriptors\<close>

definition wrap64 :: "nat \<Rightarrow> nat" where
  "wrap64 n = n mod 2 ^ 64"

definition sat_mul :: "nat \<Rightarrow> nat \<Rightarrow> nat" where
  "sat_mul a b = min (a * b) (2 ^ 64 - 1)"

definition descriptor_size :: "bool \<Rightarrow> nat" where
  "descriptor_size heap_is_q = (if heap_is_q then 16 else 8)"

definition parse_descriptor :: "bool \<Rightarrow> bytes \<Rightarrow> nat \<times> nat" where
  "parse_descriptor heap_is_q buf =
     (if heap_is_q then (be_nat (take 8 buf), be_nat (take 8 (drop 8 buf)))
      else (be_nat (take 4 buf), be_nat (take 4 (drop 4 buf))))"

definition read_descriptor :: "faults \<Rightarrow> nat \<Rightarrow> bool \<Rightarrow> (nat \<times> nat) io" where
  "read_descriptor flt desc_offset heap_is_q =
     io_bind (st_seek flt desc_offset) (\<lambda>_.
     io_bind (st_read_exact flt (descriptor_size heap_is_q)) (\<lambda>buf. io_return (parse_descriptor heap_is_q buf)))"

definition read_heap_bytes :: "faults \<Rightarrow> nat \<Rightarrow> nat \<Rightarrow> bytes io" where
  "read_heap_bytes flt heap_byte_offset n_bytes =
     io_bind (st_seek flt heap_byte_offset) (\<lambda>_. st_read_exact flt n_bytes)"

definition read_big_endian_f64 :: "faults \<Rightarrow> nat \<Rightarrow> bytes io" where
  "read_big_endian_f64 flt off = io_bind (st_seek flt off) (\<lambda>_. st_read_exact flt 8)"

subsection \<open>Payloads\<close>

datatype tile_payload =
    PrimaryCompressed bytes compression_algorithm
  | FallbackCompressed bytes compression_algorithm
  | Uncompressed bytes

text \<open>One column: its bytes when the descriptor has elements.\<close>

definition column_bytes :: "faults \<Rightarrow> nat \<Rightarrow> nat \<Rightarrow> nat \<Rightarrow> zimage_column_info \<Rightarrow> bytes option io" where
  "column_bytes flt data_off theap row_offset col =
     io_bind (read_descriptor flt (wrap64 (row_offset + unat (byte_offset_in_row col))) (is_q col)) (\<lambda>(nelem, off).
     if nelem > 0 then
       io_bind (read_heap_bytes flt (wrap64 (data_off + theap + off)) (sat_mul nelem (unat (inner_byte_width col))))
         (\<lambda>bs. io_return (Some bs))
     else io_return None)"

definition optional_column :: "faults \<Rightarrow> nat \<Rightarrow> nat \<Rightarrow> nat \<Rightarrow> zimage_column_info option \<Rightarrow> bytes option io" where
  "optional_column flt data_off theap row_offset col =
     (case col of None \<Rightarrow> io_return None | Some c \<Rightarrow> column_bytes flt data_off theap row_offset c)"

definition fetch_tile_payload_inner ::
  "faults \<Rightarrow> nat \<Rightarrow> nat \<Rightarrow> zimage_data_columns \<Rightarrow> compression_algorithm \<Rightarrow> nat \<Rightarrow> tile_payload option io" where
  "fetch_tile_payload_inner flt data_off theap cols algorithm row_offset =
     io_bind (column_bytes flt data_off theap row_offset (primary cols)) (\<lambda>p.
     case p of Some bs \<Rightarrow> io_return (Some (PrimaryCompressed bs algorithm))
     | None \<Rightarrow>
         io_bind (optional_column flt data_off theap row_offset (gzip_fallback cols)) (\<lambda>g.
         case g of Some bs \<Rightarrow> io_return (Some (FallbackCompressed bs AlgGzip1))
         | None \<Rightarrow>
             io_bind (optional_column flt data_off theap row_offset (uncompressed_fallback cols)) (\<lambda>u.
             io_return (map_option Uncompressed u))))"

definition fetch_tile_payload_and_quant ::
  "faults \<Rightarrow> nat \<Rightarrow> nat \<Rightarrow> compressed_image_meta \<Rightarrow> (tile_payload option \<times> (bytes \<times> bytes) option) io" where
  "fetch_tile_payload_and_quant flt tile_idx data_off m =
     (let row_offset = wrap64 (data_off + tile_idx * unat (m_naxis1 m))
      in io_bind (fetch_tile_payload_inner flt data_off (unat (m_theap m)) (m_cols m) (m_algorithm m) row_offset) (\<lambda>payload.
         case payload of None \<Rightarrow> io_return (None, None)
         | Some _ \<Rightarrow>
             (case m_quant m of
                None \<Rightarrow> io_return (payload, None)
              | Some ctx \<Rightarrow>
                  io_bind (read_big_endian_f64 flt (wrap64 (row_offset + unat (qc_zscale_offset ctx)))) (\<lambda>zs.
                  io_bind (read_big_endian_f64 flt (wrap64 (row_offset + unat (qc_zzero_offset ctx)))) (\<lambda>zz.
                  io_return (payload, Some (zs, zz)))))))"

subsection \<open>Decoding\<close>

record tile_env =
  te_gz :: gz_lib
  te_big :: bool
  te_dequantize :: "int \<Rightarrow> bytes \<Rightarrow> bytes \<Rightarrow> bytes \<Rightarrow> quantize_method \<Rightarrow> nat \<Rightarrow> int \<Rightarrow> codec_error + bytes"
  te_quantize :: "int \<Rightarrow> bytes \<Rightarrow> nat \<Rightarrow> nat \<Rightarrow> quantize_method \<Rightarrow> nat \<Rightarrow> int \<Rightarrow> (bytes \<times> bytes \<times> bytes) option"

definition is_primary :: "tile_payload \<Rightarrow> bool" where
  "is_primary p = (case p of PrimaryCompressed _ _ \<Rightarrow> True | _ \<Rightarrow> False)"

text \<open>The pixel width and the type the decoder is asked for, by the column the bytes come from.\<close>

definition decode_width :: "bool \<Rightarrow> compressed_image_meta \<Rightarrow> nat \<times> int" where
  "decode_width dequant_applies m =
     (let output_zbitpix = m_zbitpix m; stored_zbitpix = (if output_zbitpix < 0 then 32 else output_zbitpix);
          float_bytepix = (if output_zbitpix = - 32 then 4 else if output_zbitpix = - 64 then 8 else 0)
      in if dequant_applies then (unat (m_bytepix m), stored_zbitpix)
         else if output_zbitpix < 0 then (float_bytepix, \<bar>output_zbitpix\<bar>)
         else (unat (m_bytepix m), stored_zbitpix))"

definition codec_result :: "codec_error + 'a \<Rightarrow> tile_error + 'a" where
  "codec_result r = (case r of Inl e \<Rightarrow> Inl (FetchCodec e) | Inr b \<Rightarrow> Inr b)"

definition decode_payload ::
  "tile_env \<Rightarrow> compressed_image_meta \<Rightarrow> nat \<Rightarrow> shape \<Rightarrow> tile_payload \<Rightarrow> (bytes \<times> bytes) option \<Rightarrow> tile_error + bytes" where
  "decode_payload env m tile_idx actual_shape payload scale_zero =
     (let tile_n_pixels = prod_list actual_shape;
          dequant_applies = (is_primary payload \<and> m_quant m \<noteq> None);
          (decode_bp, decode_zb) = decode_width dequant_applies m;
          decompress = (\<lambda>bs alg. codec_result (decode_tile_to_bytes (te_gz env) (te_big env) alg bs tile_n_pixels decode_bp
             (unat (m_blocksize m)) decode_zb \<lparr>tile_shape_numpy = actual_shape, ap_smooth = m_smooth m\<rparr>))
      in res_bind
           (case payload of
              PrimaryCompressed bs alg \<Rightarrow> decompress bs alg
            | FallbackCompressed bs alg \<Rightarrow> decompress bs alg
            | Uncompressed bs \<Rightarrow>
                res_bind (codec_result (checked_mul tile_n_pixels decode_bp)) (\<lambda>expected.
                if length bs \<noteq> expected then Inl (PayloadLength tile_idx (length bs) expected)
                else Inr (to_native (te_big env) decode_bp bs)))
           (\<lambda>decoded_bytes.
              if dequant_applies then
                (case (m_quant m, scale_zero) of
                   (Some ctx, Some (sc, z)) \<Rightarrow>
                     codec_result (te_dequantize env (qc_output_zbitpix ctx) decoded_bytes sc z (qc_method ctx) (tile_idx + 1) (qc_zdither0 ctx))
                 | _ \<Rightarrow> Inl TilePanic)
              else Inr decoded_bytes))"

subsection \<open>The cache in front\<close>

definition get_or_decode_tile ::
  "tile_env \<Rightarrow> ('l, nat) lru_ops \<Rightarrow> faults \<Rightarrow> nat \<Rightarrow> compressed_image_meta \<Rightarrow> nat \<Rightarrow> shape
    \<Rightarrow> (file_state \<times> 'l cache, bytes) tio" where
  "get_or_decode_tile env ops flt data_off m tile_idx actual_shape = (\<lambda>(s, c).
     (case cache_get ops c tile_idx of
        (c1, Some arc) \<Rightarrow> (Inr arc, (s, c1))
      | (c1, None) \<Rightarrow>
          if fs_tainted s then (Inl FileTainted, (s, c1))
          else
            (case fetch_tile_payload_and_quant flt tile_idx data_off m s of
               (Inl e, s1) \<Rightarrow> (Inl (FetchIo e), (s1, c1))
             | (Inr (None, _), s1) \<Rightarrow> (Inl (NoTileData tile_idx), (s1, c1))
             | (Inr (Some payload, scale_zero), s1) \<Rightarrow>
                 (case decode_payload env m tile_idx actual_shape payload scale_zero of
                    Inl e \<Rightarrow> (Inl e, (s1, c1))
                  | Inr arc \<Rightarrow>
                      (case cache_put ops c1 tile_idx arc of
                         None \<Rightarrow> (Inl CacheStuck, (s1, c1))
                       | Some c2 \<Rightarrow> (Inr arc, (s1, c2)))))))"

subsection \<open>Tiles in the file\<close>

definition descriptor_at :: "bytes \<Rightarrow> nat \<Rightarrow> bool \<Rightarrow> nat \<times> nat" where
  "descriptor_at bs pos heap_is_q = parse_descriptor heap_is_q (take (descriptor_size heap_is_q) (drop pos bs))"

text \<open>Row \<open>i\<close> has a primary descriptor that leads to bytes of the file that decode to \<open>out\<close>.\<close>

definition holds_tile :: "tile_env \<Rightarrow> bytes \<Rightarrow> nat \<Rightarrow> compressed_image_meta \<Rightarrow> nat \<Rightarrow> shape \<Rightarrow> bytes \<Rightarrow> bool" where
  "holds_tile env bs data_off m i actual_shape out \<longleftrightarrow>
     (let col = primary (m_cols m);
          pos = data_off + i * unat (m_naxis1 m) + unat (byte_offset_in_row col);
          (nelem, off) = descriptor_at bs pos (is_q col);
          heap = data_off + unat (m_theap m) + off;
          n = nelem * unat (inner_byte_width col)
      in pos + descriptor_size (is_q col) \<le> length bs \<and> 0 < nelem \<and> heap + n \<le> length bs \<and>
         decode_payload env m i actual_shape (PrimaryCompressed (take n (drop heap bs)) (m_algorithm m)) None = Inr out)"

lemma read_descriptor_ok:
  assumes "pos + descriptor_size q \<le> length (fs_bytes s)"
  shows "\<exists>p k. read_descriptor no_faults pos q s = (Inr (descriptor_at (fs_bytes s) pos q), s\<lparr>fs_pos := p, fs_ops := k\<rparr>)"
proof -
  have "read_descriptor no_faults pos q s = (Inr (descriptor_at (fs_bytes s) pos q),
      s\<lparr>fs_pos := pos + descriptor_size q, fs_ops := Suc (Suc (fs_ops s))\<rparr>)"
    using assms by (simp add: read_descriptor_def storage_defs no_faults_at descriptor_at_def)
  then show ?thesis by blast
qed

lemma read_heap_ok:
  assumes "off + n \<le> length (fs_bytes s)"
  shows "\<exists>p k. read_heap_bytes no_faults off n s = (Inr (take n (drop off (fs_bytes s))), s\<lparr>fs_pos := p, fs_ops := k\<rparr>)"
proof -
  have "read_heap_bytes no_faults off n s = (Inr (take n (drop off (fs_bytes s))), s\<lparr>fs_pos := off + n, fs_ops := Suc (Suc (fs_ops s))\<rparr>)"
    using assms by (simp add: read_heap_bytes_def storage_defs no_faults_at)
  then show ?thesis by blast
qed

lemma fetch_held:
  assumes h: "holds_tile env (fs_bytes s) data_off m i actual_shape out" and q: "m_quant m = None" and small: "length (fs_bytes s) < 2 ^ 64"
  shows "\<exists>p k payload. fetch_tile_payload_and_quant no_faults i data_off m s = (Inr (Some payload, None), s\<lparr>fs_pos := p, fs_ops := k\<rparr>)
    \<and> decode_payload env m i actual_shape payload None = Inr out"
proof -
  let ?bs = "fs_bytes s" and ?col = "primary (m_cols m)"
  let ?row = "data_off + i * unat (m_naxis1 m)"
  let ?pos = "?row + unat (byte_offset_in_row ?col)"
  obtain nelem off where d: "descriptor_at ?bs ?pos (is_q ?col) = (nelem, off)" by fastforce
  let ?n = "nelem * unat (inner_byte_width ?col)" and ?heap = "data_off + unat (m_theap m) + off"
  have H: "?pos + descriptor_size (is_q ?col) \<le> length ?bs" "0 < nelem" "?heap + ?n \<le> length ?bs"
    "decode_payload env m i actual_shape (PrimaryCompressed (take ?n (drop ?heap ?bs)) (m_algorithm m)) None = Inr out"
    using h by (simp_all add: holds_tile_def Let_def d)
  have w: "wrap64 ?row = ?row" "wrap64 ?pos = ?pos" "wrap64 ?heap = ?heap" "sat_mul nelem (unat (inner_byte_width ?col)) = ?n"
    using H(1,3) small by (simp_all add: wrap64_def sat_mul_def)
  obtain p k where D: "read_descriptor no_faults ?pos (is_q ?col) s = (Inr (nelem, off), s\<lparr>fs_pos := p, fs_ops := k\<rparr>)"
    using read_descriptor_ok[OF H(1)] unfolding d by blast
  have "?heap + ?n \<le> length (fs_bytes (s\<lparr>fs_pos := p, fs_ops := k\<rparr>))" using H(3) by simp
  from read_heap_ok[OF this] obtain p' k' where R: "read_heap_bytes no_faults ?heap ?n (s\<lparr>fs_pos := p, fs_ops := k\<rparr>)
      = (Inr (take ?n (drop ?heap ?bs)), s\<lparr>fs_pos := p', fs_ops := k'\<rparr>)" by auto
  have "fetch_tile_payload_and_quant no_faults i data_off m s
      = (Inr (Some (PrimaryCompressed (take ?n (drop ?heap ?bs)) (m_algorithm m)), None), s\<lparr>fs_pos := p', fs_ops := k'\<rparr>)"
    using D R H(2) by (simp add: fetch_tile_payload_and_quant_def fetch_tile_payload_inner_def column_bytes_def Let_def w q io_bind_def io_return_def)
  then show ?thesis using H(4) by blast
qed

subsection \<open>A compressed image is a source of tiles\<close>

definition image_state ::
  "tile_env \<Rightarrow> ('l, nat) lru_ops \<Rightarrow> ('l \<Rightarrow> (nat \<times> bytes) list) \<Rightarrow> nat \<Rightarrow> compressed_image_meta \<Rightarrow> nat \<Rightarrow> bytes \<Rightarrow> shape \<Rightarrow> shape
    \<Rightarrow> file_state \<times> 'l cache \<Rightarrow> bool" where
  "image_state env ops entries data_off m k img dims tile = (\<lambda>(s, c).
     lru_crate ops entries \<and> cache_inv entries c \<and> \<not> fs_tainted s \<and> m_quant m = None \<and> length (fs_bytes s) < 2 ^ 64 \<and>
     (\<forall>i < n_tiles_of dims tile. holds_tile env (fs_bytes s) data_off m i (extent_at dims tile i) (tile_pixels k img dims tile i)) \<and>
     (\<forall>i v. i < n_tiles_of dims tile \<longrightarrow> cached entries c i = Some v \<longrightarrow> v = tile_pixels k img dims tile i))"

lemma get_or_decode_tile_ok:
  assumes inv: "image_state env ops entries data_off m k img dims tile st" and i: "i < n_tiles_of dims tile"
  shows "\<exists>st'. get_or_decode_tile env ops no_faults data_off m i (extent_at dims tile i) st = (Inr (tile_pixels k img dims tile i), st')
    \<and> image_state env ops entries data_off m k img dims tile st'"
proof -
  obtain s c where st: "st = (s, c)" by (cases st)
  have I: "lru_crate ops entries" "cache_inv entries c" "\<not> fs_tainted s" "m_quant m = None" "length (fs_bytes s) < 2 ^ 64"
    "\<And>i. i < n_tiles_of dims tile \<Longrightarrow> holds_tile env (fs_bytes s) data_off m i (extent_at dims tile i) (tile_pixels k img dims tile i)"
    "\<And>i v. i < n_tiles_of dims tile \<Longrightarrow> cached entries c i = Some v \<Longrightarrow> v = tile_pixels k img dims tile i"
    using inv by (auto simp: image_state_def st)
  let ?t = "tile_pixels k img dims tile i"
  obtain c1 where c1: "cache_get ops c i = (c1, cached entries c i)" "cache_inv entries c1" "cached entries c1 = cached entries c"
    by (rule lru_crate.get_lookup[OF I(1,2)])
  show ?thesis
  proof (cases "cached entries c i")
    case (Some v)
    then have "v = ?t" using I(7) i by blast
    then show ?thesis using inv c1 Some by (auto simp: get_or_decode_tile_def st image_state_def)
  next
    case None
    obtain p q payload where F: "fetch_tile_payload_and_quant no_faults i data_off m s = (Inr (Some payload, None), s\<lparr>fs_pos := p, fs_ops := q\<rparr>)"
      "decode_payload env m i (extent_at dims tile i) payload None = Inr ?t" using fetch_held[OF I(6)[OF i] I(4,5)] by blast
    obtain c2 where c2: "cache_put ops c1 i ?t = Some c2" "cache_inv entries c2" by (rule lru_crate.put_effect[OF I(1) c1(2)])
    have "cached entries c2 j = Some w \<Longrightarrow> (j = i \<and> w = ?t) \<or> cached entries c j = Some w" for j w
      using lru_crate.cached_put(2)[OF I(1) c1(2) c2(1)] c1(3) by metis
    then have "w = tile_pixels k img dims tile j" if "j < n_tiles_of dims tile" "cached entries c2 j = Some w" for j w
      using I(7)[OF that(1)] that(2) by blast
    then have "image_state env ops entries data_off m k img dims tile (s\<lparr>fs_pos := p, fs_ops := q\<rparr>, c2)"
      using I c2(2) by (auto simp: image_state_def)
    moreover have "get_or_decode_tile env ops no_faults data_off m i (extent_at dims tile i) st = (Inr ?t, (s\<lparr>fs_pos := p, fs_ops := q\<rparr>, c2))"
      using None c1(1) I(3) F c2(1) by (simp add: get_or_decode_tile_def st)
    ultimately show ?thesis by blast
  qed
qed

interpretation image_tiles: tile_source "get_or_decode_tile env ops no_faults data_off m"
  "image_state env ops entries data_off m k img dims tile" k img dims tile
  for env :: tile_env and ops :: "('l, nat) lru_ops" and entries data_off m k img dims tile
  by unfold_locales (rule get_or_decode_tile_ok)

end
