(* ===== verification/ZImageWrite.thy ===== *)
theory ZImageWrite
  imports TilePayload HduChecksum
begin

text \<open>
  Writing a compressed image (\<open>write_compressed_image_data\<close> of
  \<open>src/hdu_image_compressed/write.rs\<close>): the parameters read from the header, the encoding of every
  tile into the heap, the growth of the file, the table of descriptors, the heap and the new
  PCOUNT card. The input is the bytes of a C-contiguous array of the stored type in host order; the
  conversion of other numpy types and of masked arrays is not modelled.
\<close>

subsection \<open>Parameters of the writer\<close>

record write_context =
  wc_algorithm :: compression_algorithm
  wc_zbitpix :: int
  wc_dims :: shape
  wc_tile :: shape
  wc_n_tiles :: nat
  wc_heap_is_q :: bool
  wc_inner :: nat
  wc_bytepix :: nat
  wc_blocksize :: nat
  wc_scale :: int
  wc_gzip_level :: "nat option"
  wc_quant :: "(quantize_method \<times> int) option"

definition header_result :: "zimage_error + 'a \<Rightarrow> tile_error + 'a" where
  "header_result r = (case r of Inl e \<Rightarrow> Inl (HeaderError e) | Inr x \<Rightarrow> Inr x)"

definition pixel_width :: "int \<Rightarrow> nat" where
  "pixel_width zbitpix = nat (\<bar>zbitpix\<bar> div 8)"

definition parse_write_context :: "string list \<Rightarrow> nat option \<Rightarrow> nat list \<Rightarrow> tile_error + write_context" where
  "parse_write_context cards gzip_level in_shape =
     res_bind (header_result (require_algorithm cards)) (\<lambda>algorithm.
     res_bind (header_result (parse_compressed_image_shape cards)) (\<lambda>(zbitpix, image_shape).
     if image_shape = [] then Inl NoImage
     else if zbitpix \<notin> {8, 16, 32, 64, - 32, - 64} then Inl (HeaderError (UnsupportedBitpix zbitpix))
     else
       (let tile_shape = parse_tile_shape cards image_shape;
            n_tiles = compute_n_tiles image_shape tile_shape
        in case parse_string_keyword cards ''TFORM1'' of
             None \<Rightarrow> Inl (HeaderError (MissingTform 1))
           | Some tform1 \<Rightarrow>
               (let tf = trim tform1;
                    heap_is_q = (take 2 tf = ''1Q'' \<or> take 1 tf = ''Q'');
                    inner = (case tform_vla_inner_byte_width tf of Some w \<Rightarrow> unat w | None \<Rightarrow> 1)
                in if in_shape \<noteq> map unat image_shape then Inl WrongShape
                   else
                     (let is_float = (zbitpix < 0);
                          tfields = as_u64 (case parse_keyword cards ''TFIELDS'' of None \<Rightarrow> 0 | Some v \<Rightarrow> v);
                          is_quantized_float = (is_float \<and> tfields \<noteq> 1);
                          bytepix = (if is_float \<and> is_quantized_float then 4 else pixel_width zbitpix);
                          blocksize = (case fst (parse_rice_params cards) of Some b \<Rightarrow> unat b | None \<Rightarrow> 32)
                      in res_bind
                           (if is_quantized_float then
                              (case parse_dither_method (parse_string_keyword cards ''ZQUANTIZ'') of
                                 Inl e \<Rightarrow> Inl (HeaderError (BadConfig e))
                               | Inr None \<Rightarrow> Inl QuantizerMissing
                               | Inr (Some method) \<Rightarrow>
                                   Inr (Some (method, max 1 (case parse_keyword cards ''ZDITHER0'' of None \<Rightarrow> 1 | Some v \<Rightarrow> v))))
                            else Inr None)
                           (\<lambda>quant. Inr \<lparr>wc_algorithm = algorithm, wc_zbitpix = zbitpix, wc_dims = map unat image_shape,
                              wc_tile = map unat tile_shape, wc_n_tiles = unat n_tiles, wc_heap_is_q = heap_is_q,
                              wc_inner = inner, wc_bytepix = bytepix, wc_blocksize = blocksize,
                              wc_scale = parse_hcompress_scale cards, wc_gzip_level = gzip_level, wc_quant = quant\<rparr>))))))"

subsection \<open>Encoding tiles\<close>

record tile_row =
  primary_nelem :: nat
  primary_off :: nat
  row_zscale :: bytes
  row_zzero :: bytes
  fallback_nelem :: nat
  fallback_off :: nat

text \<open>The doubles 0.0 and 1.0, big-endian.\<close>

definition f64_zero :: bytes where "f64_zero = replicate 8 0"
definition f64_one :: bytes where "f64_one = [0x3F, 0xF0, 0, 0, 0, 0, 0, 0]"

definition encode_params :: "write_context \<Rightarrow> shape \<Rightarrow> algorithm_encode_params" where
  "encode_params w actual_shape =
     \<lparr>ep_blocksize = wc_blocksize w, ep_tile_shape = actual_shape, ep_scale = of_int (wc_scale w), ep_gzip_level = wc_gzip_level w\<rparr>"

definition encode_tile_int ::
  "tile_env \<Rightarrow> write_context \<Rightarrow> bytes \<Rightarrow> nat \<Rightarrow> shape \<Rightarrow> nat \<Rightarrow> bytes \<Rightarrow> tile_error + tile_row \<times> bytes" where
  "encode_tile_int env w tile_bytes tile_idx actual_shape n_pixels primary_heap =
     res_bind (codec_result (encode_tile_from_bytes (te_gz env) (wc_algorithm w) tile_bytes (wc_bytepix w) n_pixels
       (wc_zbitpix w) (encode_params w actual_shape))) (\<lambda>encoded.
     if length encoded mod wc_inner w \<noteq> 0 then Inl (NotWholeElements tile_idx (length encoded))
     else Inr (\<lparr>primary_nelem = length encoded div wc_inner w, primary_off = length primary_heap, row_zscale = f64_zero,
                row_zzero = f64_zero, fallback_nelem = 0, fallback_off = 0\<rparr>, primary_heap @ encoded))"

definition encode_tile_float ::
  "tile_env \<Rightarrow> write_context \<Rightarrow> quantize_method \<times> int \<Rightarrow> bytes \<Rightarrow> nat \<Rightarrow> shape \<Rightarrow> nat \<Rightarrow> bytes \<Rightarrow> bytes
    \<Rightarrow> tile_error + tile_row \<times> bytes \<times> bytes" where
  "encode_tile_float env w q tile_bytes tile_idx actual_shape n_pixels primary_heap fallback_heap =
     (let nxpix = last actual_shape;
          nypix = (if nxpix = 0 then 0 else n_pixels div nxpix)
      in case te_quantize env (wc_zbitpix w) tile_bytes nxpix nypix (fst q) (tile_idx + 1) (snd q) of
           Some (i32_be, zscale, zzero) \<Rightarrow>
             res_bind (codec_result (encode_tile_from_bytes (te_gz env) (wc_algorithm w) i32_be 4 n_pixels 32
               (encode_params w actual_shape))) (\<lambda>encoded.
             if length encoded mod wc_inner w \<noteq> 0 then Inl (NotWholeElements tile_idx (length encoded))
             else Inr (\<lparr>primary_nelem = length encoded div wc_inner w, primary_off = length primary_heap, row_zscale = zscale,
                        row_zzero = zzero, fallback_nelem = 0, fallback_off = 0\<rparr>, primary_heap @ encoded, fallback_heap))
         | None \<Rightarrow>
             res_bind (codec_result (encode_gzip1 (te_gz env) tile_bytes (wc_gzip_level w))) (\<lambda>encoded.
             Inr (\<lparr>primary_nelem = 0, primary_off = 0, row_zscale = f64_one, row_zzero = f64_zero,
                   fallback_nelem = length encoded, fallback_off = length fallback_heap\<rparr>, primary_heap, fallback_heap @ encoded)))"

text \<open>The big-endian bytes of the box of one tile of the input array.\<close>

definition tile_bytes_be :: "tile_env \<Rightarrow> nat \<Rightarrow> bytes \<Rightarrow> shape \<Rightarrow> coord \<Rightarrow> shape \<Rightarrow> bytes" where
  "tile_bytes_be env k data dims origin actual_shape =
     to_native (te_big env) k (read_reference k data 0 dims (box_slices origin actual_shape))"

fun encode_tiles ::
  "tile_env \<Rightarrow> write_context \<Rightarrow> bytes \<Rightarrow> nat list \<Rightarrow> tile_row list \<Rightarrow> bytes \<Rightarrow> bytes
    \<Rightarrow> tile_error + tile_row list \<times> bytes \<times> bytes" where
  "encode_tiles env w data [] rows primary_heap fallback_heap = Inr (rows, primary_heap, fallback_heap)"
| "encode_tiles env w data (tile_idx # idxs) rows primary_heap fallback_heap =
     res_bind (tile_origin_and_shape tile_idx (wc_dims w) (wc_tile w)) (\<lambda>(origin, actual_shape).
     let k = pixel_width (wc_zbitpix w);
         tile_bytes = tile_bytes_be env k data (wc_dims w) origin actual_shape;
         n_pixels = prod_list actual_shape
     in if length tile_bytes \<noteq> n_pixels * k then Inl (WrongTileBytes tile_idx)
        else
          (case wc_quant w of
             Some q \<Rightarrow>
               res_bind (encode_tile_float env w q tile_bytes tile_idx actual_shape n_pixels primary_heap fallback_heap)
                 (\<lambda>(row, primary_heap, fallback_heap). encode_tiles env w data idxs (rows @ [row]) primary_heap fallback_heap)
           | None \<Rightarrow>
               res_bind (encode_tile_int env w tile_bytes tile_idx actual_shape n_pixels primary_heap)
                 (\<lambda>(row, primary_heap). encode_tiles env w data idxs (rows @ [row]) primary_heap fallback_heap)))"

definition bump_fallback :: "nat \<Rightarrow> tile_row \<Rightarrow> tile_row" where
  "bump_fallback primary_size row =
     (if fallback_nelem row > 0 then row\<lparr>fallback_off := fallback_off row + primary_size\<rparr> else row)"

subsection \<open>The table of descriptors\<close>

definition push_desc :: "bool \<Rightarrow> nat \<Rightarrow> nat \<Rightarrow> tile_error + bytes" where
  "push_desc heap_is_q nel off =
     (if heap_is_q then Inr (to_be 8 (of_nat nel :: u64) @ to_be 8 (of_nat off :: u64))
      else if nel > 2 ^ 32 - 1 \<or> off > 2 ^ 32 - 1 then Inl (DescriptorOverflow nel off)
      else Inr (to_be 4 (of_nat nel :: u32) @ to_be 4 (of_nat off :: u32)))"

definition row_bytes_of :: "bool \<Rightarrow> bool \<Rightarrow> tile_row \<Rightarrow> tile_error + bytes" where
  "row_bytes_of heap_is_q is_quantized row =
     res_bind (push_desc heap_is_q (primary_nelem row) (primary_off row)) (\<lambda>p.
     if is_quantized then
       res_bind (push_desc heap_is_q (fallback_nelem row) (fallback_off row)) (\<lambda>f.
       Inr (p @ row_zscale row @ row_zzero row @ f))
     else Inr p)"

fun descriptor_table :: "bool \<Rightarrow> bool \<Rightarrow> tile_row list \<Rightarrow> tile_error + bytes" where
  "descriptor_table heap_is_q is_quantized [] = Inr []"
| "descriptor_table heap_is_q is_quantized (row # rows) =
     res_bind (row_bytes_of heap_is_q is_quantized row) (\<lambda>b.
     res_bind (descriptor_table heap_is_q is_quantized rows) (\<lambda>bs. Inr (b @ bs)))"

definition row_width :: "write_context \<Rightarrow> nat" where
  "row_width w = (let d = descriptor_size (wc_heap_is_q w) in if wc_quant w \<noteq> None then d + 8 + 8 + d else d)"

subsection \<open>The header card\<close>

definition set_pcount_in_cards :: "string list \<Rightarrow> int \<Rightarrow> string list" where
  "set_pcount_in_cards cards new_pcount =
     (let trimmed = trim_end (card_int ''PCOUNT'' new_pcount ''size of special data area'')
      in case position (\<lambda>c. length c \<ge> 6 \<and> trim (take 6 c) = ''PCOUNT'') cards of
           Some idx \<Rightarrow> cards[idx := trimmed]
         | None \<Rightarrow>
             (let tfields_idx = (case position (\<lambda>c. length c \<ge> 7 \<and> trim (take 7 c) = ''TFIELDS'') cards of
                                   Some i \<Rightarrow> i | None \<Rightarrow> length cards - 1)
              in take tfields_idx cards @ [trimmed] @ drop tfields_idx cards))"

subsection \<open>The writer\<close>

definition lift_io :: "'a io \<Rightarrow> (file_state, 'a) tio" where
  "lift_io m s = (case m s of (Inl e, s') \<Rightarrow> (Inl (FetchIo e), s') | (Inr x, s') \<Rightarrow> (Inr x, s'))"

text \<open>\<open>idx\<close> is the place of the HDU in the layout; the next one starts where its data section ends.\<close>

definition current_hdu_end :: "faults \<Rightarrow> nat \<Rightarrow> nat io" where
  "current_hdu_end flt idx s =
     (if Suc idx < length (fs_layout s) then io_return (header_offset (fs_layout s ! Suc idx)) s else st_len flt s)"

definition grow_data_section :: "faults \<Rightarrow> nat \<Rightarrow> nat \<Rightarrow> nat \<Rightarrow> unit io" where
  "grow_data_section flt data_off hdu_end new_padded =
     (let current_padded_data = hdu_end - data_off
      in if new_padded > current_padded_data then
           (let delta = new_padded - current_padded_data
            in io_bind (st_len flt) (\<lambda>file_len.
               if file_len > hdu_end then shift_file_tail_and_update_offsets flt hdu_end delta
               else st_set_len flt (data_off + new_padded)))
         else io_return ())"

definition write_data_section :: "faults \<Rightarrow> nat \<Rightarrow> tile_error + bytes \<Rightarrow> bytes \<Rightarrow> bytes \<Rightarrow> nat \<Rightarrow> (file_state, unit) tio" where
  "write_data_section flt data_off table primary_heap fallback_heap new_padded =
     tio_bind (lift_io (taint_err (st_seek flt data_off))) (\<lambda>_ s.
     case table of
       Inl e \<Rightarrow> (Inl e, s\<lparr>fs_tainted := True\<rparr>)
     | Inr desc_buf \<Rightarrow>
         (let written = length desc_buf + length primary_heap + length fallback_heap
          in lift_io
            (io_bind (taint_err (st_write_all flt desc_buf)) (\<lambda>_.
             io_bind (taint_err (st_write_all flt primary_heap)) (\<lambda>_.
             io_bind (taint_err (st_write_all flt fallback_heap)) (\<lambda>_.
             io_bind (if new_padded > written then taint_err (st_write_all flt (replicate (new_padded - written) 0)) else io_return ()) (\<lambda>_.
             taint_err (st_flush flt)))))) s))"

definition write_pcount :: "faults \<Rightarrow> nat \<Rightarrow> string list \<Rightarrow> unit io" where
  "write_pcount flt idx new_cards s =
     io_bind (st_seek flt (header_offset (fs_layout s ! idx))) (\<lambda>_.
     io_bind (taint_err (st_write_all flt (serialize_header_to_disk_bytes new_cards))) (\<lambda>_.
     taint_err (st_flush flt))) s"

definition padded_size :: "nat \<Rightarrow> nat" where
  "padded_size n = (if n = 0 then 0 else div_ceil n BLOCK_SIZE * BLOCK_SIZE)"

definition write_encoded ::
  "faults \<Rightarrow> write_context \<Rightarrow> string list \<Rightarrow> nat \<Rightarrow> tile_row list \<times> bytes \<times> bytes \<Rightarrow> (file_state, string list) tio" where
  "write_encoded flt w cards idx = (\<lambda>(rows, primary_heap, fallback_heap) s.
     (let rows = map (bump_fallback (length primary_heap)) rows;
          total_heap_bytes = length primary_heap + length fallback_heap;
          data_off = data_offset (fs_layout s ! idx);
          new_padded = padded_size (row_width w * wc_n_tiles w + total_heap_bytes);
          new_cards = set_pcount_in_cards cards (sint (of_nat total_heap_bytes :: 64 word))
      in tio_bind (lift_io (current_hdu_end flt idx)) (\<lambda>hdu_end.
         tio_bind (lift_io (grow_data_section flt data_off hdu_end new_padded)) (\<lambda>_.
         tio_bind (write_data_section flt data_off (descriptor_table (wc_heap_is_q w) (wc_quant w \<noteq> None) rows)
           primary_heap fallback_heap new_padded) (\<lambda>_.
         tio_bind (lift_io (write_pcount flt idx new_cards)) (\<lambda>_.
         tio_return new_cards)))) s))"

definition write_compressed_image_data ::
  "tile_env \<Rightarrow> ('l, nat) lru_ops \<Rightarrow> faults \<Rightarrow> string list \<Rightarrow> nat option \<Rightarrow> nat \<Rightarrow> nat list \<Rightarrow> bytes
    \<Rightarrow> (file_state \<times> 'l cache, string list) tio" where
  "write_compressed_image_data env ops flt cards gzip_level idx in_shape data = (\<lambda>(s, c).
     if fs_tainted s then (Inl FileTainted, (s, c))
     else
       (case res_bind (parse_write_context cards gzip_level in_shape)
               (\<lambda>w. res_bind (encode_tiles env w data [0..<wc_n_tiles w] [] [] []) (\<lambda>enc. Inr (w, enc))) of
          Inl e \<Rightarrow> (Inl e, (s, c))
        | Inr (w, enc) \<Rightarrow>
            (case write_encoded flt w cards idx enc s of
               (Inl e, s1) \<Rightarrow> (Inl e, (s1, c))
             | (Inr new_cards, s1) \<Rightarrow> (Inr new_cards, (s1, cache_clear ops c)))))"

end
