(* ===== verification/TileEncoding.thy ===== *)
theory TileEncoding
  imports ZImageWrite
begin

text \<open>
  What \<open>write_compressed_image_data\<close> puts in the heap: for an image without quantisation every tile
  is encoded, and the row it gets leads to bytes that decode to the tile's pixels.
\<close>

subsection \<open>What the writer and the reader agree on\<close>

definition lossless_write :: "write_context \<Rightarrow> bool" where
  "lossless_write w \<longleftrightarrow> wc_quant w = None \<and> wc_zbitpix w \<in> {8, 16, 32, 64, - 32, - 64} \<and> wc_bytepix w = pixel_width (wc_zbitpix w) \<and>
     (wc_zbitpix w < 0 \<longrightarrow> wc_algorithm w \<in> {AlgGzip1, AlgGzip2}) \<and> wc_inner w = (if wc_algorithm w = AlgPlio1 then 2 else 1) \<and>
     wc_n_tiles w = n_tiles_of (wc_dims w) (wc_tile w)"

definition meta_matches :: "write_context \<Rightarrow> compressed_image_meta \<Rightarrow> bool" where
  "meta_matches w m \<longleftrightarrow> m_zbitpix m = wc_zbitpix w \<and> m_algorithm m = wc_algorithm w \<and> unat (m_blocksize m) = wc_blocksize w \<and>
     (0 < wc_zbitpix w \<longrightarrow> unat (m_bytepix m) = wc_bytepix w) \<and> unat (m_naxis1 m) = row_width w \<and>
     unat (m_theap m) = row_width w * wc_n_tiles w \<and> m_quant m = None \<and> is_q (primary (m_cols m)) = wc_heap_is_q w \<and>
     byte_offset_in_row (primary (m_cols m)) = 0 \<and> unat (inner_byte_width (primary (m_cols m))) = wc_inner w"

definition tiles_lossless :: "tile_env \<Rightarrow> write_context \<Rightarrow> bytes \<Rightarrow> bool" where
  "tiles_lossless env w data \<longleftrightarrow> (\<forall>i < wc_n_tiles w.
     let ext = extent_at (wc_dims w) (wc_tile w) i; k = pixel_width (wc_zbitpix w)
     in tile_lossless (wc_algorithm w) (wc_gzip_level w) (of_int (wc_scale w)) ext (prod_list ext) k (wc_blocksize w) \<bar>wc_zbitpix w\<bar>
          (to_native (te_big env) k (tile_pixels k data (wc_dims w) (wc_tile w) i)))"

context gzip_lib begin

lemmas dispatch_lossless = dispatch.lossless

lemma compress_nonempty: "gzip_compress gz bs level = Inr c \<Longrightarrow> c \<noteq> []"
  using encode_nonempty by (auto simp: gzip_compress_def split: option.splits sum.splits if_splits)

end

lemma encoded_shape:
  assumes ok: "tile_lossless alg level sc shape n k bsz zb pix" and n: "0 < n"
    and gz: "gzip_lib gz" and e: "encode_tile_from_bytes gz alg pix k n zb p = Inr c" and lv: "ep_gzip_level p = level" "ep_blocksize p = bsz"
    and d: "decode_tile_to_bytes gz big alg c n k bsz zb p' = Inr out"
  shows "c \<noteq> [] \<and> (alg = AlgPlio1 \<longrightarrow> even (length c))"
proof (cases alg)
  case AlgRice1
  then show ?thesis using d n ok
    by (auto simp: decode_tile_to_bytes_def decode_rice_def decode_rice_int_u32buf_def tile_lossless_def rice_tile_ok_def Let_def rice_params_def split: if_splits)
next
  case AlgGzip1
  then show ?thesis using e gzip_lib.compress_nonempty[OF gz]
    by (auto simp: encode_tile_from_bytes_def encode_gzip1_def)
next
  case AlgGzip2
  then show ?thesis using e gzip_lib.compress_nonempty[OF gz]
    by (auto simp: encode_tile_from_bytes_def encode_gzip2_def res_bind_Inr_iff Let_def split: if_splits)
next
  case AlgHcompress1
  then show ?thesis using d
    by (auto simp: decode_tile_to_bytes_def decode_hcompress_pixels decode_pixels_def decode_coeffs_def qread_def hstate_new_def split: if_splits)
next
  case AlgPlio1
  then show ?thesis using d
    by (auto simp: decode_tile_to_bytes_def decode_plio_def plio_header_def Let_def res_bind_Inr_iff split: if_splits)
qed

definition row_holds :: "tile_env \<Rightarrow> write_context \<Rightarrow> bytes \<Rightarrow> bytes \<Rightarrow> nat \<Rightarrow> tile_row \<Rightarrow> bool" where
  "row_holds env w data heap i row \<longleftrightarrow> (\<exists>c. primary_nelem row * wc_inner w = length c \<and> 0 < primary_nelem row \<and> fallback_nelem row = 0 \<and>
     primary_off row + length c \<le> length heap \<and> take (length c) (drop (primary_off row) heap) = c \<and>
     (let ext = extent_at (wc_dims w) (wc_tile w) i; k = pixel_width (wc_zbitpix w)
      in \<forall>sm. decode_tile_to_bytes (te_gz env) (te_big env) (wc_algorithm w) c (prod_list ext) k (wc_blocksize w) \<bar>wc_zbitpix w\<bar>
          \<lparr>tile_shape_numpy = ext, ap_smooth = sm\<rparr> = Inr (tile_pixels k data (wc_dims w) (wc_tile w) i)))"

lemma row_holds_append: "row_holds env w data heap i row \<Longrightarrow> row_holds env w data (heap @ rest) i row"
  unfolding row_holds_def by fastforce

lemma pixel_width_cases: "zb \<in> {8, 16, 32, 64, - 32, - 64} \<Longrightarrow> pixel_width zb \<in> {1, 2, 4, 8}"
  by (auto simp: pixel_width_def)

lemma to_native_twice: "k \<in> {1, 2, 4, 8} \<Longrightarrow> to_native big k (to_native big k bs) = bs"
  by (simp add: to_native_eq rev_chunks_involution)

lemma encode_zbitpix:
  "alg \<in> {AlgGzip1, AlgGzip2} \<or> zb = zb' \<Longrightarrow> encode_tile_from_bytes gz alg pix k n zb p = encode_tile_from_bytes gz alg pix k n zb' p"
  by (auto simp: encode_tile_from_bytes_def)

lemma encode_tile_ok:
  assumes gz: "gzip_lib (te_gz env)" and w: "lossless_write w" and g: "geometry (pixel_width (wc_zbitpix w)) data (wc_dims w) (wc_tile w)"
    and tl: "tiles_lossless env w data" and i: "i < wc_n_tiles w"
  defines "ext \<equiv> extent_at (wc_dims w) (wc_tile w) i" and "k \<equiv> pixel_width (wc_zbitpix w)"
  shows "\<exists>row c. encode_tile_int env w (tile_bytes_be env k data (wc_dims w) (origin_at (wc_dims w) (wc_tile w) i) ext) i ext (prod_list ext) heap
      = Inr (row, heap @ c) \<and> row_holds env w data (heap @ c) i row"
proof -
  let ?t = "tile_pixels k data (wc_dims w) (wc_tile w) i" and ?alg = "wc_algorithm w" and ?zb = "\<bar>wc_zbitpix w\<bar>"
  let ?pix = "to_native (te_big env) k ?t"
  have W: "wc_quant w = None" "wc_zbitpix w \<in> {8, 16, 32, 64, - 32, - 64}" "wc_bytepix w = k"
    "wc_inner w = (if ?alg = AlgPlio1 then 2 else 1)" "wc_n_tiles w = n_tiles_of (wc_dims w) (wc_tile w)"
    "wc_zbitpix w < 0 \<longrightarrow> ?alg \<in> {AlgGzip1, AlgGzip2}" using w by (auto simp: lossless_write_def k_def)
  have k: "k \<in> {1, 2, 4, 8}" unfolding k_def by (rule pixel_width_cases[OF W(2)])
  have G: "tiled (wc_dims w) (wc_tile w)" using g by (simp add: geometry_def)
  have ok: "tile_lossless ?alg (wc_gzip_level w) (of_int (wc_scale w)) ext (prod_list ext) k (wc_blocksize w) ?zb ?pix"
    using tl i by (simp add: tiles_lossless_def Let_def ext_def k_def)
  have pos: "0 < prod_list ext"
  proof -
    have "in_box (unravel (wc_dims w) 0) (wc_dims w) \<or> True" by simp
    have "\<forall>e \<in> set ext. 0 < e" using extent_pos[OF G, of i] i W(5) G by (auto simp: ext_def in_set_conv_nth)
    then show ?thesis by (induction ext) auto
  qed
  have z: "?alg \<in> {AlgGzip1, AlgGzip2} \<or> wc_zbitpix w = ?zb" using W(6) by auto
  define p where "p = encode_params w ext"
  have ep: "p = \<lparr>ep_blocksize = wc_blocksize w, ep_tile_shape = ext, ep_scale = of_int (wc_scale w), ep_gzip_level = wc_gzip_level w\<rparr>"
    by (simp add: p_def encode_params_def)
  obtain c where c: "encode_tile_from_bytes (te_gz env) ?alg ?pix k (prod_list ext) ?zb p = Inr c"
    "\<And>sm. decode_tile_to_bytes (te_gz env) (te_big env) ?alg c (prod_list ext) k (wc_blocksize w) ?zb
        \<lparr>tile_shape_numpy = ext, ap_smooth = sm\<rparr> = Inr ?t"
  proof -
    have L: "res_bind (encode_tile_from_bytes (te_gz env) ?alg ?pix k (prod_list ext) ?zb p)
        (\<lambda>c. decode_tile_to_bytes (te_gz env) (te_big env) ?alg c (prod_list ext) k (wc_blocksize w) ?zb
          \<lparr>tile_shape_numpy = ext, ap_smooth = sm\<rparr>) = Inr ?t" for sm
      using gzip_lib.dispatch_lossless[OF gz ok] to_native_twice[OF k] unfolding ep by metis
    then obtain c where "encode_tile_from_bytes (te_gz env) ?alg ?pix k (prod_list ext) ?zb p = Inr c"
      using L[of False] by (auto simp: res_bind_Inr_iff)
    then show ?thesis using that L by (auto simp: res_bind_Inr_iff)
  qed
  have S: "c \<noteq> [] \<and> (?alg = AlgPlio1 \<longrightarrow> even (length c))"
    using encoded_shape[OF ok pos gz c(1) _ _ c(2)[of False]] by (simp add: ep)
  let ?row = "\<lparr>primary_nelem = length c div wc_inner w, primary_off = length heap, row_zscale = f64_zero, row_zzero = f64_zero,
      fallback_nelem = 0, fallback_off = 0\<rparr>"
  have lc: "0 < length c" "wc_inner w dvd length c" using S W(4) by (auto simp: even_iff_mod_2_eq_zero)
  have dv: "length c mod wc_inner w = 0" "0 < length c div wc_inner w"
    using lc dvd_imp_le[OF lc(2,1)] W(4) by (auto simp: div_greater_zero_iff)
  have tb: "tile_bytes_be env k data (wc_dims w) (origin_at (wc_dims w) (wc_tile w) i) ext = ?pix"
    by (simp add: tile_bytes_be_def tile_pixels_def ext_def)
  have "encode_tile_int env w ?pix i ext (prod_list ext) heap = Inr (?row, heap @ c)"
    using c(1) encode_zbitpix[OF z] dv(1) by (simp add: encode_tile_int_def W(3) codec_result_def p_def)
  moreover have "row_holds env w data (heap @ c) i ?row"
    unfolding row_holds_def using c(2) dv by (intro exI[of _ c]) (auto simp: Let_def ext_def k_def)
  ultimately show ?thesis unfolding tb by blast
qed

lemma encode_tiles_ok:
  assumes gz: "gzip_lib (te_gz env)" and w: "lossless_write w" and g: "geometry (pixel_width (wc_zbitpix w)) data (wc_dims w) (wc_tile w)"
    and tl: "tiles_lossless env w data"
  shows "set idxs \<subseteq> {..<wc_n_tiles w} \<Longrightarrow>
    \<exists>rows' c. encode_tiles env w data idxs rows heap fb = Inr (rows @ rows', heap @ c, fb) \<and> length rows' = length idxs
      \<and> (\<forall>j < length idxs. row_holds env w data (heap @ c) (idxs ! j) (rows' ! j))"
proof (induction idxs arbitrary: rows heap)
  case Nil
  then show ?case by simp
next
  case (Cons i idxs)
  let ?k = "pixel_width (wc_zbitpix w)" and ?dims = "wc_dims w" and ?tile = "wc_tile w"
  have G: "tiled ?dims ?tile" "length ?dims \<le> MAX_NAXIS" "length data = prod_list ?dims * ?k" using g by (simp_all add: geometry_def)
  have q: "wc_quant w = None" and n: "wc_n_tiles w = n_tiles_of ?dims ?tile" and zb: "wc_zbitpix w \<in> {8, 16, 32, 64, - 32, - 64}"
    using w by (auto simp: lossless_write_def)
  have i: "i < wc_n_tiles w" using Cons.prems by simp
  let ?ext = "extent_at ?dims ?tile i" and ?org = "origin_at ?dims ?tile i"
  have tb: "tile_bytes_be env ?k data ?dims ?org ?ext = to_native (te_big env) ?k (tile_pixels ?k data ?dims ?tile i)"
    by (simp add: tile_bytes_be_def tile_pixels_def)
  have len: "length (tile_bytes_be env ?k data ?dims ?org ?ext) = prod_list ?ext * ?k"
    unfolding tb using pixel_width_cases[OF zb] tile_pixels_length[OF G(1,3)] by simp
  obtain row c where r: "encode_tile_int env w (tile_bytes_be env ?k data ?dims ?org ?ext) i ?ext (prod_list ?ext) heap = Inr (row, heap @ c)"
    "row_holds env w data (heap @ c) i row" using encode_tile_ok[OF gz w g tl i] by blast
  have sub: "set idxs \<subseteq> {..<wc_n_tiles w}" using Cons.prems by simp
  obtain rows' c' where R: "encode_tiles env w data idxs (rows @ [row]) (heap @ c) fb = Inr ((rows @ [row]) @ rows', (heap @ c) @ c', fb)"
    "length rows' = length idxs" "\<forall>j < length idxs. row_holds env w data ((heap @ c) @ c') (idxs ! j) (rows' ! j)"
    using Cons.IH[OF sub] by blast
  have "encode_tiles env w data (i # idxs) rows heap fb = Inr (rows @ (row # rows'), heap @ (c @ c'), fb)"
    using R(1) r(1) len q by (simp add: tile_index_at[OF G(1) i[unfolded n] G(2)] Let_def)
  moreover have "row_holds env w data (heap @ (c @ c')) ((i # idxs) ! j) ((row # rows') ! j)" if "j < length (i # idxs)" for j
    using that R(3) row_holds_append[OF r(2), of c'] by (cases j) auto
  ultimately show ?case using R(2) by (intro exI[of _ "row # rows'"] exI[of _ "c @ c'"]) simp
qed

end
