(* ===== verification/ZImageCreate.thy ===== *)
theory ZImageCreate
  imports ZImageHeader
begin

text \<open>
  Creating a tile-compressed image: the checks of \<open>create_compressed_image_hdu_impl\<close> and the
  cards it writes (\<open>src/fits.rs\<close>). The file operations around them are not part of the model;
  the result is the list of cards. \<open>bzero\<close> is \<open>f64\<close> in the code and always an integer, here an
  \<open>int\<close>.
\<close>

subsection \<open>Pixel types and blank values\<close>

definition dtype_to_bitpix :: "string \<Rightarrow> zimage_error + int \<times> int option" where
  "dtype_to_bitpix dtype =
     (let s = dropWhile (\<lambda>c. c \<in> set ''<>|='') dtype;
          normalized = map lower_char s
      in if normalized \<in> {''u1'', ''uint8''} then Inr (8, None)
         else if normalized \<in> {''i1'', ''int8''} then Inr (8, Some (- 128))
         else if normalized \<in> {''i2'', ''int16''} then Inr (16, None)
         else if normalized \<in> {''u2'', ''uint16''} then Inr (16, Some 32768)
         else if normalized \<in> {''i4'', ''int32''} then Inr (32, None)
         else if normalized \<in> {''u4'', ''uint32''} then Inr (32, Some 2147483648)
         else if normalized \<in> {''i8'', ''int64''} then Inr (64, None)
         else if normalized \<in> {''u8'', ''uint64''} then Inr (64, Some 9223372036854775808)
         else if normalized \<in> {''f4'', ''float32''} then Inr (- 32, None)
         else if normalized \<in> {''f8'', ''float64''} then Inr (- 64, None)
         else Inl (UnsupportedDtype dtype))"

text \<open>
  Rounding of an integer to \<open>f64\<close>: 53 significant bits, ties to even. \<open>bits\<close> is the number of
  binary digits to drop.
\<close>

fun excess_bits :: "nat \<Rightarrow> nat" where
  "excess_bits m = (if m < 2 ^ 53 then 0 else Suc (excess_bits (m div 2)))"

declare excess_bits.simps [simp del]

definition f64_round_nat :: "nat \<Rightarrow> nat" where
  "f64_round_nat m =
     (let e = excess_bits m; q = m div 2 ^ e; r = m mod 2 ^ e
      in (if 2 * r > 2 ^ e \<or> (2 * r = 2 ^ e \<and> odd q) then q + 1 else q) * 2 ^ e)"

definition f64_round :: "int \<Rightarrow> int" where
  "f64_round i = (if i < 0 then - int (f64_round_nat (nat (- i))) else int (f64_round_nat (nat i)))"

text \<open>\<open>as i64\<close> of an \<open>f64\<close> saturates.\<close>

definition f64_as_i64 :: "int \<Rightarrow> int" where
  "f64_as_i64 v = max (- (2 ^ 63)) (min (2 ^ 63 - 1) v)"

definition physical_blank_to_stored :: "int \<Rightarrow> int \<Rightarrow> int option \<Rightarrow> zimage_error + int" where
  "physical_blank_to_stored physical bitpix bzero =
     (if bitpix < 0 then Inl BlankOnFloat
      else
        (let stored = (case bzero of None \<Rightarrow> physical
                       | Some bz \<Rightarrow> f64_as_i64 (f64_round (f64_round physical - bz)));
             (lo, hi) = (if bitpix = 8 then (0, 255) else if bitpix = 16 then (- 32768, 32767)
                         else if bitpix = 32 then (- 2147483648, 2147483647)
                         else (- 9223372036854775808, 9223372036854775807))
         in if stored < lo \<or> stored > hi then Inl (BlankOutOfRange physical stored) else Inr stored))"

subsection \<open>Checks\<close>

fun check_dims :: "nat \<Rightarrow> int list \<Rightarrow> zimage_error + unit" where
  "check_dims i [] = Inr ()"
| "check_dims i (d # ds) =
     (let allow_zero = (i = 0)
      in if (allow_zero \<and> d < 0) \<or> (\<not> allow_zero \<and> d \<le> 0) then Inl (BadDimension i d)
         else check_dims (Suc i) ds)"

definition is_gzip :: "compression_config \<Rightarrow> bool" where
  "is_gzip cfg = (case cfg of CGzip1 _ \<Rightarrow> True | CGzip2 _ \<Rightarrow> True | _ \<Rightarrow> False)"

definition check_algorithm :: "compression_config \<Rightarrow> int \<Rightarrow> int option \<Rightarrow> nat \<Rightarrow> bool \<Rightarrow> zimage_error + unit" where
  "check_algorithm cfg bitpix bzero ndim quantized =
     res_bind (case cfg of
         CPlio1 _ \<Rightarrow>
           (if bitpix < 0 then Inl PlioFloat else if bitpix = 64 then Inl Plio64
            else if bzero \<noteq> None then Inl PlioUnsigned else Inr ())
       | CRice1 _ \<Rightarrow> (if bitpix = 64 then Inl Rice64 else Inr ())
       | CHcompress1 _ \<Rightarrow>
           (if ndim \<noteq> 2 then Inl (HcompressDims ndim) else if bitpix = 64 then Inl Hcompress64 else Inr ())
       | _ \<Rightarrow> Inr ()) (\<lambda>_.
     if bitpix < 0 \<and> \<not> quantized \<and> \<not> is_gzip cfg then Inl (UnquantizedNeedsGzip (zcmptype cfg)) else Inr ())"

fun first_tile :: "u64 list \<Rightarrow> u64 \<Rightarrow> u64" where
  "first_tile [] naxis2 = 17"
| "first_tile (t # ts) naxis2 =
     (let r = naxis2 mod t in if r = 0 \<or> r \<ge> 4 then t else first_tile ts naxis2)"

definition hcompress_default_slow_tile :: "u64 \<Rightarrow> u64" where
  "hcompress_default_slow_tile naxis2 =
     (if naxis2 \<le> 30 then naxis2 else first_tile [16, 24, 20, 30, 28, 26, 22, 18, 14] naxis2)"

definition resolve_tile_shape :: "compression_config \<Rightarrow> u64 list \<Rightarrow> zimage_error + u64 list" where
  "resolve_tile_shape cfg numpy_dims =
     (case config_tile_shape cfg of
        Some ts \<Rightarrow> if length ts \<noteq> length numpy_dims then Inl (TileShapeDims (length ts) (length numpy_dims)) else Inr ts
      | None \<Rightarrow>
          (case cfg of
             CHcompress1 _ \<Rightarrow> Inr [hcompress_default_slow_tile (numpy_dims ! 0), numpy_dims ! 1]
           | _ \<Rightarrow> (let n = length numpy_dims in Inr ((replicate n 1)[n - 1 := numpy_dims ! (n - 1)]))))"

fun check_hcompress_tiles :: "nat \<Rightarrow> (u64 \<times> u64) list \<Rightarrow> zimage_error + unit" where
  "check_hcompress_tiles axis [] = Inr ()"
| "check_hcompress_tiles axis ((dim, tile) # rest) =
     (if dim < 4 then Inl (AxisTooSmall axis dim)
      else if tile < 4 then Inl (TileTooSmall axis tile)
      else
        (let remain = dim mod tile
         in if remain > 0 \<and> remain < 4 then
              (let ndiv = dim div tile; add = word_div_ceil remain ndiv
               in Inl (LastTileTooSmall axis dim (tile + add)))
            else check_hcompress_tiles (Suc axis) rest))"

subsection \<open>Cards\<close>

record Quantize =
  q_method :: quantize_method
  q_seed :: int

definition tform_cards :: "compression_config \<Rightarrow> char \<Rightarrow> bool \<Rightarrow> string list" where
  "tform_cards cfg heap_format is_quantized =
     (let primary_tform = (case cfg of CPlio1 _ \<Rightarrow> (if heap_format = CHR ''P'' then ''1PI'' else ''1QI'')
                           | _ \<Rightarrow> (if heap_format = CHR ''P'' then ''1PB'' else ''1QB''));
          gzip_fallback_tform = (if heap_format = CHR ''P'' then ''1PB'' else ''1QB'')
      in [card_string ''TFORM1'' primary_tform ''compressed data descriptor'',
          card_string ''TTYPE1'' ''COMPRESSED_DATA'' ''label for column 1''] @
         (if is_quantized then
            [card_string ''TFORM2'' ''1D'' ''per-tile linear-scale factor'',
             card_string ''TTYPE2'' ''ZSCALE'' ''label for column 2'',
             card_string ''TFORM3'' ''1D'' ''per-tile linear-scale zero point'',
             card_string ''TTYPE3'' ''ZZERO'' ''label for column 3'',
             card_string ''TFORM4'' gzip_fallback_tform ''lossless GZIP fallback for unquantizable tiles'',
             card_string ''TTYPE4'' ''GZIP_COMPRESSED_DATA'' ''label for column 4'']
          else []))"

definition as_i64 :: "u64 \<Rightarrow> int" where
  "as_i64 w = sint w"

definition axis_cards :: "string \<Rightarrow> string \<Rightarrow> u64 list \<Rightarrow> string list" where
  "axis_cards key comment dims =
     map (\<lambda>(i, d). card_int (numbered key (i + 1)) (as_i64 d) (numbered comment (i + 1))) (enumerate 0 dims)"

definition quantize_cards :: "Quantize option \<Rightarrow> string list" where
  "quantize_cards q =
     (case q of None \<Rightarrow> []
      | Some q \<Rightarrow>
          [card_string ''ZQUANTIZ'' (zquantiz (q_method q)) ''dithering method'',
           card_int ''ZDITHER0'' (if q_seed q > 0 then q_seed q else 1) ''dithering offset/seed'',
           card_int ''ZBLANK'' (- 2147483647) ''quantized null-pixel sentinel''])"

definition param_cards :: "(string \<times> int) list \<Rightarrow> string list" where
  "param_cards ps =
     concat (map (\<lambda>(n, (name, val)).
       [card_string (numbered ''ZNAME'' (n + 1)) name (numbered ''compression parameter '' (n + 1)),
        card_int (numbered ''ZVAL'' (n + 1)) val (numbered ''value of ZNAME'' (n + 1))]) (enumerate 0 ps))"

text \<open>
  The comparison \<open>bz > i64::MAX as f64\<close> compares with 2^63, since \<open>i64::MAX\<close> rounds up; the cast
  of \<open>bz\<close> to \<open>i64\<close> saturates.
\<close>

definition bzero_cards :: "int option \<Rightarrow> string list" where
  "bzero_cards bzero =
     (case bzero of None \<Rightarrow> []
      | Some bz \<Rightarrow>
          [card_int ''BSCALE'' 1 ''default linear scaling'',
           (if bz > f64_round (2 ^ 63 - 1) then card_uint ''BZERO'' (of_int bz) ''offset for unsigned-int storage''
            else card_int ''BZERO'' (f64_as_i64 bz) ''offset for unsigned-int storage'')])"

definition compressed_image_cards ::
  "compression_config \<Rightarrow> Quantize option \<Rightarrow> int \<Rightarrow> int option \<Rightarrow> u64 list \<Rightarrow> u64 list \<Rightarrow> string option \<Rightarrow> int option \<Rightarrow> string list" where
  "compressed_image_cards cfg quantize_cfg bitpix bzero numpy_dims tile_shape extname extver =
     (let n_tiles = compute_n_tiles numpy_dims tile_shape;
          heap_format = config_heap_format cfg;
          descriptor_size = (if heap_format = CHR ''P'' then 8 else 16 :: u64);
          is_quantized = (quantize_cfg \<noteq> None);
          n_columns = (if is_quantized then 4 else 1 :: int);
          naxis1 = (if is_quantized then descriptor_size + 8 + 8 + descriptor_size else descriptor_size)
      in [card_string ''XTENSION'' ''BINTABLE'' ''binary table extension'',
          card_int ''BITPIX'' 8 ''8-bit bytes'',
          card_int ''NAXIS'' 2 ''2-dimensional binary table'',
          card_int ''NAXIS1'' (as_i64 naxis1) ''width of table row in bytes'',
          card_int ''NAXIS2'' (as_i64 n_tiles) ''number of rows in table (= n_tiles)'',
          card_int ''PCOUNT'' 0 ''size of heap in bytes'',
          card_int ''GCOUNT'' 1 ''one data group'',
          card_int ''TFIELDS'' n_columns ''number of fields per row''] @
         tform_cards cfg heap_format is_quantized @
         [card_logical ''ZIMAGE'' True ''tile-compressed image'',
          card_string ''ZCMPTYPE'' (zcmptype cfg) ''compression algorithm'',
          card_int ''ZBITPIX'' bitpix ''image bits per pixel'',
          card_int ''ZNAXIS'' (int (length numpy_dims)) ''image dimensions''] @
         axis_cards ''ZNAXIS'' ''image axis '' (rev numpy_dims) @
         axis_cards ''ZTILE'' ''tile size on axis '' (rev tile_shape) @
         quantize_cards quantize_cfg @
         param_cards (extra_z_cards cfg bitpix) @
         (case extname of None \<Rightarrow> [] | Some name \<Rightarrow> [card_string ''EXTNAME'' name ''name of this HDU'']) @
         (case extver of None \<Rightarrow> [] | Some ver \<Rightarrow> [card_int ''EXTVER'' ver ''extension version'']) @
         bzero_cards bzero)"

definition create_compressed_image ::
  "string \<Rightarrow> int list \<Rightarrow> string option \<Rightarrow> int option \<Rightarrow> compression_config \<Rightarrow> Quantize option \<Rightarrow> int option
     \<Rightarrow> zimage_error + string list \<times> compression_config" where
  "create_compressed_image dtype dims extname extver cfg quantize blank =
     (if dims = [] then Inl NoImageAxes
      else res_bind (check_dims 0 dims) (\<lambda>_.
        res_bind (dtype_to_bitpix dtype) (\<lambda>(bitpix, bzero).
        if bitpix \<ge> 0 \<and> quantize \<noteq> None then Inl QuantizeOnInteger
        else res_bind (check_algorithm cfg bitpix bzero (length dims) (quantize \<noteq> None)) (\<lambda>_.
        let numpy_dims = map as_u64 dims
        in res_bind (resolve_tile_shape cfg numpy_dims) (\<lambda>tile_shape.
           res_bind (case cfg of CHcompress1 _ \<Rightarrow> check_hcompress_tiles 0 (zip numpy_dims tile_shape) | _ \<Rightarrow> Inr ()) (\<lambda>_.
           res_bind (case blank of None \<Rightarrow> Inr []
                     | Some b \<Rightarrow> if bitpix < 0 then Inl BlankOnFloat
                                else res_bind (physical_blank_to_stored b bitpix bzero) (\<lambda>stored.
                                       Inr [card_int ''ZBLANK'' stored ''integer sentinel for blank pixels''])) (\<lambda>zb.
           Inr (compressed_image_cards cfg quantize bitpix bzero numpy_dims tile_shape extname extver @ zb @ [pad_to_card ''END''],
                with_resolved_tile_shape cfg tile_shape)))))))) "

subsection \<open>Rounding\<close>

lemma excess_bits_done: "m < 9007199254740992 \<Longrightarrow> excess_bits m = 0"
  by (subst excess_bits.simps) simp

lemma excess_bits_step: "9007199254740992 \<le> m \<Longrightarrow> excess_bits m = Suc (excess_bits (m div 2))"
  by (subst excess_bits.simps) simp

lemma excess_bits_normal:
  "m \<ge> 2 ^ 53 \<Longrightarrow> 0 < excess_bits m \<and> 2 ^ 52 \<le> m div 2 ^ excess_bits m"
proof (induction m rule: less_induct)
  case (less m)
  then have s: "excess_bits m = Suc (excess_bits (m div 2))" by (intro excess_bits_step) simp
  show ?case
  proof (cases "m div 2 < 2 ^ 53")
    case True
    then have "excess_bits (m div 2) = 0" by (intro excess_bits_done) simp
    then show ?thesis using less.prems s by simp
  next
    case False
    then show ?thesis using less.IH[of "m div 2"] less.prems s by (simp add: div_mult2_eq)
  qed
qed

lemma f64_round_small: "\<bar>i\<bar> < 9007199254740992 \<Longrightarrow> f64_round i = i"
  by (auto simp: f64_round_def f64_round_nat_def excess_bits_done Let_def)

lemma f64_round_nat_large: "2 ^ 53 \<le> m \<Longrightarrow> 2 ^ 53 \<le> f64_round_nat m"
proof -
  assume "2 ^ 53 \<le> m"
  from excess_bits_normal[OF this] have pos: "1 \<le> excess_bits m" and q: "2 ^ 52 \<le> m div 2 ^ excess_bits m" by simp_all
  have e: "2 ^ 1 \<le> (2 :: nat) ^ excess_bits m" by (rule power_increasing[OF pos]) simp
  define r where "r = (if 2 * (m mod 2 ^ excess_bits m) > 2 ^ excess_bits m \<or>
      (2 * (m mod 2 ^ excess_bits m) = 2 ^ excess_bits m \<and> odd (m div 2 ^ excess_bits m))
      then m div 2 ^ excess_bits m + 1 else m div 2 ^ excess_bits m)"
  have "2 ^ 52 \<le> r" using q by (simp add: r_def)
  then have "2 ^ 52 * 2 ^ 1 \<le> r * 2 ^ excess_bits m" using e by (rule mult_le_mono)
  then show ?thesis by (simp add: f64_round_nat_def Let_def r_def)
qed

lemma f64_round_large: "9007199254740992 \<le> \<bar>i\<bar> \<Longrightarrow> 9007199254740992 \<le> \<bar>f64_round i\<bar> \<and> (f64_round i < 0 \<longleftrightarrow> i < 0)"
proof -
  assume "9007199254740992 \<le> \<bar>i\<bar>"
  then have "2 ^ 53 \<le> nat \<bar>i\<bar>" by (simp add: le_nat_iff)
  from f64_round_nat_large[OF this] show ?thesis by (cases "i < 0") (simp_all add: f64_round_def)
qed

lemma rounded_difference:
  assumes "\<bar>bz\<bar> \<le> 2147483648" "\<bar>v\<bar> \<le> 2147483648"
  shows "f64_as_i64 (f64_round (f64_round p - bz)) = v \<longleftrightarrow> p - bz = v"
proof (cases "\<bar>p\<bar> < 9007199254740992 \<and> \<bar>p - bz\<bar> < 9007199254740992")
  case True
  then show ?thesis using assms by (auto simp: f64_round_small f64_as_i64_def)
next
  case False
  let ?d = "f64_round p - bz"
  have d: "1000000000000000 \<le> \<bar>?d\<bar> \<and> 1000000000000000 \<le> \<bar>p - bz\<bar>"
    using False assms(1) f64_round_large[of p] f64_round_small[of p] by (cases "\<bar>p\<bar> < 9007199254740992") auto
  then have "1000000000000000 \<le> \<bar>f64_round ?d\<bar>"
    using f64_round_large[of ?d] f64_round_small[of ?d] by (cases "\<bar>?d\<bar> < 9007199254740992") auto
  then have "1000000000000000 \<le> \<bar>f64_as_i64 (f64_round ?d)\<bar>" by (auto simp: f64_as_i64_def)
  then show ?thesis using d assms by auto
qed

lemma dtype_offsets:
  "dtype_to_bitpix dtype = Inr (bitpix, bzero) \<Longrightarrow>
   (bitpix, bzero) \<in> {(8, None), (8, Some (- 128)), (16, None), (16, Some 32768), (32, None), (32, Some 2147483648),
     (64, None), (64, Some 9223372036854775808), (- 32, None), (- 64, None)}"
  by (auto simp: dtype_to_bitpix_def Let_def split: if_splits)

definition stored_range :: "int \<Rightarrow> int set" where
  "stored_range bitpix =
     (if bitpix = 8 then {0..255} else if bitpix = 16 then {- 32768..32767} else {- 2147483648..2147483647})"

subsection \<open>Properties\<close>

text \<open>
  C28: the blank value of an integer image is stored exactly: for the 8-, 16- and 32-bit types,
  signed or unsigned, the stored sentinel is the physical value minus the offset, and a value is
  refused exactly when that difference does not fit the pixel type; the intermediate \<open>f64\<close>
  arithmetic loses nothing.
\<close>

theorem stored_blank_exact:
  assumes "dtype_to_bitpix dtype = Inr (bitpix, bzero)" and "bitpix \<in> {8, 16, 32}"
  shows "physical_blank_to_stored physical bitpix bzero = Inr v \<longleftrightarrow>
    v = physical - (case bzero of None \<Rightarrow> 0 | Some bz \<Rightarrow> bz) \<and> v \<in> stored_range bitpix"
proof -
  have bz: "\<bar>bz\<bar> \<le> 2147483648" if "bzero = Some bz" for bz
    using dtype_offsets[OF assms(1)] assms(2) that by auto
  have v: "v \<in> stored_range bitpix \<Longrightarrow> \<bar>v\<bar> \<le> 2147483648" using assms(2) by (auto simp: stored_range_def)
  have "physical_blank_to_stored physical bitpix bzero = Inr v \<longleftrightarrow>
      (case bzero of None \<Rightarrow> physical | Some bz \<Rightarrow> f64_as_i64 (f64_round (f64_round physical - bz))) = v \<and> v \<in> stored_range bitpix"
    using assms(2) by (auto simp: physical_blank_to_stored_def stored_range_def Let_def split: if_splits)
  also have "\<dots> \<longleftrightarrow> v = physical - (case bzero of None \<Rightarrow> 0 | Some bz \<Rightarrow> bz) \<and> v \<in> stored_range bitpix"
  proof (cases bzero)
    case (Some b)
    then show ?thesis using rounded_difference[OF bz[OF Some], of v physical] v by (cases "v \<in> stored_range bitpix") auto
  qed auto
  finally show ?thesis .
qed

theorem stored_blank_exact_witness:
  "physical_blank_to_stored 5 16 (Some 32768) = Inr (- 32763)"
proof -
  have "dtype_to_bitpix ''u2'' = Inr (16, Some 32768)"
    by (simp add: dtype_to_bitpix_def Let_def lower_char_def char_of_def bit_0)
  from stored_blank_exact[OF this, of 5 "- 32763"] show ?thesis by (simp add: stored_range_def)
qed

text \<open>
  C29: 64-bit unsigned images do not get this: the offset card written for them is 2^63 - 1 instead
  of 2^63 (\<open>i64::MAX as f64\<close> is 2^63, so the branch for larger offsets is not taken, and the cast
  saturates), and a small blank value such as 5 is rounded away, stored as -2^63, which stands for
  the physical value 0.
\<close>

theorem unsigned_64_offset:
  "dtype_to_bitpix ''u8'' = Inr (64, Some 9223372036854775808) \<and>
   bzero_cards (Some 9223372036854775808) =
     [card_int ''BSCALE'' 1 ''default linear scaling'', card_int ''BZERO'' 9223372036854775807 ''offset for unsigned-int storage''] \<and>
   physical_blank_to_stored 5 64 (Some 9223372036854775808) = Inr (- 9223372036854775808) \<and>
   physical_blank_to_stored 0 64 (Some 9223372036854775808) = Inr (- 9223372036854775808)"
proof (intro conjI)
  note E = excess_bits_step excess_bits_done f64_round_def f64_round_nat_def Let_def f64_as_i64_def
  show "dtype_to_bitpix ''u8'' = Inr (64, Some 9223372036854775808)"
    by (simp add: dtype_to_bitpix_def Let_def lower_char_def char_of_def bit_0)
  show "bzero_cards (Some 9223372036854775808) =
     [card_int ''BSCALE'' 1 ''default linear scaling'', card_int ''BZERO'' 9223372036854775807 ''offset for unsigned-int storage'']"
    by (simp add: bzero_cards_def E)
  show "physical_blank_to_stored 5 64 (Some 9223372036854775808) = Inr (- 9223372036854775808)"
    "physical_blank_to_stored 0 64 (Some 9223372036854775808) = Inr (- 9223372036854775808)"
    by (simp_all add: physical_blank_to_stored_def E)
qed

end
