(* ===== verification/HeaderLookup.thy ===== *)
theory HeaderLookup
  imports HeaderCards
begin

text \<open>
  Headers as maps. A header built from cards with distinct keywords is described by a list of
  entries; the keyword lookups of \<open>src/common.rs\<close> on its cards return the entries' values.
\<close>

datatype entry =
    EInt (ekey: string) int string
  | EStr (ekey: string) string string
  | ELog (ekey: string) bool string
  | EUint (ekey: string) u64 string

fun render :: "entry \<Rightarrow> string" where
  "render (EInt k v c) = card_int k v c"
| "render (EStr k v c) = card_string k v c"
| "render (ELog k v c) = card_logical k v c"
| "render (EUint k v c) = card_uint k v c"

definition entries_ok :: "entry list \<Rightarrow> bool" where
  "entries_ok es \<longleftrightarrow> list_all (key_ok \<circ> ekey) es \<and> distinct (map ekey es)"

lemma card_for_key_head:
  assumes "key_ok k"
  shows "card_for_key key (pad_to_card (fmt_left 8 k @ ''= '' @ t)) \<longleftrightarrow> k = key"
proof -
  have l: "length (fmt_left 8 k) = 8" using assms by (simp add: key_ok_def)
  have "take 8 (pad_to_card (fmt_left 8 k @ ''= '' @ t)) = fmt_left 8 k"
    using take_pad_to_card[of 8 "fmt_left 8 k @ ''= '' @ t"] l by simp
  moreover have "take 9 (pad_to_card (fmt_left 8 k @ ''= '' @ t)) = fmt_left 8 k @ ''=''"
    using take_pad_to_card[of 9 "fmt_left 8 k @ ''= '' @ t"] l by simp
  then have "take 9 (pad_to_card (fmt_left 8 k @ ''= '' @ t)) ! 8 = CHR ''=''" using l by (simp add: nth_append)
  ultimately show ?thesis using trim_fmt_left_key[OF assms] by (simp add: card_for_key_def)
qed

lemma card_for_key_render: "key_ok (ekey e) \<Longrightarrow> card_for_key key (render e) \<longleftrightarrow> ekey e = key"
proof -
  assume k: "key_ok (ekey e)"
  have "\<exists>t. render e = pad_to_card (fmt_left 8 (ekey e) @ ''= '' @ t)"
    by (cases e) (auto simp: card_int_def card_string_def card_logical_def card_uint_def with_comment_def Let_def)
  then show ?thesis using card_for_key_head[OF k] by auto
qed

lemma card_for_key_END [simp]: "\<not> card_for_key key (pad_to_card ''END'')"
proof -
  have "pad_to_card ''END'' ! 8 = CHR '' ''" by (simp add: pad_to_card_def CARD_SIZE_def spaces_def nth_append)
  then show ?thesis by (simp add: card_for_key_def)
qed

lemma first_word_int:
  assumes "w \<noteq> []" "\<forall>c \<in> set w. \<not> is_ws c" "r = [] \<or> is_ws (hd r)"
  shows "first_word (spaces n @ w @ r) = w"
proof -
  have "trim_start (w @ r) = w @ r" using assms(1,2) by (intro trim_start_id) (auto simp: hd_append)
  moreover have "takeWhile (\<lambda>c. \<not> is_ws c) r = []" using assms(3) by (cases r) auto
  ultimately show ?thesis using assms(2) by (simp add: first_word_def takeWhile_append2)
qed

lemma strip_tail_id: "s \<noteq> [] \<Longrightarrow> last s \<notin> {quote, CHR '' '', CHR ''/''} \<Longrightarrow> strip_tail s = s"
  by (cases s rule: rev_cases) (auto simp: strip_tail_def)

lemma dec_int_chars: "c \<in> set (dec_int i) \<Longrightarrow> is_digit c \<or> c = CHR ''-''"
  by (auto simp: dec_int_def dest: dec_digits_digits split: if_splits)

lemma dec_int_last: "is_digit (last (dec_int i))"
  using dec_digits_digits[OF last_in_set[OF dec_digits_nonempty]] by (simp add: dec_int_def)

lemma dec_int_length:
  assumes "- 9223372036854775808 \<le> i" "i < 9223372036854775808"
  shows "length (dec_int i) \<le> 20"
proof -
  have "nat i < 10 ^ 19" "nat (- i) < 10 ^ 19" using assms by auto
  then have "length (dec_digits (nat i)) \<le> 19" "length (dec_digits (nat (- i))) \<le> 19"
    using dec_digits_length[of _ 19] by simp_all
  then show ?thesis by (simp add: dec_int_def)
qed

lemma card_int_reads:
  assumes "key_ok k" "- 9223372036854775808 \<le> v" "v < 9223372036854775808"
  shows "parse_keyword (card_int k v c # rest) k = Some v"
proof -
  let ?n = "20 - length (dec_int v)"
  let ?t = "if c = [] then [] else '' / '' @ c"
  have l: "length (fmt_left 8 k) = 8" "length (dec_int v) \<le> 20"
    using assms dec_int_length by (simp_all add: key_ok_def)
  have body: "card_int k v c = pad_to_card ((fmt_left 8 k @ ''= '' @ spaces ?n @ dec_int v) @ ?t)"
    by (simp add: card_int_def with_comment_def fmt_right_def)
  also have "\<dots> = fmt_left 8 k @ ''= '' @ spaces ?n @ dec_int v @ take 50 ?t @ spaces (50 - length ?t)"
    by (subst pad_to_card_append) (use l in simp_all)
  finally have "drop 9 (card_int k v c) = spaces 1 @ spaces ?n @ dec_int v @ take 50 ?t @ spaces (50 - length ?t)"
    using l by (simp add: spaces_def)
  also have "\<dots> = spaces (Suc ?n) @ dec_int v @ (take 50 ?t @ spaces (50 - length ?t))" by (simp add: spaces_def)
  finally have d: "drop 9 (card_int k v c) = spaces (Suc ?n) @ dec_int v @ (take 50 ?t @ spaces (50 - length ?t))" .
  have "first_word (drop 9 (card_int k v c)) = dec_int v"
    unfolding d
  proof (rule first_word_int)
    show "dec_int v \<noteq> []" by (simp add: dec_int_def)
    show "\<forall>c\<in>set (dec_int v). \<not> is_ws c" using dec_int_chars is_digit_not_ws by (fastforce simp: is_ws_def)
    show "take 50 ?t @ spaces (50 - length ?t) = [] \<or> is_ws (hd (take 50 ?t @ spaces (50 - length ?t)))"
      by (auto simp: spaces_def)
  qed
  moreover have "strip_tail (dec_int v) = dec_int v"
    using dec_int_last[of v] by (intro strip_tail_id) (auto simp: dec_int_def quote_def)
  moreover have "card_for_key k (card_int k v c)"
    using card_for_key_render[of "EInt k v c" k] assms(1) by simp
  ultimately show ?thesis using parse_i64_dec_int[OF assms(2,3)] by (simp add: dec_int_def)
qed

lemma card_string_reads:
  assumes "key_ok k" "length (escape v) \<le> 68"
  shows "parse_string_keyword (card_string k v c # rest) k = Some (trim_end v)"
proof -
  obtain r where r: "card_string k v c = fmt_left 8 k @ ''= '' @ quote # (escape v @ spaces (8 - length (escape v))) @ quote # r"
    "r = [] \<or> hd r \<noteq> quote"
    by (rule card_string_shape[OF _ assms(2)]) (use assms(1) in \<open>auto simp: key_ok_def\<close>)
  show ?thesis by (rule string_card_reads(2)[OF assms(1) r(2,1)])
qed

lemma lookup_skip:
  assumes "list_all (key_ok \<circ> ekey) es" "key \<notin> ekey ` set es"
  shows "parse_keyword (map render es @ rest) key = parse_keyword rest key"
    "parse_string_keyword (map render es @ rest) key = parse_string_keyword rest key"
  using assms by (induction es) (auto simp: card_for_key_render)

text \<open>A header made of entries is a map from keys to values.\<close>

lemma lookup_split:
  assumes "entries_ok es" "e \<in> set es"
  obtains as bs where "es = as @ e # bs" "list_all (key_ok \<circ> ekey) as" "ekey e \<notin> ekey ` set as" "key_ok (ekey e)"
proof -
  obtain as bs where "es = as @ e # bs" using assms(2) by (meson split_list)
  with assms(1) show ?thesis by (intro that[of as bs]) (auto simp: entries_ok_def)
qed

lemma lookup_int:
  assumes "entries_ok es" "EInt k v c \<in> set es" "- 9223372036854775808 \<le> v" "v < 9223372036854775808"
  shows "parse_keyword (map render es @ rest) k = Some v"
proof -
  obtain as bs where s: "es = as @ EInt k v c # bs" "list_all (key_ok \<circ> ekey) as" "k \<notin> ekey ` set as" "key_ok k"
    using lookup_split[OF assms(1,2)] by auto
  show ?thesis unfolding s(1) using lookup_skip(1)[OF s(2,3)] card_int_reads[OF s(4) assms(3,4)] by simp
qed

lemma lookup_str:
  assumes "entries_ok es" "EStr k v c \<in> set es" "length (escape v) \<le> 68"
  shows "parse_string_keyword (map render es @ rest) k = Some (trim_end v)"
proof -
  obtain as bs where s: "es = as @ EStr k v c # bs" "list_all (key_ok \<circ> ekey) as" "k \<notin> ekey ` set as" "key_ok k"
    using lookup_split[OF assms(1,2)] by auto
  show ?thesis unfolding s(1) using lookup_skip(2)[OF s(2,3)] card_string_reads[OF s(4) assms(3)] by simp
qed

lemma lookup_none:
  assumes "entries_ok es" "key \<notin> ekey ` set es"
  shows "parse_keyword (map render es @ [pad_to_card ''END'']) key = None"
    "parse_string_keyword (map render es @ [pad_to_card ''END'']) key = None"
  using lookup_skip[of es key] assms by (auto simp: entries_ok_def)

end
