(* ===== verification/ZImageRoundtrip.thy ===== *)
theory ZImageRoundtrip
  imports ZImageCreate HeaderLookup
begin

text \<open>
  The header written for a tile-compressed image read back: metadata and configuration.
\<close>

subsection \<open>The cards as entries\<close>

definition fixed_entries :: "compression_config \<Rightarrow> bool \<Rightarrow> int \<Rightarrow> u64 \<Rightarrow> u64 \<Rightarrow> nat \<Rightarrow> entry list" where
  "fixed_entries cfg quantized bitpix naxis1 n_tiles ndim =
     [EStr ''XTENSION'' ''BINTABLE'' ''binary table extension'',
      EInt ''BITPIX'' 8 ''8-bit bytes'',
      EInt ''NAXIS'' 2 ''2-dimensional binary table'',
      EInt ''NAXIS1'' (as_i64 naxis1) ''width of table row in bytes'',
      EInt ''NAXIS2'' (as_i64 n_tiles) ''number of rows in table (= n_tiles)'',
      EInt ''PCOUNT'' 0 ''size of heap in bytes'',
      EInt ''GCOUNT'' 1 ''one data group'',
      EInt ''TFIELDS'' (if quantized then 4 else 1) ''number of fields per row'',
      EStr ''TFORM1'' (case cfg of CPlio1 _ \<Rightarrow> (if config_heap_format cfg = CHR ''P'' then ''1PI'' else ''1QI'')
                       | _ \<Rightarrow> (if config_heap_format cfg = CHR ''P'' then ''1PB'' else ''1QB'')) ''compressed data descriptor'',
      EStr ''TTYPE1'' ''COMPRESSED_DATA'' ''label for column 1''] @
     (if quantized then
        [EStr ''TFORM2'' ''1D'' ''per-tile linear-scale factor'',
         EStr ''TTYPE2'' ''ZSCALE'' ''label for column 2'',
         EStr ''TFORM3'' ''1D'' ''per-tile linear-scale zero point'',
         EStr ''TTYPE3'' ''ZZERO'' ''label for column 3'',
         EStr ''TFORM4'' (if config_heap_format cfg = CHR ''P'' then ''1PB'' else ''1QB'') ''lossless GZIP fallback for unquantizable tiles'',
         EStr ''TTYPE4'' ''GZIP_COMPRESSED_DATA'' ''label for column 4'']
      else []) @
     [ELog ''ZIMAGE'' True ''tile-compressed image'',
      EStr ''ZCMPTYPE'' (zcmptype cfg) ''compression algorithm'',
      EInt ''ZBITPIX'' bitpix ''image bits per pixel'',
      EInt ''ZNAXIS'' (int ndim) ''image dimensions'']"

definition axis_entries :: "string \<Rightarrow> string \<Rightarrow> u64 list \<Rightarrow> entry list" where
  "axis_entries key comment dims =
     map (\<lambda>(i, d). EInt (numbered key (i + 1)) (as_i64 d) (numbered comment (i + 1))) (enumerate 0 dims)"

definition param_entries :: "(string \<times> int) list \<Rightarrow> entry list" where
  "param_entries ps =
     concat (map (\<lambda>(n, (name, val)).
       [EStr (numbered ''ZNAME'' (n + 1)) name (numbered ''compression parameter '' (n + 1)),
        EInt (numbered ''ZVAL'' (n + 1)) val (numbered ''value of ZNAME'' (n + 1))]) (enumerate 0 ps))"

definition quantize_entries :: "Quantize option \<Rightarrow> entry list" where
  "quantize_entries quantize =
     (case quantize of None \<Rightarrow> []
      | Some q \<Rightarrow>
          [EStr ''ZQUANTIZ'' (zquantiz (q_method q)) ''dithering method'',
           EInt ''ZDITHER0'' (if q_seed q > 0 then q_seed q else 1) ''dithering offset/seed'',
           EInt ''ZBLANK'' (- 2147483647) ''quantized null-pixel sentinel''])"

definition tail_entries :: "string option \<Rightarrow> int option \<Rightarrow> int option \<Rightarrow> int option \<Rightarrow> entry list" where
  "tail_entries extname extver bzero zblank =
     (case extname of None \<Rightarrow> [] | Some name \<Rightarrow> [EStr ''EXTNAME'' name ''name of this HDU'']) @
     (case extver of None \<Rightarrow> [] | Some ver \<Rightarrow> [EInt ''EXTVER'' ver ''extension version'']) @
     (case bzero of None \<Rightarrow> []
      | Some bz \<Rightarrow>
          [EInt ''BSCALE'' 1 ''default linear scaling'',
           (if bz > f64_round (2 ^ 63 - 1) then EUint ''BZERO'' (of_int bz) ''offset for unsigned-int storage''
            else EInt ''BZERO'' (f64_as_i64 bz) ''offset for unsigned-int storage'')]) @
     (case zblank of None \<Rightarrow> [] | Some b \<Rightarrow> [EInt ''ZBLANK'' b ''integer sentinel for blank pixels''])"

definition row_bytes :: "compression_config \<Rightarrow> bool \<Rightarrow> u64" where
  "row_bytes cfg quantized =
     (let d = (if config_heap_format cfg = CHR ''P'' then 8 else 16) in if quantized then d + 8 + 8 + d else d)"

definition image_entries ::
  "compression_config \<Rightarrow> Quantize option \<Rightarrow> int \<Rightarrow> int option \<Rightarrow> u64 list \<Rightarrow> u64 list \<Rightarrow> string option \<Rightarrow> int option \<Rightarrow> int option
     \<Rightarrow> entry list" where
  "image_entries cfg q bitpix bzero dims ts extname extver zblank =
     fixed_entries cfg (q \<noteq> None) bitpix (row_bytes cfg (q \<noteq> None)) (compute_n_tiles dims ts) (length dims) @
     axis_entries ''ZNAXIS'' ''image axis '' (rev dims) @
     axis_entries ''ZTILE'' ''tile size on axis '' (rev ts) @
     quantize_entries q @ param_entries (extra_z_cards cfg bitpix) @
     tail_entries extname extver bzero zblank"

lemma render_axis: "map render (axis_entries k c ds) = axis_cards k c ds"
  by (auto simp: axis_entries_def axis_cards_def)

lemma render_params: "map render (param_entries ps) = param_cards ps"
  by (auto simp: param_entries_def param_cards_def map_concat intro!: arg_cong[where f = concat])

lemma image_cards_entries:
  "compressed_image_cards cfg q bitpix bzero dims ts extname extver @
     (case zblank of None \<Rightarrow> [] | Some b \<Rightarrow> [card_int ''ZBLANK'' b ''integer sentinel for blank pixels'']) @ rest
   = map render (image_entries cfg q bitpix bzero dims ts extname extver zblank) @ rest"
  unfolding image_entries_def map_append render_axis render_params compressed_image_cards_def Let_def
  by (simp add: fixed_entries_def tform_cards_def row_bytes_def quantize_entries_def quantize_cards_def tail_entries_def
      bzero_cards_def Let_def split: option.split compression_config.split)

subsection \<open>The keywords are distinct\<close>

lemma numbered_inject [simp]: "numbered k i = numbered k j \<longleftrightarrow> i = j"
  by (simp add: numbered_def dec_digits_inject)

lemma numbered_key_ok:
  assumes "0 < d" "n < 10 ^ d" "length k + d \<le> 8" "k \<noteq> []" "\<not> is_ws (hd k)"
  shows "key_ok (numbered k n)"
proof -
  have "\<not> is_ws (last (dec_digits n))"
    by (rule is_digit_not_ws[OF dec_digits_digits[OF last_in_set[OF dec_digits_nonempty]]])
  moreover have "length (k @ dec_digits n) \<le> 8" using dec_digits_length[OF assms(2,1)] assms(3) by simp
  ultimately show ?thesis using assms(4,5) unfolding key_ok_def numbered_def by simp
qed

lemma axis_keys: "map ekey (axis_entries k c ds) = map (numbered k) [1..<Suc (length ds)]"
  by (rule nth_equalityI) (auto simp: axis_entries_def nth_enumerate_eq simp del: upt_Suc)

lemma dec_digits_small: "dec_digits (Suc 0) = ''1''" "dec_digits (Suc (Suc 0)) = ''2''"
  by (simp_all add: dec_digits.simps char_of_def bit_0)

lemma param_keys:
  "set (map ekey (param_entries (extra_z_cards cfg b))) \<subseteq> {''ZNAME1'', ''ZVAL1'', ''ZNAME2'', ''ZVAL2''}"
  "distinct (map ekey (param_entries (extra_z_cards cfg b)))"
  by (cases cfg; simp add: param_entries_def numbered_def dec_digits_small)+

lemmas entry_defs = fixed_entries_def quantize_entries_def tail_entries_def

lemma literal_key_ok:
  "length k \<le> 8 \<Longrightarrow> k \<noteq> [] \<Longrightarrow> \<not> is_ws (hd k) \<Longrightarrow> \<not> is_ws (last k) \<Longrightarrow> key_ok k"
  by (simp add: key_ok_def)

lemma numbered_literal [simp]:
  "numbered ''ZNAXIS'' i \<noteq> numbered ''ZTILE'' j" "numbered ''ZTILE'' j \<noteq> numbered ''ZNAXIS'' i"
  by (simp_all add: numbered_def)

lemma fixed_keys:
  "list_all (key_ok \<circ> ekey) (fixed_entries cfg q bitpix a b n)" "distinct (map ekey (fixed_entries cfg q bitpix a b n))"
  by (cases q; simp add: fixed_entries_def key_ok_def is_ws_def)+

lemma quantize_keys:
  "list_all (key_ok \<circ> ekey) (quantize_entries q)" "distinct (map ekey (quantize_entries q))"
  by (cases q; simp add: quantize_entries_def key_ok_def is_ws_def)+

lemma tail_keys:
  "list_all (key_ok \<circ> ekey) (tail_entries extname extver bzero zblank)"
  "distinct (map ekey (tail_entries extname extver bzero zblank))"
  by (cases extname; cases extver; cases bzero; cases zblank; simp add: tail_entries_def key_ok_def is_ws_def)+

lemma key_sets:
  "ekey ` set (fixed_entries cfg q bitpix a b n) \<subseteq>
     {''XTENSION'', ''BITPIX'', ''NAXIS'', ''NAXIS1'', ''NAXIS2'', ''PCOUNT'', ''GCOUNT'', ''TFIELDS'', ''TFORM1'', ''TTYPE1'',
      ''TFORM2'', ''TTYPE2'', ''TFORM3'', ''TTYPE3'', ''TFORM4'', ''TTYPE4'', ''ZIMAGE'', ''ZCMPTYPE'', ''ZBITPIX'', ''ZNAXIS''}"
  "ekey ` set (quantize_entries qq) \<subseteq> {''ZQUANTIZ'', ''ZDITHER0'', ''ZBLANK''}"
  "ekey ` set (tail_entries extname extver bzero zblank) \<subseteq> {''EXTNAME'', ''EXTVER'', ''BSCALE'', ''BZERO'', ''ZBLANK''}"
  "zblank = None \<Longrightarrow> ekey ` set (tail_entries extname extver bzero zblank) \<subseteq> {''EXTNAME'', ''EXTVER'', ''BSCALE'', ''BZERO''}"
  by (auto simp: entry_defs split: option.splits if_splits)

lemma axis_key_set: "ekey ` set (axis_entries k c ds) = numbered k ` {1..length ds}"
  using arg_cong[OF axis_keys[of k c ds], of set] by (auto simp del: upt_Suc simp: atLeastLessThanSuc_atLeastAtMost)

definition all_literals :: "string set" where
  "all_literals =
     {''XTENSION'', ''BITPIX'', ''NAXIS'', ''NAXIS1'', ''NAXIS2'', ''PCOUNT'', ''GCOUNT'', ''TFIELDS'', ''TFORM1'', ''TTYPE1'',
      ''TFORM2'', ''TTYPE2'', ''TFORM3'', ''TTYPE3'', ''TFORM4'', ''TTYPE4'', ''ZIMAGE'', ''ZCMPTYPE'', ''ZBITPIX'', ''ZNAXIS'',
      ''ZQUANTIZ'', ''ZDITHER0'', ''ZBLANK'', ''ZNAME1'', ''ZVAL1'', ''ZNAME2'', ''ZVAL2'', ''EXTNAME'', ''EXTVER'', ''BSCALE'', ''BZERO''}"

lemma numbered_not_literal: "k \<in> {''ZNAXIS'', ''ZTILE''} \<Longrightarrow> numbered k i \<notin> all_literals"
  by (auto simp: all_literals_def numbered_def)

lemma disjoint_sub: "A \<subseteq> X \<Longrightarrow> B \<subseteq> Y \<Longrightarrow> X \<inter> Y = {} \<Longrightarrow> A \<inter> B = {}"
  by blast

lemma image_entries_ok:
  assumes "length dims \<le> 99" "length ts = length dims" "q \<noteq> None \<Longrightarrow> zblank = None"
  shows "entries_ok (image_entries cfg q bitpix bzero dims ts extname extver zblank)"
proof -
  have ax: "list_all (key_ok \<circ> ekey) (axis_entries k c ds)" "distinct (map ekey (axis_entries k c ds))"
    if "length ds \<le> 99" "k \<in> {''ZNAXIS'', ''ZTILE''}" for k c ds
  proof -
    have "key_ok (numbered k n)" if "n \<in> {1..length ds}" for n
      using \<open>k \<in> _\<close> \<open>length ds \<le> 99\<close> that by (intro numbered_key_ok[of 2]) (auto simp: is_ws_def)
    then have "\<forall>x \<in> ekey ` set (axis_entries k c ds). key_ok x" unfolding axis_key_set by blast
    then show "list_all (key_ok \<circ> ekey) (axis_entries k c ds)" by (simp add: list_all_iff)
    show "distinct (map ekey (axis_entries k c ds))"
      unfolding axis_keys by (simp add: distinct_map inj_on_def del: upt_Suc)
  qed
  have pk: "list_all (key_ok \<circ> ekey) (param_entries (extra_z_cards cfg bitpix))"
  proof -
    have "\<forall>x \<in> {''ZNAME1'', ''ZVAL1'', ''ZNAME2'', ''ZVAL2''}. key_ok x" by (simp add: key_ok_def is_ws_def)
    then have "\<forall>x \<in> set (map ekey (param_entries (extra_z_cards cfg bitpix))). key_ok x" using param_keys(1) by blast
    then show ?thesis by (simp add: list_all_iff)
  qed
  let ?F = "ekey ` set (fixed_entries cfg (q \<noteq> None) bitpix (row_bytes cfg (q \<noteq> None)) (compute_n_tiles dims ts) (length dims))"
  let ?Q = "ekey ` set (quantize_entries q)" and ?P = "ekey ` set (param_entries (extra_z_cards cfg bitpix))"
  let ?T = "ekey ` set (tail_entries extname extver bzero zblank)"
  have P: "?P \<subseteq> {''ZNAME1'', ''ZVAL1'', ''ZNAME2'', ''ZVAL2''}" using param_keys(1)[of cfg bitpix] by simp
  have F: "?F \<inter> ?Q = {}" "?F \<inter> ?P = {}" "?F \<inter> ?T = {}"
    using disjoint_sub[OF key_sets(1,2)] disjoint_sub[OF key_sets(1) P] disjoint_sub[OF key_sets(1,3)] by simp_all
  have Q: "?Q \<inter> ?P = {}" "?P \<inter> ?T = {}"
    using disjoint_sub[OF key_sets(2) P] disjoint_sub[OF P key_sets(3)] by simp_all
  have QT: "?Q \<inter> ?T = {}"
  proof (cases "q = None")
    case False
    then show ?thesis using disjoint_sub[OF key_sets(2) key_sets(4)[OF assms(3)]] by simp
  qed (simp add: quantize_entries_def)
  have N: "X \<inter> numbered k ` A = {}" if "X \<subseteq> all_literals" "k \<in> {''ZNAXIS'', ''ZTILE''}" for X k A
    using that numbered_not_literal by blast
  have N2: "numbered k ` A \<inter> X = {}" if "X \<subseteq> all_literals" "k \<in> {''ZNAXIS'', ''ZTILE''}" for X k A
    using N[OF that] by blast
  have lit: "?F \<subseteq> all_literals" "?Q \<subseteq> all_literals" "?P \<subseteq> all_literals" "?T \<subseteq> all_literals"
    by (rule order_trans[OF key_sets(1)], simp add: all_literals_def, rule order_trans[OF key_sets(2)], simp add: all_literals_def,
        rule order_trans[OF P], simp add: all_literals_def, rule order_trans[OF key_sets(3)], simp add: all_literals_def)
  have nz: "numbered ''ZNAXIS'' ` A \<inter> numbered ''ZTILE'' ` B = {}" for A B by auto
  have la: "length (rev dims) \<le> 99" "length (rev ts) \<le> 99" using assms(1,2) by simp_all
  show ?thesis
    unfolding entries_ok_def image_entries_def list_all_append map_append distinct_append set_map set_append axis_key_set
    unfolding image_Un Int_Un_distrib Un_empty
    by (intro conjI fixed_keys quantize_keys tail_keys pk param_keys(2) ax[OF la(1)] ax[OF la(2)] F Q QT nz
        N[OF lit(1)] N2[OF lit(2)] N2[OF lit(3)] N2[OF lit(4)]) simp_all
qed

subsection \<open>Reading the entries back\<close>

definition in_i64 :: "int \<Rightarrow> bool" where
  "in_i64 v \<longleftrightarrow> - 9223372036854775808 \<le> v \<and> v < 9223372036854775808"

lemma as_i64_range: "in_i64 (as_i64 w)"
  using sint_range_size[of w] by (simp add: as_i64_def in_i64_def word_size)

lemma as_u64_as_i64 [simp]: "as_u64 (as_i64 w) = w"
  by (simp add: as_u64_def as_i64_def)

lemma as_i64_nonneg: "w < 2 ^ 63 \<Longrightarrow> 0 \<le> as_i64 w"
proof -
  assume "w < 2 ^ 63"
  then have "uint w < 2 ^ 63" by (simp add: word_less_def)
  moreover have "0 \<le> uint w" by simp
  ultimately have "signed_take_bit 63 (uint w) = uint w" by (intro signed_take_bit_int_eq_self) linarith+
  then have "sint w = uint w" by (simp add: sint_uint)
  then show ?thesis by (simp add: as_i64_def)
qed

lemma axis_lookup:
  assumes "entries_ok es" "set (axis_entries k c ds) \<subseteq> set es" "i < length ds"
  shows "parse_keyword (map render es @ rest) (numbered k (Suc i)) = Some (as_i64 (ds ! i))"
proof -
  have "EInt (numbered k (i + 1)) (as_i64 (ds ! i)) (numbered c (i + 1)) \<in> set (axis_entries k c ds)"
    using assms(3) by (force simp: axis_entries_def in_set_enumerate_eq)
  then show ?thesis
    using lookup_int[OF assms(1)] assms(2) as_i64_range[of "ds ! i"] by (auto simp: in_i64_def)
qed

lemma map_axis:
  assumes "\<forall>d \<in> set ds. d < 2 ^ 63" "\<And>i. i < length ds \<Longrightarrow> f (Suc i) = as_i64 (ds ! i)"
  shows "map (\<lambda>i. as_u64 (max 0 (f i))) [1..<Suc (length ds)] = ds"
proof (rule nth_equalityI)
  fix i assume "i < length (map (\<lambda>i. as_u64 (max 0 (f i))) [1..<Suc (length ds)])"
  then have i: "i < length ds" by (simp del: upt_Suc)
  then have "0 \<le> as_i64 (ds ! i)" using assms(1) as_i64_nonneg by simp
  then show "map (\<lambda>i. as_u64 (max 0 (f i))) [1..<Suc (length ds)] ! i = ds ! i"
    using i assms(2) by (simp del: upt_Suc)
qed (simp del: upt_Suc)

record image_args =
  ia_cfg :: compression_config
  ia_quantize :: "Quantize option"
  ia_bitpix :: int
  ia_bzero :: "int option"
  ia_dims :: "u64 list"
  ia_tiles :: "u64 list"
  ia_extname :: "string option"
  ia_extver :: "int option"
  ia_zblank :: "int option"

definition args_entries :: "image_args \<Rightarrow> entry list" where
  "args_entries a = image_entries (ia_cfg a) (ia_quantize a) (ia_bitpix a) (ia_bzero a) (ia_dims a) (ia_tiles a)
     (ia_extname a) (ia_extver a) (ia_zblank a)"

definition args_header :: "image_args \<Rightarrow> string list" where
  "args_header a = map render (args_entries a) @ [pad_to_card ''END'']"

text \<open>What the checks of the create path and the types of its arguments guarantee.\<close>

definition args_ok :: "image_args \<Rightarrow> bool" where
  "args_ok a \<longleftrightarrow>
     length (ia_dims a) \<le> 99 \<and> ia_dims a \<noteq> [] \<and> length (ia_tiles a) = length (ia_dims a) \<and>
     (\<forall>d \<in> set (ia_dims a). d < 2 ^ 63) \<and> (\<forall>t \<in> set (ia_tiles a). t < 2 ^ 63) \<and>
     ia_bitpix a \<in> {8, 16, 32, 64, - 32, - 64} \<and>
     (ia_quantize a \<noteq> None \<longrightarrow> ia_bitpix a < 0) \<and> (ia_bitpix a < 0 \<longrightarrow> ia_zblank a = None) \<and>
     (\<forall>x. ia_quantize a = Some x \<longrightarrow> in_i64 (q_seed x)) \<and>
     (\<forall>b. ia_zblank a = Some b \<longrightarrow> in_i64 b) \<and> config_ok (ia_cfg a)"

lemmas args_defs = args_entries_def image_entries_def

lemma args_entries_ok: "args_ok a \<Longrightarrow> entries_ok (args_entries a)"
  unfolding args_entries_def by (rule image_entries_ok) (auto simp: args_ok_def)

lemma ints: "args_ok a \<Longrightarrow> EInt k v c \<in> set (args_entries a) \<Longrightarrow> in_i64 v \<Longrightarrow> parse_keyword (args_header a) k = Some v"
  using lookup_int[OF args_entries_ok] by (simp add: in_i64_def args_header_def)

lemma strs:
  "args_ok a \<Longrightarrow> EStr k v c \<in> set (args_entries a) \<Longrightarrow> length (escape v) \<le> 68 \<Longrightarrow>
   parse_string_keyword (args_header a) k = Some (trim_end v)"
  using lookup_str[OF args_entries_ok] by (simp add: args_header_def)

lemma absent:
  "args_ok a \<Longrightarrow> k \<notin> ekey ` set (args_entries a) \<Longrightarrow>
   parse_keyword (args_header a) k = None \<and> parse_string_keyword (args_header a) k = None"
  using lookup_none[OF args_entries_ok] by (simp add: args_header_def)

lemma fixed_ints:
  assumes a: "args_ok a"
  shows "parse_keyword (args_header a) ''ZBITPIX'' = Some (ia_bitpix a)"
    "parse_keyword (args_header a) ''ZNAXIS'' = Some (int (length (ia_dims a)))"
    "parse_keyword (args_header a) ''NAXIS1'' = Some (as_i64 (row_bytes (ia_cfg a) (ia_quantize a \<noteq> None)))"
    "parse_keyword (args_header a) ''NAXIS2'' = Some (as_i64 (compute_n_tiles (ia_dims a) (ia_tiles a)))"
    "parse_keyword (args_header a) ''TFIELDS'' = Some (if ia_quantize a \<noteq> None then 4 else 1)"
proof -
  have "in_i64 (ia_bitpix a)" using a by (auto simp: in_i64_def args_ok_def)
  then show "parse_keyword (args_header a) ''ZBITPIX'' = Some (ia_bitpix a)"
    by (intro ints[OF a, of _ _ "''image bits per pixel''"]) (simp add: args_defs fixed_entries_def)
  have "in_i64 (int (length (ia_dims a)))" using a by (simp add: in_i64_def args_ok_def)
  then show "parse_keyword (args_header a) ''ZNAXIS'' = Some (int (length (ia_dims a)))"
    by (intro ints[OF a, of _ _ "''image dimensions''"]) (simp add: args_defs fixed_entries_def)
  show "parse_keyword (args_header a) ''NAXIS1'' = Some (as_i64 (row_bytes (ia_cfg a) (ia_quantize a \<noteq> None)))"
    by (intro ints[OF a, of _ _ "''width of table row in bytes''"] as_i64_range) (simp add: args_defs fixed_entries_def)
  show "parse_keyword (args_header a) ''NAXIS2'' = Some (as_i64 (compute_n_tiles (ia_dims a) (ia_tiles a)))"
    by (intro ints[OF a, of _ _ "''number of rows in table (= n_tiles)''"] as_i64_range) (simp add: args_defs fixed_entries_def)
  show "parse_keyword (args_header a) ''TFIELDS'' = Some (if ia_quantize a \<noteq> None then 4 else 1)"
    by (intro ints[OF a, of _ _ "''number of fields per row''"]) (simp_all add: args_defs fixed_entries_def in_i64_def)
qed

lemma axis_read:
  assumes a: "args_ok a" and sub: "set (axis_entries k c ds) \<subseteq> set (args_entries a)" and small: "\<forall>d \<in> set ds. d < 2 ^ 63"
  shows "i < length ds \<Longrightarrow> parse_keyword (args_header a) (numbered k (Suc i)) = Some (as_i64 (ds ! i))"
    and "map (\<lambda>i. as_u64 (max 0 (case parse_keyword (args_header a) (numbered k i) of None \<Rightarrow> d | Some v \<Rightarrow> v)))
      [1..<Suc (length ds)] = ds"
proof -
  show L: "parse_keyword (args_header a) (numbered k (Suc i)) = Some (as_i64 (ds ! i))" if "i < length ds" for i
    using axis_lookup[OF args_entries_ok[OF a] sub that] by (simp add: args_header_def)
  show "map (\<lambda>i. as_u64 (max 0 (case parse_keyword (args_header a) (numbered k i) of None \<Rightarrow> d | Some v \<Rightarrow> v)))
      [1..<Suc (length ds)] = ds"
    by (rule map_axis[OF small]) (simp add: L)
qed

lemma shape_read: "args_ok a \<Longrightarrow> parse_compressed_image_shape (args_header a) = Inr (ia_bitpix a, ia_dims a)"
proof -
  assume a: "args_ok a"
  have s: "set (axis_entries ''ZNAXIS'' ''image axis '' (rev (ia_dims a))) \<subseteq> set (args_entries a)"
    by (auto simp: args_defs)
  have "\<forall>d \<in> set (rev (ia_dims a)). d < 2 ^ 63" using a by (simp add: args_ok_def)
  from axis_read(2)[OF a s this, of 0]
  have "map (\<lambda>i. as_u64 (max 0 (case parse_keyword (args_header a) (numbered ''ZNAXIS'' i) of None \<Rightarrow> 0 | Some v \<Rightarrow> v)))
      [1..<Suc (length (ia_dims a))] = rev (ia_dims a)" by simp
  moreover have "as_i32 (ia_bitpix a) = ia_bitpix a" using a by (auto simp: as_i32_def args_ok_def)
  ultimately show ?thesis using fixed_ints(1,2)[OF a] by (simp add: parse_compressed_image_shape_def Let_def del: upt_Suc)
qed

lemma tiles_read: "args_ok a \<Longrightarrow> parse_tile_shape (args_header a) (ia_dims a) = ia_tiles a"
proof -
  assume a: "args_ok a"
  have s: "set (axis_entries ''ZTILE'' ''tile size on axis '' (rev (ia_tiles a))) \<subseteq> set (args_entries a)"
    by (auto simp: args_defs)
  have "\<forall>d \<in> set (rev (ia_tiles a)). d < 2 ^ 63" using a by (simp add: args_ok_def)
  note R = axis_read[OF a s this]
  have "(let default = (if i = 1 then ia_dims a ! (length (ia_dims a) - 1) else 1)
        in case parse_keyword (args_header a) (numbered ''ZTILE'' i) of Some x \<Rightarrow> as_u64 (max 0 x) | None \<Rightarrow> default)
      = as_u64 (max 0 (case parse_keyword (args_header a) (numbered ''ZTILE'' i) of None \<Rightarrow> 0 | Some v \<Rightarrow> v))"
    if i: "i \<in> set [1..<Suc (length (ia_tiles a))]" for i
  proof -
    have "1 \<le> i \<and> i \<le> length (ia_tiles a)" using i unfolding set_upt by simp
    then obtain j where "i = Suc j" "j < length (ia_tiles a)" by (cases i) auto
    then show ?thesis using R(1)[of j] by (simp add: Let_def)
  qed
  then have "map (\<lambda>i. let default = (if i = 1 then ia_dims a ! (length (ia_dims a) - 1) else 1)
        in case parse_keyword (args_header a) (numbered ''ZTILE'' i) of Some x \<Rightarrow> as_u64 (max 0 x) | None \<Rightarrow> default)
      [1..<Suc (length (ia_tiles a))] = rev (ia_tiles a)"
    using R(2)[of 0] by (subst map_cong[OF refl]) (assumption, simp del: upt_Suc)
  moreover have "length (ia_dims a) = length (ia_tiles a)" using a by (simp add: args_ok_def)
  ultimately show ?thesis by (simp only: parse_tile_shape_def Let_def) simp
qed


lemma trim_tforms [simp]:
  "trim ''1PI'' = ''1PI''" "trim ''1QI'' = ''1QI''" "trim ''1PB'' = ''1PB''" "trim ''1QB'' = ''1QB''" "trim ''1D'' = ''1D''"
  "trim ''COMPRESSED_DATA'' = ''COMPRESSED_DATA''" "trim ''ZSCALE'' = ''ZSCALE''" "trim ''ZZERO'' = ''ZZERO''"
  "trim ''GZIP_COMPRESSED_DATA'' = ''GZIP_COMPRESSED_DATA''"
  by (simp_all add: trim_def trim_end_def trim_start_def is_ws_def)

definition primary_tform :: "compression_config \<Rightarrow> string" where
  "primary_tform cfg =
     (case cfg of CPlio1 _ \<Rightarrow> (if config_heap_format cfg = CHR ''P'' then ''1PI'' else ''1QI'')
      | _ \<Rightarrow> (if config_heap_format cfg = CHR ''P'' then ''1PB'' else ''1QB''))"

definition fallback_tform :: "compression_config \<Rightarrow> string" where
  "fallback_tform cfg = (if config_heap_format cfg = CHR ''P'' then ''1PB'' else ''1QB'')"

definition plain :: "string \<Rightarrow> bool" where
  "plain v \<longleftrightarrow> trim_end v = v \<and> length (escape v) \<le> 68"

lemma plain_literals [simp]:
  "plain ''1PI''"
  "plain ''1QI''"
  "plain ''1PB''"
  "plain ''1QB''"
  "plain ''1D''"
  "plain ''COMPRESSED_DATA''"
  "plain ''ZSCALE''"
  "plain ''ZZERO''"
  "plain ''GZIP_COMPRESSED_DATA''"
  "plain ''GZIP_1''"
  "plain ''GZIP_2''"
  "plain ''RICE_1''"
  "plain ''HCOMPRESS_1''"
  "plain ''PLIO_1''"
  "plain ''NO_DITHER''"
  "plain ''SUBTRACTIVE_DITHER_1''"
  "plain ''SUBTRACTIVE_DITHER_2''"
  "plain ''BLOCKSIZE''"
  "plain ''BYTEPIX''"
  "plain ''SCALE''"
  "plain ''SMOOTH''"
  by (simp_all add: plain_def trim_end_def is_ws_def quote_def)

lemma plain_strs:
  "args_ok a \<Longrightarrow> EStr k v c \<in> set (args_entries a) \<Longrightarrow> plain v \<Longrightarrow> parse_string_keyword (args_header a) k = Some v"
  using strs[of a k v c] by (simp add: plain_def)

lemma plain_tforms [simp]: "plain (primary_tform cfg)" "plain (fallback_tform cfg)" "plain (zcmptype cfg)" "plain (zquantiz m)"
  by (cases cfg; simp add: primary_tform_def fallback_tform_def)+ (cases m; simp)

lemma column_strings:
  assumes a: "args_ok a"
  shows "parse_string_keyword (args_header a) ''TFORM1'' = Some (primary_tform (ia_cfg a))"
    "parse_string_keyword (args_header a) ''TTYPE1'' = Some ''COMPRESSED_DATA''"
    "ia_quantize a \<noteq> None \<Longrightarrow> parse_string_keyword (args_header a) ''TFORM2'' = Some ''1D''"
    "ia_quantize a \<noteq> None \<Longrightarrow> parse_string_keyword (args_header a) ''TTYPE2'' = Some ''ZSCALE''"
    "ia_quantize a \<noteq> None \<Longrightarrow> parse_string_keyword (args_header a) ''TFORM3'' = Some ''1D''"
    "ia_quantize a \<noteq> None \<Longrightarrow> parse_string_keyword (args_header a) ''TTYPE3'' = Some ''ZZERO''"
    "ia_quantize a \<noteq> None \<Longrightarrow> parse_string_keyword (args_header a) ''TFORM4'' = Some (fallback_tform (ia_cfg a))"
    "ia_quantize a \<noteq> None \<Longrightarrow> parse_string_keyword (args_header a) ''TTYPE4'' = Some ''GZIP_COMPRESSED_DATA''"
    "parse_string_keyword (args_header a) ''ZCMPTYPE'' = Some (zcmptype (ia_cfg a))"
proof -
  note S = plain_strs[OF a]
  show "parse_string_keyword (args_header a) ''TFORM1'' = Some (primary_tform (ia_cfg a))"
    by (rule S[of _ _ "''compressed data descriptor''"]) (use a in \<open>simp_all add: args_defs fixed_entries_def flip: primary_tform_def fallback_tform_def\<close>)
  show "parse_string_keyword (args_header a) ''TTYPE1'' = Some ''COMPRESSED_DATA''"
    by (rule S[of _ _ "''label for column 1''"]) (use a in \<open>simp_all add: args_defs fixed_entries_def flip: primary_tform_def fallback_tform_def\<close>)
  show "parse_string_keyword (args_header a) ''ZCMPTYPE'' = Some (zcmptype (ia_cfg a))"
    by (rule S[of _ _ "''compression algorithm''"]) (use a in \<open>simp_all add: args_defs fixed_entries_def flip: primary_tform_def fallback_tform_def\<close>)
  assume q: "ia_quantize a \<noteq> None"
  show "parse_string_keyword (args_header a) ''TFORM2'' = Some ''1D''"
    by (rule S[of _ _ "''per-tile linear-scale factor''"]) (use q in \<open>simp_all add: args_defs fixed_entries_def flip: primary_tform_def fallback_tform_def\<close>)
  show "parse_string_keyword (args_header a) ''TTYPE2'' = Some ''ZSCALE''"
    by (rule S[of _ _ "''label for column 2''"]) (use q in \<open>simp_all add: args_defs fixed_entries_def flip: primary_tform_def fallback_tform_def\<close>)
  show "parse_string_keyword (args_header a) ''TFORM3'' = Some ''1D''"
    by (rule S[of _ _ "''per-tile linear-scale zero point''"]) (use q in \<open>simp_all add: args_defs fixed_entries_def flip: primary_tform_def fallback_tform_def\<close>)
  show "parse_string_keyword (args_header a) ''TTYPE3'' = Some ''ZZERO''"
    by (rule S[of _ _ "''label for column 3''"]) (use q in \<open>simp_all add: args_defs fixed_entries_def flip: primary_tform_def fallback_tform_def\<close>)
  show "parse_string_keyword (args_header a) ''TFORM4'' = Some (fallback_tform (ia_cfg a))"
    by (rule S[of _ _ "''lossless GZIP fallback for unquantizable tiles''"]) (use q in \<open>simp_all add: args_defs fixed_entries_def flip: primary_tform_def fallback_tform_def\<close>)
  show "parse_string_keyword (args_header a) ''TTYPE4'' = Some ''GZIP_COMPRESSED_DATA''"
    by (rule S[of _ _ "''label for column 4''"]) (use q in \<open>simp_all add: args_defs fixed_entries_def flip: primary_tform_def fallback_tform_def\<close>)
qed


subsection \<open>Columns\<close>

lemma numbered_small:
  "numbered k (Suc 0) = k @ ''1''" "numbered k (Suc (Suc 0)) = k @ ''2''"
  "numbered k (Suc (Suc (Suc 0))) = k @ ''3''" "numbered k (Suc (Suc (Suc (Suc 0)))) = k @ ''4''"
  by (simp_all add: numbered_def dec_digits.simps char_of_def bit_0)

lemma tform_widths [simp]:
  "tform_byte_width ''1PB'' = Inr 8" "tform_byte_width ''1QB'' = Inr 16" "tform_byte_width ''1PI'' = Inr 8"
  "tform_byte_width ''1QI'' = Inr 16" "tform_byte_width ''1D'' = Inr 8"
  by (simp_all add: tform_byte_width_def Let_def digits_prefix_def is_digit_def parse_u64_def parse_digits_def digit_val_def)

lemma tform_kinds [simp]:
  "tform_is_q_descriptor ''1PB'' \<longleftrightarrow> False" "tform_is_q_descriptor ''1QB''" "tform_is_q_descriptor ''1PI'' \<longleftrightarrow> False"
  "tform_is_q_descriptor ''1QI''" "tform_vla_inner_byte_width ''1PB'' = Some 1" "tform_vla_inner_byte_width ''1QB'' = Some 1"
  "tform_vla_inner_byte_width ''1PI'' = Some 2" "tform_vla_inner_byte_width ''1QI'' = Some 2"
  by (simp_all add: tform_is_q_descriptor_def tform_vla_inner_byte_width_def is_digit_def)

definition is_plio :: "compression_config \<Rightarrow> bool" where
  "is_plio cfg = (case cfg of CPlio1 _ \<Rightarrow> True | _ \<Rightarrow> False)"

definition expected_columns :: "compression_config \<Rightarrow> bool \<Rightarrow> zimage_data_columns" where
  "expected_columns cfg quantized =
     (let q = (config_heap_format cfg = CHR ''Q''); d = (if q then 16 else 8)
      in \<lparr>primary = \<lparr>byte_offset_in_row = 0, is_q = q, inner_byte_width = (if is_plio cfg then 2 else 1)\<rparr>,
          gzip_fallback = (if quantized then Some \<lparr>byte_offset_in_row = d + 16, is_q = q, inner_byte_width = 1\<rparr> else None),
          uncompressed_fallback = None,
          zscale_offset_in_row = (if quantized then Some d else None),
          zzero_offset_in_row = (if quantized then Some (d + 8) else None)\<rparr>)"

lemma tform_cases:
  assumes "config_ok cfg"
  shows "tform_byte_width (primary_tform cfg) = Inr (if config_heap_format cfg = CHR ''Q'' then 16 else 8)"
    "tform_is_q_descriptor (primary_tform cfg) = (config_heap_format cfg = CHR ''Q'')"
    "tform_vla_inner_byte_width (primary_tform cfg) = Some (if is_plio cfg then 2 else 1)"
    "tform_byte_width (fallback_tform cfg) = Inr (if config_heap_format cfg = CHR ''Q'' then 16 else 8)"
    "tform_is_q_descriptor (fallback_tform cfg) = (config_heap_format cfg = CHR ''Q'')"
    "tform_vla_inner_byte_width (fallback_tform cfg) = Some 1"
  using assms
  by (cases cfg; force simp: config_ok_def primary_tform_def fallback_tform_def is_plio_def)+

lemma columns_read:
  assumes a: "args_ok a"
  shows "find_data_columns (args_header a) = Inr (expected_columns (ia_cfg a) (ia_quantize a \<noteq> None))"
proof -
  have ok: "config_ok (ia_cfg a)" using a by (simp add: args_ok_def)
  note T = tform_cases[OF ok] and S = column_strings[OF a]
  show ?thesis
  proof (cases "ia_quantize a = None")
    case True
    then have "[1..<Suc (nat (max 0 (case parse_keyword (args_header a) ''TFIELDS'' of None \<Rightarrow> 0 | Some v \<Rightarrow> v)))] = [Suc 0]"
      using fixed_ints(5)[OF a] by simp
    then show ?thesis
      using True fixed_ints(5)[OF a] S(1,2) T
      unfolding find_data_columns_def Let_def
      by (simp add: numbered_small scan_column_def Let_def expected_columns_def)
  next
    case False
    then have "[1..<Suc (nat (max 0 (case parse_keyword (args_header a) ''TFIELDS'' of None \<Rightarrow> 0 | Some v \<Rightarrow> v)))]
        = [Suc 0, Suc (Suc 0), Suc (Suc (Suc 0)), Suc (Suc (Suc (Suc 0)))]"
      using fixed_ints(5)[OF a] by (simp add: upt_conv_Cons)
    then show ?thesis
      using False fixed_ints(5)[OF a] S(1,2) S(3-8)[OF False] T
      unfolding find_data_columns_def Let_def
      by (simp add: numbered_small scan_column_def Let_def expected_columns_def)
  qed
qed

subsection \<open>Parameters\<close>

lemma digit_val_less: "is_digit c \<Longrightarrow> digit_val c < 10"
  unfolding is_digit_def digit_val_def by linarith

lemma digits_value_bound:
  "list_all is_digit s \<Longrightarrow> foldl (\<lambda>a c. 10 * a + digit_val c) m s < (m + 1) * 10 ^ length s"
proof (induction s arbitrary: m)
  case (Cons c s)
  have "10 * m + digit_val c + 1 \<le> 10 * (m + 1)" using Cons.prems digit_val_less[of c] by simp
  then have "(10 * m + digit_val c + 1) * 10 ^ length s \<le> 10 * (m + 1) * 10 ^ length s" by (rule mult_right_mono) simp
  then show ?case using Cons.IH[of "10 * m + digit_val c"] Cons.prems
    by (auto simp only: list.pred_inject foldl_Cons length_Cons power_Suc mult.assoc[symmetric] mult.commute[of _ 10]
        intro: less_le_trans)
qed simp

lemma dec_digits_bound: "n < 10 ^ length (dec_digits n)"
  using digits_value_bound[of "dec_digits n" 0] dec_digits_ok[of n] by simp

lemma trim_length: "length (trim s) \<le> length s"
  using length_dropWhile_le[of is_ws s] length_dropWhile_le[of is_ws "rev (dropWhile is_ws s)"]
  by (simp add: trim_def trim_end_def trim_start_def)

lemma zname_limit:
  assumes "1000 \<le> n"
  shows "parse_string_keyword header (numbered ''ZNAME'' n) = None"
proof -
  have "n < 10 ^ length (dec_digits n)" by (rule dec_digits_bound)
  then have "3 < length (dec_digits n)"
    using assms power_increasing[of "length (dec_digits n)" 3 "10 :: nat"] by (cases "3 < length (dec_digits n)") auto
  then have "8 < length (numbered ''ZNAME'' n)" by (simp add: numbered_def)
  then have "trim (take 8 cd) \<noteq> numbered ''ZNAME'' n" for cd :: string
    using trim_length[of "take 8 cd"] by auto
  then have "\<not> card_for_key (numbered ''ZNAME'' n) cd" for cd by (simp add: card_for_key_def)
  then show ?thesis by (induction header) auto
qed

lemma param_values:
  assumes "args_ok a" "(name, v) \<in> set (extra_z_cards (ia_cfg a) (ia_bitpix a))"
  shows "in_i64 v" "plain name" "trim name = name"
proof -
  have u: "in_i64 (uint (w :: u32))" for w
  proof -
    have "0 \<le> uint w" "uint w < 4294967296" using unsigned_less[of w, where ?'a = int] by simp_all
    then show ?thesis unfolding in_i64_def by (intro conjI; linarith)
  qed
  have s: "in_i64 (sint (w :: i32))" for w
    using sint_range_size[of w] by (simp add: in_i64_def word_size)
  have b: "in_i64 (sgn (ia_bitpix a) * (\<bar>ia_bitpix a\<bar> div 8))"
    using assms(1) by (auto simp: args_ok_def in_i64_def)
  show "in_i64 v" using assms(2) u s b by (cases "ia_cfg a") (auto simp: in_i64_def)
  show "plain name" using assms(2) by (cases "ia_cfg a") auto
  show "trim name = name" using assms(2)
    by (cases "ia_cfg a") (auto simp: trim_def trim_start_def trim_end_def is_ws_def)
qed

lemma param_lookup:
  assumes a: "args_ok a" and i: "i < length (extra_z_cards (ia_cfg a) (ia_bitpix a))"
    and nv: "extra_z_cards (ia_cfg a) (ia_bitpix a) ! i = (name, v)"
  shows "parse_string_keyword (args_header a) (numbered ''ZNAME'' (Suc i)) = Some name"
    "parse_keyword (args_header a) (numbered ''ZVAL'' (Suc i)) = Some v"
proof -
  have m: "(i, name, v) \<in> set (enumerate 0 (extra_z_cards (ia_cfg a) (ia_bitpix a)))"
    using i nv by (simp add: in_set_enumerate_eq)
  have mem: "(name, v) \<in> set (extra_z_cards (ia_cfg a) (ia_bitpix a))" using i nv by (metis nth_mem)
  have "EStr (numbered ''ZNAME'' (i + 1)) name (numbered ''compression parameter '' (i + 1)) \<in> set (args_entries a)"
    "EInt (numbered ''ZVAL'' (i + 1)) v (numbered ''value of ZNAME'' (i + 1)) \<in> set (args_entries a)"
    using m by (force simp: args_defs param_entries_def)+
  then show "parse_string_keyword (args_header a) (numbered ''ZNAME'' (Suc i)) = Some name"
    "parse_keyword (args_header a) (numbered ''ZVAL'' (Suc i)) = Some v"
    using plain_strs[OF a] ints[OF a] param_values[OF a mem] by auto
qed

lemma args_keys:
  "ekey ` set (args_entries a) \<subseteq>
     all_literals - {''ZNAME1'', ''ZVAL1'', ''ZNAME2'', ''ZVAL2''} \<union> range (numbered ''ZNAXIS'') \<union> range (numbered ''ZTILE'')
       \<union> ekey ` set (param_entries (extra_z_cards (ia_cfg a) (ia_bitpix a)))"
  unfolding args_defs set_append image_Un axis_key_set
proof (intro Un_least)
  let ?L = "all_literals - {''ZNAME1'', ''ZVAL1'', ''ZNAME2'', ''ZVAL2''}"
  let ?R = "?L \<union> range (numbered ''ZNAXIS'') \<union> range (numbered ''ZTILE'')
       \<union> ekey ` set (param_entries (extra_z_cards (ia_cfg a) (ia_bitpix a)))"
  have L: "?L \<subseteq> ?R" by blast
  show "ekey ` set (fixed_entries (ia_cfg a) (ia_quantize a \<noteq> None) (ia_bitpix a) (row_bytes (ia_cfg a) (ia_quantize a \<noteq> None))
      (compute_n_tiles (ia_dims a) (ia_tiles a)) (length (ia_dims a))) \<subseteq> ?R"
    by (rule order_trans[OF key_sets(1)], rule order_trans[OF _ L]) (simp add: all_literals_def)
  show "ekey ` set (quantize_entries (ia_quantize a)) \<subseteq> ?R"
    by (rule order_trans[OF key_sets(2)], rule order_trans[OF _ L]) (simp add: all_literals_def)
  show "ekey ` set (tail_entries (ia_extname a) (ia_extver a) (ia_bzero a) (ia_zblank a)) \<subseteq> ?R"
    by (rule order_trans[OF key_sets(3)], rule order_trans[OF _ L]) (simp add: all_literals_def)
qed blast+

lemma args_keys_member:
  "k \<in> ekey ` set (args_entries a) \<Longrightarrow>
   k \<in> all_literals - {''ZNAME1'', ''ZVAL1'', ''ZNAME2'', ''ZVAL2''} \<or> (\<exists>i. k = numbered ''ZNAXIS'' i) \<or> (\<exists>i. k = numbered ''ZTILE'' i)
     \<or> k \<in> ekey ` set (param_entries (extra_z_cards (ia_cfg a) (ia_bitpix a)))"
  using args_keys[of a] by blast

lemma zname_absent:
  assumes "args_ok a" "i = length (extra_z_cards (ia_cfg a) (ia_bitpix a))"
  shows "parse_string_keyword (args_header a) (numbered ''ZNAME'' (Suc i)) = None"
proof -
  let ?ps = "extra_z_cards (ia_cfg a) (ia_bitpix a)"
  have "(?ps = [] \<and> numbered ''ZNAME'' (Suc i) = ''ZNAME1'') \<or> numbered ''ZNAME'' (Suc i) = ''ZNAME3''"
    using assms(2) by (cases "ia_cfg a") (simp_all add: numbered_small)
  moreover have "ekey ` set (param_entries ?ps) \<subseteq> {''ZNAME1'', ''ZVAL1'', ''ZNAME2'', ''ZVAL2''}"
    using param_keys(1)[of "ia_cfg a" "ia_bitpix a"] by simp
  moreover have "?ps = [] \<Longrightarrow> ekey ` set (param_entries ?ps) = {}" by (simp add: param_entries_def)
  ultimately have "numbered ''ZNAME'' (Suc i) \<notin> ekey ` set (args_entries a)"
    using args_keys_member[of "numbered ''ZNAME'' (Suc i)" a] by (elim disjE conjE) (auto simp: all_literals_def numbered_def)
  then show ?thesis using absent[OF assms(1)] by blast
qed

lemma takeWhile_upt:
  assumes "m \<le> k" "k < n" "\<And>i. m \<le> i \<Longrightarrow> i < k \<Longrightarrow> P i" "\<not> P k"
  shows "takeWhile P [m..<n] = [m..<k]"
proof -
  have "[m..<n] = [m..<k] @ k # [Suc k..<n]"
    using upt_add_eq_append[OF assms(1), of "n - k"] upt_conv_Cons[OF assms(2)] assms(2) by simp
  moreover have "takeWhile P ([m..<k] @ k # [Suc k..<n]) = [m..<k] @ takeWhile P (k # [Suc k..<n])"
    by (rule takeWhile_append2) (use assms(3) in simp)
  ultimately show ?thesis using assms(4) by simp
qed

lemma z_pairs_read:
  assumes a: "args_ok a"
  shows "z_pairs (args_header a) = map (\<lambda>(name, v). (name, Some v)) (extra_z_cards (ia_cfg a) (ia_bitpix a))"
proof -
  let ?ps = "extra_z_cards (ia_cfg a) (ia_bitpix a)"
  let ?P = "\<lambda>n. parse_string_keyword (args_header a) (numbered ''ZNAME'' n) \<noteq> None"
  have l: "length ?ps \<le> 2" by (cases "ia_cfg a") auto
  have L: "parse_string_keyword (args_header a) (numbered ''ZNAME'' (Suc i)) = Some (fst (?ps ! i))"
    "parse_keyword (args_header a) (numbered ''ZVAL'' (Suc i)) = Some (snd (?ps ! i))" if "i < length ?ps" for i
    using param_lookup[OF a that, of "fst (?ps ! i)" "snd (?ps ! i)"] by simp_all
  have "takeWhile ?P [1..<1000] = [1..<Suc (length ?ps)]"
  proof (rule takeWhile_upt)
    show "?P i" if "1 \<le> i" "i < Suc (length ?ps)" for i using L(1)[of "i - 1"] that by simp
    show "\<not> ?P (Suc (length ?ps))" using zname_absent[OF a refl] by simp
  qed (use l in simp_all)
  moreover have "trim (fst (?ps ! i)) = fst (?ps ! i)" if "i < length ?ps" for i
    using param_values(3)[OF a, of "fst (?ps ! i)" "snd (?ps ! i)"] that by simp
  ultimately show ?thesis
    unfolding z_pairs_def
    by (intro nth_equalityI) (simp_all add: L case_prod_beta del: upt_Suc)
qed


definition expected_blocksize :: "compression_config \<Rightarrow> u32 option" where
  "expected_blocksize cfg = (case cfg of CRice1 r \<Rightarrow> Some (r_blocksize r) | _ \<Rightarrow> None)"

definition expected_smooth :: "compression_config \<Rightarrow> bool" where
  "expected_smooth cfg = (case cfg of CHcompress1 h \<Rightarrow> h_smooth h | _ \<Rightarrow> False)"

lemma rice_params_read:
  assumes a: "args_ok a"
  shows "parse_rice_params (args_header a) =
    (expected_blocksize (ia_cfg a),
     case ia_cfg a of CRice1 _ \<Rightarrow> (if ia_bitpix a < 0 then None else Some (as_u32 (ia_bitpix a div 8))) | _ \<Rightarrow> None)"
proof -
  have ok: "config_ok (ia_cfg a)" and b: "ia_bitpix a \<in> {8, 16, 32, 64, - 32, - 64}" using a by (auto simp: args_ok_def)
  have w: "0 < uint w" "as_u32 (uint w) = w" if "0 < w" for w :: u32
    using that by (simp_all add: word_less_def as_u32_def)
  show ?thesis
    using ok b w unfolding parse_rice_params_def z_pairs_read[OF a]
    by (cases "ia_cfg a") (auto simp: rice_param_def expected_blocksize_def config_ok_def)
qed

lemma lower_param_names:
  "map lower_char ''SCALE'' = ''scale''" "map lower_char ''SMOOTH'' = ''smooth''" "map lower_char ''BLOCKSIZE'' = ''blocksize''"
  "map lower_char ''BYTEPIX'' = ''bytepix''"
  by (simp_all add: lower_char_def char_of_def bit_0)

lemma param_names_differ [simp]:
  "eq_ignore_ascii_case ''SCALE'' ''SCALE''" "eq_ignore_ascii_case ''SMOOTH'' ''SMOOTH''"
  "\<not> eq_ignore_ascii_case ''SCALE'' ''SMOOTH''" "\<not> eq_ignore_ascii_case ''BLOCKSIZE'' ''SMOOTH''"
  "\<not> eq_ignore_ascii_case ''BYTEPIX'' ''SMOOTH''"
  unfolding eq_ignore_ascii_case_def lower_param_names by simp_all

lemma hcompress_params_read:
  assumes a: "args_ok a"
  shows "parse_hcompress_smooth (args_header a) = expected_smooth (ia_cfg a)"
    "ia_cfg a = CHcompress1 h \<Longrightarrow> of_int (parse_hcompress_scale (args_header a)) = h_scale h"
proof -
  note P = z_pairs_read[OF a]
  show "parse_hcompress_smooth (args_header a) = expected_smooth (ia_cfg a)"
    unfolding parse_hcompress_smooth_def P by (cases "ia_cfg a") (simp_all add: expected_smooth_def)
  assume h: "ia_cfg a = CHcompress1 h"
  have "as_i32 (sint (h_scale h)) = sint (h_scale h)"
    using sint_range_size[of "h_scale h"] by (simp add: as_i32_def word_size)
  then show "of_int (parse_hcompress_scale (args_header a)) = h_scale h"
    unfolding parse_hcompress_scale_def P h by simp
qed

lemma theap_absent: "args_ok a \<Longrightarrow> parse_keyword (args_header a) ''THEAP'' = None"
proof -
  assume a: "args_ok a"
  have "''THEAP'' \<notin> ekey ` set (args_entries a)"
    using args_keys_member[of "''THEAP''" a] param_keys(1)[of "ia_cfg a" "ia_bitpix a"]
    by (auto simp: all_literals_def numbered_def)
  then show ?thesis using absent[OF a] by blast
qed

lemma quantize_keys_absent:
  assumes q: "ia_quantize a = None" and k: "k \<in> {''ZQUANTIZ'', ''ZDITHER0'', ''ZBLANK''}" and z: "ia_zblank a = None"
  shows "k \<notin> ekey ` set (args_entries a)"
proof -
  have "ekey ` set (tail_entries (ia_extname a) (ia_extver a) (ia_bzero a) (ia_zblank a)) \<subseteq> {''EXTNAME'', ''EXTVER'', ''BSCALE'', ''BZERO''}"
    by (rule key_sets(4)[OF z])
  then have t: "k \<notin> ekey ` set (tail_entries (ia_extname a) (ia_extver a) (ia_bzero a) (ia_zblank a))" using k by auto
  have f: "k \<notin> ekey ` set (fixed_entries (ia_cfg a) (ia_quantize a \<noteq> None) (ia_bitpix a) (row_bytes (ia_cfg a) (ia_quantize a \<noteq> None))
      (compute_n_tiles (ia_dims a) (ia_tiles a)) (length (ia_dims a)))"
    using k q by (auto simp: fixed_entries_def)
  have p: "k \<notin> ekey ` set (param_entries (extra_z_cards (ia_cfg a) (ia_bitpix a)))"
    using param_keys(1)[of "ia_cfg a" "ia_bitpix a"] k by auto
  have n: "k \<notin> numbered ''ZNAXIS'' ` N" "k \<notin> numbered ''ZTILE'' ` N" for N
    using k by (auto simp: numbered_def)
  have e: "k \<notin> ekey ` set (quantize_entries (ia_quantize a))" using q by (simp add: quantize_entries_def)
  from t f p n e show ?thesis unfolding args_defs set_append image_Un axis_key_set Un_iff by blast
qed

lemma zblank_read:
  assumes a: "args_ok a"
  shows "parse_keyword (args_header a) ''ZBLANK'' = (if ia_quantize a \<noteq> None then Some (- 2147483647) else ia_zblank a)"
proof (cases "ia_quantize a")
  case (Some q)
  then show ?thesis
    using ints[OF a, of "''ZBLANK''" "- 2147483647" "''quantized null-pixel sentinel''"]
    by (simp add: args_defs quantize_entries_def in_i64_def)
next
  case q: None
  show ?thesis
  proof (cases "ia_zblank a")
    case (Some b)
    then show ?thesis
      using ints[OF a, of "''ZBLANK''" b "''integer sentinel for blank pixels''"] a q
      by (simp add: args_defs tail_entries_def args_ok_def)
  next
    case None
    show ?thesis using absent[OF a quantize_keys_absent[OF q _ None, of "''ZBLANK''"]] q None by simp
  qed
qed

definition expected_quant :: "image_args \<Rightarrow> zimage_quant_context option" where
  "expected_quant a =
     (case ia_quantize a of None \<Rightarrow> None
      | Some q \<Rightarrow>
          (let d = (if config_heap_format (ia_cfg a) = CHR ''Q'' then 16 else 8)
           in Some \<lparr>qc_method = q_method q, qc_zdither0 = (if q_seed q > 0 then q_seed q else 1),
                    qc_zscale_offset = d, qc_zzero_offset = d + 8, qc_output_zbitpix = ia_bitpix a\<rparr>))"

lemma parse_dither_zquantiz: "parse_dither_method (Some (zquantiz m)) = Inr (Some m)"
  by (cases m) (simp_all add: parse_dither_method_def)

lemma quant_read:
  assumes a: "args_ok a" and neg: "ia_bitpix a < 0"
  shows "build_quant_context (args_header a) (expected_columns (ia_cfg a) (ia_quantize a \<noteq> None)) = Inr (expected_quant a)"
proof (cases "ia_quantize a")
  case q: (Some q)
  have mem: "EStr ''ZQUANTIZ'' (zquantiz (q_method q)) ''dithering method'' \<in> set (args_entries a)"
    "EInt ''ZDITHER0'' (if q_seed q > 0 then q_seed q else 1) ''dithering offset/seed'' \<in> set (args_entries a)"
    by (simp_all add: args_defs quantize_entries_def q)
  have "in_i64 (if q_seed q > 0 then q_seed q else 1)" using a q by (auto simp: args_ok_def in_i64_def)
  note R = plain_strs[OF a mem(1)] ints[OF a mem(2) this]
  have "as_i32 (ia_bitpix a) = ia_bitpix a" "ia_bitpix a = - 32 \<or> ia_bitpix a = - 64"
    using a neg by (auto simp: args_ok_def as_i32_def)
  then show ?thesis
    using R fixed_ints(1)[OF a] q
    by (auto simp: build_quant_context_def parse_dither_zquantiz expected_columns_def expected_quant_def Let_def)
next
  case None
  moreover have "ia_zblank a = None" using a neg by (simp add: args_ok_def)
  ultimately have "''ZQUANTIZ'' \<notin> ekey ` set (args_entries a)" by (intro quantize_keys_absent) simp_all
  then show ?thesis
    using None absent[OF a, of "''ZQUANTIZ''"]
    by (simp add: build_quant_context_def parse_dither_method_def expected_columns_def expected_quant_def Let_def)
qed


subsection \<open>Metadata and configuration\<close>

definition expected_meta :: "image_args \<Rightarrow> compressed_image_meta" where
  "expected_meta a =
     (let n_tiles = compute_n_tiles (ia_dims a) (ia_tiles a); naxis1 = row_bytes (ia_cfg a) (ia_quantize a \<noteq> None)
      in \<lparr>m_zbitpix = ia_bitpix a, m_image_shape = ia_dims a, m_tile_shape = ia_tiles a, m_n_tiles = n_tiles,
          m_algorithm = algorithm_of (ia_cfg a),
          m_blocksize = (case expected_blocksize (ia_cfg a) of Some b \<Rightarrow> b | None \<Rightarrow> 32),
          m_bytepix = (if ia_bitpix a < 0 then 4 else as_u32 (ia_bitpix a div 8)),
          m_smooth = expected_smooth (ia_cfg a), m_naxis1 = naxis1, m_theap = naxis1 * n_tiles,
          m_cols = expected_columns (ia_cfg a) (ia_quantize a \<noteq> None), m_quant = expected_quant a,
          m_zblank = (if ia_quantize a \<noteq> None then Some (- 2147483647) else ia_zblank a)\<rparr>)"

lemma parse_algorithm_zcmptype: "parse_algorithm (zcmptype cfg) = Inr (algorithm_of cfg)"
  by (cases cfg) (simp_all add: parse_algorithm_def algorithm_of_def)

lemma algorithm_read: "args_ok a \<Longrightarrow> require_algorithm (args_header a) = Inr (algorithm_of (ia_cfg a))"
  using column_strings(9)[of a] by (simp add: require_algorithm_def parse_algorithm_zcmptype)

lemma default_bytepix_read:
  "args_ok a \<Longrightarrow> default_bytepix (ia_bitpix a) = Inr (if ia_bitpix a < 0 then 4 else as_u32 (ia_bitpix a div 8))"
  by (auto simp: args_ok_def default_bytepix_def as_u32_def Let_def)

lemma meta_read:
  assumes a: "args_ok a"
  shows "parse_compressed_image_meta (args_header a) = Inr (expected_meta a)"
proof -
  have ne: "ia_dims a \<noteq> []" using a by (simp add: args_ok_def)
  have q: "\<not> ia_bitpix a < 0 \<Longrightarrow> expected_quant a = None" using a by (auto simp: args_ok_def expected_quant_def split: option.split)
  have bp: "ia_bitpix a < 0 \<Longrightarrow> (case snd (parse_rice_params (args_header a)) of Some b \<Rightarrow> b | None \<Rightarrow> 4) = 4"
    "\<not> ia_bitpix a < 0 \<Longrightarrow>
     (case snd (parse_rice_params (args_header a)) of Some b \<Rightarrow> b | None \<Rightarrow> as_u32 (ia_bitpix a div 8)) = as_u32 (ia_bitpix a div 8)"
    unfolding rice_params_read[OF a] by (cases "ia_cfg a"; simp)+
  have req: "require (args_header a) ''NAXIS1'' = Inr (as_i64 (row_bytes (ia_cfg a) (ia_quantize a \<noteq> None)))"
    "require (args_header a) ''NAXIS2'' = Inr (as_i64 (compute_n_tiles (ia_dims a) (ia_tiles a)))"
    by (simp_all add: require_def fixed_ints[OF a])
  have bs: "fst (parse_rice_params (args_header a)) = expected_blocksize (ia_cfg a)" unfolding rice_params_read[OF a] by simp
  show ?thesis
    unfolding parse_compressed_image_meta_def algorithm_read[OF a] shape_read[OF a] Let_def case_prod_beta
    using ne quant_read[OF a] q bp
    by (cases "ia_bitpix a < 0"; cases "ia_quantize a")
      (simp_all add: default_bytepix_read[OF a] req theap_absent[OF a] columns_read[OF a] tiles_read[OF a] bs
        hcompress_params_read(1)[OF a] zblank_read[OF a] expected_meta_def Let_def)
qed

text \<open>The configuration without what the header does not record, the gzip level.\<close>

fun forget_level :: "compression_config \<Rightarrow> compression_config" where
  "forget_level (CGzip1 g) = CGzip1 (g\<lparr>g1_level := None\<rparr>)"
| "forget_level (CGzip2 g) = CGzip2 (g\<lparr>g2_level := None\<rparr>)"
| "forget_level cfg = cfg"

lemma heap_format_read:
  assumes "config_ok cfg"
  shows "(if starts_with ''1Q'' (trim (primary_tform cfg)) \<or> starts_with ''Q'' (trim (primary_tform cfg)) then CHR ''Q'' else CHR ''P'')
    = config_heap_format cfg"
  using assms by (cases cfg) (auto simp: config_ok_def primary_tform_def starts_with_def)

lemma config_read:
  assumes a: "args_ok a"
  shows "build_compression_config (args_header a) = Inr (forget_level (with_resolved_tile_shape (ia_cfg a) (ia_tiles a)))"
proof -
  have ok: "config_ok (ia_cfg a)" using a by (simp add: args_ok_def)
  have bs: "fst (parse_rice_params (args_header a)) = expected_blocksize (ia_cfg a)" unfolding rice_params_read[OF a] by simp
  have hf: "(case parse_string_keyword (args_header a) ''TFORM1'' of
      Some t \<Rightarrow> if starts_with ''1Q'' (trim t) \<or> starts_with ''Q'' (trim t) then CHR ''Q'' else CHR ''P'' | None \<Rightarrow> CHR ''P'')
      = config_heap_format (ia_cfg a)"
    unfolding column_strings(1)[OF a] option.case by (rule heap_format_read[OF ok])
  show ?thesis
    using hcompress_params_read(2)[OF a]
    unfolding build_compression_config_def algorithm_read[OF a] shape_read[OF a] Let_def case_prod_beta
    by (cases "ia_cfg a")
      (simp_all add: hf tiles_read[OF a] bs hcompress_params_read(1)[OF a]
        algorithm_of_def expected_blocksize_def expected_smooth_def)
qed

subsection \<open>The arguments of a created image\<close>

lemma dtype_bitpix: "dtype_to_bitpix dtype = Inr (bitpix, bzero) \<Longrightarrow> bitpix \<in> {8, 16, 32, 64, - 32, - 64}"
  by (auto simp: dtype_to_bitpix_def Let_def split: if_splits)

lemma check_dims_nonneg: "check_dims i ds = Inr u \<Longrightarrow> \<forall>d \<in> set ds. 0 \<le> d"
  by (induction i ds arbitrary: u rule: check_dims.induct) (auto simp: Let_def split: if_splits)

lemma as_u64_small: "0 \<le> d \<Longrightarrow> d < 9223372036854775808 \<Longrightarrow> as_u64 d < 2 ^ 63"
  by (simp add: as_u64_def word_less_def unsigned_of_int take_bit_int_eq_self)

lemma stored_blank_range: "physical_blank_to_stored b bitpix bzero = Inr v \<Longrightarrow> in_i64 v \<and> 0 \<le> bitpix"
  by (auto simp: physical_blank_to_stored_def Let_def in_i64_def split: if_splits)

lemma first_tile_bound: "\<forall>t \<in> set ts. t \<le> 30 \<Longrightarrow> first_tile ts n \<le> 30"
  by (induction ts n rule: first_tile.induct) (auto simp: Let_def)

lemma slow_tile_bound: "hcompress_default_slow_tile n \<le> 30"
  unfolding hcompress_default_slow_tile_def by (simp add: first_tile_bound del: first_tile.simps)

lemma resolve_tiles:
  assumes "resolve_tile_shape cfg ds = Inr ts" "ds \<noteq> []" "\<forall>d \<in> set ds. d < 2 ^ 63"
    and "case config_tile_shape cfg of None \<Rightarrow> True | Some ts \<Rightarrow> \<forall>t \<in> set ts. t < 2 ^ 63"
    and "\<And>h. cfg = CHcompress1 h \<Longrightarrow> length ds = 2"
  shows "length ts = length ds \<and> (\<forall>t \<in> set ts. t < 2 ^ 63)"
proof (cases "config_tile_shape cfg")
  case (Some x)
  then show ?thesis using assms(1,4) by (auto simp: resolve_tile_shape_def split: if_splits)
next
  case None
  have small: "t < 2 ^ 63" if "t \<le> 30" for t :: u64 using that by (rule le_less_trans) simp
  have last: "ds ! (length ds - 1) < 2 ^ 63" using assms(2,3) by simp
  show ?thesis
  proof (cases "\<exists>h. cfg = CHcompress1 h")
    case True
    then have "ts = [hcompress_default_slow_tile (ds ! 0), ds ! 1]" "length ds = 2"
      using assms(1,5) None by (auto simp: resolve_tile_shape_def)
    then show ?thesis using small[OF slow_tile_bound[of "ds ! 0"]] assms(3) by simp
  next
    case False
    then have "ts = (replicate (length ds) 1)[length ds - 1 := ds ! (length ds - 1)]"
      using assms(1) None by (auto simp: resolve_tile_shape_def Let_def split: compression_config.splits)
    moreover have "set ((replicate (length ds) (1 :: u64))[length ds - 1 := ds ! (length ds - 1)]) \<subseteq> {1, ds ! (length ds - 1)}"
      by (rule set_update_subsetI) auto
    ultimately show ?thesis using last small[of 1] by auto
  qed
qed


definition created_zblank :: "int option \<Rightarrow> int \<Rightarrow> int option \<Rightarrow> int option" where
  "created_zblank blank bitpix bzero =
     (case blank of None \<Rightarrow> None
      | Some b \<Rightarrow> (case physical_blank_to_stored b bitpix bzero of Inr v \<Rightarrow> Some v | Inl _ \<Rightarrow> None))"

definition created ::
  "compression_config \<Rightarrow> Quantize option \<Rightarrow> int \<Rightarrow> int option \<Rightarrow> int list \<Rightarrow> u64 list \<Rightarrow> string option \<Rightarrow> int option \<Rightarrow> int option
     \<Rightarrow> image_args" where
  "created cfg quantize bitpix bzero dims ts extname extver blank =
     \<lparr>ia_cfg = cfg, ia_quantize = quantize, ia_bitpix = bitpix, ia_bzero = bzero, ia_dims = map as_u64 dims,
      ia_tiles = ts, ia_extname = extname, ia_extver = extver, ia_zblank = created_zblank blank bitpix bzero\<rparr>"

lemma created_args:
  assumes c: "create_compressed_image dtype dims extname extver cfg quantize blank = Inr (cards, stored)"
    and bits: "dtype_to_bitpix dtype = Inr (bitpix, bzero)" and tiles: "resolve_tile_shape cfg (map as_u64 dims) = Inr ts"
    and n: "length dims \<le> 99" and d: "\<forall>d \<in> set dims. d < 9223372036854775808" and ok: "config_ok cfg"
    and t: "case config_tile_shape cfg of None \<Rightarrow> True | Some ts \<Rightarrow> \<forall>t \<in> set ts. t < 2 ^ 63"
    and seed: "\<forall>q. quantize = Some q \<longrightarrow> in_i64 (q_seed q)"
  shows "args_ok (created cfg quantize bitpix bzero dims ts extname extver blank)"
    "cards = args_header (created cfg quantize bitpix bzero dims ts extname extver blank)"
    "stored = with_resolved_tile_shape cfg ts"
proof -
  let ?a = "created cfg quantize bitpix bzero dims ts extname extver blank"
  have ne: "dims \<noteq> []" and cd: "check_dims 0 dims = Inr ()" and q: "\<not> (bitpix \<ge> 0 \<and> quantize \<noteq> None)"
    and alg: "check_algorithm cfg bitpix bzero (length dims) (quantize \<noteq> None) = Inr ()"
    using c bits by (auto simp: create_compressed_image_def res_bind_Inr_iff split: if_splits)
  obtain zb where zb: "(case blank of None \<Rightarrow> Inr []
                     | Some b \<Rightarrow> if bitpix < 0 then Inl BlankOnFloat
                                else res_bind (physical_blank_to_stored b bitpix bzero) (\<lambda>stored.
                                       Inr [card_int ''ZBLANK'' stored ''integer sentinel for blank pixels''])) = Inr zb"
    and cards: "cards = compressed_image_cards cfg quantize bitpix bzero (map as_u64 dims) ts extname extver @ zb @ [pad_to_card ''END'']"
    and st: "stored = with_resolved_tile_shape cfg ts"
    using c bits tiles by (auto simp: create_compressed_image_def res_bind_Inr_iff Let_def split: if_splits)
  show "stored = with_resolved_tile_shape cfg ts" by (rule st)
  have zbe: "zb = (case created_zblank blank bitpix bzero of None \<Rightarrow> [] | Some b \<Rightarrow> [card_int ''ZBLANK'' b ''integer sentinel for blank pixels''])"
    "bitpix < 0 \<longrightarrow> created_zblank blank bitpix bzero = None" "\<forall>b. created_zblank blank bitpix bzero = Some b \<longrightarrow> in_i64 b"
    using zb stored_blank_range[of _ bitpix bzero]
    by (auto simp: created_zblank_def res_bind_Inr_iff split: option.splits if_splits sum.splits)
  show "cards = args_header ?a"
    unfolding cards zbe(1) args_header_def args_entries_def using image_cards_entries by (simp add: created_def)
  have small: "\<forall>d \<in> set (map as_u64 dims). d < 2 ^ 63" using check_dims_nonneg[OF cd] d as_u64_small by simp
  have two: "length (map as_u64 dims) = 2" if "cfg = CHcompress1 h" for h
    using that alg by (auto simp: check_algorithm_def split: if_splits)
  have "length ts = length dims \<and> (\<forall>t \<in> set ts. t < 2 ^ 63)"
    using resolve_tiles[OF tiles _ small t two] ne by simp
  then show "args_ok ?a"
    using n ne small dtype_bitpix[OF bits] q zbe(2,3) ok seed by (auto simp: args_ok_def created_def)
qed

subsection \<open>Properties\<close>

lemma i2_bitpix: "dtype_to_bitpix ''i2'' = Inr (16, None)"
  by (simp add: dtype_to_bitpix_def Let_def lower_char_def char_of_def bit_0)

text \<open>
  C8: the header written for a new compressed image is read back as what was asked for: from the
  cards \<open>create_compressed_image_hdu_impl\<close> writes, \<open>parse_compressed_image_meta\<close> recovers the
  bit depth, image shape, tile shape, algorithm and its parameters, the column layout, the
  quantisation context and the blank value. The bounds are those of the argument types
  (\<open>i64\<close> sizes and seed) and of the eight-character keyword (99 axes).
\<close>

theorem created_metadata_read_back:
  assumes "create_compressed_image dtype dims extname extver cfg quantize blank = Inr (cards, stored)"
    and "dtype_to_bitpix dtype = Inr (bitpix, bzero)" and "resolve_tile_shape cfg (map as_u64 dims) = Inr ts"
    and "length dims \<le> 99" and "\<forall>d \<in> set dims. d < 9223372036854775808" and "config_ok cfg"
    and "case config_tile_shape cfg of None \<Rightarrow> True | Some ts \<Rightarrow> \<forall>t \<in> set ts. t < 2 ^ 63"
    and "\<forall>q. quantize = Some q \<longrightarrow> in_i64 (q_seed q)"
  shows "parse_compressed_image_meta cards = Inr
    \<lparr>m_zbitpix = bitpix, m_image_shape = map as_u64 dims, m_tile_shape = ts,
     m_n_tiles = compute_n_tiles (map as_u64 dims) ts, m_algorithm = algorithm_of cfg,
     m_blocksize = (case cfg of CRice1 r \<Rightarrow> r_blocksize r | _ \<Rightarrow> 32),
     m_bytepix = (if bitpix < 0 then 4 else as_u32 (bitpix div 8)),
     m_smooth = (case cfg of CHcompress1 h \<Rightarrow> h_smooth h | _ \<Rightarrow> False),
     m_naxis1 = row_bytes cfg (quantize \<noteq> None),
     m_theap = row_bytes cfg (quantize \<noteq> None) * compute_n_tiles (map as_u64 dims) ts,
     m_cols = expected_columns cfg (quantize \<noteq> None),
     m_quant = (case quantize of None \<Rightarrow> None
       | Some q \<Rightarrow> Some \<lparr>qc_method = q_method q, qc_zdither0 = (if q_seed q > 0 then q_seed q else 1),
           qc_zscale_offset = (if config_heap_format cfg = CHR ''Q'' then 16 else 8),
           qc_zzero_offset = (if config_heap_format cfg = CHR ''Q'' then 24 else 16), qc_output_zbitpix = bitpix\<rparr>),
     m_zblank = (if quantize \<noteq> None then Some (- 2147483647) else created_zblank blank bitpix bzero)\<rparr>"
proof -
  note A = created_args[OF assms]
  show ?thesis
    unfolding A(2) meta_read[OF A(1)]
    by (cases cfg) (simp_all add: created_def expected_meta_def expected_quant_def expected_blocksize_def expected_smooth_def Let_def split: option.split)
qed

theorem created_metadata_read_back_witness:
  "\<exists>cards stored.
     create_compressed_image ''i2'' [4, 6] None None (CRice1 \<lparr>r_tile_shape = None, r_heap_format = CHR ''P'', r_blocksize = 32\<rparr>) None None
       = Inr (cards, stored) \<and>
     map_sum id m_image_shape (parse_compressed_image_meta cards) = Inr [4, 6]"
proof -
  let ?c = "CRice1 \<lparr>r_tile_shape = None, r_heap_format = CHR ''P'', r_blocksize = 32\<rparr>"
  obtain cards stored where c: "create_compressed_image ''i2'' [4, 6] None None ?c None None = Inr (cards, stored)"
    by (simp add: create_compressed_image_def i2_bitpix check_algorithm_def resolve_tile_shape_def Let_def)
  have "map_sum id m_image_shape (parse_compressed_image_meta cards) = Inr (map as_u64 [4, 6])"
    by (subst created_metadata_read_back[OF c i2_bitpix])
      (simp_all add: resolve_tile_shape_def Let_def config_ok_def)
  with c show ?thesis by (simp add: as_u64_def)
qed

text \<open>
  C9: reopening the file recovers the compression configuration: \<open>build_compression_config\<close> on the
  written cards gives the configuration the HDU keeps in memory after creation, except for the
  gzip level, which has no card.
\<close>

theorem created_config_read_back:
  assumes "create_compressed_image dtype dims extname extver cfg quantize blank = Inr (cards, stored)"
    and "length dims \<le> 99" and "\<forall>d \<in> set dims. d < 9223372036854775808" and "config_ok cfg"
    and "case config_tile_shape cfg of None \<Rightarrow> True | Some ts \<Rightarrow> \<forall>t \<in> set ts. t < 2 ^ 63"
    and "\<forall>q. quantize = Some q \<longrightarrow> in_i64 (q_seed q)"
  shows "build_compression_config cards = Inr (forget_level stored)"
proof -
  obtain bitpix bzero ts where b: "dtype_to_bitpix dtype = Inr (bitpix, bzero)"
    and t: "resolve_tile_shape cfg (map as_u64 dims) = Inr ts"
    using assms(1) by (auto simp: create_compressed_image_def res_bind_Inr_iff Let_def split: if_splits)
  note A = created_args[OF assms(1) b t assms(2-)]
  show ?thesis unfolding A(2,3) using config_read[OF A(1)] by (simp add: created_def)
qed

theorem created_config_read_back_witness:
  "\<exists>cards stored.
     create_compressed_image ''i2'' [4, 6] None None (CGzip2 \<lparr>g2_tile_shape = Some [2, 6], g2_heap_format = CHR ''Q'', g2_level = Some 9\<rparr>) None None
       = Inr (cards, stored) \<and>
     build_compression_config cards = Inr (CGzip2 \<lparr>g2_tile_shape = Some [2, 6], g2_heap_format = CHR ''Q'', g2_level = None\<rparr>)"
proof -
  let ?c = "CGzip2 \<lparr>g2_tile_shape = Some [2, 6], g2_heap_format = CHR ''Q'', g2_level = Some 9\<rparr>"
  obtain cards where c: "create_compressed_image ''i2'' [4, 6] None None ?c None None = Inr (cards, ?c)"
    by (simp add: create_compressed_image_def i2_bitpix check_algorithm_def resolve_tile_shape_def Let_def is_gzip_def)
  have "build_compression_config cards = Inr (forget_level ?c)"
    by (rule created_config_read_back[OF c]) (simp_all add: config_ok_def)
  with c show ?thesis by simp
qed

end
