(* ===== verification/CompressedSection.thy ===== *)
theory CompressedSection
  imports TileEncoding ZImageRoundtrip
begin

text \<open>
  The file after a write of a compressed image: the data section grows, holds the table of
  descriptors and the heap, the header has its new PCOUNT card and nothing else moves or changes.
  Each row of the table then leads the reader to its tile, so the new state of the file is an
  \<open>image_state\<close> of the written data, also for the header that \<open>create_compressed_image\<close> wrote.
\<close>

subsection \<open>The file after a write\<close>

definition hdu_end :: "file_state \<Rightarrow> nat \<Rightarrow> nat" where
  "hdu_end s idx = (if Suc idx < length (fs_layout s) then header_offset (fs_layout s ! Suc idx) else length (fs_bytes s))"

lemma hdu_end_bounds:
  assumes ok: "layout_ok s" and i: "idx < length (fs_layout s)"
  shows "data_offset (fs_layout s ! idx) \<le> hdu_end s idx" "hdu_end s idx \<le> length (fs_bytes s)"
    "Suc idx < length (fs_layout s) \<Longrightarrow> hdu_end s idx < length (fs_bytes s)"
  using layout_nth[OF ok i i] layout_nth(1)[OF ok i, of "Suc idx"] layout_nth(3,5)[OF ok, of "Suc idx" "Suc idx"]
  by (auto simp: hdu_end_def)

lemma last_bump:
  assumes ok: "layout_ok s" and i: "idx < length (fs_layout s)" and l: "\<not> Suc idx < length (fs_layout s)"
  shows "bump_offsets (length (fs_bytes s)) delta (fs_layout s) = fs_layout s"
  using layout_nth(3,5)[OF ok] unfolding bump_offsets_def by (intro nth_equalityI) fastforce+

lemma current_hdu_end_ok: "\<exists>k. current_hdu_end no_faults idx s = (Inr (hdu_end s idx), s\<lparr>fs_ops := k\<rparr>)"
proof (cases "Suc idx < length (fs_layout s)")
  case True
  then have "current_hdu_end no_faults idx s = (Inr (hdu_end s idx), s\<lparr>fs_ops := fs_ops s\<rparr>)"
    by (simp add: current_hdu_end_def hdu_end_def io_return_def)
  then show ?thesis by blast
next
  case False
  then have "current_hdu_end no_faults idx s = (Inr (hdu_end s idx), s\<lparr>fs_ops := Suc (fs_ops s)\<rparr>)"
    by (simp add: current_hdu_end_def hdu_end_def storage_defs no_faults_at)
  then show ?thesis by blast
qed

lemma grow_data_section_ok:
  fixes sz :: nat
  assumes ok: "layout_ok s" and i: "idx < length (fs_layout s)"
  defines "d \<equiv> data_offset (fs_layout s ! idx)" and "e \<equiv> hdu_end s idx"
  defines "delta \<equiv> sz - (e - d)"
  shows "\<exists>bs p k. grow_data_section no_faults d e sz s = (Inr (), s\<lparr>fs_bytes := bs, fs_pos := p, fs_ops := k, fs_layout := bump_offsets e delta (fs_layout s)\<rparr>)
    \<and> length bs = length (fs_bytes s) + delta \<and> take e bs = take e (fs_bytes s) \<and> drop (e + delta) bs = drop e (fs_bytes s)" (is ?thesis)
proof -
  have that: ?thesis if "grow_data_section no_faults d e sz s = (Inr (), s\<lparr>fs_bytes := bs, fs_pos := p, fs_ops := k, fs_layout := bump_offsets e delta (fs_layout s)\<rparr>)"
    "length bs = length (fs_bytes s) + delta" "take e bs = take e (fs_bytes s)" "drop (e + delta) bs = drop e (fs_bytes s)" for bs p k
    using that by blast
  note B = hdu_end_bounds[OF ok i, folded d_def e_def]
  consider "delta = 0" | "0 < delta" "Suc idx < length (fs_layout s)" | "0 < delta" "\<not> Suc idx < length (fs_layout s)" by blast
  then show ?thesis
  proof cases
    case 1
    then show ?thesis using that[where bs = "fs_bytes s" and p = "fs_pos s" and k = "fs_ops s"]
      by (simp add: grow_data_section_def delta_def bump_zero io_return_def)
  next
    case 2
    let ?s = "s\<lparr>fs_ops := Suc (fs_ops s)\<rparr>"
    obtain p k where "shift_file_tail_and_update_offsets no_faults e delta ?s
        = (Inr (), ?s\<lparr>fs_bytes := shifted (fs_bytes s) e delta, fs_pos := p, fs_ops := k, fs_layout := bump_offsets e delta (fs_layout s)\<rparr>)"
      using shift_ok[of e ?s delta] B(2) 2(1) by auto
    then show ?thesis using that[where bs = "shifted (fs_bytes s) e delta" and p = p and k = k] shifted_parts[OF B(2), of delta] 2(1) B(3)[OF 2(2)]
      by (simp add: grow_data_section_def delta_def storage_defs no_faults_at)
  next
    case 3
    then have e: "e = length (fs_bytes s)" by (simp add: e_def hdu_end_def)
    have n: "d + sz = e + delta" using 3(1) B(1) by (simp add: delta_def)
    show ?thesis
      using that[where bs = "fs_bytes s @ replicate delta 0" and p = "fs_pos s" and k = "Suc (Suc (fs_ops s))"] last_bump[OF ok i 3(2)] e n 3(1)
      by (simp add: grow_data_section_def delta_def storage_defs no_faults_at resize_grow Let_def)
  qed
qed

lemma write_data_section_ok:
  assumes fit: "d + length (tab @ heap @ fb) \<le> d + sz" "d + sz \<le> length (fs_bytes s)"
  defines "sec \<equiv> tab @ heap @ fb @ replicate (sz - length (tab @ heap @ fb)) 0"
  shows "\<exists>p k. write_data_section no_faults d (Inr tab) heap fb sz s
    = (Inr (), s\<lparr>fs_bytes := write_at (fs_bytes s) d sec, fs_pos := p, fs_ops := k\<rparr>)" (is ?thesis)
proof -
  have that: ?thesis if "write_data_section no_faults d (Inr tab) heap fb sz s
    = (Inr (), s\<lparr>fs_bytes := write_at (fs_bytes s) d sec, fs_pos := p, fs_ops := k\<rparr>)" for p k
    using that by blast
  let ?pad = "replicate (sz - length (tab @ heap @ fb)) 0 :: bytes" and ?bs = "fs_bytes s"
  have a1: "write_at (write_at ?bs d tab) (d + length tab) heap = write_at ?bs d (tab @ heap)"
    using fit by (intro write_at_append) simp
  have a2: "write_at (write_at ?bs d (tab @ heap)) (d + length tab + length heap) fb = write_at ?bs d (tab @ heap @ fb)"
    using fit write_at_append[of d "tab @ heap" fb ?bs] by (simp add: add.assoc)
  have a3: "write_at (write_at ?bs d (tab @ heap @ fb)) (d + length tab + length heap + length fb) ?pad = write_at ?bs d sec"
    using fit write_at_append[of d "tab @ heap @ fb" ?pad ?bs] by (simp add: add.assoc sec_def)
  have a4: "sec = tab @ heap @ fb" if "\<not> sz > length tab + (length heap + length fb)" using that by (simp add: sec_def)
  show ?thesis
  proof (cases "sz > length tab + (length heap + length fb)")
    case True
    then show ?thesis
      using that a1 a2 a3
      by (simp add: write_data_section_def tio_bind_def lift_io_def storage_defs no_faults_at Let_def add.assoc)
  next
    case False
    then show ?thesis
      using that a1 a2 a4
      by (simp add: write_data_section_def tio_bind_def lift_io_def storage_defs no_faults_at Let_def add.assoc)
  qed
qed

lemma write_pcount_ok:
  "\<exists>p k. write_pcount no_faults idx cards s
    = (Inr (), s\<lparr>fs_bytes := write_at (fs_bytes s) (header_offset (fs_layout s ! idx)) (serialize_header_to_disk_bytes cards), fs_pos := p, fs_ops := k\<rparr>)"
  unfolding write_pcount_def by (intro exI) (simp add: write_pcount_def storage_defs no_faults_at)

lemma padded_size_ge: "n \<le> padded_size n"
  using div_ceil_mult[of BLOCK_SIZE n] by (simp add: padded_size_def BLOCK_SIZE_def)

definition header_fits :: "string list \<Rightarrow> hdu_offsets \<Rightarrow> bool" where
  "header_fits cards h \<longleftrightarrow> length (serialize_header_to_disk_bytes cards) \<le> header_block_count h * BLOCK_SIZE"

text \<open>What is in the file after the section and the header are written.\<close>

definition section_written :: "file_state \<Rightarrow> file_state \<Rightarrow> nat \<Rightarrow> string list \<Rightarrow> bytes \<Rightarrow> nat \<Rightarrow> bool" where
  "section_written s s' idx cards content delta \<longleftrightarrow>
     (let h = fs_layout s ! idx; hdr = serialize_header_to_disk_bytes cards; e = hdu_end s idx
      in fs_layout s' = bump_offsets e delta (fs_layout s) \<and> fs_tainted s' = fs_tainted s \<and>
         length (fs_bytes s') = length (fs_bytes s) + delta \<and>
         take (header_offset h) (fs_bytes s') = take (header_offset h) (fs_bytes s) \<and>
         take (length hdr) (drop (header_offset h) (fs_bytes s')) = hdr \<and>
         take (length content) (drop (data_offset h) (fs_bytes s')) = content \<and>
         drop (e + delta) (fs_bytes s') = drop e (fs_bytes s))"

lemma drop_mono_eq: "drop n xs = drop n ys \<Longrightarrow> n \<le> m \<Longrightarrow> drop m xs = drop m ys"
  by (metis drop_drop le_add_diff_inverse2)

lemma take_mono_eq: "take n xs = take n ys \<Longrightarrow> m \<le> n \<Longrightarrow> take m xs = take m ys"
  by (metis min.absorb1 take_take)

lemma take_section: "take (length (a @ b)) xs = a @ b \<Longrightarrow> take (length a) xs = a"
  by (metis append_eq_conv_conj length_append le_add1 min.absorb1 take_take)

lemma write_encoded_ok:
  fixes cards :: "string list" and heap fb :: bytes
  assumes ok: "layout_ok s" and i: "idx < length (fs_layout s)"
    and tab: "descriptor_table (wc_heap_is_q w) (wc_quant w \<noteq> None) (map (bump_fallback (length heap)) rows) = Inr tab"
    and width: "length tab = row_width w * wc_n_tiles w"
  defines "new_cards \<equiv> set_pcount_in_cards cards (sint (of_nat (length heap + length fb) :: 64 word))"
    and "delta \<equiv> padded_size (length (tab @ heap @ fb)) - (hdu_end s idx - data_offset (fs_layout s ! idx))"
  assumes hdr: "header_fits new_cards (fs_layout s ! idx)"
  obtains s' where "write_encoded no_faults w cards idx (rows, heap, fb) s = (Inr new_cards, s')"
    "section_written s s' idx new_cards (tab @ heap @ fb) delta"
proof -
  let ?h = "fs_layout s ! idx" and ?sz = "padded_size (length (tab @ heap @ fb))" and ?e = "hdu_end s idx"
  let ?d = "data_offset ?h" and ?o = "header_offset ?h" and ?hb = "serialize_header_to_disk_bytes new_cards"
  let ?sec = "tab @ heap @ fb @ replicate (?sz - length (tab @ heap @ fb)) 0"
  note B = hdu_end_bounds[OF ok i] and H = layout_nth[OF ok i i]
  have big: "length (tab @ heap @ fb) \<le> ?sz" by (rule padded_size_ge)
  obtain k0 where c0: "current_hdu_end no_faults idx s = (Inr ?e, s\<lparr>fs_ops := k0\<rparr>)" using current_hdu_end_ok by blast
  let ?s0 = "s\<lparr>fs_ops := k0\<rparr>"
  have ok0: "layout_ok ?s0" "idx < length (fs_layout ?s0)" using layout_ok_longer[OF ok, of ?s0] i by simp_all
  have e0: "hdu_end ?s0 idx = ?e" by (simp add: hdu_end_def)
  obtain bs p1 k1 where g: "grow_data_section no_faults ?d ?e ?sz ?s0
      = (Inr (), s\<lparr>fs_bytes := bs, fs_pos := p1, fs_ops := k1, fs_layout := bump_offsets ?e delta (fs_layout s)\<rparr>)"
    "length bs = length (fs_bytes s) + delta" "take ?e bs = take ?e (fs_bytes s)" "drop (?e + delta) bs = drop ?e (fs_bytes s)"
    using grow_data_section_ok[OF ok0, of ?sz] unfolding e0 delta_def by auto
  let ?s1 = "s\<lparr>fs_bytes := bs, fs_pos := p1, fs_ops := k1, fs_layout := bump_offsets ?e delta (fs_layout s)\<rparr>"
  have room: "?d + length ?sec \<le> length bs" "?d + ?sz \<le> length bs" "?d + ?sz \<le> ?e + delta" using g(2) B big by (auto simp: delta_def)
  obtain p2 k2 where wr: "write_data_section no_faults ?d (Inr tab) heap fb ?sz ?s1
      = (Inr (), ?s1\<lparr>fs_bytes := write_at bs ?d ?sec, fs_pos := p2, fs_ops := k2\<rparr>)"
    using write_data_section_ok[of ?d tab heap fb ?sz ?s1] big room(2) by auto
  let ?s2 = "?s1\<lparr>fs_bytes := write_at bs ?d ?sec, fs_pos := p2, fs_ops := k2\<rparr>"
  have lay: "fs_layout ?s2 ! idx = ?h" using i B(1) H(3) by (simp add: bump_nth)
  obtain p3 k3 where pc: "write_pcount no_faults idx new_cards ?s2
      = (Inr (), ?s2\<lparr>fs_bytes := write_at (write_at bs ?d ?sec) ?o ?hb, fs_pos := p3, fs_ops := k3\<rparr>)"
    using write_pcount_ok[of idx new_cards ?s2] lay by auto
  let ?s3 = "?s2\<lparr>fs_bytes := write_at (write_at bs ?d ?sec) ?o ?hb, fs_pos := p3, fs_ops := k3\<rparr>"
  have "write_encoded no_faults w cards idx (rows, heap, fb) s = (Inr new_cards, ?s3)"
    using c0 g(1) wr pc tab width
    by (simp add: write_encoded_def Let_def tio_bind_def lift_io_def tio_return_def new_cards_def add.assoc)
  moreover have "section_written s ?s3 idx new_cards (tab @ heap @ fb) delta"
  proof -
    let ?w = "write_at bs ?d ?sec"
    have W: "take ?d ?w = take ?d bs" "take (length ?sec) (drop ?d ?w) = ?sec" "drop (?d + length ?sec) ?w = drop (?d + length ?sec) bs"
      using write_at_parts[OF room(1)] by blast+
    have hl: "?o + length ?hb \<le> ?d" "?o + length ?hb \<le> length ?w" using hdr H(4) room by (auto simp: header_fits_def)
    have V: "take ?o (write_at ?w ?o ?hb) = take ?o ?w" "take (length ?hb) (drop ?o (write_at ?w ?o ?hb)) = ?hb"
      "drop (?o + length ?hb) (write_at ?w ?o ?hb) = drop (?o + length ?hb) ?w" using write_at_parts[OF hl(2)] by blast+
    have "take ?o (write_at ?w ?o ?hb) = take ?o (fs_bytes s)"
      using V(1) take_mono_eq[OF W(1), of ?o] take_mono_eq[OF g(3), of ?o] H(3) B(1) by simp
    moreover have "drop ?d (write_at ?w ?o ?hb) = drop ?d ?w" using drop_mono_eq[OF V(3) hl(1)] .
    then have "take (length (tab @ heap @ fb)) (drop ?d (write_at ?w ?o ?hb)) = tab @ heap @ fb"
      using take_section[of "tab @ heap @ fb" "replicate (?sz - length (tab @ heap @ fb)) 0" "drop ?d ?w"] W(2) by simp
    moreover have "drop (?e + delta) (write_at ?w ?o ?hb) = drop ?e (fs_bytes s)"
      using drop_mono_eq[OF V(3), of "?e + delta"] drop_mono_eq[OF W(3), of "?e + delta"] g(4) hl(1) room big by simp
    moreover have "length (write_at ?w ?o ?hb) = length bs" using hl(2) room(1) by simp
    ultimately show ?thesis using V(2) g(2) by (simp add: section_written_def Let_def)
  qed
  ultimately show ?thesis by (rule that)
qed

subsection \<open>The table of descriptors\<close>

lemma be_nat_to_be:
  fixes w :: "'a::len word"
  assumes "8 * n = LENGTH('a)"
  shows "be_nat (to_be n w) = unat w"
proof -
  have "be_nat (to_be n w) < 256 ^ n" using be_nat_less[of "to_be n w"] by simp
  also have "(256 :: nat) ^ n = 2 ^ LENGTH('a)" unfolding assms[symmetric] power_mult by simp
  finally have "unat (of_nat (be_nat (to_be n w)) :: 'a word) = be_nat (to_be n w)" by (simp add: unat_of_nat)
  moreover have "(of_nat (be_nat (to_be n w)) :: 'a word) = w" using from_be_to_be[OF assms, of w] by (simp add: from_be_def)
  ultimately show ?thesis by simp
qed

definition desc_fits :: "bool \<Rightarrow> tile_row \<Rightarrow> bool" where
  "desc_fits q row \<longleftrightarrow> (let m = (if q then 2 ^ 64 else 2 ^ 32) in primary_nelem row < m \<and> primary_off row < m)"

lemma push_desc_ok:
  assumes "desc_fits q row"
  obtains b where "push_desc q (primary_nelem row) (primary_off row) = Inr b" "length b = descriptor_size q"
    "parse_descriptor q b = (primary_nelem row, primary_off row)"
  using assms that
  by (cases q) (simp_all add: desc_fits_def push_desc_def descriptor_size_def parse_descriptor_def be_nat_to_be unat_of_nat)

lemma descriptor_table_ok:
  "\<forall>row \<in> set rows. desc_fits q row \<Longrightarrow>
    \<exists>tab. descriptor_table q False rows = Inr tab \<and> length tab = length rows * descriptor_size q \<and>
      (\<forall>i < length rows. parse_descriptor q (take (descriptor_size q) (drop (i * descriptor_size q) tab))
        = (primary_nelem (rows ! i), primary_off (rows ! i)))"
proof (induction rows)
  case Nil
  then show ?case by simp
next
  case (Cons row rows)
  obtain tab where t: "descriptor_table q False rows = Inr tab" "length tab = length rows * descriptor_size q"
    "\<forall>i < length rows. parse_descriptor q (take (descriptor_size q) (drop (i * descriptor_size q) tab))
        = (primary_nelem (rows ! i), primary_off (rows ! i))" using Cons by auto
  obtain b where b: "push_desc q (primary_nelem row) (primary_off row) = Inr b" "length b = descriptor_size q"
    "parse_descriptor q b = (primary_nelem row, primary_off row)" by (rule push_desc_ok[of q row]) (use Cons.prems in simp)
  have "parse_descriptor q (take (descriptor_size q) (drop (i * descriptor_size q) (b @ tab)))
        = (primary_nelem ((row # rows) ! i), primary_off ((row # rows) ! i))" if "i < length (row # rows)" for i
    using that t(3) b by (cases i) auto
  then show ?case using t(1,2) b(1,2) by (simp add: row_bytes_of_def)
qed

subsection \<open>The image after a write\<close>

lemma row_holds_fits:
  assumes h: "row_holds env w data heap i row" and l: "0 < wc_inner w" "length heap < 2 ^ 64" "wc_heap_is_q w \<or> length heap < 2 ^ 32"
  shows "desc_fits (wc_heap_is_q w) row"
proof -
  obtain c :: bytes where c: "primary_nelem row * wc_inner w = length c" "primary_off row + length c \<le> length heap"
    using h unfolding row_holds_def by blast
  have "primary_nelem row \<le> length c" using l(1) by (simp add: c(1)[symmetric])
  then have "primary_nelem row \<le> length heap" "primary_off row \<le> length heap" using c(2) by simp_all
  then show ?thesis using l(2,3) by (auto simp: desc_fits_def Let_def)
qed

lemma res_bind_id: "res_bind r Inr = r"
  by (cases r) simp_all

lemma decode_matches:
  assumes m: "meta_matches w m" and w: "lossless_write w"
  shows "decode_payload env m i ext (PrimaryCompressed c (m_algorithm m)) None
    = codec_result (decode_tile_to_bytes (te_gz env) (te_big env) (wc_algorithm w) c (prod_list ext) (pixel_width (wc_zbitpix w))
        (wc_blocksize w) \<bar>wc_zbitpix w\<bar> \<lparr>tile_shape_numpy = ext, ap_smooth = m_smooth m\<rparr>)"
proof -
  have "decode_width False m = (pixel_width (wc_zbitpix w), \<bar>wc_zbitpix w\<bar>)"
    using m w by (auto simp: decode_width_def meta_matches_def lossless_write_def pixel_width_def Let_def)
  then show ?thesis using m by (simp add: decode_payload_def is_primary_def meta_matches_def res_bind_id)
qed

lemma take_inside: "take n xs = ys \<Longrightarrow> a + b \<le> n \<Longrightarrow> take b (drop a xs) = take b (drop a ys)"
  by (auto simp: drop_take min_def)

lemma written_tile:
  assumes w: "lossless_write w" and m: "meta_matches w m" and i: "i < wc_n_tiles w"
    and tab: "length tab = wc_n_tiles w * row_width w"
      "parse_descriptor (wc_heap_is_q w) (take (descriptor_size (wc_heap_is_q w)) (drop (i * descriptor_size (wc_heap_is_q w)) tab))
        = (primary_nelem row, primary_off row)"
    and row: "row_holds env w data heap i row"
    and sec: "take (length (tab @ heap)) (drop d bs) = tab @ heap"
  shows "holds_tile env bs d m i (extent_at (wc_dims w) (wc_tile w) i) (tile_pixels (pixel_width (wc_zbitpix w)) data (wc_dims w) (wc_tile w) i)"
proof -
  let ?q = "wc_heap_is_q w" and ?dims = "wc_dims w" and ?tile = "wc_tile w" and ?n = "wc_n_tiles w"
  let ?ds = "descriptor_size ?q" and ?k = "pixel_width (wc_zbitpix w)"
  have width: "row_width w = ?ds" using w by (simp add: row_width_def lossless_write_def Let_def)
  have M: "unat (m_naxis1 m) = ?ds" "unat (m_theap m) = ?ds * ?n" "is_q (primary (m_cols m)) = ?q"
    "byte_offset_in_row (primary (m_cols m)) = 0" "unat (inner_byte_width (primary (m_cols m))) = wc_inner w"
    using m by (simp_all add: meta_matches_def width)
  obtain c where c: "primary_nelem row * wc_inner w = length c" "0 < primary_nelem row" "primary_off row + length c \<le> length heap"
    "take (length c) (drop (primary_off row) heap) = c"
    "\<And>sm. decode_tile_to_bytes (te_gz env) (te_big env) (wc_algorithm w) c (prod_list (extent_at ?dims ?tile i)) ?k
      (wc_blocksize w) \<bar>wc_zbitpix w\<bar> \<lparr>tile_shape_numpy = extent_at ?dims ?tile i, ap_smooth = sm\<rparr> = Inr (tile_pixels ?k data ?dims ?tile i)"
    using row unfolding row_holds_def Let_def by blast
  have tl: "length tab = ?n * ?ds" using tab(1) width by simp
  have le: "i * ?ds + ?ds \<le> length tab" using i mult_le_mono1[of "Suc i" ?n ?ds] by (simp add: tl)
  have long: "length (tab @ heap) \<le> length bs - d" using arg_cong[OF sec, of length] by simp
  have pos: "0 < ?ds" by (simp add: descriptor_size_def)
  have ln: "d + (i * ?ds + ?ds) \<le> length bs" "d + (length tab + (primary_off row + length c)) \<le> length bs"
    using long le c(3) pos by simp_all
  have D: "take ?ds (drop (d + i * ?ds) bs) = take ?ds (drop (i * ?ds) tab)"
    using take_inside[OF sec, of "i * ?ds" ?ds] le by (simp add: add.commute)
  have H: "take (length c) (drop (d + (?ds * ?n + primary_off row)) bs) = c"
    using take_inside[OF sec, of "?ds * ?n + primary_off row" "length c"] c(3,4) tl by (simp add: add.commute mult.commute)
  show ?thesis
    unfolding holds_tile_def Let_def M descriptor_at_def unat_0 add_0_right D tab(2) prod.case c(1) decode_matches[OF m w]
    using H c(2,5) ln pos i tl by (simp add: codec_result_def add.assoc mult.commute)
qed

subsection \<open>The PCOUNT card\<close>

text \<open>Two headers with the same values for every keyword that does not start with P.\<close>

definition same_values :: "string list \<Rightarrow> string list \<Rightarrow> bool" where
  "same_values cards cards' \<longleftrightarrow> (\<forall>k. k \<noteq> [] \<longrightarrow> hd k \<noteq> CHR ''P'' \<longrightarrow>
     parse_keyword cards' k = parse_keyword cards k \<and> parse_string_keyword cards' k = parse_string_keyword cards k)"

lemma parse_keyword_skip_one: "\<not> card_for_key k x \<Longrightarrow> parse_keyword (as @ x # bs) k = parse_keyword (as @ bs) k"
  by (induction as) auto

lemma same_insert:
  assumes "\<And>k. k \<noteq> [] \<Longrightarrow> hd k \<noteq> CHR ''P'' \<Longrightarrow> \<not> card_for_key k x"
  shows "same_values (as @ bs) (as @ x # bs)"
  using parse_keyword_skip_one parse_string_keyword_skip_one assms by (simp add: same_values_def)

lemma same_trans: "same_values a b \<Longrightarrow> same_values b c \<Longrightarrow> same_values a c"
  and same_sym: "same_values a b \<Longrightarrow> same_values b a"
  by (auto simp: same_values_def)

lemma trim_starts:
  assumes "trim (take 6 x) = ''PCOUNT''" shows "take 6 x = ''PCOUNT''"
proof -
  obtain a where a: "take 6 x = a @ trim_start (take 6 x)" unfolding trim_start_def by (metis takeWhile_dropWhile_id)
  obtain b where b: "trim_start (take 6 x) = trim (take 6 x) @ b" unfolding trim_def trim_end_def by (metis rev_append rev_rev_ident takeWhile_dropWhile_id)
  have "length a + (6 + length b) = length (take 6 x)" using arg_cong[OF a, of length] arg_cong[OF b, of length] assms by simp
  also have "\<dots> \<le> 6" by simp
  finally have "a = []" "b = []" by simp_all
  then show ?thesis using a b assms by simp
qed

lemma not_other_key:
  assumes "take 6 x = ''PCOUNT''" "k \<noteq> []" "hd k \<noteq> CHR ''P''"
  shows "\<not> card_for_key k x"
proof -
  obtain r where "take 8 x = CHR ''P'' # r" using assms(1) by (cases x) auto
  moreover have "trim (CHR ''P'' # r) = [] \<or> hd (trim (CHR ''P'' # r)) = CHR ''P''"
    by (simp add: trim_def trim_start_def is_ws_def trim_end_def hd_rev dropWhile_append3)
  ultimately show ?thesis using assms(2,3) by (auto simp: card_for_key_def)
qed

lemma pcount_card: "take 6 (trim_end (card_int ''PCOUNT'' v comment)) = ''PCOUNT''"
proof -
  let ?x = "card_int ''PCOUNT'' v comment"
  have "take 6 ?x = ''PCOUNT''"
    using take_pad_to_card[of 6 "with_comment (fmt_left 8 ''PCOUNT'' @ ''= '' @ fmt_right 20 (dec_int v)) comment"]
    by (simp add: card_int_def with_comment_def fmt_left_def)
  then have t: "?x = ''PCOUNT'' @ drop 6 ?x" using append_take_drop_id[of 6 ?x] by metis
  have "trim_end (''PCOUNT'' @ t) = ''PCOUNT'' @ trim_end t" for t
    unfolding trim_end_def rev_append by (simp add: dropWhile_append is_ws_def)
  then show ?thesis by (subst t) simp
qed

lemma set_pcount_same: "same_values cards (set_pcount_in_cards cards v)"
proof -
  let ?c = "trim_end (card_int ''PCOUNT'' v ''size of special data area'')"
  have new: "\<And>k. k \<noteq> [] \<Longrightarrow> hd k \<noteq> CHR ''P'' \<Longrightarrow> \<not> card_for_key k ?c" using not_other_key[OF pcount_card] by blast
  show ?thesis
  proof (cases "position (\<lambda>c. length c \<ge> 6 \<and> trim (take 6 c) = ''PCOUNT'') cards")
    case None
    then obtain n where n: "set_pcount_in_cards cards v = take n cards @ ?c # drop n cards"
      unfolding set_pcount_in_cards_def Let_def by simp
    show ?thesis unfolding n using same_insert[OF new, of "take n cards" "drop n cards"] by simp
  next
    case (Some i)
    from position_Some[OF this] have i: "i < length cards" "trim (take 6 (cards ! i)) = ''PCOUNT''" by auto
    have "\<And>k. k \<noteq> [] \<Longrightarrow> hd k \<noteq> CHR ''P'' \<Longrightarrow> \<not> card_for_key k (cards ! i)" using not_other_key[OF trim_starts[OF i(2)]] by blast
    from same_insert[OF this, of "take i cards" "drop (Suc i) cards"]
    have "same_values (take i cards @ drop (Suc i) cards) cards" using i(1) by (simp add: id_take_nth_drop[symmetric])
    moreover have "same_values (take i cards @ drop (Suc i) cards) (cards[i := ?c])"
      using same_insert[OF new, of "take i cards" "drop (Suc i) cards"] i(1) by (simp add: upd_conv_take_nth_drop)
    ultimately have "same_values cards (cards[i := ?c])" using same_trans[OF same_sym] by blast
    then show ?thesis using Some by (simp add: set_pcount_in_cards_def Let_def)
  qed
qed

lemma numbered_other [simp]: "k \<noteq> [] \<Longrightarrow> numbered k i \<noteq> []" "k \<noteq> [] \<Longrightarrow> hd (numbered k i) = hd k"
  by (simp_all add: numbered_def)

lemma same_scan: "same_values cards cards' \<Longrightarrow> scan_columns cards' is s = scan_columns cards is s"
  by (induction cards "is" s rule: scan_columns.induct) (auto simp: same_values_def split: option.split sum.split intro!: arg_cong2[where f = res_bind])

lemma same_meta: "same_values cards cards' \<Longrightarrow> parse_compressed_image_meta cards' = parse_compressed_image_meta cards"
proof -
  assume s: "same_values cards cards'"
  then have K: "parse_keyword cards' k = parse_keyword cards k" "parse_string_keyword cards' k = parse_string_keyword cards k"
    if "k \<noteq> []" "hd k \<noteq> CHR ''P''" for k using that by (simp_all add: same_values_def)
  have z: "z_pairs cards' = z_pairs cards" by (simp add: z_pairs_def K cong: option.case_cong)
  have c: "find_data_columns cards' = find_data_columns cards" by (simp add: find_data_columns_def K same_scan[OF s] cong: option.case_cong)
  have q: "build_quant_context cards' cols = build_quant_context cards cols" for cols by (simp add: build_quant_context_def K cong: option.case_cong sum.case_cong)
  have sh: "parse_compressed_image_shape cards' = parse_compressed_image_shape cards" by (simp add: parse_compressed_image_shape_def K cong: option.case_cong)
  have t: "parse_tile_shape cards' d = parse_tile_shape cards d" for d by (simp add: parse_tile_shape_def K cong: option.case_cong)
  have e: "parse_string_keyword cards' ''ZCMPTYPE'' = parse_string_keyword cards ''ZCMPTYPE''"
    "parse_keyword cards' ''NAXIS1'' = parse_keyword cards ''NAXIS1''" "parse_keyword cards' ''NAXIS2'' = parse_keyword cards ''NAXIS2''"
    "parse_keyword cards' ''THEAP'' = parse_keyword cards ''THEAP''" "parse_keyword cards' ''ZBLANK'' = parse_keyword cards ''ZBLANK''"
    by (simp_all add: K)
  show ?thesis
    unfolding parse_compressed_image_meta_def require_algorithm_def require_def parse_rice_params_def parse_hcompress_smooth_def e z c q sh t
    by (rule refl)
qed

lemma set_pcount_length:
  assumes "position (\<lambda>c. length c \<ge> 6 \<and> trim (take 6 c) = ''PCOUNT'') cards \<noteq> None"
  shows "length (set_pcount_in_cards cards v) = length cards"
  using assms by (auto simp: set_pcount_in_cards_def Let_def)

lemma header_fits_count: "length cards \<le> header_block_count h * CARDS_PER_BLOCK \<Longrightarrow> header_fits cards h"
  using div_le_mono[of "length cards + 35" "header_block_count h * 36 + 35" 36]
  by (simp add: header_fits_def serialize_header_to_disk_bytes_def Let_def div_ceil_def fits_sizes add.commute length_concat card_bytes_def string_bytes_def comp_def sum_list_triv)

subsection \<open>Writing a created image\<close>

lemma div_ceil_le_self: "0 < t \<Longrightarrow> div_ceil d t \<le> d" for d t :: nat
  by (subst div_ceil_le) simp_all

lemma n_tiles_loop_exact:
  "\<forall>d \<in> set dims. d \<noteq> 0 \<Longrightarrow> \<forall>t \<in> set tile. t \<noteq> 0 \<Longrightarrow> length tile = length dims \<Longrightarrow>
    unat acc * prod_list (map unat dims) < 2 ^ 64 \<Longrightarrow>
    unat (n_tiles_loop acc (zip dims tile)) = unat acc * prod_list (tile_counts (map unat dims) (map unat tile))"
proof (induction dims arbitrary: tile acc)
  case Nil
  then show ?case by (simp add: tile_counts_def)
next
  case (Cons d dims)
  obtain t ts where tile: "tile = t # ts" using Cons.prems(3) by (cases tile) auto
  have pos: "0 < unat d" "0 < unat t" "0 < prod_list (map unat dims)"
    using Cons.prems(1,2) by (auto simp: tile unat_gt_0 prod_list_zero_iff unat_eq_zero intro!: Nat.gr0I)
  let ?n = "div_ceil (unat d) (unat t)"
  have n: "?n \<le> unat d" by (rule div_ceil_le_self[OF pos(2)])
  have "unat acc * ?n * prod_list (map unat dims) \<le> unat acc * unat d * prod_list (map unat dims)"
    using n by (intro mult_le_mono1 mult_le_mono2)
  then have b: "unat acc * ?n * prod_list (map unat dims) < 2 ^ 64"
    by (rule le_less_trans) (use Cons.prems(4) in \<open>simp add: mult.assoc\<close>)
  have "unat acc * ?n \<le> unat acc * ?n * prod_list (map unat dims)" using pos(3) by simp
  then have small: "unat acc * ?n < 2 ^ 64" using b by (rule le_less_trans)
  have w: "unat (word_div_ceil d t) = ?n"
    using le_less_trans[OF n unsigned_less] by (simp add: word_div_ceil_def unat_of_nat)
  have m: "unat (saturating_mul acc (word_div_ceil d t)) = unat acc * ?n"
    using small w by (simp add: saturating_mul_def unat_word_ariths)
  have "unat (n_tiles_loop (saturating_mul acc (word_div_ceil d t)) (zip dims ts))
      = unat acc * ?n * prod_list (tile_counts (map unat dims) (map unat ts))"
    using Cons.IH[of ts "saturating_mul acc (word_div_ceil d t)"] Cons.prems(1-3) b m by (simp add: tile)
  then show ?case using Cons.prems(1,2) by (simp add: tile tile_counts_def mult.assoc)
qed

lemma n_tiles_exact:
  assumes "\<forall>d \<in> set dims. d \<noteq> 0" "\<forall>t \<in> set tile. t \<noteq> 0" "length tile = length dims" "dims \<noteq> []"
    "prod_list (map unat dims) < 2 ^ 64"
  shows "unat (compute_n_tiles dims tile) = n_tiles_of (map unat dims) (map unat tile)"
  using n_tiles_loop_exact[OF assms(1-3), of 1] assms(4,5) by (simp add: compute_n_tiles_def n_tiles_of_def)

definition created_context :: "image_args \<Rightarrow> nat option \<Rightarrow> write_context" where
  "created_context a level =
     \<lparr>wc_algorithm = algorithm_of (ia_cfg a), wc_zbitpix = ia_bitpix a, wc_dims = map unat (ia_dims a),
      wc_tile = map unat (ia_tiles a), wc_n_tiles = unat (compute_n_tiles (ia_dims a) (ia_tiles a)),
      wc_heap_is_q = (config_heap_format (ia_cfg a) = CHR ''Q''), wc_inner = (if is_plio (ia_cfg a) then 2 else 1),
      wc_bytepix = pixel_width (ia_bitpix a), wc_blocksize = unat (case expected_blocksize (ia_cfg a) of Some b \<Rightarrow> b | None \<Rightarrow> 32),
      wc_scale = parse_hcompress_scale (args_header a), wc_gzip_level = level, wc_quant = None\<rparr>"

lemma primary_tform_q:
  "config_ok cfg \<Longrightarrow> (take 2 (trim (primary_tform cfg)) = ''1Q'' \<or> take 1 (trim (primary_tform cfg)) = ''Q'') \<longleftrightarrow> config_heap_format cfg = CHR ''Q''"
  "config_ok cfg \<Longrightarrow> tform_vla_inner_byte_width (trim (primary_tform cfg)) = Some (if is_plio cfg then 2 else 1)"
  by (cases cfg; force simp: config_ok_def primary_tform_def is_plio_def)+

lemma context_read:
  assumes a: "args_ok a" and q: "ia_quantize a = None"
  shows "parse_write_context (args_header a) level (map unat (ia_dims a)) = Inr (created_context a level)"
proof -
  have ok: "config_ok (ia_cfg a)" and ne: "ia_dims a \<noteq> []" and zb: "ia_bitpix a \<in> {8, 16, 32, 64, - 32, - 64}"
    using a by (auto simp: args_ok_def)
  have bs: "fst (parse_rice_params (args_header a)) = expected_blocksize (ia_cfg a)" unfolding rice_params_read[OF a] by simp
  have tf: "parse_keyword (args_header a) ''TFIELDS'' = Some 1" using fixed_ints(5)[OF a] q by simp
  show ?thesis
    unfolding parse_write_context_def algorithm_read[OF a] shape_read[OF a] tiles_read[OF a] column_strings(1)[OF a] tf bs
      header_result_def Let_def option.case sum.case res_bind.simps prod.case primary_tform_q[OF ok]
    using ne zb by (auto simp: created_context_def as_u64_def split: option.split)
qed

subsection \<open>From the write to the state of the image\<close>

definition heap_room :: "file_state \<Rightarrow> write_context \<Rightarrow> bytes \<Rightarrow> bool" where
  "heap_room s w heap \<longleftrightarrow> (wc_heap_is_q w \<or> length heap < 2 ^ 32) \<and>
     length (fs_bytes s) + padded_size (row_width w * wc_n_tiles w + length heap) < 2 ^ 64"

lemma bumped_rows: "\<forall>row \<in> set rows. fallback_nelem row = 0 \<Longrightarrow> map (bump_fallback n) rows = rows"
  by (induction rows) (auto simp: bump_fallback_def)

lemma write_gives_image_state:
  assumes gz: "gzip_lib (te_gz env)" and lru: "lru_crate ops entries"
    and F: "layout_ok s" "idx < length (fs_layout s)" "\<not> fs_tainted s"
    and pw: "parse_write_context cards level in_shape = Inr w" and w: "lossless_write w"
    and g: "geometry (pixel_width (wc_zbitpix w)) data (wc_dims w) (wc_tile w)" and tl: "tiles_lossless env w data"
    and m: "meta_matches w m" and hdr: "\<And>v. header_fits (set_pcount_in_cards cards v) (fs_layout s ! idx)"
    and room: "\<And>rows heap fb. encode_tiles env w data [0..<wc_n_tiles w] [] [] [] = Inr (rows, heap, fb) \<Longrightarrow> heap_room s w heap"
  obtains v s' where
    "write_compressed_image_data env ops no_faults cards level idx in_shape data (s, c) = (Inr (set_pcount_in_cards cards v), (s', cache_clear ops c))"
    "image_state env ops entries (data_offset (fs_layout s ! idx)) m (pixel_width (wc_zbitpix w)) data (wc_dims w) (wc_tile w) (s', cache_clear ops c)"
    "fs_layout s' ! idx = fs_layout s ! idx"
proof -
  let ?n = "wc_n_tiles w" and ?h = "fs_layout s ! idx" and ?q = "wc_heap_is_q w"
  have q: "wc_quant w = None" and inner: "0 < wc_inner w" using w by (simp_all add: lossless_write_def)
  have width: "row_width w = descriptor_size ?q" using q by (simp add: row_width_def Let_def)
  have "set [0..<?n] \<subseteq> {..<?n}" by auto
  from encode_tiles_ok[OF gz w g tl this, of "[]" "[]" "[]"] obtain rows heap where
    enc: "encode_tiles env w data [0..<?n] [] [] [] = Inr (rows, heap, [])" "length rows = ?n" "\<forall>j < ?n. row_holds env w data heap j (rows ! j)"
    by auto
  have hr: "heap_room s w heap" by (rule room[OF enc(1)])
  then have small: "?q \<or> length heap < 2 ^ 32" "length (fs_bytes s) + padded_size (row_width w * ?n + length heap) < 2 ^ 64"
    by (simp_all add: heap_room_def)
  have hl: "length heap < 2 ^ 64" using padded_size_ge[of "row_width w * ?n + length heap"] small(2) by simp
  have holds: "\<exists>i. row_holds env w data heap i row" if "row \<in> set rows" for row
    using that enc(2,3) by (metis in_set_conv_nth)
  have fits: "\<forall>row \<in> set rows. desc_fits ?q row" using holds row_holds_fits[OF _ inner hl small(1)] by blast
  have fb: "\<forall>row \<in> set rows. fallback_nelem row = 0" using holds unfolding row_holds_def by blast
  obtain tab where tab: "descriptor_table ?q False rows = Inr tab" "length tab = length rows * descriptor_size ?q"
    "\<forall>i < length rows. parse_descriptor ?q (take (descriptor_size ?q) (drop (i * descriptor_size ?q) tab))
        = (primary_nelem (rows ! i), primary_off (rows ! i))" using descriptor_table_ok[OF fits] by blast
  have tab': "descriptor_table ?q (wc_quant w \<noteq> None) (map (bump_fallback (length heap)) rows) = Inr tab"
    using tab(1) q bumped_rows[OF fb] by simp
  have len: "length tab = row_width w * ?n" using tab(2) enc(2) width by simp
  let ?v = "sint (of_nat (length heap + length ([] :: bytes)) :: 64 word)"
  let ?new = "set_pcount_in_cards cards ?v"
  define delta where "delta = padded_size (length (tab @ heap @ [])) - (hdu_end s idx - data_offset ?h)"
  obtain s' where W: "write_encoded no_faults w cards idx (rows, heap, []) s = (Inr ?new, s')"
    "section_written s s' idx ?new (tab @ heap @ []) delta"
    unfolding delta_def by (rule write_encoded_ok[OF F(1,2) tab' len hdr])
  have S: "fs_layout s' = bump_offsets (hdu_end s idx) delta (fs_layout s)" "\<not> fs_tainted s'"
    "length (fs_bytes s') = length (fs_bytes s) + delta"
    "take (length (tab @ heap)) (drop (data_offset ?h) (fs_bytes s')) = tab @ heap"
    using W(2) F(3) by (simp_all add: section_written_def Let_def)
  have run: "write_compressed_image_data env ops no_faults cards level idx in_shape data (s, c) = (Inr ?new, (s', cache_clear ops c))"
    using F(3) pw enc(1) W(1) by (simp add: write_compressed_image_data_def)
  have "delta \<le> padded_size (row_width w * ?n + length heap)" using len by (simp add: delta_def)
  then have size: "length (fs_bytes s') < 2 ^ 64" using S(3) small(2) by simp
  have tiles: "holds_tile env (fs_bytes s') (data_offset ?h) m i (extent_at (wc_dims w) (wc_tile w) i)
      (tile_pixels (pixel_width (wc_zbitpix w)) data (wc_dims w) (wc_tile w) i)" if i: "i < ?n" for i
    using written_tile[OF w m i _ _ _ S(4)] tab(3) enc(2,3) i len by (simp add: mult.commute)
  have nt: "?n = n_tiles_of (wc_dims w) (wc_tile w)" and mq: "m_quant m = None" using w m by (simp_all add: lossless_write_def meta_matches_def)
  have "image_state env ops entries (data_offset ?h) m (pixel_width (wc_zbitpix w)) data (wc_dims w) (wc_tile w) (s', cache_clear ops c)"
    unfolding image_state_def prod.case
    using lru lru_crate.clear_inv[OF lru] S(2) mq size tiles nt lru_crate.entries_clear[OF lru]
    by (simp add: cached_def cache_clear_def)
  moreover have "fs_layout s' ! idx = ?h" using hdu_end_bounds[OF F(1,2)] layout_nth(3)[OF F(1,2,2)] F(2) by (simp add: S(1) bump_nth)
  ultimately show ?thesis using that run by blast
qed

lemma created_lossless:
  assumes a: "args_ok a" and q: "ia_quantize a = None" and f: "ia_bitpix a < 0 \<Longrightarrow> is_gzip (ia_cfg a)"
    and p: "0 \<notin> set (ia_dims a)" "0 \<notin> set (ia_tiles a)" "prod_list (map unat (ia_dims a)) < 2 ^ 64"
  shows "lossless_write (created_context a level)"
proof -
  have "unat (compute_n_tiles (ia_dims a) (ia_tiles a)) = n_tiles_of (map unat (ia_dims a)) (map unat (ia_tiles a))"
    by (rule n_tiles_exact) (use a p in \<open>auto simp: args_ok_def\<close>)
  moreover have "is_gzip (ia_cfg a) \<Longrightarrow> algorithm_of (ia_cfg a) \<in> {AlgGzip1, AlgGzip2}"
    by (cases "ia_cfg a") (simp_all add: is_gzip_def algorithm_of_def)
  moreover have "is_plio (ia_cfg a) \<longleftrightarrow> algorithm_of (ia_cfg a) = AlgPlio1"
    by (cases "ia_cfg a") (simp_all add: is_plio_def algorithm_of_def)
  moreover have "ia_bitpix a \<in> {8, 16, 32, 64, - 32, - 64}" using a by (simp add: args_ok_def)
  ultimately show ?thesis using f by (simp add: lossless_write_def created_context_def)
qed

lemma created_matches:
  assumes a: "args_ok a" and q: "ia_quantize a = None"
    and b: "row_width (created_context a level) * wc_n_tiles (created_context a level) < 2 ^ 64"
  shows "meta_matches (created_context a level) (expected_meta a)"
proof -
  let ?w = "created_context a level" and ?q = "config_heap_format (ia_cfg a) = CHR ''Q''"
  have hf: "config_heap_format (ia_cfg a) \<in> {CHR ''P'', CHR ''Q''}" using a by (simp add: args_ok_def config_ok_def)
  have rw: "unat (row_bytes (ia_cfg a) False) = row_width ?w"
    using hf by (auto simp: row_bytes_def row_width_def created_context_def descriptor_size_def Let_def)
  have th: "unat (row_bytes (ia_cfg a) False * compute_n_tiles (ia_dims a) (ia_tiles a)) = row_width ?w * wc_n_tiles ?w"
  proof -
    have n: "wc_n_tiles ?w = unat (compute_n_tiles (ia_dims a) (ia_tiles a))" by (simp add: created_context_def)
    show ?thesis using b unfolding n rw[symmetric] by (simp add: unat_word_ariths)
  qed
  have bp: "0 < ia_bitpix a \<longrightarrow> unat (as_u32 (ia_bitpix a div 8)) = pixel_width (ia_bitpix a)"
    using a by (auto simp: args_ok_def as_u32_def pixel_width_def)
  show ?thesis
    using rw th bp q
    by (auto simp: meta_matches_def expected_meta_def created_context_def expected_quant_def expected_columns_def Let_def split: option.split)
qed

lemma created_pcount:
  "position (\<lambda>c. length c \<ge> 6 \<and> trim (take 6 c) = ''PCOUNT'') (args_header a) \<noteq> None"
proof
  assume n: "position (\<lambda>c. length c \<ge> 6 \<and> trim (take 6 c) = ''PCOUNT'') (args_header a) = None"
  let ?c = "card_int ''PCOUNT'' 0 ''size of heap in bytes''"
  have "render (EInt ''PCOUNT'' 0 ''size of heap in bytes'') \<in> set (args_header a)"
    unfolding args_header_def by (auto simp: args_defs fixed_entries_def)
  then have "\<not> (length ?c \<ge> 6 \<and> trim (take 6 ?c) = ''PCOUNT'')" using position_None[OF n] by simp
  moreover have "take 6 ?c = ''PCOUNT''"
    using take_pad_to_card[of 6 "with_comment (fmt_left 8 ''PCOUNT'' @ ''= '' @ fmt_right 20 (dec_int 0)) ''size of heap in bytes''"]
    by (simp add: card_int_def with_comment_def fmt_left_def)
  moreover have "length ?c = 80" by (simp add: card_int_def)
  ultimately show False by (simp add: trim_def trim_start_def trim_end_def is_ws_def)
qed

lemma created_written:
  assumes create: "create_compressed_image dtype dims extname extver cfg None blank = Inr (cards, stored)"
    and bits: "dtype_to_bitpix dtype = Inr (bitpix, bzero)" and tiles: "resolve_tile_shape cfg (map as_u64 dims) = Inr ts"
    and n: "length dims \<le> MAX_NAXIS" and d: "\<forall>d \<in> set dims. 0 < d \<and> d < 9223372036854775808" and ok: "config_ok cfg"
    and t: "case config_tile_shape cfg of None \<Rightarrow> True | Some ts \<Rightarrow> \<forall>t \<in> set ts. t < 2 ^ 63" and t0: "0 \<notin> set ts"
    and pw: "parse_write_context cards level (map nat dims) = Inr w"
    and gz: "gzip_lib (te_gz env)" and lru: "lru_crate ops entries"
    and F: "layout_ok s" "idx < length (fs_layout s)" "\<not> fs_tainted s"
    and hdr: "length cards \<le> header_block_count (fs_layout s ! idx) * CARDS_PER_BLOCK"
    and data: "length data = prod_list (map nat dims) * pixel_width bitpix" "length data < 2 ^ 64" and tl: "tiles_lossless env w data"
    and room: "\<forall>rows heap fb. encode_tiles env w data [0..<wc_n_tiles w] [] [] [] = Inr (rows, heap, fb) \<longrightarrow> heap_room s w heap"
  obtains cards' m st' where
    "write_compressed_image_data env ops no_faults cards level idx (map nat dims) data (s, c) = (Inr cards', st')"
    "parse_compressed_image_meta cards' = Inr m"
    "image_state env ops entries (data_offset (fs_layout (fst st') ! idx)) m (pixel_width (m_zbitpix m)) data (map nat dims) (map unat (m_tile_shape m)) st'"
    "geometry (pixel_width (m_zbitpix m)) data (map nat dims) (map unat (m_tile_shape m))"
    "map unat (m_image_shape m) = map nat dims" "m_zbitpix m = bitpix"
    "unat (m_n_tiles m) = n_tiles_of (map nat dims) (map unat (m_tile_shape m))"
proof -
  define a where "a = created cfg None bitpix bzero dims ts extname extver blank"
  have d': "\<forall>d \<in> set dims. d < 9223372036854775808" and n99: "length dims \<le> 99" using d n by (auto simp: MAX_NAXIS_def)
  note A = created_args[OF create bits tiles n99 d' ok t, simplified, folded a_def]
  have fields: "ia_quantize a = None" "ia_bitpix a = bitpix" "ia_dims a = map as_u64 dims" "ia_tiles a = ts" "ia_cfg a = cfg"
    by (simp_all add: a_def created_def)
  have un: "unat (as_u64 d) = nat d" if "d \<in> set dims" for d
    using d that by (auto simp: as_u64_def unat_eq_nat_uint uint_word_of_int_eq take_bit_int_eq_self)
  have dims: "map unat (ia_dims a) = map nat dims" using un by (simp add: fields)
  have w: "w = created_context a level" using pw context_read[OF A(1) fields(1)] unfolding A(2) dims by simp
  have zb: "bitpix \<in> {8, 16, 32, 64, - 32, - 64}" by (rule dtype_bitpix[OF bits])
  have k: "1 \<le> pixel_width bitpix" using pixel_width_cases[OF zb] by auto
  have "prod_list (map nat dims) \<le> length data" using k unfolding data(1) by simp
  then have small: "prod_list (map unat (ia_dims a)) < 2 ^ 64" using data(2) by (simp add: dims)
  have f: "ia_bitpix a < 0 \<Longrightarrow> is_gzip (ia_cfg a)"
    using create bits unfolding fields by (auto simp: create_compressed_image_def check_algorithm_def res_bind_Inr_iff split: if_splits)
  have z: "0 \<notin> set (ia_dims a)" "0 \<notin> set (ia_tiles a)" using un d t0 unfolding fields by (auto dest!: arg_cong[where f = unat])
  have L: "lossless_write w" unfolding w by (rule created_lossless[OF A(1) fields(1) f z small])
  have W: "wc_dims w = map nat dims" "wc_tile w = map unat ts" "wc_zbitpix w = bitpix"
    using dims by (simp_all add: w created_context_def fields)
  have len: "length ts = length dims" using A(1) by (simp add: args_ok_def fields)
  have g: "geometry (pixel_width bitpix) data (map nat dims) (map unat ts)"
    using k n len t0 data(1) A(1) by (auto simp: geometry_def tiled_def args_ok_def fields unat_gt_0)
  have "set [0..<wc_n_tiles w] \<subseteq> {..<wc_n_tiles w}" by auto
  from encode_tiles_ok[OF gz L _ tl this, of "[]" "[]" "[]"] g obtain rows heap fb where
    "encode_tiles env w data [0..<wc_n_tiles w] [] [] [] = Inr (rows, heap, fb)" by (auto simp: W)
  then have "heap_room s w heap" using room by blast
  then have b: "row_width w * wc_n_tiles w < 2 ^ 64" using padded_size_ge[of "row_width w * wc_n_tiles w + length heap"]
    by (simp add: heap_room_def)
  have M: "meta_matches w (expected_meta a)" unfolding w by (rule created_matches[OF A(1) fields(1) b[unfolded w]])
  have hf: "header_fits (set_pcount_in_cards cards v) (fs_layout s ! idx)" for v
    using hdr by (intro header_fits_count) (simp add: A(2) set_pcount_length[OF created_pcount])
  obtain v s' where R: "write_compressed_image_data env ops no_faults cards level idx (map nat dims) data (s, c)
      = (Inr (set_pcount_in_cards cards v), (s', cache_clear ops c))"
    "image_state env ops entries (data_offset (fs_layout s ! idx)) (expected_meta a) (pixel_width (wc_zbitpix w)) data (wc_dims w) (wc_tile w)
      (s', cache_clear ops c)"
    "fs_layout s' ! idx = fs_layout s ! idx"
    by (rule write_gives_image_state[OF gz lru F pw L _ tl M hf]) (use g room W in auto)
  have P: "parse_compressed_image_meta (set_pcount_in_cards cards v) = Inr (expected_meta a)"
    using same_meta[OF set_pcount_same] meta_read[OF A(1)] A(2) by simp
  have E: "m_zbitpix (expected_meta a) = bitpix" "m_tile_shape (expected_meta a) = ts" "map unat (m_image_shape (expected_meta a)) = map nat dims"
    "unat (m_n_tiles (expected_meta a)) = wc_n_tiles w"
    using dims by (simp_all add: expected_meta_def Let_def fields w created_context_def)
  show ?thesis
    by (rule that[OF R(1) P]) (use R(2,3) g E W L in \<open>simp_all add: lossless_write_def\<close>)
qed

end
