(* ===== verification/CompressedImage.thy ===== *)
theory CompressedImage
  imports CompressedSection
begin

text \<open>Properties of the compressed image HDU as a whole, from the creation of its header to reading its pixels.\<close>

subsection \<open>The rest of the file\<close>

definition quantizer_ok :: "tile_env \<Rightarrow> bool" where
  "quantizer_ok env \<longleftrightarrow> (\<forall>zb bs nx ny m i d idata sc z. te_quantize env zb bs nx ny m i d = Some (idata, sc, z) \<longrightarrow> length sc = 8 \<and> length z = 8)"

definition doubles :: "tile_row \<Rightarrow> bool" where
  "doubles row \<longleftrightarrow> length (row_zscale row) = 8 \<and> length (row_zzero row) = 8"

lemma encode_tile_doubles:
  "encode_tile_int env w bs i ext n heap = Inr (row, heap') \<Longrightarrow> doubles row"
  "quantizer_ok env \<Longrightarrow> encode_tile_float env w q bs i ext n heap fb = Inr (row, heap', fb') \<Longrightarrow> doubles row"
  by (auto simp: encode_tile_int_def encode_tile_float_def doubles_def f64_zero_def f64_one_def quantizer_ok_def Let_def
      res_bind_Inr_iff split: if_splits option.splits)

lemma encode_tiles_rows:
  assumes qz: "quantizer_ok env"
  shows "encode_tiles env w data idxs rows heap fb = Inr (rows', heap', fb') \<Longrightarrow> \<forall>row \<in> set rows. doubles row \<Longrightarrow>
    length rows' = length rows + length idxs \<and> (\<forall>row \<in> set rows'. doubles row)"
proof (induction idxs arbitrary: rows heap fb)
  case Nil
  then show ?case by simp
next
  case (Cons i idxs)
  obtain org ext where t: "tile_origin_and_shape i (wc_dims w) (wc_tile w) = Inr (org, ext)"
    using Cons.prems(1) by (cases "tile_origin_and_shape i (wc_dims w) (wc_tile w)") auto
  let ?tb = "tile_bytes_be env (pixel_width (wc_zbitpix w)) data (wc_dims w) org ext"
  have u: "(if length ?tb \<noteq> prod_list ext * pixel_width (wc_zbitpix w) then Inl (WrongTileBytes i)
      else case wc_quant w of
        Some q \<Rightarrow> res_bind (encode_tile_float env w q ?tb i ext (prod_list ext) heap fb)
          (\<lambda>(row, heap, fb). encode_tiles env w data idxs (rows @ [row]) heap fb)
      | None \<Rightarrow> res_bind (encode_tile_int env w ?tb i ext (prod_list ext) heap)
          (\<lambda>(row, heap). encode_tiles env w data idxs (rows @ [row]) heap fb)) = Inr (rows', heap', fb')"
    using Cons.prems(1) unfolding encode_tiles.simps t res_bind.simps prod.case Let_def .
  have "\<exists>row heap1 fb1. encode_tiles env w data idxs (rows @ [row]) heap1 fb1 = Inr (rows', heap', fb') \<and> doubles row"
  proof (cases "wc_quant w")
    case None
    then obtain x where x: "encode_tile_int env w ?tb i ext (prod_list ext) heap = Inr x"
      "(case x of (row, heap) \<Rightarrow> encode_tiles env w data idxs (rows @ [row]) heap fb) = Inr (rows', heap', fb')"
      using u unfolding None option.case by (simp only: res_bind_Inr_iff split: if_splits) blast+
    obtain row h where r: "x = (row, h)" by fastforce
    show ?thesis using encode_tile_doubles(1)[OF x(1)[unfolded r]] x(2) unfolding r prod.case by blast
  next
    case (Some q)
    then obtain x where x: "encode_tile_float env w q ?tb i ext (prod_list ext) heap fb = Inr x"
      "(case x of (row, heap, fb) \<Rightarrow> encode_tiles env w data idxs (rows @ [row]) heap fb) = Inr (rows', heap', fb')"
      using u unfolding Some option.case by (simp only: res_bind_Inr_iff split: if_splits) blast+
    obtain row h f where r: "x = (row, h, f)" by (cases x)
    show ?thesis using encode_tile_doubles(2)[OF qz x(1)[unfolded r]] x(2) unfolding r prod.case by blast
  qed
  then obtain row heap1 fb1 where "encode_tiles env w data idxs (rows @ [row]) heap1 fb1 = Inr (rows', heap', fb')" "doubles row" by blast
  note E = this
  have "\<forall>r \<in> set (rows @ [row]). doubles r" using E(2) Cons.prems(2) by simp
  from Cons.IH[OF E(1) this] show ?case by simp
qed

lemma descriptor_table_length:
  "descriptor_table q quantized rows = Inr tab \<Longrightarrow> \<forall>row \<in> set rows. doubles row \<Longrightarrow>
    length tab = (let d = descriptor_size q in if quantized then d + 8 + 8 + d else d) * length rows"
proof (induction rows arbitrary: tab)
  case Nil
  then show ?case by simp
next
  case (Cons row rows)
  have p: "push_desc q n off = Inr b \<Longrightarrow> length b = descriptor_size q" for n off b
    by (auto simp: push_desc_def descriptor_size_def split: if_splits)
  obtain b bs where b: "row_bytes_of q quantized row = Inr b" "descriptor_table q quantized rows = Inr bs" "tab = b @ bs"
    using Cons.prems(1) by (auto simp: res_bind_Inr_iff)
  have "length b = (let d = descriptor_size q in if quantized then d + 8 + 8 + d else d)"
    using b(1) p Cons.prems(2) by (auto simp: row_bytes_of_def res_bind_Inr_iff doubles_def Let_def split: if_splits)
  then show ?case using Cons.IH[OF b(2)] Cons.prems(2) b(3) by simp
qed

subsection \<open>Properties\<close>

text \<open>
  C1: an image written into a compressed HDU is read back unchanged. For an HDU created without
  quantisation, any data that the tile codecs keep (\<open>tiles_lossless\<close>), an open file whose layout is
  sound, and a heap that the descriptors can address, the write succeeds, the header it leaves
  parses, and \<open>read_compressed_image_data\<close> on the new file, through the cache the write has cleared,
  gives the bytes of the array. Encoding, descriptors, heap, growth of the file, header and
  decoding all take part.
\<close>

theorem compressed_write_then_read:
  assumes "create_compressed_image dtype dims extname extver cfg None blank = Inr (cards, stored)"
    and "dtype_to_bitpix dtype = Inr (bitpix, bzero)" and "resolve_tile_shape cfg (map as_u64 dims) = Inr ts"
    and "length dims \<le> MAX_NAXIS" and "\<forall>d \<in> set dims. 0 < d \<and> d < 9223372036854775808" and "config_ok cfg"
    and "case config_tile_shape cfg of None \<Rightarrow> True | Some ts \<Rightarrow> \<forall>t \<in> set ts. t < 2 ^ 63" and "0 \<notin> set ts"
    and "parse_write_context cards level (map nat dims) = Inr w"
    and "gzip_lib (te_gz env)" and "lru_crate ops entries"
    and "layout_ok s" and "idx < length (fs_layout s)" and "\<not> fs_tainted s"
    and "length cards \<le> header_block_count (fs_layout s ! idx) * CARDS_PER_BLOCK"
    and "length data = prod_list (map nat dims) * pixel_width bitpix" and "length data < 2 ^ 64" and "tiles_lossless env w data"
    and "\<forall>rows heap fb. encode_tiles env w data [0..<wc_n_tiles w] [] [] [] = Inr (rows, heap, fb) \<longrightarrow> heap_room s w heap"
  shows "\<exists>cards' m st'. write_compressed_image_data env ops no_faults cards level idx (map nat dims) data (s, c) = (Inr cards', st') \<and>
    parse_compressed_image_meta cards' = Inr m \<and>
    fst (read_compressed_image_data (get_or_decode_tile env ops no_faults (data_offset (fs_layout (fst st') ! idx)) m) (pixel_width (m_zbitpix m))
      (map unat (m_image_shape m)) (map unat (m_tile_shape m)) (unat (m_n_tiles m)) st') = Inr data"
proof -
  obtain cards' m st' where W:
    "write_compressed_image_data env ops no_faults cards level idx (map nat dims) data (s, c) = (Inr cards', st')"
    "parse_compressed_image_meta cards' = Inr m"
    "image_state env ops entries (data_offset (fs_layout (fst st') ! idx)) m (pixel_width (m_zbitpix m)) data (map nat dims) (map unat (m_tile_shape m)) st'"
    "geometry (pixel_width (m_zbitpix m)) data (map nat dims) (map unat (m_tile_shape m))" "map unat (m_image_shape m) = map nat dims"
    "unat (m_n_tiles m) = n_tiles_of (map nat dims) (map unat (m_tile_shape m))"
    by (rule created_written[OF assms])
  have "\<exists>s'. read_compressed_image_data (get_or_decode_tile env ops no_faults (data_offset (fs_layout (fst st') ! idx)) m) (pixel_width (m_zbitpix m))
      (map unat (m_image_shape m)) (map unat (m_tile_shape m)) (unat (m_n_tiles m)) st' = (Inr data, s')"
    unfolding W(5,6) using image_tiles.read_image_ok[OF W(4,3)] by blast
  then show ?thesis using W(1,2) by (metis fst_conv)
qed

subsection \<open>A small image\<close>

definition example_env :: tile_env where
  "example_env = \<lparr>te_gz = stored_gz, te_big = False,
     te_dequantize = \<lambda>_ _ _ _ _ _ _. Inr [], te_quantize = \<lambda>_ _ _ _ _ _ _. None\<rparr>"

definition example_config :: compression_config where
  "example_config = CGzip1 \<lparr>g1_tile_shape = None, g1_heap_format = CHR ''P'', g1_level = None\<rparr>"

definition example_file :: file_state where
  "example_file = \<lparr>fs_bytes = replicate 2880 32, fs_pos = 0, fs_ops = 0, fs_tainted = False,
     fs_layout = [\<lparr>header_offset = 0, header_block_count = 1, data_offset = 2880\<rparr>]\<rparr>"

lemma example_created:
  obtains cards stored where "create_compressed_image ''i2'' [2] None None example_config None None = Inr (cards, stored)"
    "cards = args_header (created example_config None 16 None [2] [2] None None None)"
    "resolve_tile_shape example_config (map as_u64 [2]) = Inr [2]" "config_ok example_config"
proof -
  have t: "resolve_tile_shape example_config (map as_u64 [2]) = Inr [2]"
    by (simp add: example_config_def resolve_tile_shape_def Let_def as_u64_def)
  have k: "config_ok example_config" by (simp add: example_config_def config_ok_def)
  obtain cards stored where c: "create_compressed_image ''i2'' [2] None None example_config None None = Inr (cards, stored)"
    by (simp add: create_compressed_image_def i2_bitpix check_algorithm_def example_config_def resolve_tile_shape_def Let_def is_gzip_def)
  have "cards = args_header (created example_config None 16 None [2] [2] None None None)"
    by (rule created_args(2)[OF c i2_bitpix t]) (use k in \<open>simp_all add: example_config_def\<close>)
  then show ?thesis using that c t k by blast
qed


lemma example_gz: "te_gz example_env = stored_gz" "gz_encode stored_gz level bs = Inr (0x1F # 0x8B # bs)"
  by (simp_all add: example_env_def stored_gz_def)

definition example_context :: write_context where
  "example_context = created_context (created example_config None 16 None [2] [2] None None None) None"

lemma example_context_fields:
  "wc_algorithm example_context = AlgGzip1" "wc_zbitpix example_context = 16" "wc_dims example_context = [2]" "wc_tile example_context = [2]"
  "wc_n_tiles example_context = 1" "wc_heap_is_q example_context = False" "wc_inner example_context = 1" "wc_bytepix example_context = 2"
  "wc_gzip_level example_context = None" "wc_quant example_context = None"
  by (simp_all add: example_context_def created_context_def created_def example_config_def algorithm_of_def as_u64_def compute_n_tiles_def
      word_div_ceil_def saturating_mul_def div_ceil_def is_plio_def pixel_width_def)

lemma example_tile:
  "extent_at [2] [2] 0 = [2]" "to_native False 2 (tile_pixels 2 [1, 2, 3, 4] [2] [2] 0) = [2, 1, 4, 3]"
  "tile_origin_and_shape 0 [2] [2] = Inr ([0], [2])" "tile_bytes_be example_env 2 [1, 2, 3, 4] [2] [0] [2] = [2, 1, 4, 3]"
  by (simp_all add: extent_at_def origin_at_def tile_origin_def tile_extent_def tile_counts_def div_ceil_def tile_pixels_def tile_bytes_be_def
      read_reference_def box_slices_def source_pixel_def sel_def pixel_def example_env_def to_native_eq rev_chunks.simps[of 2] tile_origin_and_shape_def MAX_NAXIS_def
      unfold_index_def upt_rec)

lemma example_lossless: "tiles_lossless example_env example_context [1, 2, 3, 4]"
  by (simp add: tiles_lossless_def example_context_fields example_tile pixel_width_def tile_lossless_def example_env_def)

lemma example_encoded: "encode_tiles example_env example_context [1, 2, 3, 4] [0..<wc_n_tiles example_context] [] [] []
    = Inr ([\<lparr>primary_nelem = 6, primary_off = 0, row_zscale = f64_zero, row_zzero = f64_zero, fallback_nelem = 0, fallback_off = 0\<rparr>],
        [0x1F, 0x8B, 2, 1, 4, 3], [])"
  by (simp add: example_context_fields example_tile pixel_width_def encode_tile_int_def encode_tile_from_bytes_def encode_gzip1_def
      gzip_compress_def codec_result_def encode_params_def example_gz)


lemma example_args: "args_ok (created example_config None 16 None [2] [2] None None None)"
  by (simp add: args_ok_def created_def created_zblank_def as_u64_def config_ok_def example_config_def)

lemma example_parsed:
  "parse_write_context (args_header (created example_config None 16 None [2] [2] None None None)) None (map nat [2]) = Inr example_context"
proof -
  let ?a = "created example_config None 16 None [2] [2] None None None"
  have "ia_quantize ?a = None" "map unat (ia_dims ?a) = map nat [2]" by (simp_all add: created_def as_u64_def)
  then show ?thesis using context_read[OF example_args, of None] by (simp add: example_context_def)
qed

lemma example_room:
  "\<forall>rows heap fb. encode_tiles example_env example_context [1, 2, 3, 4] [0..<wc_n_tiles example_context] [] [] [] = Inr (rows, heap, fb)
    \<longrightarrow> heap_room example_file example_context heap"
  unfolding example_encoded
  by (simp add: heap_room_def example_context_fields example_file_def row_width_def descriptor_size_def padded_size_def div_ceil_def BLOCK_SIZE_def)

lemma example_fits:
  "length (args_header (created example_config None 16 None [2] [2] None None None)) \<le> header_block_count (fs_layout example_file ! 0) * CARDS_PER_BLOCK"
  by (simp add: args_header_def args_defs created_def example_config_def fixed_entries_def axis_entries_def quantize_entries_def
      param_entries_def tail_entries_def created_zblank_def example_file_def fits_sizes)

theorem compressed_write_then_read_witness:
  "\<exists>cards stored cards' m st'. create_compressed_image ''i2'' [2] None None example_config None None = Inr (cards, stored) \<and>
    write_compressed_image_data example_env list_lru no_faults cards None 0 [2] [1, 2, 3, 4] (example_file, cache_new list_lru 10) = (Inr cards', st') \<and>
    parse_compressed_image_meta cards' = Inr m \<and>
    fst (read_compressed_image_data (get_or_decode_tile example_env list_lru no_faults (data_offset (fs_layout (fst st') ! 0)) m) (pixel_width (m_zbitpix m))
      (map unat (m_image_shape m)) (map unat (m_tile_shape m)) (unat (m_n_tiles m)) st') = Inr [1, 2, 3, 4]"
proof -
  obtain cards stored where C: "create_compressed_image ''i2'' [2] None None example_config None None = Inr (cards, stored)"
    "cards = args_header (created example_config None 16 None [2] [2] None None None)"
    "resolve_tile_shape example_config (map as_u64 [2]) = Inr [2]" "config_ok example_config" by (rule example_created)
  have "\<exists>cards' m st'. write_compressed_image_data example_env list_lru no_faults cards None 0 (map nat [2]) [1, 2, 3, 4] (example_file, cache_new list_lru 10)
      = (Inr cards', st') \<and> parse_compressed_image_meta cards' = Inr m \<and>
    fst (read_compressed_image_data (get_or_decode_tile example_env list_lru no_faults (data_offset (fs_layout (fst st') ! 0)) m) (pixel_width (m_zbitpix m))
      (map unat (m_image_shape m)) (map unat (m_tile_shape m)) (unat (m_n_tiles m)) st') = Inr [1, 2, 3, 4]"
    by (rule compressed_write_then_read[OF C(1) i2_bitpix C(3) _ _ C(4) _ _ example_parsed[folded C(2)] _ list_lru.lru_crate_axioms _ _ _
        example_fits[folded C(2)] _ _ example_lossless example_room])
      (simp_all add: MAX_NAXIS_def example_config_def example_gz stored_gz.gzip_lib_axioms layout_ok_def example_file_def BLOCK_SIZE_def pixel_width_def)
  then show ?thesis using C(1) by auto
qed

text \<open>
  C2: every index of a compressed image reads what the same index selects in the written array:
  after the write, \<open>slice_compressed_image\<close> returns the reference selection for any key that
  \<open>normalize_slice_key\<close> accepts, on the fast path (all steps one) and on the general path, whatever
  the uninitialised output buffer held.
\<close>

theorem compressed_write_then_slice:
  assumes "create_compressed_image dtype dims extname extver cfg None blank = Inr (cards, stored)"
    and "dtype_to_bitpix dtype = Inr (bitpix, bzero)" and "resolve_tile_shape cfg (map as_u64 dims) = Inr ts"
    and "length dims \<le> MAX_NAXIS" and "\<forall>d \<in> set dims. 0 < d \<and> d < 9223372036854775808" and "config_ok cfg"
    and "case config_tile_shape cfg of None \<Rightarrow> True | Some ts \<Rightarrow> \<forall>t \<in> set ts. t < 2 ^ 63" and "0 \<notin> set ts"
    and "parse_write_context cards level (map nat dims) = Inr w"
    and "gzip_lib (te_gz env)" and "lru_crate ops entries"
    and "layout_ok s" and "idx < length (fs_layout s)" and "\<not> fs_tainted s"
    and "length cards \<le> header_block_count (fs_layout s ! idx) * CARDS_PER_BLOCK"
    and "length data = prod_list (map nat dims) * pixel_width bitpix" and "length data < 2 ^ 64" and "tiles_lossless env w data"
    and "\<forall>rows heap fb. encode_tiles env w data [0..<wc_n_tiles w] [] [] [] = Inr (rows, heap, fb) \<longrightarrow> heap_room s w heap"
    and key: "normalize_slice_key key (map nat dims) = Inr slices" and out: "length (np_empty slices) = prod_list (output_shape slices) * pixel_width bitpix"
  shows "\<exists>cards' m st'. write_compressed_image_data env ops no_faults cards level idx (map nat dims) data (s, c) = (Inr cards', st') \<and>
    parse_compressed_image_meta cards' = Inr m \<and>
    fst (slice_compressed_image (get_or_decode_tile env ops no_faults (data_offset (fs_layout (fst st') ! idx)) m) (pixel_width (m_zbitpix m))
      (map unat (m_image_shape m)) (map unat (m_tile_shape m)) (unat (m_n_tiles m)) key np_empty st')
      = Inr (read_reference (pixel_width bitpix) data 0 (map nat dims) slices)"
proof -
  obtain cards' m st' where W:
    "write_compressed_image_data env ops no_faults cards level idx (map nat dims) data (s, c) = (Inr cards', st')"
    "parse_compressed_image_meta cards' = Inr m"
    "image_state env ops entries (data_offset (fs_layout (fst st') ! idx)) m (pixel_width (m_zbitpix m)) data (map nat dims) (map unat (m_tile_shape m)) st'"
    "geometry (pixel_width (m_zbitpix m)) data (map nat dims) (map unat (m_tile_shape m))" "map unat (m_image_shape m) = map nat dims"
    "m_zbitpix m = bitpix" "unat (m_n_tiles m) = n_tiles_of (map nat dims) (map unat (m_tile_shape m))"
    by (rule created_written[OF assms(1-19)])
  have "\<exists>s'. slice_compressed_image (get_or_decode_tile env ops no_faults (data_offset (fs_layout (fst st') ! idx)) m) (pixel_width (m_zbitpix m))
      (map unat (m_image_shape m)) (map unat (m_tile_shape m)) (unat (m_n_tiles m)) key np_empty st'
      = (Inr (read_reference (pixel_width bitpix) data 0 (map nat dims) slices), s')"
    unfolding W(5,7) using image_tiles.slice_image_ok[OF W(4) key W(3), of np_empty] out unfolding W(6) by blast
  then show ?thesis using W(1,2) by (metis fst_conv)
qed

theorem compressed_write_then_slice_witness:
  "\<exists>cards stored cards' m st'. create_compressed_image ''i2'' [2] None None example_config None None = Inr (cards, stored) \<and>
    write_compressed_image_data example_env list_lru no_faults cards None 0 [2] [1, 2, 3, 4] (example_file, cache_new list_lru 10) = (Inr cards', st') \<and>
    parse_compressed_image_meta cards' = Inr m \<and>
    fst (slice_compressed_image (get_or_decode_tile example_env list_lru no_faults (data_offset (fs_layout (fst st') ! 0)) m) (pixel_width (m_zbitpix m))
      (map unat (m_image_shape m)) (map unat (m_tile_shape m)) (unat (m_n_tiles m)) [KInt (- 1)] (\<lambda>_. [0, 0]) st') = Inr [3, 4]"
proof -
  obtain cards stored where C: "create_compressed_image ''i2'' [2] None None example_config None None = Inr (cards, stored)"
    "cards = args_header (created example_config None 16 None [2] [2] None None None)"
    "resolve_tile_shape example_config (map as_u64 [2]) = Inr [2]" "config_ok example_config" by (rule example_created)
  let ?sl = "[\<lparr>sl_start = 1, sl_step = 1, sl_count = 1, sl_is_int = True\<rparr>]"
  have n: "normalize_slice_key [KInt (- 1)] (map nat [2]) = Inr ?sl"
    by (simp add: normalize_slice_key_def parse_axis_indexer_def is_ellipsis_def)
  have r: "read_reference 2 [1, 2, 3, 4] 0 [2] ?sl = [3, 4]"
    by (simp add: read_reference_def source_pixel_def sel_def pixel_def)
  have "\<exists>cards' m st'. write_compressed_image_data example_env list_lru no_faults cards None 0 (map nat [2]) [1, 2, 3, 4] (example_file, cache_new list_lru 10)
      = (Inr cards', st') \<and> parse_compressed_image_meta cards' = Inr m \<and>
    fst (slice_compressed_image (get_or_decode_tile example_env list_lru no_faults (data_offset (fs_layout (fst st') ! 0)) m) (pixel_width (m_zbitpix m))
      (map unat (m_image_shape m)) (map unat (m_tile_shape m)) (unat (m_n_tiles m)) [KInt (- 1)] (\<lambda>_. [0, 0]) st')
      = Inr (read_reference (pixel_width 16) [1, 2, 3, 4] 0 (map nat [2]) ?sl)"
    by (rule compressed_write_then_slice[OF C(1) i2_bitpix C(3) _ _ C(4) _ _ example_parsed[folded C(2)] _ list_lru.lru_crate_axioms _ _ _
        example_fits[folded C(2)] _ _ example_lossless example_room n])
      (simp_all add: MAX_NAXIS_def example_config_def example_gz stored_gz.gzip_lib_axioms layout_ok_def example_file_def BLOCK_SIZE_def pixel_width_def output_shape_def)
  then show ?thesis using C(1) r by (auto simp: pixel_width_def)
qed

text \<open>
  C3: a successful write of a compressed image, quantised or not, changes nothing outside its HDU:
  the bytes before its header stay, the bytes from the next HDU on stay and their offsets move by
  the growth of the file, and the header that is on disk is the one that is returned.
\<close>

theorem compressed_write_keeps_other_hdus:
  assumes "layout_ok s" and "idx < length (fs_layout s)" and "\<forall>v. header_fits (set_pcount_in_cards cards v) (fs_layout s ! idx)"
    and "quantizer_ok env"
    and run: "write_compressed_image_data env ops no_faults cards level idx in_shape data (s, c) = (Inr cards', (s', c'))"
  shows "let h = fs_layout s ! idx; e = hdu_end s idx; delta = length (fs_bytes s') - length (fs_bytes s); hdr = serialize_header_to_disk_bytes cards'
    in fs_layout s' = bump_offsets e delta (fs_layout s) \<and> take (header_offset h) (fs_bytes s') = take (header_offset h) (fs_bytes s) \<and>
       take (length hdr) (drop (header_offset h) (fs_bytes s')) = hdr \<and> drop (e + delta) (fs_bytes s') = drop e (fs_bytes s)"
proof -
  obtain w rows heap fb where P: "res_bind (parse_write_context cards level in_shape)
      (\<lambda>w. res_bind (encode_tiles env w data [0..<wc_n_tiles w] [] [] []) (\<lambda>enc. Inr (w, enc))) = Inr (w, rows, heap, fb)"
    and W: "write_encoded no_faults w cards idx (rows, heap, fb) s = (Inr cards', s')"
    using run by (auto simp: write_compressed_image_data_def split: if_splits sum.splits prod.splits)
  have enc: "encode_tiles env w data [0..<wc_n_tiles w] [] [] [] = Inr (rows, heap, fb)" using P by (auto simp: res_bind_Inr_iff)
  let ?rows = "map (bump_fallback (length heap)) rows"
  have R: "length rows = wc_n_tiles w" "\<forall>row \<in> set rows. doubles row" using encode_tiles_rows[OF assms(4) enc] by simp_all
  have "\<forall>row \<in> set ?rows. doubles row" using R(2) by (auto simp: bump_fallback_def doubles_def)
  note L = descriptor_table_length[OF _ this]
  obtain tab where tab: "descriptor_table (wc_heap_is_q w) (wc_quant w \<noteq> None) ?rows = Inr tab"
  proof (cases "descriptor_table (wc_heap_is_q w) (wc_quant w \<noteq> None) ?rows")
    case (Inl e)
    then show ?thesis using W
      by (auto simp: write_encoded_def write_data_section_def tio_bind_def lift_io_def Let_def split: sum.splits prod.splits)
  qed (rule that)
  have len: "length tab = row_width w * wc_n_tiles w" using L[OF tab] R(1) by (simp add: row_width_def)
  obtain s1 where S: "write_encoded no_faults w cards idx (rows, heap, fb) s
      = (Inr (set_pcount_in_cards cards (sint (of_nat (length heap + length fb) :: 64 word))), s1)"
    "section_written s s1 idx (set_pcount_in_cards cards (sint (of_nat (length heap + length fb) :: 64 word))) (tab @ heap @ fb)
      (padded_size (length (tab @ heap @ fb)) - (hdu_end s idx - data_offset (fs_layout s ! idx)))"
    by (rule write_encoded_ok[OF assms(1,2) tab len assms(3)[rule_format]])
  have "s1 = s'" "cards' = set_pcount_in_cards cards (sint (of_nat (length heap + length fb) :: 64 word))" using W S(1) by simp_all
  then show ?thesis using S(2) by (simp add: section_written_def Let_def)
qed

theorem compressed_write_keeps_other_hdus_witness:
  "\<exists>cards' s' c'. write_compressed_image_data example_env list_lru no_faults
       (args_header (created example_config None 16 None [2] [2] None None None)) None 0 [2] [1, 2, 3, 4] (example_file, cache_new list_lru 10)
     = (Inr cards', (s', c')) \<and> take (length (serialize_header_to_disk_bytes cards')) (fs_bytes s') = serialize_header_to_disk_bytes cards'"
proof -
  let ?cards = "args_header (created example_config None 16 None [2] [2] None None None)"
  obtain cards stored where C: "create_compressed_image ''i2'' [2] None None example_config None None = Inr (cards, stored)" "cards = ?cards"
    "resolve_tile_shape example_config (map as_u64 [2]) = Inr [2]" "config_ok example_config" by (rule example_created)
  have F: "layout_ok example_file" "0 < length (fs_layout example_file)" "\<not> fs_tainted example_file"
    by (simp_all add: layout_ok_def example_file_def BLOCK_SIZE_def)
  have h: "\<forall>v. header_fits (set_pcount_in_cards ?cards v) (fs_layout example_file ! 0)"
    using example_fits by (auto intro!: header_fits_count simp: set_pcount_length[OF created_pcount])
  have q: "quantizer_ok example_env" by (simp add: quantizer_ok_def example_env_def)
  obtain cards' m st' where W: "write_compressed_image_data example_env list_lru no_faults ?cards None 0 (map nat [2]) [1, 2, 3, 4]
      (example_file, cache_new list_lru 10) = (Inr cards', st')"
    by (rule created_written[OF C(1) i2_bitpix C(3) _ _ C(4) _ _ example_parsed[folded C(2)] _ list_lru.lru_crate_axioms F
        example_fits[folded C(2)] _ _ example_lossless example_room, where c = "cache_new list_lru 10"])
      (use C(2) in \<open>simp_all add: MAX_NAXIS_def example_config_def example_gz stored_gz.gzip_lib_axioms pixel_width_def\<close>)
  obtain s' c' where st: "st' = (s', c')" by (cases st')
  note K = compressed_write_keeps_other_hdus[OF F(1,2) h q W[unfolded st]]
  show ?thesis using K W st by (simp add: Let_def example_file_def)
qed

end
