(* ===== verification/Spec2Isabelle.thy ===== *)
theory Spec2Isabelle
  imports HduChecksum TileCache Gzip Plio Rice HcompressProps CompressedImage
begin

text \<open>
  A verification library for \<open>rustfits\<close>, a FITS reader and writer in Rust with a Python interface
  (\<open>src/src\<close> in the repository). The library models the layers that decide which bytes
  stand in a file and which pixels are read from it: header cards, checksums, the file with its
  table of HDU offsets, images, and tile-compressed images with their codecs.

  \<^bold>\<open>The program.\<close> A FITS file is a sequence of HDUs, each a header of 80-byte cards in blocks of
  2880 bytes and a data section padded to such blocks. \<open>common.rs\<close> keeps the open file, the
  offsets of its HDUs and a flag that marks a file damaged by a failed write (\<open>taint\<close>);
  \<open>header.rs\<close> rewrites headers and moves what follows them; \<open>hdu_image.rs\<close> reads and writes boxes
  of pixels; \<open>checksum.rs\<close> computes and verifies DATASUM and CHECKSUM. A compressed image is a
  binary table with one row per tile: the row holds a descriptor (length and offset) of the
  compressed bytes in the heap behind the table. \<open>zimage/\<close> holds the codecs and their
  configuration, \<open>hdu_image_compressed/\<close> the reader, the writer, and the parser of the Z keywords,
  and \<open>cache.rs\<close> the cache of decoded tiles between them.

  \<^bold>\<open>Theories and the code they model.\<close>
  \<^item> \<open>Prelude\<close>: machine words, fallible results (\<open>res_bind\<close>, error on the left), byte and bit strings.
    \<open>FitsText\<close>: the text functions of the standard library the header code uses.
  \<^item> \<open>HeaderCards\<close> (\<open>header.rs\<close>, \<open>common.rs\<close>): card builders, keyword lookup, serialisation of a header.
    \<open>HeaderLookup\<close>: a header of distinct keywords is a map, for every lookup of the code.
  \<^item> \<open>Checksum\<close>, \<open>ChecksumAscii\<close>, \<open>HduChecksum\<close> (\<open>checksum.rs\<close>, the \<open>checksum_hdu_*\<close> functions of
    \<open>hdu_image.rs\<close>): the 32-bit sum, its streaming form, its 16-character text, and the two cards.
  \<^item> \<open>FileStore\<close> (\<open>common.rs\<close>, \<open>header.rs\<close>): the record \<open>file_state\<close> (bytes, cursor, taint flag, HDU
    offsets) and the operations that shift, fill, grow, copy and rewrite. Every storage call is given
    a fault plan, so each error branch of the code is a branch of the model.
  \<^item> \<open>NdIndex\<close>, \<open>ImageSlices\<close> (\<open>hdu_image.rs\<close>): row-major indexing, Python index keys, the strips of a
    box, reading and writing them.
  \<^item> \<open>Pixels\<close>: errors of the codecs, byte order, buffers filled by indexed writes, and the locale
    \<open>tile_codec\<close>. \<open>Gzip\<close>, \<open>Plio\<close>, \<open>RiceBits\<close>, \<open>Rice\<close> (\<open>zimage/gzip.rs\<close>, \<open>plio.rs\<close>, \<open>rice.rs\<close>): the codecs.
    \<open>TileDispatch\<close> (\<open>zimage/mod.rs\<close>): the choice among them.
  \<^item> The H-compress codec (\<open>zimage/hcompress.rs\<close>). \<open>Grid\<close>: a region of an array walked by its 2 by 2 blocks, its rows
    or its columns. \<open>HTransform\<close>: \<open>htrans\<close>, \<open>hinv\<close>, \<open>hsmooth\<close> and the scaling of the coefficients; \<open>HLevels\<close>: each pass of the one
    undoes the pass of the other. \<open>HBits\<close>: the bit reader \<open>HState\<close>, the bit writer \<open>HWriter\<close>, the
    Huffman code. \<open>Quadtree\<close>, \<open>QuadtreeBits\<close>: coding a bit plane of a quadrant, and the bits the stream has for it.
    \<open>Hcompress\<close>, \<open>HcompressRoundtrip\<close>, \<open>HcompressProps\<close>: quadrants, signs, the head of the stream and
    the entry points; the whole round trip; the properties.
  \<^item> \<open>CompressionConfig\<close> (\<open>zimage/compression_config.rs\<close>): the configuration objects and their checks.
  \<^item> \<open>ZImageHeader\<close> (\<open>hdu_image_compressed/meta.rs\<close>), \<open>ZImageCreate\<close> (\<open>fits.rs\<close>), \<open>ZImageRoundtrip\<close>: parsing
    the header of a compressed image, building it, and the one after the other.
  \<^item> \<open>TileGeometry\<close>, \<open>TilePayload\<close>, \<open>TileReading\<close> (\<open>hdu_image_compressed/read.rs\<close>): the grid of tiles, the
    descriptors and the heap, decoding a tile, whole-image reads and index reads.
  \<^item> \<open>ZImageWrite\<close>, \<open>TileEncoding\<close>, \<open>CompressedSection\<close> (\<open>hdu_image_compressed/write.rs\<close>): the bulk write,
    what it puts in the heap, and the file after it.
  \<^item> \<open>CompressedImage\<close>: create, write and read together.
  \<^item> \<open>TileCache\<close> (\<open>cache.rs\<close>): the cache with its byte budget, and reading through it.

  A Rust struct is a record with the same fields, an enum a datatype, \<open>uN\<close> and \<open>iN\<close> values are
  words wherever they can wrap, \<open>usize\<close> indices are natural numbers, \<open>PyResult\<close> is a sum, and a panic
  is the error \<open>Panic\<close>. Loops are recursive functions; the loop that may not end (the
  adjustment of the checksum text) is a \<open>partial_function\<close>, and that it ends is proved.

  \<^bold>\<open>Interfaces.\<close> The locale \<open>tile_codec\<close> says what a tile codec promises: an encoded tile decodes to
  its pixels in host order. Each codec interprets it, \<open>gzip_lib\<close> states what the \<open>flate2\<close> crate is
  documented to do, and the dispatch is again a \<open>tile_codec\<close>, on the tiles its algorithm restores. \<open>lru_crate\<close>
  is the same for the map behind the cache, and \<open>tile_source\<close> what the reader needs of a supplier of
  decoded tiles, which the cached and the plain supplier both are. \<open>local_pass\<close> is what the passes of the
  H-transform share, steps that each read and write cells no other step touches: blocks, rows and columns interpret it.

  \<^bold>\<open>What is proved.\<close> For the whole compressed image: what is written is read back, whole or by
  an index, and the write leaves every other HDU as it was. Below it: the codecs restore
  every tile they accept, with the tiles they do not restore described exactly; the decoders return an error or
  the requested number of pixels on every input, H-compress with the exception of streams that declare a side of 1; the tiles partition the image; the header of a new image
  parses to the values it was made from. For the file: shifting, growing and rewriting keep the
  layout invariant and all other content, and a fault sets the taint flag or has changed nothing, with the
  exceptions named in the properties. For images: the strip by strip read equals its reference, and a
  write changes its box only. For checksums: the code's sum is the ones'-complement sum
  where its half sums do not overflow, both cards verify after they were added, and a changed byte is found.

  \<^bold>\<open>Bounds.\<close> A piece of at most 262144 bytes cannot overflow the half sums. A RICE block of at most
  409 pixels never needs a unary run over the decoder's limit of 1024; the mean of a block is
  computed in \<open>f64\<close> by the code and in integers here, which is the same up to \<open>2 ^ 20\<close> pixels in a block.
  At most 999 numbered Z parameters and 8 axes are read, as in the code (\<open>z_pairs\<close>, \<open>MAX_NAXIS\<close>). Each pass of the H-transform, one per halving of the
  longer side, doubles the range of the coefficients (\<open>room\<close>), so no sum overflows for 8-bit tiles with sides up to \<open>2 ^ 19\<close>,
  16-bit tiles up to \<open>2 ^ 12\<close> and 32-bit tiles up to \<open>2 ^ 28\<close>; \<open>log2n_of\<close> is the integer form of the
  rounded logarithm of the code. Pieces are
  moved and written 1 MiB at a time (\<open>MOVE_CHUNK\<close>, \<open>MAX_CHUNK_BYTES\<close>).

  \<^bold>\<open>Not modelled.\<close> The Python objects, their locks and the numpy conversions around the operations; floating-point
  arithmetic (BSCALE and BZERO scaling, masked values, the quantiser, which is a parameter where
  the code calls it); the extension, item assignment and repacking
  of compressed images; binary and ASCII tables; remote files.
\<close>

end
